(* ===== verification/Dot_Prelude.thy ===== *)
theory Dot_Prelude
  imports Main "HOL-Library.Monad_Syntax" "HOL-Library.Finite_Map" "HOL-Library.Word"
begin

text \<open>
  The vocabulary every component of the development shares.

  \<^item> Go's slice expression \<open>xs[i:j]\<close> on strings and slices, with the run-time panic for an
    index out of range as the value \<open>None\<close>.
  \<^item> Lists read by an integer index (\<open>at\<close>), and the two list transformers that the
    Splice and Move changes stand for, together with the lemmas that say which element of the
    old list each position of the new list holds. The merge proofs of the changes component
    rest on these lemmas alone.
  \<^item> Small facts about the option type, which carries panics everywhere.

  A Go \<open>int\<close> is an unbounded \<open>int\<close> here: offsets and counts are bounded by the length
  of a collection that is held in memory. Where the width of an integer shows, as in the
  32-bit counter, the model uses a word type.
\<close>

named_theorems list_at \<open>what each index of a transformed list holds\<close>
named_theorems go_defs \<open>definitions of the Go primitives\<close>

section \<open>Options as possibly panicking results\<close>

lemma bind_Some_ex:
  "(m \<bind> f = Some y) \<longleftrightarrow> (\<exists>x. m = Some x \<and> f x = Some y)"
  by (cases m) auto

lemma option_eq_iff: "(\<And>y. a = Some y \<longleftrightarrow> b = Some y) \<Longrightarrow> a = b"
  by (cases a; cases b) auto

text \<open>A loop that updates a state and may panic.\<close>

fun foldM :: "('s \<Rightarrow> 'c \<Rightarrow> 's option) \<Rightarrow> 's \<Rightarrow> 'c list \<Rightarrow> 's option" where
  "foldM f s [] = Some s"
| "foldM f s (c # cs) = do { s \<leftarrow> f s c; foldM f s cs }"

lemma foldM_cong [fundef_cong]:
  assumes "s = s'" "cs = cs'" and "\<And>t c. c \<in> set cs' \<Longrightarrow> f t c = g t c"
  shows "foldM f s cs = foldM g s' cs'"
  using assms(3) unfolding assms(1,2)
  by (induction g s' cs' rule: foldM.induct) (auto intro!: Option.bind_cong)

lemma foldM_append: "foldM f s (xs @ ys) = foldM f s xs \<bind> (\<lambda>t. foldM f t ys)"
  by (induction xs arbitrary: s) (auto simp: Option.bind_assoc)

section \<open>Go slice expressions\<close>

definition goslice :: "'a list \<Rightarrow> int \<Rightarrow> int \<Rightarrow> 'a list option" where
  "goslice xs i j =
     (if 0 \<le> i \<and> i \<le> j \<and> j \<le> int (length xs)
      then Some (take (nat (j - i)) (drop (nat i) xs)) else None)"

declare goslice_def [go_defs]

lemma goslice_Some_iff:
  "goslice xs i j = Some ys \<longleftrightarrow>
     0 \<le> i \<and> i \<le> j \<and> j \<le> int (length xs) \<and> ys = take (nat (j - i)) (drop (nat i) xs)"
  by (auto simp: goslice_def)

lemma goslice_length: "goslice xs i j = Some ys \<Longrightarrow> int (length ys) = j - i"
  by (auto simp: goslice_Some_iff nat_le_iff)

section \<open>Lists by integer index\<close>

definition at :: "'a list \<Rightarrow> int \<Rightarrow> 'a" where
  "at xs i = xs ! nat i"

lemma list_eq_at:
  assumes "length xs = length ys"
    and "\<And>i. 0 \<le> i \<Longrightarrow> i < int (length xs) \<Longrightarrow> at xs i = at ys i"
  shows "xs = ys"
proof (rule nth_equalityI)
  fix k assume "k < length xs"
  then show "xs ! k = ys ! k" using assms(2) [of "int k"] by (simp add: at_def)
qed (rule assms(1))

definition slice_list :: "int \<Rightarrow> int \<Rightarrow> 'a list \<Rightarrow> 'a list" where
  "slice_list off cnt xs = take (nat cnt) (drop (nat off) xs)"

definition splice_list :: "int \<Rightarrow> int \<Rightarrow> 'a list \<Rightarrow> 'a list \<Rightarrow> 'a list" where
  "splice_list off cnt ins xs = take (nat off) xs @ ins @ drop (nat (off + cnt)) xs"

definition in_range :: "int \<Rightarrow> int \<Rightarrow> int \<Rightarrow> bool" where
  "in_range off cnt n \<longleftrightarrow> 0 \<le> off \<and> 0 \<le> cnt \<and> off + cnt \<le> n"

lemma length_slice_list [simp]:
  "in_range off cnt (int (length xs)) \<Longrightarrow> int (length (slice_list off cnt xs)) = cnt"
  by (auto simp: slice_list_def in_range_def nat_le_iff)

lemma length_splice_list [simp]:
  "in_range off cnt (int (length xs)) \<Longrightarrow>
     int (length (splice_list off cnt ins xs)) = int (length xs) - cnt + int (length ins)"
  by (auto simp: splice_list_def in_range_def nat_le_iff)

lemma at_slice_list [list_at]:
  "in_range off cnt (int (length xs)) \<Longrightarrow> 0 \<le> i \<Longrightarrow> i < cnt \<Longrightarrow>
     at (slice_list off cnt xs) i = at xs (off + i)"
  by (auto simp: at_def slice_list_def in_range_def nat_add_distrib)

lemma at_splice_list [list_at]:
  assumes "in_range off cnt (int (length xs))"
    and "0 \<le> i" and "i < int (length xs) - cnt + int (length ins)"
  shows "at (splice_list off cnt ins xs) i =
    (if i < off then at xs i
     else if i < off + int (length ins) then at ins (i - off)
     else at xs (i - int (length ins) + cnt))"
proof -
  have off: "nat off \<le> length xs" and le: "0 \<le> off" "0 \<le> cnt"
    using assms(1) by (auto simp: in_range_def)
  have cnt: "nat (off + cnt) \<le> length xs" using assms(1) by (auto simp: in_range_def)
  consider (left) "i < off" | (mid) "off \<le> i" "i < off + int (length ins)"
    | (right) "off + int (length ins) \<le> i" by linarith
  then show ?thesis
  proof cases
    case left
    then show ?thesis using assms(2) off
      by (simp add: at_def splice_list_def nth_append nat_less_iff)
  next
    case mid
    have "nat i - nat off = nat (i - off)" using mid le by linarith
    then show ?thesis using mid le off
      by (simp add: at_def splice_list_def nth_append nat_less_iff min_absorb2)
  next
    case right
    define k where "k = nat i - nat off - length ins"
    have k: "nat (off + cnt) + k = nat (i - int (length ins) + cnt)"
      using right le unfolding k_def by linarith
    have "nat i = length (take (nat off) xs @ ins) + k"
      using right le off unfolding k_def by simp
    then have "splice_list off cnt ins xs ! nat i = drop (nat (off + cnt)) xs ! k"
      unfolding splice_list_def by (metis append_assoc nth_append_length_plus)
    also have "\<dots> = xs ! (nat (off + cnt) + k)" using cnt by (rule nth_drop)
    finally show ?thesis using right le by (simp add: at_def k)
  qed
qed

lemma slice_list_all: "int (length xs) = n \<Longrightarrow> slice_list 0 n xs = xs"
  by (auto simp: slice_list_def)

lemma splice_list_self:
  "in_range off cnt (int (length xs)) \<Longrightarrow> splice_list off cnt (slice_list off cnt xs) xs = xs"
  by (auto simp: splice_list_def slice_list_def in_range_def nat_add_distrib
      simp flip: take_add append_assoc)

lemma slice_of_splice:
  assumes "in_range off cnt (int (length xs))"
  shows "slice_list off (int (length ins)) (splice_list off cnt ins xs) = ins"
  using assms by (auto simp: splice_list_def slice_list_def in_range_def min_absorb2)

section \<open>Moving a block inside a list\<close>

text \<open>
  \<open>mv_src off cnt dist i\<close> is the old index of the element that position \<open>i\<close> holds after
  the block of \<open>cnt\<close> elements at \<open>off\<close> moved by \<open>dist\<close>.
\<close>

definition mv_src :: "int \<Rightarrow> int \<Rightarrow> int \<Rightarrow> int \<Rightarrow> int" where
  "mv_src off cnt dist i =
     (if 0 \<le> dist then
        (if off \<le> i \<and> i < off + dist then i + cnt
         else if off + dist \<le> i \<and> i < off + dist + cnt then i - dist else i)
      else
        (if off + dist \<le> i \<and> i < off + dist + cnt then i - dist
         else if off + dist + cnt \<le> i \<and> i < off + cnt then i - cnt else i))"

definition mv_ok :: "int \<Rightarrow> int \<Rightarrow> int \<Rightarrow> int \<Rightarrow> bool" where
  "mv_ok n off cnt dist \<longleftrightarrow>
     0 \<le> off \<and> 0 \<le> cnt \<and> off + cnt \<le> n \<and> 0 \<le> off + dist \<and> off + cnt + dist \<le> n"

definition move_list :: "int \<Rightarrow> int \<Rightarrow> int \<Rightarrow> 'a list \<Rightarrow> 'a list" where
  "move_list off cnt dist xs = map (\<lambda>i. at xs (mv_src off cnt dist (int i))) [0..<length xs]"

lemma length_move_list [simp]: "length (move_list off cnt dist xs) = length xs"
  by (simp add: move_list_def)

lemma at_move_list [list_at]:
  "0 \<le> i \<Longrightarrow> i < int (length xs) \<Longrightarrow>
     at (move_list off cnt dist xs) i = at xs (mv_src off cnt dist i)"
  by (simp add: at_def move_list_def nat_less_iff)

lemma mv_src_range:
  "mv_ok n off cnt dist \<Longrightarrow> 0 \<le> i \<Longrightarrow> i < n \<Longrightarrow>
     0 \<le> mv_src off cnt dist i \<and> mv_src off cnt dist i < n"
  by (auto simp: mv_src_def mv_ok_def)

lemma mv_src_zero [simp]: "mv_src off 0 dist i = i" "mv_src off cnt 0 i = i"
  by (auto simp: mv_src_def)

lemma mv_src_inverse:
  "0 \<le> cnt \<Longrightarrow> mv_src off cnt dist (mv_src (off + dist) cnt (- dist) i) = i"
  by (auto simp: mv_src_def)

text \<open>Moving a block right is exchanging it with the block it passes over.\<close>

lemma move_list_swap:
  assumes "mv_ok (int (length xs)) off cnt dist" and "0 \<le> dist"
  shows "move_list off cnt dist xs =
    take (nat off) xs @ slice_list (off + cnt) dist xs @ slice_list off cnt xs
      @ drop (nat (off + cnt + dist)) xs" (is "?l = ?r")
proof -
  have ok: "0 \<le> off" "0 \<le> cnt" "off + cnt + dist \<le> int (length xs)"
    using assms by (auto simp: mv_ok_def)
  define a b c d where abcd: "a = take (nat off) xs" "b = slice_list off cnt xs"
    "c = slice_list (off + cnt) dist xs" "d = drop (nat (off + cnt + dist)) xs"
  have xs: "xs = a @ b @ c @ d"
    using ok assms(2) unfolding abcd slice_list_def
    by (simp add: nat_add_distrib append_assoc [symmetric] take_add [symmetric] del: append_assoc)
  have len: "length a = nat off" "length b = nat cnt" "length c = nat dist"
    using ok assms(2) by (auto simp: abcd slice_list_def)
  have "(a @ c @ b @ d) ! k = (a @ b @ c @ d) ! nat (mv_src off cnt dist (int k))" for k
  proof -
    consider "k < nat off" | "nat off \<le> k" "k < nat off + nat dist"
      | "nat off + nat dist \<le> k" "k < nat off + nat dist + nat cnt"
      | "nat off + nat dist + nat cnt \<le> k" by linarith
    then show ?thesis
    proof cases
      case 1
      then have "nat (mv_src off cnt dist (int k)) = k"
        using ok assms(2) by (auto simp: mv_src_def)
      then show ?thesis using 1 len by (simp add: nth_append)
    next
      case 2
      then have "nat (mv_src off cnt dist (int k)) = k + nat cnt"
        using ok assms(2) by (auto simp: mv_src_def)
      moreover from 2 obtain j where "k = nat off + j" "j < nat dist"
        using le_Suc_ex [OF 2(1)] by auto
      ultimately show ?thesis using len by (simp add: nth_append)
    next
      case 3
      then have "nat (mv_src off cnt dist (int k)) = k - nat dist"
        using ok assms(2) by (auto simp: mv_src_def)
      moreover from 3 obtain j where "k = nat off + nat dist + j" "j < nat cnt"
        using le_Suc_ex [OF 3(1)] by auto
      ultimately show ?thesis using len by (simp add: nth_append)
    next
      case 4
      then have "nat (mv_src off cnt dist (int k)) = k"
        using ok assms(2) by (auto simp: mv_src_def)
      moreover from 4 obtain j where "k = nat off + nat dist + nat cnt + j"
        using le_Suc_ex [OF 4] by auto
      ultimately show ?thesis using len by (simp add: nth_append)
    qed
  qed
  then have "?l = a @ c @ b @ d"
    by (intro nth_equalityI) (auto simp: xs move_list_def at_def)
  then show ?thesis by (simp add: abcd)
qed

end
