(* ===== verification/Dot_Values.thy ===== *)
theory Dot_Values
  imports Dot_Prelude
begin

text \<open>
  The values of \<open>changes\<close> and \<open>changes/types\<close>: the marker \<open>changes.Nil\<close>,
  \<open>changes.Atomic\<close>, the map \<open>types.M\<close>, the collections \<open>types.S8\<close>,
  \<open>types.S16\<close>, \<open>types.Counter\<close> and \<open>types.A\<close>, and \<open>refs.Container\<close>.
  The Go interface \<open>changes.Collection\<close> is the type \<open>coll\<close>; \<open>changes.Value\<close> is
  the type \<open>val\<close>, into which every collection embeds by \<open>VColl\<close>, and a Go type
  assertion \<open>v.(Collection)\<close> is a match on that constructor. Both interfaces are open in Go;
  the two datatypes close them over the types of this repository that the changes package can
  hold.

  A panic (index out of range, failed type assertion, explicit \<open>panic\<close>) is \<open>None\<close>.
  Path elements and the payloads of \<open>Atomic\<close> are comparable Go values, the type \<open>key\<close>.
  A Go slice is a list: its spare capacity is not modelled, reading beyond the length counts as
  a panic.
\<close>

section \<open>Keys, references and values\<close>

datatype key = KInt int | KStr string | KBool bool | KPair key key

record caret =
  cPath :: "key list"
  cIndex :: int
  cIsLeft :: bool

datatype ref = InvalidRef | RPath "key list" | RCaret caret | RRange caret caret

datatype val =
    VNil
  | VAtomic key
  | VM "(key, val) fmap"
  | VColl coll
  | VContainer val "(key, ref) fmap"
and coll =
    CS8 string
  | CS16 string
  | CCounter "32 word"
  | CA "val option list"

abbreviation VS8 :: "string \<Rightarrow> val" where "VS8 s \<equiv> VColl (CS8 s)"
abbreviation VS16 :: "string \<Rightarrow> val" where "VS16 s \<equiv> VColl (CS16 s)"
abbreviation VA :: "val option list \<Rightarrow> val" where "VA a \<equiv> VColl (CA a)"
abbreviation VCounter :: "32 word \<Rightarrow> val" where "VCounter c \<equiv> VColl (CCounter c)"

text \<open>The three basic change structs of the changes package.\<close>

record replace =
  rBefore :: val
  rAfter :: val

record splice =
  sOffset :: int
  sBefore :: coll
  sAfter :: coll

record move =
  mOffset :: int
  mCount :: int
  mDistance :: int

definition IsDelete :: "replace \<Rightarrow> bool" where
  "IsDelete s \<longleftrightarrow> rBefore s \<noteq> VNil \<and> rAfter s = VNil"

definition IsCreate :: "replace \<Rightarrow> bool" where
  "IsCreate s \<longleftrightarrow> rBefore s = VNil \<and> rAfter s \<noteq> VNil"

definition Normalize :: "move \<Rightarrow> move" where
  "Normalize m =
     (if mDistance m < 0
      then \<lparr>mOffset = mOffset m + mDistance m, mCount = - mDistance m, mDistance = mCount m\<rparr>
      else m)"

section \<open>UTF-8 strings with UTF-16 offsets\<close>

text \<open>
  A Go string is a byte sequence, here a list of characters. \<open>decode_rune\<close> is what one
  step of \<open>for kk, r := range s\<close> reads: the rune and its width in bytes, with the
  replacement rune and width one for an invalid encoding.
\<close>

definition cont :: "nat \<Rightarrow> nat \<Rightarrow> nat \<Rightarrow> bool" where
  "cont lo hi b \<longleftrightarrow> lo \<le> b \<and> b \<le> hi"

definition rune_error :: "nat \<times> nat" where
  "rune_error = (65533, 1)"

definition decode2 :: "nat \<Rightarrow> string \<Rightarrow> nat \<times> nat" where
  "decode2 b0 cs = (case cs of c1 # _ \<Rightarrow>
     if cont 128 191 (of_char c1)
     then ((b0 - 192) * 64 + (of_char c1 - 128), 2) else rune_error
   | _ \<Rightarrow> rune_error)"

definition decode3 :: "nat \<Rightarrow> string \<Rightarrow> nat \<times> nat" where
  "decode3 b0 cs = (case cs of c1 # c2 # _ \<Rightarrow>
     if cont (if b0 = 224 then 160 else 128) (if b0 = 237 then 159 else 191) (of_char c1)
        \<and> cont 128 191 (of_char c2)
     then ((b0 - 224) * 4096 + (of_char c1 - 128) * 64 + (of_char c2 - 128), 3) else rune_error
   | _ \<Rightarrow> rune_error)"

definition decode4 :: "nat \<Rightarrow> string \<Rightarrow> nat \<times> nat" where
  "decode4 b0 cs = (case cs of c1 # c2 # c3 # _ \<Rightarrow>
     if cont (if b0 = 240 then 144 else 128) (if b0 = 244 then 143 else 191) (of_char c1)
        \<and> cont 128 191 (of_char c2) \<and> cont 128 191 (of_char c3)
     then ((b0 - 240) * 262144 + (of_char c1 - 128) * 4096 + (of_char c2 - 128) * 64
             + (of_char c3 - 128), 4) else rune_error
   | _ \<Rightarrow> rune_error)"

fun decode_rune :: "string \<Rightarrow> nat \<times> nat" where
  "decode_rune [] = (65533, 0)"
| "decode_rune (c # cs) = (let b0 = of_char c in
      if b0 < 128 then (b0, 1)
      else if b0 < 194 \<or> 244 < b0 then rune_error
      else if b0 < 224 then decode2 b0 cs
      else if b0 < 240 then decode3 b0 cs
      else decode4 b0 cs)"

lemma decode_width:
  "0 < snd (decode2 b cs) \<and> snd (decode2 b cs) \<le> Suc (length cs)"
  "0 < snd (decode3 b cs) \<and> snd (decode3 b cs) \<le> Suc (length cs)"
  "0 < snd (decode4 b cs) \<and> snd (decode4 b cs) \<le> Suc (length cs)"
  by (auto simp: decode2_def decode3_def decode4_def rune_error_def split: list.splits)

lemma decode_rune_width: "s \<noteq> [] \<Longrightarrow> 0 < snd (decode_rune s)"
  by (cases s) (auto simp: Let_def rune_error_def decode_width)

lemma decode_rune_width_le: "snd (decode_rune s) \<le> length s"
  by (cases s) (auto simp: Let_def rune_error_def decode_width)

text \<open>The runes of a string with their byte widths, in order.\<close>

function runes :: "string \<Rightarrow> (nat \<times> nat) list" where
  "runes s = (if s = [] then [] else decode_rune s # runes (drop (snd (decode_rune s)) s))"
  by pat_completeness auto
termination
  by (relation "measure length") (auto simp: decode_rune_width)

declare runes.simps [simp del]

lemma runes_Nil [simp]: "runes [] = []"
  by (simp add: runes.simps)

definition utf16Count :: "nat \<Rightarrow> int" where
  "utf16Count r = (if r < 65536 \<or> 1114111 < r then 1 else 2)"

text \<open>
  The two loops of \<open>FromUTF16\<close> and \<open>ToUTF16\<close>: \<open>kk\<close> is the byte index of the
  current rune and \<open>seen\<close> the number of UTF-16 units before it.
\<close>

fun FromUTF16_loop :: "int \<Rightarrow> (nat \<times> nat) list \<Rightarrow> int \<Rightarrow> int \<Rightarrow> int option" where
  "FromUTF16_loop idx [] kk seen = (if idx = seen then Some kk else None)"
| "FromUTF16_loop idx ((r, w) # rs) kk seen =
     (if idx = seen then Some kk
      else FromUTF16_loop idx rs (kk + int w) (seen + utf16Count r))"

definition FromUTF16 :: "string \<Rightarrow> int \<Rightarrow> int option" where
  "FromUTF16 s idx = FromUTF16_loop idx (runes s) 0 0"

fun ToUTF16_loop :: "int \<Rightarrow> (nat \<times> nat) list \<Rightarrow> int \<Rightarrow> int \<Rightarrow> int option" where
  "ToUTF16_loop idx [] kk seen = (if idx = kk then Some seen else None)"
| "ToUTF16_loop idx ((r, w) # rs) kk seen =
     (if idx = kk then Some seen
      else ToUTF16_loop idx rs (kk + int w) (seen + utf16Count r))"

definition ToUTF16 :: "string \<Rightarrow> int \<Rightarrow> int option" where
  "ToUTF16 s idx = ToUTF16_loop idx (runes s) 0 0"

section \<open>Collections: Count and Slice\<close>

definition S8_Slice :: "string \<Rightarrow> int \<Rightarrow> int \<Rightarrow> string option" where
  "S8_Slice s offset cnt = goslice s offset (offset + cnt)"

definition S8_Count :: "string \<Rightarrow> int" where
  "S8_Count s = int (length s)"

definition S16_Slice :: "string \<Rightarrow> int \<Rightarrow> int \<Rightarrow> string option" where
  "S16_Slice s offset cnt = do {
     i \<leftarrow> FromUTF16 s offset;
     j \<leftarrow> FromUTF16 s (offset + cnt);
     goslice s i j }"

definition S16_Count :: "string \<Rightarrow> int option" where
  "S16_Count s = ToUTF16 s (int (length s))"

definition A_Slice :: "val option list \<Rightarrow> int \<Rightarrow> int \<Rightarrow> val option list option" where
  "A_Slice a offset cnt = goslice a offset (offset + cnt)"

definition A_Count :: "val option list \<Rightarrow> int" where
  "A_Count a = int (length a)"

definition Counter_Count :: "32 word \<Rightarrow> int" where
  "Counter_Count c = (if c \<noteq> 0 then 1 else 0)"

definition Counter_Slice :: "32 word \<Rightarrow> int \<Rightarrow> int \<Rightarrow> 32 word option" where
  "Counter_Slice c offset cnt = None"

text \<open>The methods of the interface \<open>changes.Collection\<close>, by the dynamic type.\<close>

fun Count :: "coll \<Rightarrow> int" where
  "Count (CS8 s) = S8_Count s"
| "Count (CS16 s) = (case S16_Count s of Some n \<Rightarrow> n | None \<Rightarrow> 0)"
| "Count (CCounter c) = Counter_Count c"
| "Count (CA a) = A_Count a"

fun Slice :: "coll \<Rightarrow> int \<Rightarrow> int \<Rightarrow> coll option" where
  "Slice (CS8 s) offset cnt = map_option CS8 (S8_Slice s offset cnt)"
| "Slice (CS16 s) offset cnt = map_option CS16 (S16_Slice s offset cnt)"
| "Slice (CCounter c) offset cnt = map_option CCounter (Counter_Slice c offset cnt)"
| "Slice (CA a) offset cnt = map_option CA (A_Slice a offset cnt)"

text \<open>
  \<open>S16.Count\<close> never reaches its panic: the loop of \<open>ToUTF16\<close> ends exactly at the
  length of the string, so the default in \<open>Count\<close> is never taken.
\<close>

lemma ToUTF16_loop_end:
  "kk + int (sum_list (map snd rs)) = n \<Longrightarrow> (\<forall>p \<in> set rs. 0 < snd p) \<Longrightarrow>
     ToUTF16_loop n rs kk seen = Some (seen + sum_list (map (utf16Count \<circ> fst) rs))"
  by (induction n rs kk seen rule: ToUTF16_loop.induct)
    (auto simp: add_ac sum_list_nonneg_eq_0_iff)

lemma runes_width_pos: "p \<in> set (runes s) \<Longrightarrow> 0 < snd p"
proof (induction s rule: runes.induct)
  case (1 s)
  show ?case
  proof (cases "s = []")
    case False
    with 1 show ?thesis by (auto simp: runes.simps [of s] decode_rune_width)
  qed (use 1 in simp)
qed

lemma runes_width_sum: "sum_list (map snd (runes s)) = length s"
proof (induction s rule: runes.induct)
  case (1 s)
  then show ?case
    using decode_rune_width_le [of s] by (cases "s = []") (auto simp: runes.simps [of s])
qed

lemma S16_Count_total: "S16_Count s = Some (sum_list (map (utf16Count \<circ> fst) (runes s)))"
  unfolding S16_Count_def ToUTF16_def
  by (subst ToUTF16_loop_end) (auto simp: runes_width_sum runes_width_pos)

section \<open>Collections: Splice and Move\<close>

text \<open>\<open>S8.ApplyCollection\<close>: string concatenation around the removed bytes.\<close>

definition S8_splice :: "string \<Rightarrow> splice \<Rightarrow> string option" where
  "S8_splice s c =
     (case (sBefore c, sAfter c) of
        (CS8 remove, CS8 rep) \<Rightarrow> do {
          l \<leftarrow> goslice s 0 (sOffset c);
          r \<leftarrow> goslice s (sOffset c + int (length remove)) (int (length s));
          Some (l @ rep @ r) }
      | _ \<Rightarrow> None)"

definition exchange :: "'a list \<Rightarrow> int \<Rightarrow> int \<Rightarrow> int \<Rightarrow> 'a list option" where
  "exchange s x1 x2 x3 = do {
     a \<leftarrow> goslice s 0 x1;
     c \<leftarrow> goslice s x2 x3;
     b \<leftarrow> goslice s x1 x2;
     d \<leftarrow> goslice s x3 (int (length s));
     Some (a @ c @ b @ d) }"

definition S8_move :: "string \<Rightarrow> move \<Rightarrow> string option" where
  "S8_move s m = (let c = Normalize m in
     exchange s (mOffset c) (mOffset c + mCount c) (mOffset c + mCount c + mDistance c))"

definition S16_splice :: "string \<Rightarrow> splice \<Rightarrow> string option" where
  "S16_splice s c =
     (case (sBefore c, sAfter c) of
        (CS16 remove, CS16 rep) \<Rightarrow> do {
          i \<leftarrow> FromUTF16 s (sOffset c);
          l \<leftarrow> goslice s 0 i;
          r \<leftarrow> goslice s (i + int (length remove)) (int (length s));
          Some (l @ rep @ r) }
      | _ \<Rightarrow> None)"

definition S16_move :: "string \<Rightarrow> move \<Rightarrow> string option" where
  "S16_move s m = (let c = Normalize m in do {
     x1 \<leftarrow> FromUTF16 s (mOffset c);
     x2 \<leftarrow> FromUTF16 s (mOffset c + mCount c);
     x3 \<leftarrow> FromUTF16 s (mOffset c + mCount c + mDistance c);
     exchange s x1 x2 x3 })"

text \<open>\<open>Counter.ApplyCollection\<close>: a splice adds its After counter; 32-bit wrap-around.\<close>

definition Counter_splice :: "32 word \<Rightarrow> splice \<Rightarrow> 32 word option" where
  "Counter_splice c s = (case sAfter s of CCounter d \<Rightarrow> Some (c + d) | _ \<Rightarrow> None)"

text \<open>\<open>A.get\<close>, \<open>A.set\<close> and \<open>A.splice\<close>.\<close>

definition A_get :: "val option list \<Rightarrow> key \<Rightarrow> val option" where
  "A_get a k = (case k of
     KInt i \<Rightarrow> if 0 \<le> i \<and> i < int (length a)
                then Some (case a ! nat i of Some v \<Rightarrow> v | None \<Rightarrow> VNil) else None
   | _ \<Rightarrow> None)"

definition A_set :: "val option list \<Rightarrow> key \<Rightarrow> val \<Rightarrow> val option list option" where
  "A_set a k v = (case k of
     KInt i \<Rightarrow> if 0 \<le> i \<and> i < int (length a)
                then Some (a[nat i := (if v \<noteq> VNil then Some v else None)]) else None
   | _ \<Rightarrow> None)"

definition A_splice :: "val option list \<Rightarrow> int \<Rightarrow> int \<Rightarrow> coll \<Rightarrow> val option list option" where
  "A_splice a offset cnt after = do {
     l \<leftarrow> goslice a 0 offset;
     ins \<leftarrow> (case after of CA x \<Rightarrow> Some x | _ \<Rightarrow> None);
     r \<leftarrow> goslice a (offset + cnt) (int (length a));
     Some (l @ ins @ r) }"

text \<open>
  \<open>Generic.ApplyCollection\<close> with the helpers of \<open>A\<close>: a Move removes the block and
  inserts it again.
\<close>

definition A_move :: "val option list \<Rightarrow> move \<Rightarrow> val option list option" where
  "A_move a m = (let c = Normalize m in do {
     slice \<leftarrow> A_Slice a (mOffset c) (mCount c);
     empty \<leftarrow> A_Slice a 0 0;
     rest \<leftarrow> A_splice a (mOffset c) (mCount c) (CA empty);
     A_splice rest (mOffset c + mDistance c) (A_Count empty) (CA slice) })"

text \<open>\<open>M.get\<close> and \<open>M.set\<close>: a missing key reads as Nil, storing Nil removes the key.\<close>

definition M_get :: "(key, val) fmap \<Rightarrow> key \<Rightarrow> val" where
  "M_get m k = (case fmlookup m k of Some v \<Rightarrow> v | None \<Rightarrow> VNil)"

definition M_set :: "(key, val) fmap \<Rightarrow> key \<Rightarrow> val \<Rightarrow> (key, val) fmap" where
  "M_set m k v = (if v \<noteq> VNil then fmupd k v (fmdrop k m) else fmdrop k m)"

text \<open>Applying a Splice or a Move to a collection, by its dynamic type.\<close>

fun coll_splice :: "coll \<Rightarrow> splice \<Rightarrow> coll option" where
  "coll_splice (CS8 s) c = map_option CS8 (S8_splice s c)"
| "coll_splice (CS16 s) c = map_option CS16 (S16_splice s c)"
| "coll_splice (CCounter n) c = map_option CCounter (Counter_splice n c)"
| "coll_splice (CA a) c = map_option CA (A_splice a (sOffset c) (Count (sBefore c)) (sAfter c))"

fun coll_move :: "coll \<Rightarrow> move \<Rightarrow> coll option" where
  "coll_move (CS8 s) m = map_option CS8 (S8_move s m)"
| "coll_move (CS16 s) m = map_option CS16 (S16_move s m)"
| "coll_move (CCounter n) m = None"
| "coll_move (CA a) m = map_option CA (A_move a m)"

end
