(* ===== verification/Dot_Changes.thy ===== *)
theory Dot_Changes
  imports Dot_Values
begin

text \<open>
  The changes of package \<open>changes\<close> (Replace, Splice, Move, ChangeSet, PathChange, Meta),
  the \<open>Run\<close> of \<open>changes/run\<close> and the \<open>Update\<close> of \<open>refs\<close>, with the
  operations that look at a change alone: \<open>Revert\<close>, \<open>Simplify\<close> and
  \<open>MapIndex\<close>.

  A Go value of interface type \<open>changes.Change\<close> may be nil, so it is a
  \<open>change option\<close>.
\<close>

section \<open>The change type\<close>

datatype change =
    Replace replace
  | Splice splice
  | Move move
  | ChangeSet "change option list"
  | PathChange "key list" "change option"
  | Meta key "change option"
  | Run int int "change option"
  | Update key "ref option" "ref option"

text \<open>The types that implement \<open>changes.Custom\<close>: all but the three basic ones.\<close>

fun is_custom :: "change \<Rightarrow> bool" where
  "is_custom (Replace r) = False"
| "is_custom (Splice s) = False"
| "is_custom (Move m) = False"
| "is_custom c = True"

section \<open>Simplify\<close>

text \<open>The end of \<open>ChangeSet.Simplify\<close>: no element, one element, or a set.\<close>

fun pack :: "change list \<Rightarrow> change option" where
  "pack [] = None"
| "pack [c] = Some c"
| "pack cs = Some (ChangeSet (map Some cs))"

definition non_nil :: "change option list \<Rightarrow> change list" where
  "non_nil cs = map the (filter (\<lambda>c. c \<noteq> None) cs)"

lemma non_nil_simps [simp]:
  "non_nil [] = []" "non_nil (None # cs) = non_nil cs" "non_nil (Some c # cs) = c # non_nil cs"
  "non_nil (xs @ ys) = non_nil xs @ non_nil ys"
  by (simp_all add: non_nil_def)

fun join_path :: "key list \<Rightarrow> change \<Rightarrow> change" where
  "join_path p (PathChange q c) = PathChange (p @ q) c"
| "join_path p c = PathChange p (Some c)"

lemma size_change_mem:
  "c \<in> set cs \<Longrightarrow> size_option size c < Suc (size_list (size_option size) cs)"
  by (induction cs) auto

function Simplify :: "change option \<Rightarrow> change option" where
  "Simplify None = None"
| "Simplify (Some (ChangeSet cs)) = pack (non_nil (map Simplify cs))"
| "Simplify (Some (PathChange p c)) = (case Simplify c of
     None \<Rightarrow> None
   | Some cx \<Rightarrow> if p = [] then Some cx else Some (join_path p cx))"
| "Simplify (Some (Replace r)) = Some (Replace r)"
| "Simplify (Some (Splice s)) = Some (Splice s)"
| "Simplify (Some (Move m)) = Some (Move m)"
| "Simplify (Some (Meta d c)) = Some (Meta d c)"
| "Simplify (Some (Run off n c)) = Some (Run off n c)"
| "Simplify (Some (Update k b a)) = Some (Update k b a)"
  by pat_completeness auto
termination
  by (relation "measure (size_option size)") (auto dest: size_change_mem)

definition ChangeSet_Simplify :: "change option list \<Rightarrow> change option" where
  "ChangeSet_Simplify cs = pack (non_nil (map Simplify cs))"

section \<open>Revert\<close>

definition Replace_Revert :: "replace \<Rightarrow> replace" where
  "Replace_Revert s = \<lparr>rBefore = rAfter s, rAfter = rBefore s\<rparr>"

definition Splice_Revert :: "splice \<Rightarrow> splice" where
  "Splice_Revert s = \<lparr>sOffset = sOffset s, sBefore = sAfter s, sAfter = sBefore s\<rparr>"

definition Move_Revert :: "move \<Rightarrow> move" where
  "Move_Revert m =
     \<lparr>mOffset = mOffset m + mDistance m, mCount = mCount m, mDistance = - mDistance m\<rparr>"

text \<open>
  \<open>Revert\<close> by the dynamic type of the change. The nil entries that
  \<open>ChangeSet.Revert\<close> skips are nil in the list given to \<open>Simplify\<close>, which drops them.
\<close>

function Revert :: "change \<Rightarrow> change option" where
  "Revert (Replace s) = Some (Replace (Replace_Revert s))"
| "Revert (Splice s) = Some (Splice (Splice_Revert s))"
| "Revert (Move m) = Some (Move (Move_Revert m))"
| "Revert (ChangeSet cs) = ChangeSet_Simplify
     (map (\<lambda>c. case c of None \<Rightarrow> None | Some c \<Rightarrow> Revert c) (rev cs))"
| "Revert (PathChange p c) = (case c of None \<Rightarrow> None | Some c \<Rightarrow> Some (PathChange p (Revert c)))"
| "Revert (Meta d c) = (case c of None \<Rightarrow> Some (Meta d None) | Some c \<Rightarrow> Some (Meta d (Revert c)))"
| "Revert (Run off n c) = (case c of None \<Rightarrow> None | Some c \<Rightarrow> Some (Run off n (Revert c)))"
| "Revert (Update k b a) = Some (Update k a b)"
  by pat_completeness auto
termination
  by (relation "measure size") (auto dest: size_change_mem)

section \<open>Where an index goes\<close>

definition dest :: "move \<Rightarrow> int" where
  "dest m = (if mDistance m < 0 then mOffset m + mDistance m
             else mOffset m + mDistance m + mCount m)"

definition Move_MapIndex :: "move \<Rightarrow> int \<Rightarrow> int" where
  "Move_MapIndex m idx =
     (if idx \<ge> mOffset m + mDistance m \<and> idx < mOffset m then idx + mCount m
      else if idx \<ge> mOffset m \<and> idx < mOffset m + mCount m then idx + mDistance m
      else if idx \<ge> mOffset m + mCount m \<and> idx < mOffset m + mCount m + mDistance m
      then idx - mCount m
      else idx)"

definition Splice_MapIndex :: "splice \<Rightarrow> int \<Rightarrow> int \<times> bool" where
  "Splice_MapIndex s idx =
     (if idx < sOffset s then (idx, False)
      else if idx \<ge> sOffset s + Count (sBefore s)
      then (idx + Count (sAfter s) - Count (sBefore s), False)
      else (sOffset s, True))"

end
