(* ===== verification/Dot_Refs.thy ===== *)
theory Dot_Refs
  imports Dot_Changes
begin

text \<open>
  The references of package \<open>refs\<close>: paths, carets and ranges, and how a change updates
  them. \<open>refs_Merge\<close> is the function \<open>refs.Merge\<close>; its Go result is a pointer that is
  nil when the path is invalidated, so the result here is an option inside the option that
  stands for a panic (a path element that is not an integer where an index is needed).
\<close>

section \<open>Results of merging a path\<close>

record merge_result =
  resP :: "key list"
  Scoped :: "change option"
  Affected :: "change option"
  Unaffected :: "change option"

definition joinChanges :: "change option \<Rightarrow> change option \<Rightarrow> change option" where
  "joinChanges c1 c2 = (case (c1, c2) of
     (None, _) \<Rightarrow> c2
   | (_, None) \<Rightarrow> c1
   | (Some (ChangeSet xs), Some (ChangeSet ys)) \<Rightarrow> Some (ChangeSet (xs @ ys))
   | (Some (ChangeSet xs), Some y) \<Rightarrow> Some (ChangeSet (xs @ [Some y]))
   | (Some x, Some (ChangeSet ys)) \<Rightarrow> Some (ChangeSet (Some x # ys))
   | (Some x, Some y) \<Rightarrow> Some (ChangeSet [Some x, Some y]))"

definition result_join :: "merge_result \<Rightarrow> merge_result option \<Rightarrow> merge_result option" where
  "result_join p r = (case r of None \<Rightarrow> None | Some q \<Rightarrow> Some
     \<lparr>resP = resP q, Scoped = joinChanges (Scoped p) (Scoped q),
      Affected = joinChanges (Affected p) (Affected q),
      Unaffected = joinChanges (Unaffected p) (Unaffected q)\<rparr>)"

definition result_pc :: "key list \<Rightarrow> change option \<Rightarrow> change option" where
  "result_pc path c = (case c of None \<Rightarrow> None | Some c \<Rightarrow> Some (PathChange path (Some c)))"

definition result_Prefix :: "merge_result option \<Rightarrow> key list \<Rightarrow> merge_result option" where
  "result_Prefix r other = map_option (\<lambda>p.
     p\<lparr>resP := other @ resP p, Affected := result_pc other (Affected p),
       Unaffected := result_pc other (Unaffected p)\<rparr>) r"

definition unaffected :: "key list \<Rightarrow> change option \<Rightarrow> merge_result" where
  "unaffected p c = \<lparr>resP = p, Scoped = None, Affected = None, Unaffected = c\<rparr>"

definition key_int :: "key \<Rightarrow> int option" where
  "key_int k = (case k of KInt i \<Rightarrow> Some i | _ \<Rightarrow> None)"

definition refs_mergeMove :: "key list \<Rightarrow> move \<Rightarrow> merge_result option option" where
  "refs_mergeMove p c = do {
     i \<leftarrow> key_int (hd p);
     Some (Some (unaffected (KInt (Move_MapIndex c i) # tl p) (Some (Move c)))) }"

definition refs_mergeSplice :: "key list \<Rightarrow> splice \<Rightarrow> merge_result option option" where
  "refs_mergeSplice p c = do {
     i \<leftarrow> key_int (hd p);
     let (idx, ok) = Splice_MapIndex c i in
     if ok then Some None
     else Some (Some (unaffected (KInt idx # tl p) (Some (Splice c)))) }"

text \<open>The loop over the common prefix: its length, and whether it ended at a mismatch.\<close>

fun common_prefix :: "key list \<Rightarrow> key list \<Rightarrow> nat \<times> bool" where
  "common_prefix (a # as) (b # bs) =
     (if a = b then (let (n, mis) = common_prefix as bs in (Suc n, mis)) else (0, True))"
| "common_prefix as bs = (0, False)"

text \<open>The loop of the ChangeSet case, over the merge function of the elements.\<close>

fun join_all ::
  "(key list \<Rightarrow> 'c \<Rightarrow> merge_result option option) \<Rightarrow> merge_result \<Rightarrow> 'c list
     \<Rightarrow> merge_result option option" where
  "join_all f result [] = Some (Some result)"
| "join_all f result (c # cs) = do {
     r \<leftarrow> f (resP result) c;
     (case result_join result r of
        None \<Rightarrow> Some None
      | Some result \<Rightarrow> join_all f result cs) }"

lemma join_all_cong [fundef_cong]:
  assumes "r = r'" "cs = cs'" and "\<And>p c. c \<in> set cs' \<Longrightarrow> f p c = g p c"
  shows "join_all f r cs = join_all g r' cs'"
  using assms(3) unfolding assms(1,2)
  by (induction g r' cs' rule: join_all.induct)
    (auto simp: bind_eq_None_conv split: option.splits intro!: Option.bind_cong)

function refs_Merge :: "key list \<Rightarrow> change option \<Rightarrow> merge_result option option" where
  "refs_Merge p c =
     (if p = [] then Some (Some \<lparr>resP = [], Scoped = c, Affected = c, Unaffected = None\<rparr>)
      else (case c of
        None \<Rightarrow> Some (Some (unaffected p c))
      | Some (Replace r) \<Rightarrow> Some None
      | Some (Splice s) \<Rightarrow> refs_mergeSplice p s
      | Some (Move m) \<Rightarrow> refs_mergeMove p m
      | Some (PathChange q cx) \<Rightarrow>
          (let (idx, mis) = common_prefix p q in
           if mis then Some (Some (unaffected p c))
           else if length p = idx
           then Some (Some \<lparr>resP = p, Scoped = Some (PathChange (drop idx q) cx),
                            Affected = c, Unaffected = None\<rparr>)
           else do { r \<leftarrow> refs_Merge (drop idx p) cx; Some (result_Prefix r (take idx p)) })
      | Some (ChangeSet cs) \<Rightarrow> join_all refs_Merge (unaffected p None) cs
      | Some (Run off n cx) \<Rightarrow> do {
          idx \<leftarrow> key_int (hd p);
          if idx < off \<or> idx \<ge> off + n then Some (Some (unaffected p c))
          else do { r \<leftarrow> refs_Merge (tl p) cx; Some (result_Prefix r (take 1 p)) } }
      | Some _ \<Rightarrow> Some (Some (unaffected p c))))"
  by pat_completeness auto
termination
  by (relation "measure (\<lambda>(p, c). size_option size c)") (auto dest: size_change_mem)

declare refs_Merge.simps [simp del]

section \<open>Merging references\<close>

definition Path_Merge :: "key list \<Rightarrow> change option \<Rightarrow> (ref \<times> change option) option" where
  "Path_Merge p c = do {
     r \<leftarrow> refs_Merge p c;
     (case r of Some r \<Rightarrow> Some (RPath (resP r), Scoped r) | None \<Rightarrow> Some (InvalidRef, None)) }"

definition updateMoveIndex :: "bool \<Rightarrow> int \<Rightarrow> move \<Rightarrow> int" where
  "updateMoveIndex isLeft idx cx =
     (let d = mOffset cx + mDistance cx + (if mDistance cx > 0 then mCount cx else 0) in
      if d \<noteq> idx then Move_MapIndex cx idx
      else if isLeft \<and> mDistance cx > 0 then idx - mCount cx
      else if \<not> isLeft \<and> mDistance cx < 0 then idx + mCount cx
      else idx)"

text \<open>
  \<open>Caret.updateIndex\<close>: the new index, or \<open>None\<close> for \<open>InvalidRef\<close>. The loop over a
  ChangeSet carries the index.
\<close>

function updateIndex :: "bool \<Rightarrow> int \<Rightarrow> change option \<Rightarrow> int option" where
  "updateIndex isLeft idx c = (case c of
     None \<Rightarrow> Some idx
   | Some (Replace r) \<Rightarrow> None
   | Some (Splice s) \<Rightarrow>
       Some (if sOffset s \<noteq> idx \<or> \<not> isLeft then fst (Splice_MapIndex s idx) else idx)
   | Some (Move m) \<Rightarrow> Some (updateMoveIndex isLeft idx m)
   | Some (PathChange q cx) \<Rightarrow> if q = [] then updateIndex isLeft idx cx else Some idx
   | Some (ChangeSet cs) \<Rightarrow> foldM (updateIndex isLeft) idx cs
   | Some _ \<Rightarrow> Some idx)"
  by pat_completeness auto
termination
  by (relation "measure (\<lambda>(b, i, c). size_option size c)") (auto dest: size_change_mem)

declare updateIndex.simps [simp del]

definition Caret_Merge :: "caret \<Rightarrow> change option \<Rightarrow> (ref \<times> change option) option" where
  "Caret_Merge ct c = do {
     (px, cx) \<leftarrow> Path_Merge (cPath ct) c;
     (case px of
        RPath p \<Rightarrow> Some (case updateIndex (cIsLeft ct) (cIndex ct) cx of
            None \<Rightarrow> (InvalidRef, None)
          | Some i \<Rightarrow> (RCaret \<lparr>cPath = p, cIndex = i, cIsLeft = cIsLeft ct\<rparr>, None))
      | _ \<Rightarrow> Some (px, cx)) }"

definition Range_Merge :: "caret \<Rightarrow> caret \<Rightarrow> change option \<Rightarrow> (ref \<times> change option) option" where
  "Range_Merge st en c = do {
     (sx, _) \<leftarrow> Caret_Merge st c;
     (ex, _) \<leftarrow> Caret_Merge en c;
     Some (case (sx, ex) of
       (RCaret sy, RCaret ey) \<Rightarrow>
         (let ey = (if cIndex st \<noteq> cIndex en \<and> cIndex sy = cIndex ey
                    then ey\<lparr>cIsLeft := cIsLeft sy\<rparr> else ey)
          in (RRange sy ey, None))
     | _ \<Rightarrow> (InvalidRef, None)) }"

fun Ref_Merge :: "ref \<Rightarrow> change option \<Rightarrow> (ref \<times> change option) option" where
  "Ref_Merge InvalidRef c = Some (InvalidRef, None)"
| "Ref_Merge (RPath p) c = Path_Merge p c"
| "Ref_Merge (RCaret ct) c = Caret_Merge ct c"
| "Ref_Merge (RRange st en) c = Range_Merge st en c"

section \<open>Equality of references\<close>

fun Path_Equal :: "key list \<Rightarrow> key list \<Rightarrow> bool" where
  "Path_Equal p q \<longleftrightarrow> length p = length q \<and> list_all2 (=) p q"

definition Caret_Equal :: "caret \<Rightarrow> caret \<Rightarrow> bool" where
  "Caret_Equal a b \<longleftrightarrow>
     Path_Equal (cPath a) (cPath b) \<and> cIndex a = cIndex b \<and> cIsLeft a = cIsLeft b"

fun Ref_Equal :: "ref \<Rightarrow> ref \<Rightarrow> bool" where
  "Ref_Equal InvalidRef InvalidRef = True"
| "Ref_Equal (RPath p) (RPath q) = Path_Equal p q"
| "Ref_Equal (RCaret a) (RCaret b) = Caret_Equal a b"
| "Ref_Equal (RRange a b) (RRange c d) = (Caret_Equal a c \<and> Caret_Equal b d)"
| "Ref_Equal _ _ = False"

end
