(* ===== verification/Dot_Apply.thy ===== *)
theory Dot_Apply
  imports Dot_Refs
begin

text \<open>
  \<open>Value.Apply\<close> for every value type and every change type of the model. Go dispatches
  first on the value and then on the change; here the two dispatches are joined in one function
  that recurses on the change, so it ends on every input. The context argument of
  \<open>Apply\<close> is dropped: no value type of the model reads it.
\<close>

section \<open>Replace, references, paths\<close>

text \<open>
  \<open>Apply\<close> of a Replace: Nil accepts a create only, Atomic and Container anything but a
  create (both fall through to a failing type assertion otherwise), the others always.
\<close>

fun apply_Replace :: "replace \<Rightarrow> val \<Rightarrow> val option" where
  "apply_Replace r VNil = (if IsCreate r then Some (rAfter r) else None)"
| "apply_Replace r (VAtomic a) = (if \<not> IsCreate r then Some (rAfter r) else None)"
| "apply_Replace r (VContainer v refs) = (if \<not> IsCreate r then Some (rAfter r) else None)"
| "apply_Replace r (VM m) = Some (if IsDelete r then VNil else rAfter r)"
| "apply_Replace r (VColl c) = Some (if IsDelete r then VNil else rAfter r)"

text \<open>The helpers \<open>get\<close> and \<open>set\<close> that \<open>types.Generic\<close> is given by M and A.\<close>

fun vget :: "val \<Rightarrow> key \<Rightarrow> val option" where
  "vget (VM m) k = Some (M_get m k)"
| "vget (VColl (CA a)) k = A_get a k"
| "vget _ k = None"

fun vset :: "val \<Rightarrow> key \<Rightarrow> val \<Rightarrow> val option" where
  "vset (VM m) k v = Some (VM (M_set m k v))"
| "vset (VColl (CA a)) k v = map_option VA (A_set a k v)"
| "vset _ k v = None"

text \<open>
  The loop of \<open>Container.applyPathChange\<close> over the references: each is merged with the
  change, the invalidated ones are dropped.
\<close>

definition merge_refs :: "(key, ref) fmap \<Rightarrow> change option \<Rightarrow> (key, ref) fmap option" where
  "merge_refs refs c =
     (if fmpred (\<lambda>k r. Ref_Merge r c \<noteq> None) refs
      then (let m = fmmap (\<lambda>r. fst (the (Ref_Merge r c))) refs in
            Some (fmfilter (\<lambda>k. fmlookup m k \<noteq> Some InvalidRef) m))
      else None)"

text \<open>
  A PathChange with path \<open>p\<close> and change \<open>c\<close>, where \<open>f\<close> applies \<open>c\<close> at the end of
  the path.
\<close>

fun path_apply :: "(val \<Rightarrow> val option) \<Rightarrow> change option \<Rightarrow> key list \<Rightarrow> val \<Rightarrow> val option" where
  "path_apply f c [] v = f v"
| "path_apply f c (k # ks) (VContainer w refs) = do {
     updated \<leftarrow> merge_refs refs (Some (PathChange (k # ks) c));
     if k \<noteq> KStr ''Value'' then None
     else do { w' \<leftarrow> path_apply f c ks w; Some (VContainer w' updated) } }"
| "path_apply f c (k # ks) v = do {
     x \<leftarrow> vget v k;
     y \<leftarrow> path_apply f c ks x;
     vset v k y }"

definition apply_Update :: "key \<Rightarrow> ref option \<Rightarrow> val \<Rightarrow> val option" where
  "apply_Update k after v = (case v of
     VContainer w refs \<Rightarrow> Some (VContainer w (case after of
         None \<Rightarrow> fmdrop k refs | Some r \<Rightarrow> fmupd k r (fmdrop k refs)))
   | _ \<Rightarrow> None)"

section \<open>Apply\<close>

text \<open>The keys that \<open>Run.ApplyTo\<close> visits.\<close>

definition run_keys :: "int \<Rightarrow> int \<Rightarrow> key list" where
  "run_keys off n = map KInt [off..off + n - 1]"

function apply_change :: "change \<Rightarrow> val \<Rightarrow> val option" where
  "apply_change (Replace r) v = apply_Replace r v"
| "apply_change (Splice s) v = (case v of VColl c \<Rightarrow> map_option VColl (coll_splice c s) | _ \<Rightarrow> None)"
| "apply_change (Move m) v = (case v of VColl c \<Rightarrow> map_option VColl (coll_move c m) | _ \<Rightarrow> None)"
| "apply_change (ChangeSet cs) v =
     foldM (\<lambda>v c. case c of None \<Rightarrow> Some v | Some c \<Rightarrow> apply_change c v) v cs"
| "apply_change (PathChange p c) v =
     path_apply (\<lambda>v. case c of None \<Rightarrow> Some v | Some c \<Rightarrow> apply_change c v) c p v"
| "apply_change (Meta d c) v = (case c of None \<Rightarrow> Some v | Some c \<Rightarrow> apply_change c v)"
| "apply_change (Run off n c) v = foldM (\<lambda>v k.
     path_apply (\<lambda>v. case c of None \<Rightarrow> Some v | Some c \<Rightarrow> apply_change c v) c [k] v) v (run_keys off n)"
| "apply_change (Update k b a) v = apply_Update k a v"
  by pat_completeness auto
termination
  by (relation "measure (\<lambda>(c, v). size c)") (auto dest: size_change_mem)

text \<open>The call \<open>v.Apply(ctx, c)\<close>, where \<open>c\<close> may be nil.\<close>

definition Apply :: "val \<Rightarrow> change option \<Rightarrow> val option" where
  "Apply v c = (case c of None \<Rightarrow> Some v | Some c \<Rightarrow> apply_change c v)"

lemma Apply_simps [simp]: "Apply v None = Some v" "Apply v (Some c) = apply_change c v"
  by (simp_all add: Apply_def)

lemma apply_compound [simp]:
  "apply_change (ChangeSet cs) v = foldM Apply v cs"
  "apply_change (PathChange p c) v = path_apply (\<lambda>v. Apply v c) c p v"
  "apply_change (Meta d c) v = Apply v c"
  "apply_change (Run off n c) v = foldM (\<lambda>v k. path_apply (\<lambda>v. Apply v c) c [k] v) v (run_keys off n)"
  by (simp_all add: Apply_def [abs_def])

declare apply_change.simps(4-7) [simp del]

text \<open>
  \<open>Collection.ApplyCollection\<close>: the string types and the counter know their basic changes
  only, an array hands any other change to \<open>Apply\<close> and asserts that a collection came back.
\<close>

definition ApplyCollection :: "coll \<Rightarrow> change \<Rightarrow> coll option" where
  "ApplyCollection cl c = (case c of
     Splice s \<Rightarrow> coll_splice cl s
   | Move m \<Rightarrow> coll_move cl m
   | _ \<Rightarrow> (case cl of
       CA a \<Rightarrow> do {
         v \<leftarrow> apply_change c (VA a);
         (case v of VColl r \<Rightarrow> Some r | _ \<Rightarrow> None) }
     | _ \<Rightarrow> None))"

end
