(* ===== verification/Dot_Merge_Basic.thy ===== *)
theory Dot_Merge_Basic
  imports Dot_Apply
begin

text \<open>
  How the three basic changes merge with each other: \<open>changes/replace.go\<close>,
  \<open>changes/splice.go\<close> and \<open>changes/move.go\<close>, function by function. A Go method
  \<open>c.Merge(o)\<close> returns the pair \<open>(ox, cx)\<close>, so do the definitions here. A pointer that
  may be nil is an option; the outer option is a panic.
\<close>

type_synonym change_pair = "change option \<times> change option"

section \<open>Replace\<close>

definition Replace_MergeReplace ::
  "replace \<Rightarrow> replace \<Rightarrow> (replace option \<times> replace option)" where
  "Replace_MergeReplace s other =
     (if IsDelete s \<and> IsDelete other then (None, None)
      else (Some (other\<lparr>rBefore := rAfter s\<rparr>), None))"

definition Replace_MergeSplice ::
  "replace \<Rightarrow> splice \<Rightarrow> (splice option \<times> replace option) option" where
  "Replace_MergeSplice s other = do {
     b \<leftarrow> Apply (rBefore s) (Some (Splice other));
     Some (None, Some (s\<lparr>rBefore := b\<rparr>)) }"

definition Replace_MergeMove ::
  "replace \<Rightarrow> move \<Rightarrow> (move option \<times> replace option) option" where
  "Replace_MergeMove s other = do {
     b \<leftarrow> Apply (rBefore s) (Some (Move other));
     Some (None, Some (s\<lparr>rBefore := b\<rparr>)) }"

section \<open>Splice\<close>

definition Splice_MergeReplace ::
  "splice \<Rightarrow> replace \<Rightarrow> (replace option \<times> splice option) option" where
  "Splice_MergeReplace s other = do {
     b \<leftarrow> Apply (rBefore other) (Some (Splice s));
     Some (Some (other\<lparr>rBefore := b\<rparr>), None) }"

definition Splice_MergeSplice ::
  "splice \<Rightarrow> splice \<Rightarrow> (splice option \<times> splice option) option" where
  "Splice_MergeSplice s other =
     (let sstart = sOffset s; send = sOffset s + Count (sBefore s);
          ostart = sOffset other; oend = sOffset other + Count (sBefore other) in
      if send \<le> ostart then
        Some (Some (other\<lparr>sOffset := sOffset other + (Count (sAfter s) - (send - sstart))\<rparr>), Some s)
      else if sstart \<ge> oend then
        Some (Some other, Some (s\<lparr>sOffset := sOffset s + (Count (sAfter other) - (oend - ostart))\<rparr>))
      else if sstart < ostart \<and> send < oend then do {
        ob \<leftarrow> Slice (sBefore other) (send - ostart) (oend - send);
        sb \<leftarrow> Slice (sBefore s) 0 (ostart - sstart);
        Some (Some (other\<lparr>sOffset := sstart + Count (sAfter s), sBefore := ob\<rparr>),
              Some (s\<lparr>sBefore := sb\<rparr>)) }
      else if sstart = ostart \<and> send < oend then do {
        ob \<leftarrow> Slice (sBefore other) (Count (sBefore s)) (Count (sBefore other) - Count (sBefore s));
        sb \<leftarrow> Slice (sBefore s) 0 0;
        Some (Some (other\<lparr>sBefore := ob, sOffset := sOffset other + Count (sAfter s)\<rparr>),
              Some (s\<lparr>sBefore := sb\<rparr>)) }
      else if sstart \<le> ostart \<and> send \<ge> oend then do {
        sliced \<leftarrow> Slice (sBefore s) (ostart - sstart) (oend - ostart);
        sb \<leftarrow> coll_splice (sBefore s)
                \<lparr>sOffset = ostart - sstart, sBefore = sliced, sAfter = sAfter other\<rparr>;
        Some (None, Some (s\<lparr>sBefore := sb\<rparr>)) }
      else if sstart > ostart \<and> send \<le> oend then do {
        sliced \<leftarrow> Slice (sBefore other) (sstart - ostart) (send - sstart);
        ob \<leftarrow> coll_splice (sBefore other)
                \<lparr>sOffset = sstart - ostart, sBefore = sliced, sAfter = sAfter s\<rparr>;
        Some (Some (other\<lparr>sBefore := ob\<rparr>), None) }
      else do {
        ob \<leftarrow> Slice (sBefore other) 0 (sstart - ostart);
        sb \<leftarrow> Slice (sBefore s) (oend - sstart) (send - oend);
        Some (Some (other\<lparr>sBefore := ob\<rparr>),
              Some (s\<lparr>sOffset := ostart + Count (sAfter other), sBefore := sb\<rparr>)) })"

text \<open>Splice against Move.\<close>

definition mergeNonOverlappingMove :: "splice \<Rightarrow> move \<Rightarrow> change_pair option" where
  "mergeNonOverlappingMove s o1 =
     (let odest = dest o1; beforeSize = Count (sBefore s);
          diff = Count (sAfter s) - beforeSize in
      if odest > sOffset s \<and> odest < sOffset s + beforeSize then do {
        let right = sOffset s + beforeSize - odest;
        b1 \<leftarrow> Slice (sBefore s) 0 (odest - sOffset s);
        empty \<leftarrow> Slice (sBefore s) 0 0;
        b2 \<leftarrow> Slice (sBefore s) (odest - sOffset s) right;
        let s1 = s\<lparr>sBefore := b1\<rparr>;
        let s2 = \<lparr>sOffset = mOffset o1 + mCount o1 + mDistance o1, sBefore = b2, sAfter = empty\<rparr>;
        if mOffset o1 < sOffset s
        then Some (Some (Move (o1\<lparr>mDistance := mDistance o1 + (right + diff)\<rparr>)),
                   Some (ChangeSet [Some (Splice s2),
                     Some (Splice (s1\<lparr>sOffset := sOffset s1 - mCount o1\<rparr>))]))
        else Some (Some (Move (o1\<lparr>mDistance := mDistance o1 + right,
                                  mOffset := mOffset o1 + diff\<rparr>)),
                   Some (ChangeSet [Some (Splice s2), Some (Splice s1)])) }
      else if odest \<le> sOffset s then
        (if mOffset o1 > sOffset s
         then Some (Some (Move (o1\<lparr>mOffset := mOffset o1 + diff, mDistance := mDistance o1 - diff\<rparr>)),
                    Some (Splice (s\<lparr>sOffset := sOffset s + mCount o1\<rparr>)))
         else Some (Some (Move o1), Some (Splice s)))
      else if odest \<ge> sOffset s + Count (sBefore s) then
        (if mOffset o1 > sOffset s
         then Some (Some (Move (o1\<lparr>mOffset := mOffset o1 + diff\<rparr>)), Some (Splice s))
         else Some (Some (Move (o1\<lparr>mDistance := mDistance o1 + diff\<rparr>)),
                    Some (Splice (s\<lparr>sOffset := sOffset s - mCount o1\<rparr>))))
      else Some (Some (Move o1), Some (Splice s)))"

definition mergeContainedMove :: "splice \<Rightarrow> move \<Rightarrow> change_pair option" where
  "mergeContainedMove s o1 =
     (let beforeSize = Count (sBefore s); odest = dest o1 in
      if odest \<ge> sOffset s \<and> odest \<le> sOffset s + beforeSize then do {
        b \<leftarrow> coll_move (sBefore s) (o1\<lparr>mOffset := mOffset o1 - sOffset s\<rparr>);
        Some (None, Some (Splice (s\<lparr>sBefore := b\<rparr>))) }
      else do {
        sliced \<leftarrow> Slice (sBefore s) (mOffset o1 - sOffset s) (mCount o1);
        empty \<leftarrow> Slice sliced 0 0;
        spliced \<leftarrow> coll_splice (sBefore s)
          \<lparr>sOffset = mOffset o1 - sOffset s, sBefore = sliced, sAfter = empty\<rparr>;
        if odest < sOffset s
        then Some (Some (Splice \<lparr>sOffset = odest, sBefore = empty, sAfter = sliced\<rparr>),
                   Some (Splice \<lparr>sOffset = sOffset s + mCount o1, sBefore = spliced,
                                 sAfter = sAfter s\<rparr>))
        else Some (Some (Splice \<lparr>sOffset = odest + Count (sAfter s) - beforeSize,
                                 sBefore = empty, sAfter = sliced\<rparr>),
                   Some (Splice (s\<lparr>sBefore := spliced\<rparr>))) })"

text \<open>
  The last part of \<open>Splice.MergeMove\<close>: the move is split into the part that overlaps the
  splice, which is undone first, and the rest.
\<close>

definition move_rest_undo :: "splice \<Rightarrow> move \<Rightarrow> move \<times> move" where
  "move_rest_undo s o1 =
     (let beforeSize = Count (sBefore s) in
      if mOffset o1 > sOffset s then
        (let left = sOffset s + beforeSize - mOffset o1 in
         if mDistance o1 < 0
         then (\<lparr>mOffset = mOffset o1 + left, mCount = mCount o1 - left,
                mDistance = mDistance o1 - left\<rparr>,
               \<lparr>mOffset = mOffset o1 + mDistance o1, mCount = left,
                mDistance = mCount o1 - left - mDistance o1\<rparr>)
         else (\<lparr>mOffset = mOffset o1 + left, mCount = mCount o1 - left,
                mDistance = mDistance o1\<rparr>,
               \<lparr>mOffset = mOffset o1 + mDistance o1, mCount = left,
                mDistance = - mDistance o1\<rparr>))
      else
        (let right = mOffset o1 + mCount o1 - sOffset s; rc = mCount o1 - right in
         if mDistance o1 < 0
         then (\<lparr>mOffset = mOffset o1, mCount = rc, mDistance = mDistance o1\<rparr>,
               \<lparr>mOffset = mOffset o1 + mDistance o1 + rc, mCount = right,
                mDistance = - mDistance o1\<rparr>)
         else (\<lparr>mOffset = mOffset o1, mCount = rc, mDistance = mDistance o1 + right\<rparr>,
               \<lparr>mOffset = mOffset o1 + mDistance o1 + rc, mCount = right,
                mDistance = right - mDistance o1 - mCount o1\<rparr>)))"

definition Splice_MergeMove :: "splice \<Rightarrow> move \<Rightarrow> change_pair option" where
  "Splice_MergeMove s o1 =
     (let beforeSize = Count (sBefore s) in
      if mOffset o1 \<ge> sOffset s \<and> mOffset o1 + mCount o1 \<le> sOffset s + beforeSize
      then mergeContainedMove s o1
      else if mOffset o1 \<le> sOffset s \<and> mOffset o1 + mCount o1 \<ge> sOffset s + beforeSize
      then Some (Some (Move (o1\<lparr>mCount := mCount o1 + (Count (sAfter s) - beforeSize)\<rparr>)),
                 Some (Splice (s\<lparr>sOffset := sOffset s + mDistance o1\<rparr>)))
      else if mOffset o1 \<ge> sOffset s + beforeSize \<or> sOffset s \<ge> mOffset o1 + mCount o1
      then mergeNonOverlappingMove s o1
      else (let (rest, undo) = move_rest_undo s o1 in do {
        (ox, sx) \<leftarrow> mergeNonOverlappingMove s rest;
        Some (ox, Some (case sx of
            Some (ChangeSet a) \<Rightarrow> ChangeSet (Some (Move undo) # a)
          | _ \<Rightarrow> ChangeSet [Some (Move undo), sx])) }))"

section \<open>Move\<close>

definition mapPoint :: "move \<Rightarrow> int \<Rightarrow> int" where
  "mapPoint m idx =
     (if idx \<ge> mOffset m + mDistance m \<and> idx \<le> mOffset m then idx + mCount m
      else if idx \<ge> mOffset m + mCount m \<and> idx < mOffset m + mCount m + mDistance m
      then idx - mCount m
      else idx)"

definition withDest :: "move \<Rightarrow> int \<Rightarrow> move" where
  "withDest m d =
     (let dist = d - mOffset m - mCount m in
      m\<lparr>mDistance := (if dist < 0 then d - mOffset m else dist)\<rparr>)"

definition contains :: "move \<Rightarrow> int \<Rightarrow> bool" where
  "contains m idx \<longleftrightarrow> idx > mOffset m \<and> idx < mOffset m + mCount m"

definition mergeMoveNoOverlapContainedDest :: "move \<Rightarrow> move \<Rightarrow> move list \<times> move list" where
  "mergeMoveNoOverlapContainedDest m o1 =
     (let mdest = dest m; odest = dest o1;
          mdestNew = (if mdest \<ge> odest \<and> mdest \<le> mOffset o1 then mdest + mCount o1
                      else if mdest > mOffset o1 \<and> mdest \<le> odest then mdest - mCount o1
                      else mdest);
          off1 = (if mOffset o1 \<le> mOffset m then mOffset m - mCount o1 else mOffset m);
          cnt1 = mCount m + mCount o1;
          m1 = \<lparr>mOffset = off1, mCount = cnt1,
                mDistance = (if mdestNew \<le> off1 then mdestNew - off1
                             else mdestNew - off1 - cnt1)\<rparr>;
          ooff = (if mOffset o1 > mOffset m \<and> mOffset o1 < mdest then mOffset o1 - mCount m
                  else if mOffset o1 \<ge> mdest \<and> mOffset o1 < mOffset m then mOffset o1 + mCount m
                  else mOffset o1);
          odest' = odest + mDistance m;
          ox = \<lparr>mOffset = ooff, mCount = mCount o1,
                mDistance = (if odest' \<le> ooff then odest' - ooff
                             else odest' - ooff - mCount o1)\<rparr>
      in ([ox], [m1]))"

definition mergeMoveNoOverlapNoDestMixups :: "move \<Rightarrow> move \<Rightarrow> move list \<times> move list" where
  "mergeMoveNoOverlapNoDestMixups m o1 =
     (let mdest = dest m; odest = dest o1;
          ox = withDest \<lparr>mOffset = mapPoint m (mOffset o1), mCount = mCount o1, mDistance = 0\<rparr>
                 (mapPoint m odest);
          ox' = (if odest = mdest then withDest ox (mOffset m + mDistance m) else ox);
          m1 = withDest \<lparr>mOffset = mapPoint o1 (mOffset m), mCount = mCount m, mDistance = 0\<rparr>
                 (mapPoint o1 mdest)
      in ([ox'], [m1]))"

definition mergeMoveNoOverlapMixedDests :: "move \<Rightarrow> move \<Rightarrow> move list \<times> move list" where
  "mergeMoveNoOverlapMixedDests m o1 =
     (let mdest = dest m; odest = dest o1;
          lcount = mdest - mOffset o1;
          rcount = mCount o1 - lcount;
          oleft = \<lparr>mOffset = mOffset m + mDistance m - lcount, mCount = lcount,
                   mDistance = odest - mOffset m\<rparr>;
          oright = \<lparr>mOffset = mOffset m + mDistance m + mCount m, mCount = rcount,
                    mDistance = odest - mOffset m - mCount m\<rparr>;
          distance = mOffset o1 - mOffset m - mCount m;
          distance' = (if distance < 0 then - (mOffset m - mOffset o1 - mCount o1) else distance);
          mx = \<lparr>mOffset = mOffset o1 + mDistance o1 - (odest - mOffset m),
                mCount = mCount m + mCount o1, mDistance = distance'\<rparr>
      in ([oleft, oright], [mx]))"

text \<open>\<open>mergeMoveNoOverlap\<close> calls itself once at most, with the arguments exchanged.\<close>

function mergeMoveNoOverlap :: "move \<Rightarrow> move \<Rightarrow> move list \<times> move list" where
  "mergeMoveNoOverlap m o1 =
     (let mdest = dest m; odest = dest o1 in
      if \<not> contains m odest \<and> \<not> contains o1 mdest then mergeMoveNoOverlapNoDestMixups m o1
      else if contains m odest \<and> contains o1 mdest then mergeMoveNoOverlapMixedDests m o1
      else if contains o1 mdest then prod.swap (mergeMoveNoOverlap o1 m)
      else mergeMoveNoOverlapContainedDest m o1)"
  by pat_completeness auto
termination
  by (relation "measure (\<lambda>(m, o1). if contains o1 (dest m) \<and> \<not> contains m (dest o1) then 1 else 0)")
    auto

declare mergeMoveNoOverlap.simps [simp del]

definition mergeMoveRightOverlap :: "move \<Rightarrow> move \<Rightarrow> move list \<times> move list" where
  "mergeMoveRightOverlap m o1 =
     (let overlapSize = mOffset m + mCount m - mOffset o1;
          overlapUndo = \<lparr>mOffset = mOffset o1 + mDistance o1, mCount = overlapSize,
            mDistance = (if mDistance o1 > 0 then - mDistance o1
                         else mCount o1 - overlapSize - mDistance o1)\<rparr>;
          non = \<lparr>mOffset = mOffset o1 + overlapSize, mCount = mCount o1 - overlapSize,
            mDistance = (if mDistance o1 > 0 then mDistance o1
                         else mDistance o1 - overlapSize)\<rparr>;
          (l, r) = mergeMoveNoOverlap m non
      in (l, overlapUndo # r))"

definition mergeMoveContained :: "move \<Rightarrow> move \<Rightarrow> move list \<times> move list" where
  "mergeMoveContained m o1 =
     (let odest = dest o1; ox = o1\<lparr>mOffset := mOffset o1 + mDistance m\<rparr> in
      if mOffset m \<le> odest \<and> odest \<le> mOffset m + mCount m then ([ox], [m])
      else if odest = dest m then
        (let mx = m\<lparr>mCount := mCount m - mCount o1,
                    mOffset := (if mDistance o1 < 0 then mOffset m + mCount o1 else mOffset m)\<rparr>
         in ([withDest ox (mOffset m + mDistance m)],
             [withDest mx (mOffset o1 + mCount o1 + mDistance o1)]))
      else
        (let mx = m\<lparr>mOffset := mapPoint o1 (mOffset m), mCount := mCount m - mCount o1\<rparr>
         in ([withDest ox (mapPoint m odest)], [withDest mx (mapPoint o1 (dest m))])))"

definition Move_MergeMove :: "move \<Rightarrow> move \<Rightarrow> move list \<times> move list" where
  "Move_MergeMove m o1 =
     (if m = o1 then ([], [])
      else if mDistance m = 0 \<or> mCount m = 0 \<or> mDistance o1 = 0 \<or> mCount o1 = 0
      then ([o1], [m])
      else if mOffset m \<ge> mOffset o1 + mCount o1 \<or> mOffset o1 \<ge> mOffset m + mCount m
      then mergeMoveNoOverlap m o1
      else if mOffset m \<le> mOffset o1 \<and> mOffset m + mCount m \<ge> mOffset o1 + mCount o1
      then mergeMoveContained m o1
      else if mOffset m \<ge> mOffset o1 \<and> mOffset m + mCount m \<le> mOffset o1 + mCount o1
      then prod.swap (mergeMoveContained o1 m)
      else if mOffset m < mOffset o1 then mergeMoveRightOverlap m o1
      else prod.swap (mergeMoveRightOverlap o1 m))"

text \<open>
  \<open>movesToChange\<close> starts from \<open>make([]Change, len(m))\<close>, a slice that already holds one
  nil per move, and appends to it: the nils stay in front of the moves.
\<close>

definition movesToChange :: "move list \<Rightarrow> change option" where
  "movesToChange ms =
     (let result = replicate (length ms) None
            @ map (Some \<circ> Move) (filter (\<lambda>m. mCount m \<noteq> 0 \<and> mDistance m \<noteq> 0) ms) in
      case result of [] \<Rightarrow> None | [c] \<Rightarrow> c | _ \<Rightarrow> Some (ChangeSet result))"

definition Move_MergeReplace ::
  "move \<Rightarrow> replace \<Rightarrow> (replace option \<times> splice option) option" where
  "Move_MergeReplace m other = do {
     b \<leftarrow> Apply (rBefore other) (Some (Move m));
     Some (Some (other\<lparr>rBefore := b\<rparr>), None) }"

definition Move_MergeSplice :: "move \<Rightarrow> splice \<Rightarrow> change_pair option" where
  "Move_MergeSplice m s = do { (x, y) \<leftarrow> Splice_MergeMove s m; Some (y, x) }"

end
