(* ===== verification/Dot_Merge.thy ===== *)
theory Dot_Merge
  imports Dot_Merge_Basic
begin

text \<open>
  \<open>Merge\<close> and \<open>ReverseMerge\<close> of every change type. Go calls these methods through the
  interfaces \<open>Change\<close> and \<open>Custom\<close>; here each method takes the two dispatchers as
  arguments: \<open>M c o\<close> is the call \<open>c.Merge(o)\<close> and \<open>RM c o\<close> the call
  \<open>c.ReverseMerge(o)\<close> on a non-nil receiver.

  The dispatchers are then closed over the methods by recursion on a fuel argument, which
  bounds the depth of nested interface calls: \<open>cMerge n\<close>, \<open>cReverseMerge n\<close>. The result
  \<open>None\<close> is a panic or an exhausted bound, and more fuel never changes a result.
  Two single moves can split each other, so the source gives no bound of its own for
  sets of moves; for changes without moves the theory \<open>Dot_Termination\<close> proves that some
  amount of fuel suffices.
\<close>

type_synonym merge_fun = "change \<Rightarrow> change option \<Rightarrow> change_pair option"

definition swap_pair :: "change_pair option \<Rightarrow> change_pair option" where
  "swap_pair r = map_option prod.swap r"

definition change_of :: "('a \<Rightarrow> change) \<Rightarrow> 'a option \<Rightarrow> change option" where
  "change_of = map_option"

section \<open>Basic changes\<close>

definition Replace_Merge :: "merge_fun \<Rightarrow> replace \<Rightarrow> change option \<Rightarrow> change_pair option" where
  "Replace_Merge RM s other = (case other of
     None \<Rightarrow> Some (None, Some (Replace s))
   | Some (Replace x) \<Rightarrow> (let (a, b) = Replace_MergeReplace s x in
       Some (change_of Replace a, change_of Replace b))
   | Some (Splice x) \<Rightarrow> do {
       (a, b) \<leftarrow> Replace_MergeSplice s x; Some (change_of Splice a, change_of Replace b) }
   | Some (Move x) \<Rightarrow> do {
       (a, b) \<leftarrow> Replace_MergeMove s x; Some (change_of Move a, change_of Replace b) }
   | Some x \<Rightarrow> swap_pair (RM x (Some (Replace s))))"

definition Splice_Merge :: "merge_fun \<Rightarrow> splice \<Rightarrow> change option \<Rightarrow> change_pair option" where
  "Splice_Merge RM s other = (case other of
     None \<Rightarrow> Some (None, Some (Splice s))
   | Some (Replace x) \<Rightarrow> do {
       (a, b) \<leftarrow> Splice_MergeReplace s x; Some (change_of Replace a, change_of Splice b) }
   | Some (Splice x) \<Rightarrow> do {
       (a, b) \<leftarrow> Splice_MergeSplice s x; Some (change_of Splice a, change_of Splice b) }
   | Some (Move x) \<Rightarrow> Splice_MergeMove s x
   | Some x \<Rightarrow> swap_pair (RM x (Some (Splice s))))"

definition Move_Merge :: "merge_fun \<Rightarrow> move \<Rightarrow> change option \<Rightarrow> change_pair option" where
  "Move_Merge RM m other = (case other of
     None \<Rightarrow> Some (None, Some (Move m))
   | Some (Replace x) \<Rightarrow> do {
       (a, b) \<leftarrow> Move_MergeReplace m x; Some (change_of Replace a, change_of Splice b) }
   | Some (Splice x) \<Rightarrow> Move_MergeSplice m x
   | Some (Move x) \<Rightarrow> (let (l, r) = Move_MergeMove m x in Some (movesToChange l, movesToChange r))
   | Some x \<Rightarrow> swap_pair (RM x (Some (Move m))))"

section \<open>ChangeSet\<close>

text \<open>The package function \<open>Merge\<close>: the receiver may be nil.\<close>

definition Merge_nil :: "merge_fun \<Rightarrow> change option \<Rightarrow> change option \<Rightarrow> change_pair option" where
  "Merge_nil M c1 c2 = (case c1 of None \<Rightarrow> Some (c2, c1) | Some c \<Rightarrow> M c c2)"

fun ChangeSet_Merge_loop ::
  "merge_fun \<Rightarrow> change option list \<Rightarrow> change option \<Rightarrow> (change option \<times> change option list) option" where
  "ChangeSet_Merge_loop M [] other = Some (other, [])"
| "ChangeSet_Merge_loop M (elt # c) other = do {
     (other, res) \<leftarrow> Merge_nil M elt other;
     (other, results) \<leftarrow> ChangeSet_Merge_loop M c other;
     Some (other, res # results) }"

definition ChangeSet_Merge ::
  "merge_fun \<Rightarrow> change option list \<Rightarrow> change option \<Rightarrow> change_pair option" where
  "ChangeSet_Merge M c other = do {
     (other, results) \<leftarrow> ChangeSet_Merge_loop M c other;
     Some (other, ChangeSet_Simplify results) }"

fun ChangeSet_ReverseMerge_loop ::
  "merge_fun \<Rightarrow> change option list \<Rightarrow> change option \<Rightarrow> (change option \<times> change option list) option" where
  "ChangeSet_ReverseMerge_loop M [] other = Some (other, [])"
| "ChangeSet_ReverseMerge_loop M (elt # c) other = do {
     (res, other) \<leftarrow> Merge_nil M other elt;
     (other, results) \<leftarrow> ChangeSet_ReverseMerge_loop M c other;
     Some (other, res # results) }"

definition ChangeSet_ReverseMerge ::
  "merge_fun \<Rightarrow> change option list \<Rightarrow> change option \<Rightarrow> change_pair option" where
  "ChangeSet_ReverseMerge M c other = do {
     (other, results) \<leftarrow> ChangeSet_ReverseMerge_loop M c other;
     Some (other, ChangeSet_Simplify results) }"

section \<open>PathChange\<close>

fun commonPrefixLen :: "key list \<Rightarrow> key list \<Rightarrow> nat" where
  "commonPrefixLen (a # as) (b # bs) = (if a = b then Suc (commonPrefixLen as bs) else 0)"
| "commonPrefixLen as bs = 0"

definition prefixMerge :: "merge_fun \<Rightarrow> merge_fun \<Rightarrow> key list \<Rightarrow> change option \<Rightarrow> change option
    \<Rightarrow> bool \<Rightarrow> change_pair option" where
  "prefixMerge M RM prefix l r reverse = do {
     (l, r) \<leftarrow>
       (case l of
          Some lc \<Rightarrow>
            if is_custom lc \<and> reverse then RM lc r
            else if reverse \<and> r \<noteq> None then swap_pair (M (the r) l)
            else M lc r
        | None \<Rightarrow>
            if reverse \<and> r \<noteq> None then swap_pair (M (the r) l)
            else if \<not> reverse then Some (r, l)
            else Some (l, r));
     Some (Some (PathChange prefix l), Some (PathChange prefix r)) }"

definition updateSubPathIndex :: "key list \<Rightarrow> change option \<Rightarrow> key list \<Rightarrow> change option \<Rightarrow> int
    \<Rightarrow> change_pair" where
  "updateSubPathIndex p c q d idx =
     (Some (PathChange (q[length p := KInt idx]) d), Some (PathChange p c))"

definition mergeSubPath :: "merge_fun \<Rightarrow> merge_fun \<Rightarrow> key list \<Rightarrow> change option \<Rightarrow> key list
    \<Rightarrow> change option \<Rightarrow> bool \<Rightarrow> change_pair option" where
  "mergeSubPath M RM p c q d reverse =
     (let sub = drop (length p) q; pc = Some (PathChange p c); po = Some (PathChange q d) in
      case c of
        None \<Rightarrow> Some (po, None)
      | Some (Replace ch) \<Rightarrow> do {
          b \<leftarrow> Apply (rBefore ch) (Some (PathChange sub d));
          Some (None, Some (PathChange p (Some (Replace (ch\<lparr>rBefore := b\<rparr>))))) }
      | Some (Splice ch) \<Rightarrow> do {
          idx \<leftarrow> key_int (hd sub);
          let beforeSize = Count (sBefore ch); afterSize = Count (sAfter ch) in
          if idx < sOffset ch then Some (po, pc)
          else if idx \<ge> sOffset ch + beforeSize
          then Some (updateSubPathIndex p c q d (idx + afterSize - beforeSize))
          else do {
            b \<leftarrow> ApplyCollection (sBefore ch) (PathChange (KInt (idx - sOffset ch) # tl sub) d);
            Some (None, Some (PathChange p (Some (Splice (ch\<lparr>sBefore := b\<rparr>))))) } }
      | Some (Move ch) \<Rightarrow> do {
          idx \<leftarrow> key_int (hd sub);
          let mdest = dest ch; mend = mOffset ch + mCount ch in
          if idx \<ge> mOffset ch \<and> idx < mend
          then Some (updateSubPathIndex p c q d (idx + mDistance ch))
          else if idx \<ge> mdest \<and> idx < mOffset ch
          then Some (updateSubPathIndex p c q d (idx + mCount ch))
          else if idx \<ge> mend \<and> idx < mdest
          then Some (updateSubPathIndex p c q d (idx - mCount ch))
          else Some (po, pc) }
      | Some _ \<Rightarrow> prefixMerge M RM p c (Some (PathChange sub d)) reverse)"

definition mergePathChange :: "merge_fun \<Rightarrow> merge_fun \<Rightarrow> key list \<Rightarrow> change option \<Rightarrow> key list
    \<Rightarrow> change option \<Rightarrow> bool \<Rightarrow> change_pair option" where
  "mergePathChange M RM p c q d reverse =
     (let prefixLen = commonPrefixLen p q in
      if length p \<noteq> prefixLen \<and> length q \<noteq> prefixLen
      then Some (Some (PathChange q d), Some (PathChange p c))
      else if length p = prefixLen \<and> length q = prefixLen
      then prefixMerge M RM p c d reverse
      else if length p = prefixLen then mergeSubPath M RM p c q d reverse
      else swap_pair (mergeSubPath M RM q d p c (\<not> reverse)))"

text \<open>The type assertion \<open>o.(PathChange)\<close>; any other change is wrapped in an empty path.\<close>

definition as_path :: "change option \<Rightarrow> key list \<times> change option" where
  "as_path c = (case c of Some (PathChange q d) \<Rightarrow> (q, d) | _ \<Rightarrow> ([], c))"

definition PathChange_Merge :: "merge_fun \<Rightarrow> merge_fun \<Rightarrow> key list \<Rightarrow> change option
    \<Rightarrow> change option \<Rightarrow> change_pair option" where
  "PathChange_Merge M RM p c other =
     (let (q, d) = as_path other in mergePathChange M RM p c q d False)"

definition PathChange_ReverseMerge :: "merge_fun \<Rightarrow> merge_fun \<Rightarrow> key list \<Rightarrow> change option
    \<Rightarrow> change option \<Rightarrow> change_pair option" where
  "PathChange_ReverseMerge M RM p c other =
     (let (q, d) = as_path other in mergePathChange M RM p c q d True)"

section \<open>Meta\<close>

definition Meta_Merge ::
  "merge_fun \<Rightarrow> key \<Rightarrow> change option \<Rightarrow> change option \<Rightarrow> change_pair option" where
  "Meta_Merge M d c other = (case c of
     None \<Rightarrow> Some (other, Some (Meta d c))
   | Some mc \<Rightarrow> do { (other, mx) \<leftarrow> M mc other; Some (other, Some (Meta d mx)) })"

definition Meta_ReverseMerge ::
  "merge_fun \<Rightarrow> key \<Rightarrow> change option \<Rightarrow> change option \<Rightarrow> change_pair option" where
  "Meta_ReverseMerge M d mc c = (case c of
     None \<Rightarrow> Some (c, Some (Meta d mc))
   | Some cc \<Rightarrow> do { (mx, cx) \<leftarrow> M cc mc; Some (cx, Some (Meta d mx)) })"

section \<open>Run\<close>

text \<open>\<open>Run.apply\<close>: Apply and the assertion that a collection came back.\<close>

definition Run_apply :: "coll \<Rightarrow> change \<Rightarrow> coll option" where
  "Run_apply v c = do {
     r \<leftarrow> apply_change c (VColl v); (case r of VColl x \<Rightarrow> Some x | _ \<Rightarrow> None) }"

definition Run_mergeSplice ::
  "int \<Rightarrow> int \<Rightarrow> change option \<Rightarrow> splice \<Rightarrow> change_pair option" where
  "Run_mergeSplice off n rc o1 =
     (let oEnd = sOffset o1 + Count (sBefore o1); rEnd = off + n in
      if off \<ge> oEnd then
        Some (Some (Splice o1),
              Some (Run (off + (Count (sAfter o1) - Count (sBefore o1))) n rc))
      else if rEnd \<le> sOffset o1 then Some (Some (Splice o1), Some (Run off n rc))
      else if off \<ge> sOffset o1 \<and> rEnd \<le> oEnd then do {
        b \<leftarrow> Run_apply (sBefore o1) (Run (off - sOffset o1) n rc);
        Some (Some (Splice (o1\<lparr>sBefore := b\<rparr>)), None) }
      else if off \<le> sOffset o1 \<and> rEnd \<ge> oEnd then do {
        b \<leftarrow> Run_apply (sBefore o1) (Run 0 (Count (sBefore o1)) rc);
        let left = Run off (sOffset o1 - off) rc;
        let right = Run (sOffset o1 + Count (sAfter o1)) (rEnd - oEnd) rc;
        Some (Some (Splice (o1\<lparr>sBefore := b\<rparr>)), Some (ChangeSet [Some left, Some right])) }
      else if off < sOffset o1 \<and> sOffset o1 < rEnd then do {
        b \<leftarrow> Run_apply (sBefore o1) (Run 0 (rEnd - sOffset o1) rc);
        Some (Some (Splice (o1\<lparr>sBefore := b\<rparr>)), Some (Run off (sOffset o1 - off) rc)) }
      else if off > sOffset o1 \<and> off < oEnd then do {
        b \<leftarrow> Run_apply (sBefore o1) (Run (off - sOffset o1) (oEnd - off) rc);
        Some (Some (Splice (o1\<lparr>sBefore := b\<rparr>)),
              Some (Run (sOffset o1 + Count (sAfter o1)) (rEnd - oEnd) rc)) }
      else Some (Some (Splice o1), Some (Run off n rc)))"

text \<open>\<open>splitRuns\<close> on the list of runs, each with the same inner change.\<close>

definition splitRuns :: "(int \<times> int) list \<Rightarrow> int \<Rightarrow> (int \<times> int) list" where
  "splitRuns runs idx = concat (map (\<lambda>(off, n).
     if idx > off \<and> idx < off + n then [(off, idx - off), (idx, n + off - idx)] else [(off, n)])
     runs)"

definition runs_change :: "(int \<times> int) list \<Rightarrow> change option \<Rightarrow> change option list" where
  "runs_change runs rc = map (\<lambda>(off, n). Some (Run off n rc)) runs"

definition Run_mergeMove ::
  "merge_fun \<Rightarrow> int \<Rightarrow> int \<Rightarrow> change option \<Rightarrow> move \<Rightarrow> change_pair option" where
  "Run_mergeMove M off n rc o1 =
     (let rEnd = off + n; oEnd = mOffset o1 + mCount o1;
          oDest = (if mDistance o1 < 0 then mOffset o1 + mDistance o1 else oEnd + mDistance o1);
          ret = (\<lambda>off'. Some (Some (Move o1), Some (Run off' n rc))) in
      if rEnd \<le> mOffset o1 \<and> rEnd \<le> oDest then ret off
      else if off \<ge> oDest \<and> rEnd \<le> mOffset o1 then ret (off + mCount o1)
      else if off \<ge> mOffset o1 \<and> rEnd \<le> oEnd then ret (off + mDistance o1)
      else if off \<ge> oEnd \<and> rEnd \<le> oDest then ret (off - mCount o1)
      else if off \<ge> oEnd \<and> rEnd \<ge> oDest then ret off
      else ChangeSet_Merge M
        (runs_change (splitRuns (splitRuns (splitRuns [(off, n)] oDest) (mOffset o1)) oEnd) rc)
        (Some (Move o1)))"

text \<open>The inner changes, merged with the right one as the receiver.\<close>

definition ordered_merge ::
  "merge_fun \<Rightarrow> change option \<Rightarrow> change option \<Rightarrow> bool \<Rightarrow> change_pair option" where
  "ordered_merge M rc oc reverse =
     (if reverse \<and> oc \<noteq> None then swap_pair (M (the oc) rc)
      else (case rc of Some c \<Rightarrow> M c oc | None \<Rightarrow> None))"

definition Run_mergeRun :: "merge_fun \<Rightarrow> int \<Rightarrow> int \<Rightarrow> change option \<Rightarrow> int \<Rightarrow> int
    \<Rightarrow> change option \<Rightarrow> bool \<Rightarrow> change_pair option" where
  "Run_mergeRun M off n rc ooff on oc reverse =
     (let rEnd = off + n; oEnd = ooff + on in
      if rEnd \<le> ooff \<or> oEnd \<le> off
      then Some (Some (Run ooff on oc), Some (Run off n rc))
      else if off = ooff \<and> rEnd = oEnd then do {
        (ox, rx) \<leftarrow> ordered_merge M rc oc reverse;
        Some (Some (Run ooff on ox), Some (Run off n rx)) }
      else
        (let left = runs_change (splitRuns (splitRuns [(off, n)] ooff) oEnd) rc;
             right = runs_change (splitRuns (splitRuns [(ooff, on)] off) rEnd) oc in
         if reverse then swap_pair (ChangeSet_Merge M right (Some (ChangeSet left)))
         else ChangeSet_Merge M left (Some (ChangeSet right))))"

text \<open>
  \<open>Run.merge\<close> and \<open>Run.mergePathChange\<close> call each other for an empty path; that
  recursion is unrolled by following the empty paths of the other change first.
\<close>

definition Run_mergePathElem :: "merge_fun \<Rightarrow> int \<Rightarrow> int \<Rightarrow> change option \<Rightarrow> key list
    \<Rightarrow> change option \<Rightarrow> bool \<Rightarrow> change_pair option" where
  "Run_mergePathElem M off n rc p d reverse = do {
     idx \<leftarrow> key_int (hd p);
     if idx < off \<or> idx \<ge> off + n then Some (Some (PathChange p d), Some (Run off n rc))
     else do {
       let left = (if idx > off then Some (Run off (idx - off) rc) else None);
       let right = (if idx + 1 < off + n then Some (Run (idx + 1) (off + n - idx - 1) rc) else None);
       (ox, mid) \<leftarrow> ordered_merge M rc (Some (PathChange (tl p) d)) reverse;
       Some (Some (PathChange (take 1 p) ox),
             Some (ChangeSet [left, Some (PathChange (take 1 p) mid), right])) } }"

function Run_merge :: "merge_fun \<Rightarrow> merge_fun \<Rightarrow> int \<Rightarrow> int \<Rightarrow> change option \<Rightarrow> change option
    \<Rightarrow> bool \<Rightarrow> change_pair option" where
  "Run_merge M RM off n rc other reverse =
     (if rc = None then Some (other, None)
      else (case other of
        None \<Rightarrow> Some (None, Some (Run off n rc))
      | Some (Replace x) \<Rightarrow> do {
          b \<leftarrow> Apply (rBefore x) (Some (Run off n rc));
          Some (Some (Replace (x\<lparr>rBefore := b\<rparr>)), None) }
      | Some (Splice x) \<Rightarrow> Run_mergeSplice off n rc x
      | Some (Move x) \<Rightarrow> Run_mergeMove M off n rc x
      | Some (Run ooff on oc) \<Rightarrow> Run_mergeRun M off n rc ooff on oc reverse
      | Some (PathChange p d) \<Rightarrow>
          if p = [] then Run_merge M RM off n rc d reverse
          else Run_mergePathElem M off n rc p d reverse
      | Some x \<Rightarrow> swap_pair (if reverse then M x (Some (Run off n rc)) else RM x (Some (Run off n rc)))))"
  by pat_completeness auto
termination
  by (relation "measure (\<lambda>(M, RM, off, n, rc, other, reverse). size_option size other)") auto

declare Run_merge.simps [simp del]

section \<open>Update\<close>

definition Update_merge :: "key \<Rightarrow> ref option \<Rightarrow> ref option \<Rightarrow> key \<Rightarrow> ref option \<Rightarrow> ref option
    \<Rightarrow> change_pair" where
  "Update_merge k b a k' b' a' =
     (if k \<noteq> k' then (Some (Update k' b' a'), Some (Update k b a))
      else (Some (Update k' a a'), None))"

definition Update_mergeRef :: "ref option \<Rightarrow> change \<Rightarrow> ref option option" where
  "Update_mergeRef r c = (case r of
     None \<Rightarrow> Some None
   | Some r \<Rightarrow> do { (r, _) \<leftarrow> Ref_Merge r (Some c); Some (if r = InvalidRef then None else Some r) })"

text \<open>
  \<open>Update.Merge\<close> and \<open>Update.ReverseMerge\<close> share their shape; \<open>reverse\<close> tells the
  two apart. A Splice or a Move is none of the cases and panics.
\<close>

function Update_Merge :: "merge_fun \<Rightarrow> merge_fun \<Rightarrow> key \<Rightarrow> ref option \<Rightarrow> ref option
    \<Rightarrow> change option \<Rightarrow> bool \<Rightarrow> change_pair option" where
  "Update_Merge M RM k b a c reverse =
     (let u = Some (Update k b a) in
      case c of
        None \<Rightarrow> Some (None, u)
      | Some (Replace x) \<Rightarrow> do {
          bx \<leftarrow> Apply (rBefore x) u; Some (Some (Replace (x\<lparr>rBefore := bx\<rparr>)), None) }
      | Some (PathChange p d) \<Rightarrow>
          if p = [] then Update_Merge M RM k b a d reverse
          else do {
            bx \<leftarrow> Update_mergeRef b (PathChange p d);
            ax \<leftarrow> Update_mergeRef a (PathChange p d);
            Some (c, if ax = None \<and> bx = None then None else Some (Update k bx ax)) }
      | Some (Update k' b' a') \<Rightarrow>
          Some (if reverse then prod.swap (Update_merge k' b' a' k b a)
                else Update_merge k b a k' b' a')
      | Some (Splice x) \<Rightarrow> None
      | Some (Move x) \<Rightarrow> None
      | Some x \<Rightarrow> swap_pair (if reverse then M x u else RM x u))"
  by pat_completeness auto
termination
  by (relation "measure (\<lambda>(M, RM, k, b, a, c, reverse). size_option size c)") auto

declare Update_Merge.simps [simp del]

section \<open>The dispatchers\<close>

text \<open>One interface call: the method of the receiver's type.\<close>

definition Merge_step :: "merge_fun \<Rightarrow> merge_fun \<Rightarrow> merge_fun" where
  "Merge_step M RM c other = (case c of
     Replace s \<Rightarrow> Replace_Merge RM s other
   | Splice s \<Rightarrow> Splice_Merge RM s other
   | Move m \<Rightarrow> Move_Merge RM m other
   | ChangeSet cs \<Rightarrow> ChangeSet_Merge M cs other
   | PathChange p d \<Rightarrow> PathChange_Merge M RM p d other
   | Meta k d \<Rightarrow> Meta_Merge M k d other
   | Run off cnt d \<Rightarrow> Run_merge M RM off cnt d other False
   | Update k b a \<Rightarrow> Update_Merge M RM k b a other False)"

definition ReverseMerge_step :: "merge_fun \<Rightarrow> merge_fun \<Rightarrow> merge_fun" where
  "ReverseMerge_step M RM c other = (case c of
     ChangeSet cs \<Rightarrow> ChangeSet_ReverseMerge M cs other
   | PathChange p d \<Rightarrow> PathChange_ReverseMerge M RM p d other
   | Meta k d \<Rightarrow> Meta_ReverseMerge M k d other
   | Run off cnt d \<Rightarrow> Run_merge M RM off cnt d other True
   | Update k b a \<Rightarrow> Update_Merge M RM k b a other True
   | _ \<Rightarrow> None)"

fun cMerge :: "nat \<Rightarrow> merge_fun" and cReverseMerge :: "nat \<Rightarrow> merge_fun" where
  "cMerge 0 = (\<lambda>c other. None)"
| "cMerge (Suc n) = Merge_step (cMerge n) (cReverseMerge n)"
| "cReverseMerge 0 = (\<lambda>c other. None)"
| "cReverseMerge (Suc n) = ReverseMerge_step (cMerge n) (cReverseMerge n)"

text \<open>The package function \<open>changes.Merge\<close>.\<close>

definition Merge :: "nat \<Rightarrow> change option \<Rightarrow> change option \<Rightarrow> change_pair option" where
  "Merge n c1 c2 = Merge_nil (cMerge n) c1 c2"

end
