(* ===== verification/Dot_Strict.thy ===== *)
theory Dot_Strict
  imports Dot_Merge_Basic
begin

text \<open>
  What it means for a change to fit a value. The packages of this repository only promise
  anything about a change that was made for the value it is applied to: a Replace or Splice
  whose Before is what the value holds, a Move within range. \<open>Strict v c\<close> applies a change
  exactly like \<open>Apply\<close>, but is \<open>None\<close> when the change does not fit. Here also: the
  well-formedness of values (an array stores a missing element as nil and never as the marker
  Nil, a map never stores Nil).

  The strict application covers strings, arrays, maps, counters and atomic values and the
  changes Replace, Splice, Move, ChangeSet, PathChange and Meta. UTF-16 strings, containers with
  references, Run and Update are outside it.
\<close>

section \<open>Splicing and moving with a check\<close>

definition list_splice :: "int \<Rightarrow> 'a list \<Rightarrow> 'a list \<Rightarrow> 'a list \<Rightarrow> 'a list option" where
  "list_splice off b a xs =
     (if in_range off (int (length b)) (int (length xs))
         \<and> slice_list off (int (length b)) xs = b
      then Some (splice_list off (int (length b)) a xs) else None)"

definition list_move :: "int \<Rightarrow> int \<Rightarrow> int \<Rightarrow> 'a list \<Rightarrow> 'a list option" where
  "list_move off cnt dist xs =
     (if mv_ok (int (length xs)) off cnt dist then Some (move_list off cnt dist xs) else None)"

lemma list_splice_append:
  "list_splice (int (length p)) b a (p @ b @ q) = Some (p @ a @ q)"
  by (simp add: list_splice_def in_range_def slice_list_def splice_list_def nat_add_distrib)

lemma list_splice_Some_iff:
  "list_splice off b a xs = Some ys \<longleftrightarrow>
     (\<exists>p q. xs = p @ b @ q \<and> ys = p @ a @ q \<and> off = int (length p))" (is "?l \<longleftrightarrow> ?r")
proof
  assume ?l
  then have *: "in_range off (int (length b)) (int (length xs))"
    "slice_list off (int (length b)) xs = b" "ys = splice_list off (int (length b)) a xs"
    by (auto simp: list_splice_def split: if_splits)
  let ?p = "take (nat off) xs" and ?q = "drop (nat (off + int (length b))) xs"
  have "xs = ?p @ b @ ?q"
    using splice_list_self [OF *(1)] by (simp add: splice_list_def *(2))
  moreover have "ys = ?p @ a @ ?q" "off = int (length ?p)"
    using * by (auto simp: splice_list_def in_range_def)
  ultimately show ?r by blast
qed (auto simp: list_splice_append)

lemma list_move_right:
  "list_move (int (length a)) (int (length b)) (int (length c)) (a @ b @ c @ d) = Some (a @ c @ b @ d)"
  by (simp add: list_move_def mv_ok_def move_list_swap slice_list_def nat_add_distrib)

text \<open>A move to the left is the move to the right of the block it passes over.\<close>

lemma mv_src_mirror:
  "0 \<le> cnt \<Longrightarrow> 0 \<le> dist \<Longrightarrow> mv_src (off + cnt) dist (- cnt) i = mv_src off cnt dist i"
  by (auto simp: mv_src_def)

lemma list_move_left:
  "list_move (int (length a) + int (length b)) (int (length c)) (- int (length b)) (a @ b @ c @ d)
     = Some (a @ c @ b @ d)"
proof -
  have "list_move (int (length a) + int (length b)) (int (length c)) (- int (length b))
      = (list_move (int (length a)) (int (length b)) (int (length c)) :: 'a list \<Rightarrow> _)"
    by (simp add: list_move_def fun_eq_iff mv_ok_def move_list_def mv_src_mirror)
  then show ?thesis by (simp add: list_move_right)
qed

lemma list_split3:
  fixes xs :: "'a list"
  assumes "0 \<le> p" "p \<le> q" "q \<le> r" "r \<le> int (length xs)"
  obtains a b c d where "xs = a @ b @ c @ d" "p = int (length a)" "q - p = int (length b)"
    "r - q = int (length c)"
proof
  let ?a = "take (nat p) xs" and ?b = "take (nat (q - p)) (drop (nat p) xs)"
    and ?c = "take (nat (r - q)) (drop (nat q) xs)" and ?d = "drop (nat r) xs"
  have n: "nat q = nat p + nat (q - p)" "nat r = nat q + nat (r - q)" using assms by auto
  have "?c @ ?d = drop (nat q) xs"
    unfolding n(2) by (metis add.commute append_take_drop_id drop_drop)
  then have "?b @ ?c @ ?d = drop (nat p) xs"
    unfolding n(1) by (metis add.commute append_take_drop_id drop_drop)
  then show "xs = ?a @ ?b @ ?c @ ?d" by simp
qed (use assms in auto)

lemma list_move_Some_iff:
  "list_move off cnt dist xs = Some ys \<longleftrightarrow>
     (\<exists>a b c d. xs = a @ b @ c @ d \<and> ys = a @ c @ b @ d
        \<and> (off = int (length a) \<and> cnt = int (length b) \<and> dist = int (length c)
           \<or> b \<noteq> [] \<and> off = int (length a) + int (length b) \<and> cnt = int (length c)
             \<and> dist = - int (length b)))" (is "?l \<longleftrightarrow> ?r")
proof
  assume l: ?l
  then have ok: "mv_ok (int (length xs)) off cnt dist"
    by (auto simp: list_move_def split: if_splits)
  show ?r
  proof (cases "0 \<le> dist")
    case True
    obtain a b c d where x: "xs = a @ b @ c @ d" "off = int (length a)" "off + cnt - off = int (length b)"
      "off + cnt + dist - (off + cnt) = int (length c)"
      using ok True by (elim list_split3 [of off "off + cnt" "off + cnt + dist" xs, rotated -1])
        (auto simp: mv_ok_def)
    then have "ys = a @ c @ b @ d" using l list_move_right [of a b c d] by simp
    with x show ?thesis by fastforce
  next
    case False
    obtain a b c d where x: "xs = a @ b @ c @ d" "off + dist = int (length a)"
      "off - (off + dist) = int (length b)" "off + cnt - off = int (length c)"
      using ok False by (elim list_split3 [of "off + dist" off "off + cnt" xs, rotated -1])
        (auto simp: mv_ok_def)
    then have "off = int (length a) + int (length b)" "dist = - int (length b)" "cnt = int (length c)"
      by auto
    moreover from this have "ys = a @ c @ b @ d" using l x(1) list_move_left [of a b c d] by simp
    moreover have "b \<noteq> []" using False x(3) by auto
    ultimately show ?thesis using x(1) by blast
  qed
qed (auto simp: list_move_right list_move_left)

section \<open>Well-formed values\<close>

inductive wf_val :: "val \<Rightarrow> bool" and wf_coll :: "coll \<Rightarrow> bool" where
  "wf_val VNil"
| "wf_val (VAtomic k)"
| "(\<And>k v. fmlookup m k = Some v \<Longrightarrow> v \<noteq> VNil \<and> wf_val v) \<Longrightarrow> wf_val (VM m)"
| "wf_coll c \<Longrightarrow> wf_val (VColl c)"
| "wf_val v \<Longrightarrow> wf_val (VContainer v refs)"
| "wf_coll (CS8 s)"
| "wf_coll (CS16 s)"
| "wf_coll (CCounter n)"
| "(\<And>v. Some v \<in> set a \<Longrightarrow> v \<noteq> VNil \<and> wf_val v) \<Longrightarrow> wf_coll (CA a)"

inductive_simps wf_simps [simp]:
  "wf_val VNil" "wf_val (VAtomic k)" "wf_val (VM m)" "wf_val (VColl c)" "wf_val (VContainer v refs)"
  "wf_coll (CS8 s)" "wf_coll (CS16 s)" "wf_coll (CCounter n)" "wf_coll (CA a)"

lemma wf_A_nth:
  "wf_coll (CA a) \<Longrightarrow> 0 \<le> i \<Longrightarrow> i < int (length a) \<Longrightarrow> a ! nat i = Some v \<Longrightarrow> v \<noteq> VNil \<and> wf_val v"
  using nth_mem [of "nat i" a] by auto

lemma wf_A_get: "wf_coll (CA a) \<Longrightarrow> A_get a k = Some v \<Longrightarrow> wf_val v"
  by (auto simp: A_get_def split: key.splits if_splits option.splits dest: wf_A_nth [simplified])

lemma wf_M_get: "wf_val (VM m) \<Longrightarrow> wf_val (M_get m k)"
  by (auto simp: M_get_def split: option.splits)

lemma wf_vget: "wf_val v \<Longrightarrow> vget v k = Some x \<Longrightarrow> wf_val x"
  by (induction v k rule: vget.induct) (auto simp: wf_M_get dest: wf_A_get [rotated])

lemma wf_vset: "wf_val v \<Longrightarrow> wf_val y \<Longrightarrow> vset v k y = Some w \<Longrightarrow> wf_val w"
  by (induction v k y rule: vset.induct)
    (auto simp: M_set_def A_set_def split: key.splits if_splits
      dest!: subsetD [OF set_update_subset_insert])

text \<open>Reading and writing a key.\<close>

lemma vget_vset_same: "vset v k y = Some w \<Longrightarrow> vget w k = Some y"
  by (induction v k y rule: vset.induct)
    (auto simp: M_set_def M_get_def A_set_def A_get_def split: key.splits if_splits)

lemma vget_vset_other: "vset v k y = Some w \<Longrightarrow> k' \<noteq> k \<Longrightarrow> vget w k' = vget v k'"
  by (induction v k y rule: vset.induct)
    (auto simp: M_set_def M_get_def A_set_def A_get_def nth_list_update split: key.splits if_splits)

lemma vset_vset_same: "vset v k y = Some w \<Longrightarrow> vset w k z = vset v k z"
  by (induction v k y rule: vset.induct)
    (auto simp: M_set_def A_set_def split: key.splits if_splits
      intro!: fmap_ext)

lemma vset_vset_other:
  "vset v k y = Some w \<Longrightarrow> vset v k' z = Some w' \<Longrightarrow> k' \<noteq> k \<Longrightarrow> vset w k' z = vset w' k y"
  by (induction v k y rule: vset.induct)
    (auto simp: M_set_def A_set_def list_update_swap split: key.splits if_splits intro!: fmap_ext)

lemma vset_vget: "wf_val v \<Longrightarrow> vget v k = Some x \<Longrightarrow> vset v k x = Some v"
  by (induction v k rule: vget.induct)
    (auto simp: M_set_def M_get_def A_set_def A_get_def list_update_same_conv
      split: key.splits if_splits option.splits intro!: fmap_ext dest: wf_A_nth [simplified])

lemma vset_defined: "vget v k \<noteq> None \<Longrightarrow> vset v k y \<noteq> None"
  by (induction v k y rule: vset.induct) (auto simp: A_set_def A_get_def split: key.splits if_splits)

section \<open>Strict application\<close>

fun strict_splice :: "coll \<Rightarrow> splice \<Rightarrow> coll option" where
  "strict_splice (CS8 x) s = (case (sBefore s, sAfter s) of
     (CS8 b, CS8 a) \<Rightarrow> map_option CS8 (list_splice (sOffset s) b a x) | _ \<Rightarrow> None)"
| "strict_splice (CA x) s = (case (sBefore s, sAfter s) of
     (CA b, CA a) \<Rightarrow> map_option CA (list_splice (sOffset s) b a x) | _ \<Rightarrow> None)"
| "strict_splice (CCounter n) s = (case (sBefore s, sAfter s) of
     (CCounter b, CCounter a) \<Rightarrow> if b = 0 then Some (CCounter (n + a)) else None | _ \<Rightarrow> None)"
| "strict_splice (CS16 x) s = None"

fun strict_move :: "coll \<Rightarrow> move \<Rightarrow> coll option" where
  "strict_move (CS8 x) m = map_option CS8 (list_move (mOffset m) (mCount m) (mDistance m) x)"
| "strict_move (CA x) m = map_option CA (list_move (mOffset m) (mCount m) (mDistance m) x)"
| "strict_move _ m = None"

fun path_strict :: "(val \<Rightarrow> val option) \<Rightarrow> key list \<Rightarrow> val \<Rightarrow> val option" where
  "path_strict f [] v = f v"
| "path_strict f (k # ks) v = do { x \<leftarrow> vget v k; y \<leftarrow> path_strict f ks x; vset v k y }"

function strict :: "change \<Rightarrow> val \<Rightarrow> val option" where
  "strict (Replace r) v =
     (if rBefore r = v \<and> wf_val (rAfter r) \<and> (rBefore r \<noteq> VNil \<or> rAfter r \<noteq> VNil)
      then Some (rAfter r) else None)"
| "strict (Splice s) v = (case v of
     VColl c \<Rightarrow> if wf_coll (sAfter s) then map_option VColl (strict_splice c s) else None
   | _ \<Rightarrow> None)"
| "strict (Move m) v = (case v of VColl c \<Rightarrow> map_option VColl (strict_move c m) | _ \<Rightarrow> None)"
| "strict (ChangeSet cs) v =
     foldM (\<lambda>v c. case c of None \<Rightarrow> Some v | Some c \<Rightarrow> strict c v) v cs"
| "strict (PathChange p c) v =
     path_strict (\<lambda>v. case c of None \<Rightarrow> Some v | Some c \<Rightarrow> strict c v) p v"
| "strict (Meta d c) v = (case c of None \<Rightarrow> Some v | Some c \<Rightarrow> strict c v)"
| "strict (Run off n c) v = None"
| "strict (Update k b a) v = None"
  by pat_completeness auto
termination
  by (relation "measure (\<lambda>(c, v). size c)") (auto dest: size_change_mem)

definition Strict :: "val \<Rightarrow> change option \<Rightarrow> val option" where
  "Strict v c = (case c of None \<Rightarrow> Some v | Some c \<Rightarrow> strict c v)"

lemma Strict_simps [simp]: "Strict v None = Some v" "Strict v (Some c) = strict c v"
  by (simp_all add: Strict_def)

lemma strict_compound [simp]:
  "strict (ChangeSet cs) v = foldM Strict v cs"
  "strict (PathChange p c) v = path_strict (\<lambda>v. Strict v c) p v"
  "strict (Meta d c) v = Strict v c"
  by (simp_all add: Strict_def [abs_def])

declare strict.simps(4-6) [simp del]

section \<open>Strict application is application\<close>

lemma goslice_append [simp]:
  "goslice (p @ q) 0 (int (length p)) = Some p"
  "goslice (p @ q) (int (length p)) (int (length p) + int (length q)) = Some q"
  "goslice (p @ b @ q) (int (length p) + int (length b))
     (int (length p) + (int (length b) + int (length q))) = Some q"
  "goslice (p @ b @ q) (int (length p)) (int (length p) + int (length b)) = Some b"
  "goslice (p @ b @ q @ d) (int (length p) + int (length b))
     (int (length p) + (int (length b) + int (length q))) = Some q"
  by (auto simp: goslice_def nat_add_distrib)

lemma exchange_append:
  assumes "x1 = int (length a)" "x2 = x1 + int (length b)" "x3 = x2 + int (length c)"
  shows "exchange (a @ b @ c @ d) x1 x2 x3 = Some (a @ c @ b @ d)"
  using goslice_append(3) [of a "b @ c" d] unfolding exchange_def assms by (simp add: add.assoc)

lemma A_splice_append:
  "A_splice (p @ b @ q) (int (length p)) (int (length b)) (CA a) = Some (p @ a @ q)"
  by (simp add: A_splice_def)

lemma S8_move_list_move: 
  assumes "list_move (mOffset m) (mCount m) (mDistance m) x = Some y"
  shows "S8_move x m = Some y"
  using assms by (auto simp: list_move_Some_iff S8_move_def Normalize_def Let_def exchange_append)

lemma A_move_list_move:
  assumes "list_move (mOffset m) (mCount m) (mDistance m) x = Some y"
  shows "A_move x m = Some y"
proof -
  have "A_move (a @ b @ c @ d) \<lparr>mOffset = int (length a), mCount = int (length b), mDistance = int (length c)\<rparr>
    = Some (a @ c @ b @ d)" for a b c d :: "val option list"
    using A_splice_append [of "a @ c" "[]" d b]
    by (simp add: A_move_def Normalize_def A_Slice_def A_splice_append A_Count_def goslice_def [of _ 0 0])
  then show ?thesis
    using assms by (auto simp: list_move_Some_iff A_move_def Normalize_def)
qed

lemma strict_splice_apply: "strict_splice c s = Some c' \<Longrightarrow> coll_splice c s = Some c'"
  by (induction c s rule: strict_splice.induct)
    (auto simp: list_splice_Some_iff Counter_splice_def A_Count_def A_splice_append
S8_splice_def
      split: coll.splits if_splits)

lemma strict_move_apply: "strict_move c m = Some c' \<Longrightarrow> coll_move c m = Some c'"
  by (induction c m rule: strict_move.induct) (auto simp: S8_move_list_move A_move_list_move)

lemma path_strict_mono:
  "path_strict f p v = Some w \<Longrightarrow> (\<And>x y. f x = Some y \<Longrightarrow> g x = Some y) \<Longrightarrow>
     path_apply g c p v = Some w"
proof (induction p arbitrary: v w)
  case (Cons k p)
  from Cons.prems(1) obtain x y where "vget v k = Some x" "path_strict f p x = Some y"
    "vset v k y = Some w" by (auto simp: bind_Some_ex)
  with Cons show ?case by (cases v) auto
qed simp

lemma foldM_mono:
  "foldM f v cs = Some w \<Longrightarrow> (\<And>c x y. c \<in> set cs \<Longrightarrow> f x c = Some y \<Longrightarrow> g x c = Some y) \<Longrightarrow>
     foldM g v cs = Some w"
  by (induction cs arbitrary: v) (auto simp: bind_Some_ex)

lemma strict_apply: "strict c v = Some w \<Longrightarrow> apply_change c v = Some w"
proof (induction c v arbitrary: w rule: strict.induct)
  case (1 r v)
  then show ?case by (cases v) (auto simp: IsCreate_def IsDelete_def split: if_splits)
next
  case (4 cs v)
  then show ?case
    by (auto simp del: apply_compound strict_compound simp: apply_change.simps strict.simps
        elim!: foldM_mono split: option.splits)
next
  case (6 d c v)
  then show ?case by (cases c) auto
next
  case (5 p c v)
  then show ?case
    by (auto simp del: apply_compound strict_compound simp: apply_change.simps strict.simps
        elim!: path_strict_mono split: option.splits)
qed (auto simp: strict_splice_apply strict_move_apply split: val.splits option.splits if_splits)

lemma Strict_Apply: "Strict v c = Some w \<Longrightarrow> Apply v c = Some w"
  by (cases c) (auto intro: strict_apply)

section \<open>Strict application keeps values well-formed\<close>

lemma wf_path_strict:
  "path_strict f p v = Some w \<Longrightarrow> wf_val v \<Longrightarrow> (\<And>x y. wf_val x \<Longrightarrow> f x = Some y \<Longrightarrow> wf_val y) \<Longrightarrow> wf_val w"
proof (induction p arbitrary: v w)
  case (Cons k p)
  from Cons.prems(1) obtain x y where "vget v k = Some x" "path_strict f p x = Some y"
    "vset v k y = Some w" by (auto simp: bind_Some_ex)
  with Cons show ?case by (metis wf_vget wf_vset)
qed simp

lemma foldM_invariant:
  "foldM f v cs = Some w \<Longrightarrow> I v \<Longrightarrow> (\<And>c x y. c \<in> set cs \<Longrightarrow> I x \<Longrightarrow> f x c = Some y \<Longrightarrow> I y) \<Longrightarrow> I w"
proof (induction cs arbitrary: v)
  case (Cons c cs)
  from Cons.prems(1) obtain x where x: "f v c = Some x" "foldM f x cs = Some w"
    by (auto simp: bind_Some_ex)
  then have "I x" using Cons.prems(2) Cons.prems(3) [of c v x] by simp
  then show ?case by (rule Cons.IH [OF x(2)]) (use Cons.prems(3) in auto)
qed simp

lemma wf_strict_splice:
  "strict_splice c s = Some c' \<Longrightarrow> wf_coll c \<Longrightarrow> wf_coll (sAfter s) \<Longrightarrow> wf_coll c'"
  by (induction c s rule: strict_splice.induct)
    (auto simp: list_splice_Some_iff split: coll.splits if_splits)

lemma wf_strict_move: "strict_move c m = Some c' \<Longrightarrow> wf_coll c \<Longrightarrow> wf_coll c'"
  by (induction c m rule: strict_move.induct) (auto simp: list_move_Some_iff)

lemma strict_wf: "strict c v = Some w \<Longrightarrow> wf_val v \<Longrightarrow> wf_val w"
proof (induction c v arbitrary: w rule: strict.induct)
  case (4 cs v)
  show ?case
    using 4(2,3) 4(1) unfolding strict.simps
    by (elim foldM_invariant) (auto split: option.splits)
next
  case (6 d c v)
  then show ?case by (cases c) auto
next
  case (5 p c v)
  show ?case
    using 5(2,3) 5(1) unfolding strict.simps
    by (elim wf_path_strict) (auto split: option.splits)
qed (auto simp: wf_strict_splice wf_strict_move split: val.splits option.splits if_splits)

lemma Strict_wf: "Strict v c = Some w \<Longrightarrow> wf_val v \<Longrightarrow> wf_val w"
  by (cases c) (auto intro: strict_wf)

lemma foldM_Strict_wf: "foldM Strict v cs = Some w \<Longrightarrow> wf_val v \<Longrightarrow> wf_val w"
  by (erule foldM_invariant) (auto intro: Strict_wf)

end
