(* ===== verification/Dot_Moves.thy ===== *)
theory Dot_Moves
  imports Dot_Merge_Basic
begin

text \<open>
  Two concurrent moves converge. A move is read as the permutation of indices that
  \<open>Move.MapIndex\<close> computes, and \<open>Move.mergeMove\<close> is shown to return two lists of moves,
  each within range, whose permutations close the diamond: following one move and then the
  transformed other gives every index the same place as the other way round. Each branch of the
  source (separate blocks with and without mixed destinations, contained blocks, overlapping
  blocks) is one lemma over plain integers; the record lemmas instantiate them.
\<close>

section \<open>Moves as permutations of indices\<close>

definition move_ok :: "int \<Rightarrow> move \<Rightarrow> bool" where
  "move_ok n m \<longleftrightarrow> mv_ok n (mOffset m) (mCount m) (mDistance m)"

fun dsts :: "move list \<Rightarrow> int \<Rightarrow> int" where
  "dsts [] i = i"
| "dsts (m # ms) i = dsts ms (Move_MapIndex m i)"

definition moves_converge :: "int \<Rightarrow> move \<Rightarrow> move \<Rightarrow> move list \<times> move list \<Rightarrow> bool" where
  "moves_converge n m o1 r \<longleftrightarrow>
     list_all (move_ok n) (fst r) \<and> list_all (move_ok n) (snd r)
     \<and> (\<forall>i. dsts (fst r) (Move_MapIndex m i) = dsts (snd r) (Move_MapIndex o1 i))"

lemma moves_converge_swap: "moves_converge n m o1 (prod.swap r) = moves_converge n o1 m r"
  by (auto simp: moves_converge_def)

lemma moves_converge_same: "moves_converge n m m ([], [])"
  by (simp add: moves_converge_def)

text \<open>Both moves do something and none of their elements is moved by both.\<close>

definition proper :: "int \<Rightarrow> move \<Rightarrow> bool" where
  "proper n m \<longleftrightarrow> move_ok n m \<and> 0 < mCount m \<and> mDistance m \<noteq> 0"

definition separate :: "move \<Rightarrow> move \<Rightarrow> bool" where
  "separate m o1 \<longleftrightarrow>
     mOffset m + mCount m \<le> mOffset o1 \<or> mOffset o1 + mCount o1 \<le> mOffset m"

lemma separate_sym: "separate m o1 = separate o1 m"
  by (auto simp: separate_def)

section \<open>The same functions over plain integers\<close>

definition mv_dst :: "int \<Rightarrow> int \<Rightarrow> int \<Rightarrow> int \<Rightarrow> int" where
  "mv_dst off cnt dist idx =
     (if idx \<ge> off + dist \<and> idx < off then idx + cnt
      else if idx \<ge> off \<and> idx < off + cnt then idx + dist
      else if idx \<ge> off + cnt \<and> idx < off + cnt + dist then idx - cnt
      else idx)"

definition mv_point :: "int \<Rightarrow> int \<Rightarrow> int \<Rightarrow> int \<Rightarrow> int" where
  "mv_point off cnt dist idx =
     (if idx \<ge> off + dist \<and> idx \<le> off then idx + cnt
      else if idx \<ge> off + cnt \<and> idx < off + cnt + dist then idx - cnt
      else idx)"

definition mv_dist :: "int \<Rightarrow> int \<Rightarrow> int \<Rightarrow> int" where
  "mv_dist off cnt d = (if d - off - cnt < 0 then d - off else d - off - cnt)"

definition mv_gap :: "int \<Rightarrow> int \<Rightarrow> int \<Rightarrow> int" where
  "mv_gap off cnt dist = (if dist < 0 then off + dist else off + dist + cnt)"

abbreviation mk_move :: "int \<Rightarrow> int \<Rightarrow> int \<Rightarrow> move" where
  "mk_move off cnt dist \<equiv> \<lparr>mOffset = off, mCount = cnt, mDistance = dist\<rparr>"

lemma move_ints:
  "Move_MapIndex (mk_move a b c) i = mv_dst a b c i"
  "mapPoint (mk_move a b c) i = mv_point a b c i"
  "dest (mk_move a b c) = mv_gap a b c"
  "withDest (mk_move a b c) d = mk_move a b (mv_dist a b d)"
  "contains (mk_move a b c) i \<longleftrightarrow> a < i \<and> i < a + b"
  "move_ok n (mk_move a b c) \<longleftrightarrow> mv_ok n a b c"
  by (simp_all add: Move_MapIndex_def mv_dst_def mapPoint_def mv_point_def dest_def mv_gap_def
      Let_def withDest_def mv_dist_def contains_def move_ok_def)

lemma if_move: "(if c then mk_move a b d else mk_move a b d') = mk_move a b (if c then d else d')"
  by simp

lemma two_moves:
  obtains mo mc md oo oc od where "m = mk_move mo mc md" "o1 = mk_move oo oc od"
  by (metis move.cases)

lemmas move_rec = move_ints if_move move.simps prod.sel list.pred_inject dsts.simps
  moves_converge_def separate_def proper_def Let_def conj_assoc simp_thms

lemmas move_int_defs = mv_ok_def mv_dst_def mv_point_def mv_dist_def mv_gap_def

section \<open>Separate blocks\<close>

lemma NoDestMixups_int:
  assumes "mv_ok n mo mc md" "0 < mc" "md \<noteq> 0" "mv_ok n oo oc od" "0 < oc" "od \<noteq> 0"
    and "mo + mc \<le> oo \<or> oo + oc \<le> mo"
    and "mdest = mv_gap mo mc md" "odest = mv_gap oo oc od"
    and "\<not> (mo < odest \<and> odest < mo + mc)" "\<not> (oo < mdest \<and> mdest < oo + oc)"
    and "x1 = mv_point mo mc md oo" "xd = mv_point mo mc md odest"
    and "x2 = (if odest = mdest then mv_dist x1 oc (mo + md) else mv_dist x1 oc xd)"
    and "y1 = mv_point oo oc od mo" "yd = mv_point oo oc od mdest" "y2 = mv_dist y1 mc yd"
  shows "mv_ok n x1 oc x2" "mv_ok n y1 mc y2"
    and "mv_dst x1 oc x2 (mv_dst mo mc md i) = mv_dst y1 mc y2 (mv_dst oo oc od i)"
  using assms unfolding move_int_defs by (smt (verit))+

lemma NoDestMixups_converge:
  assumes "proper n m" "proper n o1" "separate m o1"
    and "\<not> contains m (dest o1)" "\<not> contains o1 (dest m)"
  shows "moves_converge n m o1 (mergeMoveNoOverlapNoDestMixups m o1)"
proof -
  obtain mo mc md oo oc od where r: "m = mk_move mo mc md" "o1 = mk_move oo oc od"
    by (rule two_moves)
  show ?thesis
    using NoDestMixups_int [OF _ _ _ _ _ _ _ refl refl _ _ refl refl refl refl refl refl,
        of n mo mc md oo oc od] assms [unfolded r, simplified move_rec]
    unfolding mergeMoveNoOverlapNoDestMixups_def r by (simp only: move_rec)
qed

lemma MixedDests_int:
  assumes "mv_ok n mo mc md" "0 < mc" "md \<noteq> 0" "mv_ok n oo oc od" "0 < oc" "od \<noteq> 0"
    and "mo + mc \<le> oo \<or> oo + oc \<le> mo"
    and "mdest = mv_gap mo mc md" "odest = mv_gap oo oc od"
    and "mo < odest \<and> odest < mo + mc" "oo < mdest \<and> mdest < oo + oc"
    and "lc = mdest - oo" "rc = oc - lc"
    and "dist = oo - mo - mc" "dist' = (if dist < 0 then - (mo - oo - oc) else dist)"
  shows "mv_ok n (mo + md - lc) lc (odest - mo)" "mv_ok n (mo + md + mc) rc (odest - mo - mc)"
    and "mv_ok n (oo + od - (odest - mo)) (mc + oc) dist'"
    and "mv_dst (mo + md + mc) rc (odest - mo - mc)
           (mv_dst (mo + md - lc) lc (odest - mo) (mv_dst mo mc md i))
      = mv_dst (oo + od - (odest - mo)) (mc + oc) dist' (mv_dst oo oc od i)"
  using assms unfolding move_int_defs by (smt (verit))+

lemma MixedDests_converge:
  assumes "proper n m" "proper n o1" "separate m o1"
    and "contains m (dest o1)" "contains o1 (dest m)"
  shows "moves_converge n m o1 (mergeMoveNoOverlapMixedDests m o1)"
proof -
  obtain mo mc md oo oc od where r: "m = mk_move mo mc md" "o1 = mk_move oo oc od"
    by (rule two_moves)
  show ?thesis
    using MixedDests_int [OF _ _ _ _ _ _ _ refl refl _ _ refl refl refl refl,
        of n mo mc md oo oc od] assms [unfolded r, simplified move_rec]
    unfolding mergeMoveNoOverlapMixedDests_def r by (simp only: move_rec)
qed

lemma ContainedDest_int:
  assumes "mv_ok n mo mc md" "0 < mc" "md \<noteq> 0" "mv_ok n oo oc od" "0 < oc" "od \<noteq> 0"
    and "mo + mc \<le> oo \<or> oo + oc \<le> mo"
    and "mdest = mv_gap mo mc md" "odest = mv_gap oo oc od"
    and "mo < odest \<and> odest < mo + mc" "\<not> (oo < mdest \<and> mdest < oo + oc)"
    and "mdn = (if mdest \<ge> odest \<and> mdest \<le> oo then mdest + oc
                else if mdest > oo \<and> mdest \<le> odest then mdest - oc else mdest)"
    and "off1 = (if oo \<le> mo then mo - oc else mo)"
    and "y2 = (if mdn \<le> off1 then mdn - off1 else mdn - off1 - (mc + oc))"
    and "ooff = (if oo > mo \<and> oo < mdest then oo - mc
                 else if oo \<ge> mdest \<and> oo < mo then oo + mc else oo)"
    and "x2 = (if odest + md \<le> ooff then odest + md - ooff else odest + md - ooff - oc)"
  shows "mv_ok n ooff oc x2" "mv_ok n off1 (mc + oc) y2"
    and "mv_dst ooff oc x2 (mv_dst mo mc md i) = mv_dst off1 (mc + oc) y2 (mv_dst oo oc od i)"
  using assms unfolding move_int_defs by (smt (verit))+

lemma ContainedDest_converge:
  assumes "proper n m" "proper n o1" "separate m o1"
    and "contains m (dest o1)" "\<not> contains o1 (dest m)"
  shows "moves_converge n m o1 (mergeMoveNoOverlapContainedDest m o1)"
proof -
  obtain mo mc md oo oc od where r: "m = mk_move mo mc md" "o1 = mk_move oo oc od"
    by (rule two_moves)
  show ?thesis
    using ContainedDest_int [OF _ _ _ _ _ _ _ refl refl _ _ refl refl refl refl refl,
        of n mo mc md oo oc od] assms [unfolded r, simplified move_rec]
    unfolding mergeMoveNoOverlapContainedDest_def r by (simp only: move_rec)
qed

lemma NoOverlap_converge:
  assumes "proper n m" "proper n o1" "separate m o1"
  shows "moves_converge n m o1 (mergeMoveNoOverlap m o1)"
proof (cases "contains o1 (dest m) \<and> \<not> contains m (dest o1)")
  case True
  then have "mergeMoveNoOverlap m o1 = prod.swap (mergeMoveNoOverlapContainedDest o1 m)"
    by (simp add: mergeMoveNoOverlap.simps [of m o1] mergeMoveNoOverlap.simps [of o1 m])
  then show ?thesis
    using True ContainedDest_converge [of n o1 m] assms
    by (simp add: moves_converge_swap separate_sym)
next
  case False
  then show ?thesis
    using assms NoDestMixups_converge MixedDests_converge ContainedDest_converge
    by (auto simp: mergeMoveNoOverlap.simps [of m o1] Let_def)
qed

section \<open>Overlapping blocks\<close>

lemma Contained_int:
  assumes "mv_ok n mo mc md" "0 < mc" "md \<noteq> 0" "mv_ok n oo oc od" "0 < oc" "od \<noteq> 0"
    and "mo \<le> oo" "oo + oc \<le> mo + mc"
    and "mdest = mv_gap mo mc md" "odest = mv_gap oo oc od" "ooff = oo + md"
    and "if mo \<le> odest \<and> odest \<le> mo + mc
         then x2 = od \<and> moff = mo \<and> mcnt = mc \<and> y2 = md
         else if odest = mdest
         then x2 = mv_dist ooff oc (mo + md) \<and> mcnt = mc - oc
           \<and> moff = (if od < 0 then mo + oc else mo) \<and> y2 = mv_dist moff mcnt (oo + oc + od)
         else x2 = mv_dist ooff oc (mv_point mo mc md odest) \<and> moff = mv_point oo oc od mo
           \<and> mcnt = mc - oc \<and> y2 = mv_dist moff mcnt (mv_point oo oc od mdest)"
  shows "mv_ok n ooff oc x2 \<and> mv_ok n moff mcnt y2
    \<and> mv_dst ooff oc x2 (mv_dst mo mc md i) = mv_dst moff mcnt y2 (mv_dst oo oc od i)"
  using assms unfolding move_int_defs by (smt (verit))

lemma Contained_converge:
  assumes "proper n m" "proper n o1"
    and "mOffset m \<le> mOffset o1" "mOffset o1 + mCount o1 \<le> mOffset m + mCount m"
  shows "moves_converge n m o1 (mergeMoveContained m o1)"
proof -
  obtain mo mc md oo oc od where r: "m = mk_move mo mc md" "o1 = mk_move oo oc od"
    by (rule two_moves)
  show ?thesis
    using Contained_int [OF _ _ _ _ _ _ _ _ refl refl refl, of n mo mc md oo oc od]
      assms [unfolded r, simplified move_rec]
    unfolding mergeMoveContained_def r
    by (simp only: move_rec split: if_split cong: if_cong) auto
qed

text \<open>Undoing the overlap after \<open>o1\<close> leaves the move of the part outside \<open>m\<close>.\<close>

lemma RightOverlap_int:
  assumes "mv_ok n mo mc md" "mv_ok n oo oc od" "od \<noteq> 0"
    and "mo < oo" "oo < mo + mc" "mo + mc < oo + oc" "ov = mo + mc - oo"
    and "ud = (if od > 0 then - od else oc - ov - od)" "nd = (if od > 0 then od else od - ov)"
  shows "mv_ok n (oo + od) ov ud" "mv_ok n (oo + ov) (oc - ov) nd" "nd \<noteq> 0"
    and "mv_dst (oo + od) ov ud (mv_dst oo oc od i) = mv_dst (oo + ov) (oc - ov) nd i"
  using assms unfolding move_int_defs by (smt (verit))+

lemma RightOverlap_converge:
  assumes "proper n m" "proper n o1"
    and "mOffset m < mOffset o1" "mOffset o1 < mOffset m + mCount m"
    and "mOffset m + mCount m < mOffset o1 + mCount o1"
  shows "moves_converge n m o1 (mergeMoveRightOverlap m o1)"
proof -
  obtain mo mc md oo oc od where r: "m = mk_move mo mc md" "o1 = mk_move oo oc od"
    by (rule two_moves)
  define ov where "ov = mo + mc - oo"
  define non where "non = mk_move (oo + ov) (oc - ov) (if od > 0 then od else od - ov)"
  define undo where "undo = mk_move (oo + od) ov (if od > 0 then - od else oc - ov - od)"
  note h = RightOverlap_int [OF _ _ _ _ _ _ ov_def refl refl, of n md oc od]
    assms [unfolded r, simplified move_rec]
  have non: "proper n non" "separate m non"
    using h by (simp_all only: non_def r move_rec) (simp_all add: ov_def)
  have undo: "move_ok n undo" "\<And>i. Move_MapIndex undo (Move_MapIndex o1 i) = Move_MapIndex non i"
    using h by (simp_all only: undo_def non_def r move_rec)
  have "mergeMoveRightOverlap m o1
      = (fst (mergeMoveNoOverlap m non), undo # snd (mergeMoveNoOverlap m non))"
    by (simp add: mergeMoveRightOverlap_def Let_def case_prod_beta r ov_def undo_def non_def)
  then show ?thesis
    using NoOverlap_converge [OF assms(1) non] undo by (simp add: moves_converge_def)
qed

lemma MergeMove_converge:
  assumes "move_ok n m" "move_ok n o1"
  shows "moves_converge n m o1 (Move_MergeMove m o1)"
proof (cases "mDistance m = 0 \<or> mCount m = 0 \<or> mDistance o1 = 0 \<or> mCount o1 = 0")
  case True
  then have "Move_MapIndex m = id \<or> Move_MapIndex o1 = id"
    by (auto simp: Move_MapIndex_def fun_eq_iff)
  then show ?thesis
    using assms True by (auto simp: Move_MergeMove_def moves_converge_def)
next
  case False
  then have "proper n m" "proper n o1"
    using assms by (auto simp: proper_def move_ok_def mv_ok_def)
  then show ?thesis
    using False NoOverlap_converge [of n m o1] Contained_converge [of n]
      RightOverlap_converge [of n]
    by (auto simp: Move_MergeMove_def moves_converge_swap moves_converge_same separate_def)
qed

end
