(* ===== verification/Dot_Sequences.thy ===== *)
theory Dot_Sequences
  imports Dot_Strict Dot_Moves
begin

text \<open>
  The collections that are sequences: \<open>types.S8\<close> and \<open>types.A\<close>. The locale
  \<open>sequence\<close> states what the merge functions of Splice and Move rely on (Count, Slice and
  ApplyCollection behave like length, slicing, splicing and moving of a list) and proves inside
  it that two concurrent basic changes of a sequence converge. It is interpreted on both types.
\<close>

section \<open>Convergence\<close>

text \<open>
  After \<open>c1\<close> and \<open>c2\<close> led from one value to \<open>v1\<close> and \<open>v2\<close>, the transformed
  changes lead on to one common value.
\<close>

definition converge :: "val \<Rightarrow> val \<Rightarrow> change option \<Rightarrow> change option \<Rightarrow> bool" where
  "converge v1 v2 c2x c1x \<longleftrightarrow> (\<exists>w. Strict v1 c2x = Some w \<and> Strict v2 c1x = Some w)"

lemma converge_sym: "converge v1 v2 c2x c1x = converge v2 v1 c1x c2x"
  by (auto simp: converge_def)

lemma convergeI: "Strict v1 c2x = Some w \<Longrightarrow> Strict v2 c1x = Some w \<Longrightarrow> converge v1 v2 c2x c1x"
  by (auto simp: converge_def)

section \<open>The position of two blocks\<close>

lemma append_cases:
  assumes "xs @ ys = zs @ ts"
  obtains (le) us where "zs = xs @ us" "ys = us @ ts"
  | (gt) us where "xs = zs @ us" "ts = us @ ys" "us \<noteq> []"
  using assms unfolding append_eq_append_conv2 by (metis append.right_neutral append_self_conv2)

lemma two_blocks:
  assumes eq: "p @ b @ q = p' @ b' @ q'"
  obtains
    (before) m where "p' = p @ b @ m" "q = m @ b' @ q'"
  | (after) m where "p = p' @ b' @ m" "q' = m @ b @ q" "b @ m @ b' \<noteq> []"
  | (left) l m r where "b = l @ m" "b' = m @ r" "p' = p @ l" "q = r @ q'"
      "l \<noteq> []" "m \<noteq> []" "r \<noteq> []"
  | (pref) r where "p' = p" "b' = b @ r" "q = r @ q'" "b \<noteq> []" "r \<noteq> []"
  | (inside) l r where "b = l @ b' @ r" "p' = p @ l" "q' = r @ q" "b' @ r \<noteq> []" "l @ b' \<noteq> []"
  | (outside) l r where "b' = l @ b @ r" "p = p' @ l" "q = r @ q'" "l \<noteq> []" "b @ r \<noteq> []"
  | (right) l m r where "b' = l @ m" "b = m @ r" "p = p' @ l" "q' = r @ q"
      "l \<noteq> []" "m \<noteq> []" "r \<noteq> []"
  using eq
proof (cases rule: append_cases)
  case (le l)
  from le(2) show ?thesis
  proof (cases rule: append_cases)
    case (le m)
    then show ?thesis using before \<open>p' = p @ l\<close> by simp
  next
    case (gt m)
    from gt(2) [symmetric] show ?thesis
    proof (cases rule: append_cases)
      case (le r)
      consider "r = []" | "l = []" "r \<noteq> []" | "l \<noteq> []" "r \<noteq> []" by blast
      then show ?thesis
      proof cases
        case 1
        then show ?thesis using inside [of l "[]"] \<open>p' = p @ l\<close> gt le by simp
      next
        case 2
        then show ?thesis using pref [of r] \<open>p' = p @ l\<close> gt le by simp
      next
        case 3
        then show ?thesis using left [of l m r] \<open>p' = p @ l\<close> gt le by simp
      qed
    next
      case (gt r)
      then show ?thesis
        using inside [of l r] after [of "[]"] \<open>p' = p @ l\<close> \<open>b = l @ m\<close> \<open>m \<noteq> []\<close>
        by (cases "l @ b' = []") auto
    qed
  qed
next
  case (gt l)
  from gt(2) show ?thesis
  proof (cases rule: append_cases)
    case (le m)
    then show ?thesis
      using after [of m] before [of "[]"] \<open>p = p' @ l\<close> \<open>l \<noteq> []\<close>
      by (cases "b @ m @ b' = []") auto
  next
    case (gt m)
    from gt(2) show ?thesis
    proof (cases rule: append_cases)
      case (le r)
      then show ?thesis using outside [of l r] \<open>p = p' @ l\<close> \<open>l \<noteq> []\<close> gt by auto
    next
      case (gt r)
      then show ?thesis
        using right [of l m r] \<open>p = p' @ l\<close> \<open>l \<noteq> []\<close> \<open>b' = l @ m\<close> \<open>m \<noteq> []\<close> by auto
    qed
  qed
qed

section \<open>Sequences of moves on a list\<close>

lemma mv_dst_src:
  "0 \<le> cnt \<Longrightarrow> mv_dst off cnt dist (mv_src off cnt dist i) = i"
  "0 \<le> cnt \<Longrightarrow> mv_src off cnt dist (mv_dst off cnt dist i) = i"
  by (auto simp: mv_dst_def mv_src_def)

lemma mv_dst_range:
  "mv_ok n off cnt dist \<Longrightarrow> 0 \<le> i \<Longrightarrow> i < n \<Longrightarrow>
     0 \<le> mv_dst off cnt dist i \<and> mv_dst off cnt dist i < n"
  by (auto simp: mv_dst_def mv_ok_def)

definition mmove :: "'a list \<Rightarrow> move \<Rightarrow> 'a list option" where
  "mmove x m = list_move (mOffset m) (mCount m) (mDistance m) x"

lemma MapIndex_dst: "Move_MapIndex m i = mv_dst (mOffset m) (mCount m) (mDistance m) i"
  by (simp add: Move_MapIndex_def mv_dst_def)

lemma mmove_defined: "move_ok (int (length x)) m \<Longrightarrow> \<exists>y. mmove x m = Some y"
  by (simp add: mmove_def list_move_def move_ok_def)

lemma mmove_ok: "mmove x m = Some y \<Longrightarrow> move_ok (int (length x)) m \<and> length y = length x"
  by (auto simp: mmove_def list_move_def move_ok_def split: if_splits)

lemma mmove_at:
  assumes "mmove x m = Some y" "0 \<le> i" "i < int (length x)"
  shows "at y (Move_MapIndex m i) = at x i"
    and "0 \<le> Move_MapIndex m i \<and> Move_MapIndex m i < int (length x)"
  using assms mv_dst_range [of "int (length x)" "mOffset m" "mCount m" "mDistance m" i]
  by (auto simp: mmove_def list_move_def MapIndex_dst at_move_list mv_dst_src mv_ok_def
      split: if_splits)

lemma mmoves_defined:
  "list_all (move_ok (int (length x))) ms \<Longrightarrow> \<exists>y. foldM mmove x ms = Some y"
proof (induction ms arbitrary: x)
  case (Cons m ms)
  then obtain z where z: "mmove x m = Some z" using mmove_defined [of x m] by auto
  then show ?case using Cons mmove_ok [OF z] by simp
qed simp

lemma mmove_zero:
  assumes "mCount m = 0 \<or> mDistance m = 0" "mmove x m = Some y"
  shows "y = x"
proof -
  have "Move_MapIndex m i = i" for i using assms(1) by (auto simp: Move_MapIndex_def)
  then show ?thesis using mmove_at(1) [OF assms(2)] mmove_ok [OF assms(2)] by (auto intro: list_eq_at)
qed

lemma mmoves_length: "foldM mmove x ms = Some y \<Longrightarrow> length y = length x"
  by (induction ms arbitrary: x) (auto simp: bind_Some_ex dest!: mmove_ok)

lemma mmoves_at:
  "foldM mmove x ms = Some y \<Longrightarrow> 0 \<le> i \<Longrightarrow> i < int (length x) \<Longrightarrow>
     length y = length x \<and> at y (dsts ms i) = at x i \<and> 0 \<le> dsts ms i \<and> dsts ms i < int (length x)"
proof (induction ms arbitrary: x i)
  case (Cons m ms)
  then obtain z where z: "mmove x m = Some z" "foldM mmove z ms = Some y" by (auto simp: bind_Some_ex)
  note mi = mmove_at [OF z(1) Cons.prems(2,3)]
  show ?case using Cons.IH [OF z(2), of "Move_MapIndex m i"] mi mmove_ok [OF z(1)] by simp
qed simp

lemma dsts_surj:
  "list_all (move_ok n) ms \<Longrightarrow> 0 \<le> j \<Longrightarrow> j < n \<Longrightarrow> \<exists>i. 0 \<le> i \<and> i < n \<and> dsts ms i = j"
proof (induction ms arbitrary: j)
  case (Cons m ms)
  then obtain k where k: "0 \<le> k" "k < n" "dsts ms k = j" by auto
  let ?i = "mv_src (mOffset m) (mCount m) (mDistance m) k"
  have "mv_ok n (mOffset m) (mCount m) (mDistance m)" using Cons.prems by (simp add: move_ok_def)
  then show ?case
    using k mv_src_range [of n] mv_dst_src(1)
    by (intro exI [of _ ?i]) (auto simp: MapIndex_dst mv_ok_def)
qed auto

text \<open>Lists of moves with the same index map have the same effect.\<close>

lemma mmoves_eq:
  assumes "list_all (move_ok (int (length x))) ms" "list_all (move_ok (int (length x))) ns"
    and "\<And>i. dsts ms i = dsts ns i"
  shows "foldM mmove x ms = foldM mmove x ns"
proof -
  obtain y z where y: "foldM mmove x ms = Some y" and z: "foldM mmove x ns = Some z"
    using assms mmoves_defined by metis
  have "y = z"
  proof (rule list_eq_at)
    note len = mmoves_length [OF y] mmoves_length [OF z]
    show "length y = length z" using len by simp
    fix j assume "0 \<le> j" "j < int (length y)"
    then obtain i where i: "0 \<le> i" "i < int (length x)" "dsts ms i = j"
      using dsts_surj [OF assms(1)] len by auto
    then show "at y j = at z j" using mmoves_at [OF y i(1,2)] mmoves_at [OF z i(1,2)] assms(3) by simp
  qed
  then show ?thesis using y z by simp
qed

lemma mmoves_diamond:
  assumes "mmove x m = Some x1" "mmove x o1 = Some x2"
  shows "\<exists>y. foldM mmove x1 (fst (Move_MergeMove m o1)) = Some y
    \<and> foldM mmove x2 (snd (Move_MergeMove m o1)) = Some y"
proof -
  let ?r = "Move_MergeMove m o1"
  have "moves_converge (int (length x)) m o1 ?r"
    using assms MergeMove_converge mmove_ok by blast
  then have *: "list_all (move_ok (int (length x))) (m # fst ?r)"
    "list_all (move_ok (int (length x))) (o1 # snd ?r)" "dsts (m # fst ?r) i = dsts (o1 # snd ?r) i" for i
    using assms by (auto simp: moves_converge_def dest: mmove_ok)
  show ?thesis
    using mmoves_eq [OF *] mmoves_defined [OF *(1)] assms by simp
qed

section \<open>The interface\<close>

locale sequence =
  fixes wrap :: "'e list \<Rightarrow> coll"
    and wfe :: "'e \<Rightarrow> bool"
  assumes Count_wrap: "Count (wrap x) = int (length x)"
    and Slice_wrap: "Slice (wrap (p @ b @ q)) (int (length p)) (int (length b)) = Some (wrap b)"
    and splice_wrap:
      "coll_splice (wrap (p @ b @ q)) \<lparr>sOffset = int (length p), sBefore = wrap b, sAfter = wrap a\<rparr>
         = Some (wrap (p @ a @ q))"
    and move_wrap:
      "list_move (mOffset m) (mCount m) (mDistance m) x = Some y \<Longrightarrow>
         coll_move (wrap x) m = Some (wrap y)"
    and strict_splice_wrap:
      "strict_splice (wrap x) s = Some z \<longleftrightarrow>
         (\<exists>p b a q. x = p @ b @ q \<and> z = wrap (p @ a @ q)
            \<and> s = \<lparr>sOffset = int (length p), sBefore = wrap b, sAfter = wrap a\<rparr>)"
    and strict_move_wrap:
      "strict_move (wrap x) m
         = map_option wrap (list_move (mOffset m) (mCount m) (mDistance m) x)"
    and wf_wrap: "wf_coll (wrap x) = list_all wfe x"
begin

definition sp :: "int \<Rightarrow> 'e list \<Rightarrow> 'e list \<Rightarrow> splice" where
  "sp off b a = \<lparr>sOffset = off, sBefore = wrap b, sAfter = wrap a\<rparr>"

lemma sp_sel [simp]:
  "sOffset (sp off b a) = off" "sBefore (sp off b a) = wrap b" "sAfter (sp off b a) = wrap a"
  "sp off b a\<lparr>sOffset := off'\<rparr> = sp off' b a" "sp off b a\<lparr>sBefore := wrap b'\<rparr> = sp off b' a"
  by (simp_all add: sp_def)

lemma sp_fold: "\<lparr>sOffset = off, sBefore = wrap b, sAfter = wrap a\<rparr> = sp off b a"
  by (simp add: sp_def)

lemma Slice_at:
  "off = int (length p) \<Longrightarrow> cnt = int (length b) \<Longrightarrow> Slice (wrap (p @ b @ q)) off cnt = Some (wrap b)"
  using Slice_wrap by simp

lemma Slice_pre: "cnt = int (length b) \<Longrightarrow> Slice (wrap (b @ q)) 0 cnt = Some (wrap b)"
  using Slice_at [of 0 "[]" cnt b q] by simp

lemma Slice_empty: "Slice (wrap b) 0 0 = Some (wrap [])"
  using Slice_pre [of 0 "[]" b] by simp

lemma Slice_suf:
  "off = int (length p) \<Longrightarrow> cnt = int (length b) \<Longrightarrow> Slice (wrap (p @ b)) off cnt = Some (wrap b)"
  using Slice_at [of off p cnt b "[]"] by simp

lemma splice_at: "off = int (length p) \<Longrightarrow>
   coll_splice (wrap (p @ b @ q)) (sp off b a) = Some (wrap (p @ a @ q))"
  using splice_wrap by (simp add: sp_def)

lemma strict_sp:
  "off = int (length p) \<Longrightarrow> list_all wfe a \<Longrightarrow>
     strict (Splice (sp off b a)) (VColl (wrap (p @ b @ q))) = Some (VColl (wrap (p @ a @ q)))"
proof -
  assume "off = int (length p)" and a: "list_all wfe a"
  then have "strict_splice (wrap (p @ b @ q)) (sp off b a) = Some (wrap (p @ a @ q))"
    unfolding strict_splice_wrap sp_def by blast
  then show ?thesis using a by (simp add: wf_wrap)
qed

lemma strict_spE:
  assumes "strict (Splice s) (VColl (wrap x)) = Some v"
  obtains p b a q where "x = p @ b @ q" "v = VColl (wrap (p @ a @ q))"
    "s = sp (int (length p)) b a" "list_all wfe a"
  using assms by (auto simp: strict_splice_wrap wf_wrap sp_fold split: if_splits)

lemma splice_splice:
  assumes "strict (Splice s) (VColl (wrap x)) = Some v1"
    and "strict (Splice t) (VColl (wrap x)) = Some v2"
  shows "\<exists>tx sx. Splice_MergeSplice s t = Some (tx, sx)
    \<and> converge v1 v2 (map_option Splice tx) (map_option Splice sx)"
proof -
  obtain p b a q where s: "x = p @ b @ q" "v1 = VColl (wrap (p @ a @ q))"
    "s = sp (int (length p)) b a" "list_all wfe a" using assms(1) by (rule strict_spE)
  obtain p' b' a' q' where t: "x = p' @ b' @ q'" "v2 = VColl (wrap (p' @ a' @ q'))"
    "t = sp (int (length p')) b' a'" "list_all wfe a'" using assms(2) by (rule strict_spE)
  note [simp del] = strict.simps
  note [simp] = Splice_MergeSplice_def Count_wrap Let_def s(2-4) t(2-4) sp_fold
  from s(1) t(1) have "p @ b @ q = p' @ b' @ q'" by simp
  then show ?thesis
  proof (cases rule: two_blocks)
    case (before m)
    then show ?thesis
      using strict_sp [of _ "p @ a @ m" a' b' q'] strict_sp [of _ p a b "m @ a' @ q'"]
      by (auto intro!: convergeI simp: ac_simps neq_Nil_conv)
  next
    case (after m)
    then show ?thesis
      using strict_sp [of _ "p'" a' b' "m @ a @ q"] strict_sp [of _ "p' @ a' @ m" a b q]
      by (auto intro!: convergeI simp: ac_simps neq_Nil_conv)
  next
    case (left l m r)
    then show ?thesis
      using strict_sp [of _ "p @ a" a' r q'] strict_sp [of _ p a l "a' @ q'"]
        Slice_pre [of _ l m] Slice_suf [of _ m _ r]
      by (auto intro!: convergeI simp: ac_simps neq_Nil_conv)
  next
    case (pref r)
    then show ?thesis
      using strict_sp [of _ "p @ a" a' r q'] strict_sp [of _ p a "[]" "a' @ q'"]
        Slice_empty [of b] Slice_suf [of _ b _ r]
      by (auto intro!: convergeI simp: ac_simps neq_Nil_conv)
  next
    case (inside l r)
    then show ?thesis
      using strict_sp [of _ p a "l @ a' @ r" q] Slice_at [of _ l _ b' r] splice_at [of _ l b' r a']
      by (auto intro!: convergeI simp: ac_simps neq_Nil_conv)
  next
    case (outside l r)
    then show ?thesis
      using strict_sp [of _ p' a' "l @ a @ r" q'] Slice_at [of _ l _ b r] splice_at [of _ l b r a]
      by (auto intro!: convergeI simp: ac_simps neq_Nil_conv)
  next
    case (right l m r)
    then show ?thesis
      using strict_sp [of _ p' a' l "a @ q"] strict_sp [of _ "p' @ a'" a r q]
        Slice_pre [of _ l m] Slice_suf [of _ m _ r]
      by (auto intro!: convergeI simp: ac_simps neq_Nil_conv)
  qed
qed

lemma strict_mv: "mmove x m = Some y \<Longrightarrow> strict (Move m) (VColl (wrap x)) = Some (VColl (wrap y))"
  by (simp add: strict_move_wrap mmove_def)

lemma strict_mvE:
  assumes "strict (Move m) (VColl (wrap x)) = Some v"
  obtains y where "mmove x m = Some y" "v = VColl (wrap y)"
  using assms by (auto simp: strict_move_wrap mmove_def)

lemma Strict_movesToChange:
  assumes "foldM mmove x ms = Some y"
  shows "Strict (VColl (wrap x)) (movesToChange ms) = Some (VColl (wrap y))"
proof -
  have nil: "foldM Strict v (replicate k None @ cs) = foldM Strict v cs" for v k cs
    by (induction k) auto
  have pick: "Strict v (case cs of [] \<Rightarrow> None | [c] \<Rightarrow> c | _ \<Rightarrow> Some (ChangeSet cs)) = foldM Strict v cs"
    for v cs by (auto split: list.splits)
  have "foldM mmove x ms = Some y \<Longrightarrow> foldM Strict (VColl (wrap x))
      (map (Some \<circ> Move) (filter (\<lambda>m. mCount m \<noteq> 0 \<and> mDistance m \<noteq> 0) ms)) = Some (VColl (wrap y))"
    for x by (induction ms arbitrary: x)
      (auto simp: bind_Some_ex strict_mv simp del: strict.simps dest: mmove_zero [rotated])
  then show ?thesis using assms by (simp only: movesToChange_def Let_def pick nil)
qed

lemma move_move:
  assumes "strict (Move m) (VColl (wrap x)) = Some v1"
    and "strict (Move o1) (VColl (wrap x)) = Some v2"
  shows "converge v1 v2 (movesToChange (fst (Move_MergeMove m o1)))
    (movesToChange (snd (Move_MergeMove m o1)))"
proof -
  obtain x1 where x1: "mmove x m = Some x1" "v1 = VColl (wrap x1)" using assms(1) by (rule strict_mvE)
  obtain x2 where x2: "mmove x o1 = Some x2" "v2 = VColl (wrap x2)" using assms(2) by (rule strict_mvE)
  show ?thesis
    using mmoves_diamond [OF x1(1) x2(1)] Strict_movesToChange x1(2) x2(2) by (auto intro: convergeI)
qed

end

section \<open>Strings and arrays are sequences\<close>

definition wf_elem :: "val option \<Rightarrow> bool" where
  "wf_elem e = (case e of None \<Rightarrow> True | Some v \<Rightarrow> v \<noteq> VNil \<and> wf_val v)"

interpretation s8: sequence CS8 "\<lambda>_. True"
proof unfold_locales
  show "strict_splice (CS8 x) s = Some z \<longleftrightarrow>
     (\<exists>p b a q. x = p @ b @ q \<and> z = CS8 (p @ a @ q)
        \<and> s = \<lparr>sOffset = int (length p), sBefore = CS8 b, sAfter = CS8 a\<rparr>)" for x s z
    by (cases s) (auto simp: list_splice_Some_iff split: coll.splits)
qed (auto simp: S8_Count_def S8_Slice_def S8_splice_def S8_move_list_move list_all_iff)

interpretation arr: sequence CA wf_elem
proof unfold_locales
  show "strict_splice (CA x) s = Some z \<longleftrightarrow>
     (\<exists>p b a q. x = p @ b @ q \<and> z = CA (p @ a @ q)
        \<and> s = \<lparr>sOffset = int (length p), sBefore = CA b, sAfter = CA a\<rparr>)" for x s z
    by (cases s) (auto simp: list_splice_Some_iff split: coll.splits)
  show "wf_coll (CA x) = list_all wf_elem x" for x
    by (auto simp: list_all_iff wf_elem_def split: option.splits)
qed (auto simp: A_Count_def A_Slice_def A_splice_append A_move_list_move)

end
