(* ===== verification/Dot_Splice_Move.thy ===== *)
theory Dot_Splice_Move
  imports Dot_Sequences
begin

text \<open>
  A concurrent Splice and Move of one sequence converge: \<open>Splice.MergeMove\<close>. The cases
  follow the source: the moved block inside the spliced one, the spliced block inside the moved
  one, blocks apart from each other, and partial overlap, where the overlapping part of the move
  is undone first.
\<close>

section \<open>Segments\<close>

lemma mmove_right:
  "\<lbrakk>off = int (length a); cnt = int (length b); dist = int (length c)\<rbrakk> \<Longrightarrow>
     mmove (a @ b @ c @ d) (mk_move off cnt dist) = Some (a @ c @ b @ d)"
  by (simp add: mmove_def list_move_right)

lemma mmove_left:
  "\<lbrakk>off = int (length a) + int (length b); cnt = int (length c); dist = - int (length b)\<rbrakk> \<Longrightarrow>
     mmove (a @ b @ c @ d) (mk_move off cnt dist) = Some (a @ c @ b @ d)"
  by (simp add: mmove_def list_move_left)

lemma mmove_cases:
  assumes "mmove x m = Some y"
  obtains (right) a b c d where "x = a @ b @ c @ d" "y = a @ c @ b @ d"
      "m = mk_move (int (length a)) (int (length b)) (int (length c))"
  | (left) a b c d where "x = a @ b @ c @ d" "y = a @ c @ b @ d" "b \<noteq> []"
      "m = mk_move (int (length a) + int (length b)) (int (length c)) (- int (length b))"
  using assms by (cases m) (auto simp: mmove_def list_move_Some_iff)

lemma inside_block:
  assumes "p @ b @ q = a @ c @ d" "length p \<le> length a" "length a + length c \<le> length p + length b"
  obtains l r where "a = p @ l" "b = l @ c @ r" "d = r @ q"
proof -
  obtain l where l: "a = p @ l" "b @ q = (l @ c) @ d"
    using assms(1,2) by (cases rule: append_cases) auto
  from l(2) show ?thesis
  proof (cases rule: append_cases)
    case (le us)
    have "length l + length c = length b + length us"
      using arg_cong [OF le(1), of length] by (simp only: length_append)
    then have "us = []" using assms(3) l(1) by simp
    with le show ?thesis using that [of l "[]"] l(1) by simp
  next
    case (gt us)
    then show ?thesis using that [of l us] l(1) by simp
  qed
qed

lemma before_block:
  assumes "p @ b @ q = a @ d" "length p + length b \<le> length a"
  obtains e where "a = p @ b @ e" "q = e @ d"
proof -
  have "(p @ b) @ q = a @ d" using assms(1) by simp
  then show ?thesis
  proof (cases rule: append_cases)
    case (le us)
    then show ?thesis using that by simp
  next
    case (gt us)
    then have "length p + length b = length a + length us" by (metis length_append)
    then show ?thesis using assms(2) gt(3) by simp
  qed
qed

lemma gap_cases:
  assumes "r @ q = c @ d"
  obtains (near) r2 where "r = c @ r2" "d = r2 @ q" | (far) e where "c = r @ e" "q = e @ d" "e \<noteq> []"
  using assms by (cases rule: append_cases) auto

lemma rest_undo_right_int:
  assumes "mv_ok n mo mc md" "so < mo" "mo < se" "se < mo + mc" "lt = se - mo"
    and "rd = (if md < 0 then md - lt else md)" "ud = (if md < 0 then mc - lt - md else - md)"
  shows "mv_ok n (mo + lt) (mc - lt) rd" "mv_ok n (mo + md) lt ud"
    and "mv_dst (mo + md) lt ud (mv_dst mo mc md i) = mv_dst (mo + lt) (mc - lt) rd i"
  using assms unfolding move_int_defs by (smt (verit))+

lemma rest_undo_left_int:
  assumes "mv_ok n mo mc md" "mo < so" "so < mo + mc" "mo + mc < se" "rt = mo + mc - so" "rc = mc - rt"
    and "rd = (if md < 0 then md else md + rt)" "ud = (if md < 0 then - md else rt - md - mc)"
  shows "mv_ok n mo rc rd" "mv_ok n (mo + md + rc) rt ud"
    and "mv_dst (mo + md + rc) rt ud (mv_dst mo mc md i) = mv_dst mo rc rd i"
  using assms unfolding move_int_defs by (smt (verit))+

text \<open>
  Undoing the overlapping part after the move has the effect of the rest alone, and the rest is
  apart from the splice.
\<close>

lemma rest_undo:
  assumes "mmove x m = Some y" "move_rest_undo s m = (rest, undo)" "se = sOffset s + Count (sBefore s)"
    and "(sOffset s < mOffset m \<and> mOffset m < se \<and> se < mOffset m + mCount m)
      \<or> (mOffset m < sOffset s \<and> sOffset s < mOffset m + mCount m \<and> mOffset m + mCount m < se)"
  obtains z where "mmove x rest = Some z" "mmove y undo = Some z"
    and "se \<le> mOffset rest \<or> mOffset rest + mCount rest \<le> sOffset s"
    and "\<not> (mOffset rest \<le> sOffset s \<and> se \<le> mOffset rest + mCount rest)"
    and "\<not> (sOffset s \<le> mOffset rest \<and> mOffset rest + mCount rest \<le> se)"
proof -
  obtain mo mc md where m: "m = mk_move mo mc md" by (cases m)
  let ?n = "int (length x)"
  have ok: "mv_ok ?n mo mc md" using mmove_ok [OF assms(1)] by (simp add: m move_ok_def)
  have eff: "move_ok ?n rest \<and> move_ok ?n undo \<and> (\<forall>i. dsts [m, undo] i = dsts [rest] i)"
    using assms(2-4) rest_undo_right_int [OF ok _ _ _ refl refl refl, of "sOffset s" se]
      rest_undo_left_int [OF ok _ _ _ refl refl refl refl, of "sOffset s" se]
    by (auto simp: m move_rest_undo_def Let_def move_ints split: if_splits)
  then obtain z where z: "foldM mmove x [rest] = Some z"
    using mmoves_defined [of x "[rest]"] by auto
  moreover have "foldM mmove x [m, undo] = Some z"
    using mmoves_eq [of x "[m, undo]" "[rest]"] eff mmove_ok [OF assms(1)] z by simp
  ultimately have "mmove x rest = Some z" "mmove y undo = Some z"
    using assms(1) by (auto simp: bind_Some_ex)
  then show thesis
    by (rule that) (use assms(2-4) in \<open>auto simp: m move_rest_undo_def Let_def split: if_splits\<close>)
qed

context sequence
begin

lemma Strict_mv: "mmove x m = Some y \<Longrightarrow> Strict (VColl (wrap x)) (Some (Move m)) = Some (VColl (wrap y))"
  by (simp add: strict_mv del: strict.simps)

lemma Strict_sp:
  "off = int (length p) \<Longrightarrow> list_all wfe a \<Longrightarrow>
     Strict (VColl (wrap (p @ b @ q))) (Some (Splice (sp off b a))) = Some (VColl (wrap (p @ a @ q)))"
  by (simp add: strict_sp del: strict.simps)

lemma coll_mv: "mmove x m = Some y \<Longrightarrow> coll_move (wrap x) m = Some (wrap y)"
  using move_wrap by (simp add: mmove_def)

lemma contained_move:
  assumes y: "mmove (p @ b @ q) m = Some y" and wf: "list_all wfe a" "list_all wfe b"
    and inside: "int (length p) \<le> mOffset m" "mOffset m + mCount m \<le> int (length p) + int (length b)"
  shows "\<exists>mx sx. mergeContainedMove (sp (int (length p)) b a) m = Some (mx, sx)
    \<and> converge (VColl (wrap (p @ a @ q))) (VColl (wrap y)) mx sx"
  using y
proof (cases rule: mmove_cases)
  case (right A B C D)
  obtain l r where lr: "A = p @ l" "b = l @ B @ r" "r @ q = C @ D"
    using right inside by (elim inside_block) simp_all
  from lr(3) show ?thesis
  proof (cases rule: gap_cases)
    case (near r2)
    then show ?thesis
      using right lr coll_mv [OF mmove_right [OF refl refl refl, of l B C r2]]
        Strict_sp [OF refl wf(1), of p "l @ C @ B @ r2" q]
      by (auto simp: mergeContainedMove_def Let_def Count_wrap dest_def intro!: convergeI)
  next
    case (far e)
    then show ?thesis
      using right lr wf Slice_at [of _ l _ B r] Slice_empty [of B] splice_at [of _ l B r "[]"]
        Strict_sp [of _ "p @ a @ e" B "[]" D] Strict_sp [of _ p a "l @ r" "e @ B @ D"]
      by (auto simp: mergeContainedMove_def Let_def Count_wrap dest_def neq_Nil_conv ac_simps sp_fold
          simp del: Strict_simps intro!: convergeI)
  qed
next
  case (left A B C D)
  have "p @ b @ q = (A @ B) @ C @ D" using left by simp
  then obtain l r where lr: "A @ B = p @ l" "b = l @ C @ r" "D = r @ q"
    by (rule inside_block) (use left inside in simp_all)
  from lr(1) [symmetric] show ?thesis
  proof (cases rule: append_cases)
    case (le e)
    then show ?thesis
      using left lr coll_mv [OF mmove_left [OF refl refl refl, of e B C r]]
        Strict_sp [OF refl wf(1), of p "e @ C @ B @ r" q]
      by (auto simp: mergeContainedMove_def Let_def Count_wrap dest_def intro!: convergeI)
  next
    case (gt e)
    then show ?thesis
      using left(1,2,4) lr(2,3) wf Slice_at [of _ l _ C r] Slice_empty [of C] splice_at [of _ l C r "[]"]
        Strict_sp [of _ "A" C "[]" "e @ a @ q"] Strict_sp [of _ "A @ C @ e" a "l @ r" q]
      by (auto simp: mergeContainedMove_def Let_def Count_wrap dest_def neq_Nil_conv ac_simps sp_fold
          simp del: Strict_simps intro!: convergeI)
  qed
qed

lemma Strict_set2:
  "Strict v (Some c) = Some w \<Longrightarrow> Strict w (Some d) = Some z \<Longrightarrow>
     Strict v (Some (ChangeSet [Some c, Some d])) = Some z"
  by simp

lemmas apart_simps = mergeNonOverlappingMove_def Let_def Count_wrap dest_def neq_Nil_conv ac_simps

lemma apart_move_right:
  assumes m: "m = mk_move (int (length A)) (int (length B)) (int (length C))"
    and x: "p @ b @ q = A @ B @ C @ D" and wf: "list_all wfe a"
    and apart: "int (length p) + int (length b) \<le> mOffset m \<or> mOffset m + mCount m \<le> int (length p)"
    and out: "\<not> (mOffset m \<le> int (length p) \<and> int (length p) + int (length b) \<le> mOffset m + mCount m)"
    and ins: "\<not> (int (length p) \<le> mOffset m \<and> mOffset m + mCount m \<le> int (length p) + int (length b))"
  shows "\<exists>mx sx. mergeNonOverlappingMove (sp (int (length p)) b a) m = Some (mx, sx)
    \<and> converge (VColl (wrap (p @ a @ q))) (VColl (wrap (A @ C @ B @ D))) mx sx"
proof -
  have emp: "list_all wfe []" by simp
  consider (r1) e where "A = p @ b @ e" "q = e @ B @ C @ D" "b @ e \<noteq> []"
    | (r4) e where "p = A @ B @ C @ e" "D = e @ b @ q"
    | (r2) e f where "p = A @ B @ e" "C = e @ b @ f" "q = f @ D" "b @ f \<noteq> []"
    | (r3) e c2 b2 where "p = A @ B @ e" "C = e @ c2" "b = c2 @ b2" "D = b2 @ q"
      "c2 \<noteq> []" "b2 \<noteq> []" "B @ e \<noteq> []"
  proof (cases "int (length p) + int (length b) \<le> mOffset m")
    case True
    from x obtain e where e: "A = p @ b @ e" "q = e @ B @ C @ D"
      by (rule before_block) (use True m in simp)
    then have "b @ e \<noteq> []" using out m by auto
    with e show ?thesis by (rule r1)
  next
    case False
    with apart m have le: "length A + length B \<le> length p" by simp
    from x [symmetric] obtain e where e: "p = A @ B @ e" "C @ D = e @ b @ q"
      by (rule before_block) (use le in simp)
    from e(2) show ?thesis
    proof (cases rule: append_cases)
      case (le us)
      then show ?thesis using r4 [of us] e(1) by simp
    next
      case (gt c2)
      from gt(2) [symmetric] show ?thesis
      proof (cases rule: append_cases)
        case (le b2)
        show ?thesis
        proof (cases "b2 = []")
          case True
          then show ?thesis using r2 [of e "[]"] e(1) gt le by simp
        next
          case False
          have "B @ e \<noteq> []" using ins m e(1) gt le by auto
          then show ?thesis using False r3 [of e c2 b2] e(1) gt le by simp
        qed
      next
        case (gt f)
        then show ?thesis using r2 [of e f] e(1) \<open>C = e @ c2\<close> by simp
      qed
    qed
  qed
  then show ?thesis
  proof cases
    case r1
    then show ?thesis
      using Strict_mv [OF mmove_right, of _ "p @ a @ e" _ B _ C D] Strict_sp [OF refl wf, of p b "e @ C @ B @ D"]
      by (auto simp: apart_simps m simp del: Strict_simps intro!: convergeI)
  next
    case r4
    then show ?thesis
      using Strict_mv [OF mmove_right, of _ A _ B _ C "e @ a @ q"] Strict_sp [OF refl wf, of "A @ C @ B @ e" b q]
      by (auto simp: apart_simps m simp del: Strict_simps intro!: convergeI)
  next
    case r2
    then show ?thesis
      using Strict_mv [OF mmove_right, of _ A _ B _ "e @ a @ f" D] Strict_sp [OF refl wf, of "A @ e" b "f @ B @ D"]
      by (auto simp: apart_simps m simp del: Strict_simps intro!: convergeI)
  next
    case r3
    have pos: "0 < length c2" "0 < length b2" "0 < int (length B) + int (length e)" using r3 by (auto simp: neq_Nil_conv)
    have "mergeNonOverlappingMove (sp (int (length p)) b a) m
        = Some (Some (Move (mk_move (int (length A)) (int (length B)) (int (length (e @ a))))),
           Some (ChangeSet [Some (Splice (sp (int (length (A @ e @ c2 @ B))) b2 [])),
             Some (Splice (sp (int (length (A @ e))) c2 a))]))"
      using pos r3(1-4) Slice_pre [of _ c2 b2] Slice_empty [of b] Slice_suf [of _ c2 _ b2]
      by (simp add: apart_simps m sp_fold del: length_greater_0_conv of_nat_0_less_iff)
    moreover have "Strict (VColl (wrap (p @ a @ q)))
        (Some (Move (mk_move (int (length A)) (int (length B)) (int (length (e @ a))))))
        = Some (VColl (wrap (A @ e @ a @ B @ q)))"
      using Strict_mv [OF mmove_right [OF refl refl refl], of A B "e @ a" q] r3(1) by simp
    moreover have "Strict (VColl (wrap (A @ C @ B @ D)))
        (Some (ChangeSet [Some (Splice (sp (int (length (A @ e @ c2 @ B))) b2 [])),
             Some (Splice (sp (int (length (A @ e))) c2 a))])) = Some (VColl (wrap (A @ e @ a @ B @ q)))"
      using Strict_set2 [OF Strict_sp [OF refl emp, of "A @ e @ c2 @ B" b2 q]] Strict_sp [OF refl wf, of "A @ e" c2 "B @ q"] r3(2,4)
      by (simp del: Strict_simps)
    ultimately show ?thesis by (blast intro: convergeI)
  qed
qed

lemma apart_move_left:
  assumes m: "m = mk_move (int (length A) + int (length B)) (int (length C)) (- int (length B))"
    and x: "p @ b @ q = A @ B @ C @ D" and wf: "list_all wfe a" and B: "B \<noteq> []"
    and apart: "int (length p) + int (length b) \<le> mOffset m \<or> mOffset m + mCount m \<le> int (length p)"
    and out: "\<not> (mOffset m \<le> int (length p) \<and> int (length p) + int (length b) \<le> mOffset m + mCount m)"
    and ins: "\<not> (int (length p) \<le> mOffset m \<and> mOffset m + mCount m \<le> int (length p) + int (length b))"
  shows "\<exists>mx sx. mergeNonOverlappingMove (sp (int (length p)) b a) m = Some (mx, sx)
    \<and> converge (VColl (wrap (p @ a @ q))) (VColl (wrap (A @ C @ B @ D))) mx sx"
proof -
  have emp: "list_all wfe []" by simp
  consider (l4) e where "p = A @ B @ C @ e" "D = e @ b @ q"
    | (l1) g where "A = p @ b @ g" "q = g @ B @ C @ D" "b @ g \<noteq> []"
    | (l2) g e where "p = A @ g" "B = g @ b @ e" "q = e @ C @ D" "b @ e \<noteq> []"
    | (l3) f b2 e where "A = p @ f" "b = f @ b2" "B = b2 @ e" "q = e @ C @ D"
      "f \<noteq> []" "b2 \<noteq> []" "e @ C \<noteq> []"
  proof (cases "int (length p) + int (length b) \<le> mOffset m")
    case False
    with apart m have le: "length (A @ B) + length C \<le> length p" by simp
    have "(A @ B) @ C @ D = p @ b @ q" using x by simp
    then obtain e where "p = (A @ B) @ C @ e" "D = e @ b @ q"
      using le by (rule before_block)
    then show ?thesis using l4 [of e] by simp
  next
    case True
    have "p @ b @ q = (A @ B) @ C @ D" using x by simp
    then obtain e where e: "A @ B = p @ b @ e" "q = e @ C @ D"
      by (rule before_block) (use True m in simp)
    have out': "b @ e \<noteq> []" using out m arg_cong [OF e(1), of length] by auto
    from e(1) [symmetric] show ?thesis
    proof (cases rule: append_cases)
      case (gt g)
      then show ?thesis using l2 [of g e] e(2) out' by simp
    next
      case (le f)
      from le(2) show ?thesis
      proof (cases rule: append_cases)
        case (le g)
        then show ?thesis
          using l1 [of g] l2 [of "[]" e] \<open>A = p @ f\<close> e(2) out' by (cases "b @ g = []") simp_all
      next
        case (gt b2)
        have "e @ C \<noteq> []" if "f \<noteq> []"
          using ins m \<open>A = p @ f\<close> gt by auto
        then show ?thesis
          using l2 [of "[]" e] l3 [of f b2 e] \<open>A = p @ f\<close> gt e(2) out' by (cases "f = []") simp_all
      qed
    qed
  qed
  then show ?thesis
  proof cases
    case l4
    then show ?thesis
      using Strict_mv [OF mmove_left, of _ A B _ C _ "e @ a @ q"] Strict_sp [OF refl wf, of "A @ C @ B @ e" b q] B
      by (auto simp: apart_simps m simp del: Strict_simps intro!: convergeI)
  next
    case l1
    then show ?thesis
      using Strict_mv [OF mmove_left, of _ "p @ a @ g" B _ C _ D] Strict_sp [OF refl wf, of p b "g @ C @ B @ D"] B
      by (auto simp: apart_simps m simp del: Strict_simps intro!: convergeI)
  next
    case l2
    then show ?thesis
      using Strict_mv [OF mmove_left, of _ A "g @ a @ e" _ C _ D] Strict_sp [OF refl wf, of "A @ C @ g" b "e @ D"]
      by (auto simp: apart_simps m algebra_simps simp del: Strict_simps intro!: convergeI)
  next
    case l3
    have pos: "0 < length f" "0 < length b2" "0 < int (length e) + int (length C)" using l3 by (auto simp: neq_Nil_conv)
    have "mergeNonOverlappingMove (sp (int (length p)) b a) m
        = Some (Some (Move (mk_move (int (length (p @ a)) + int (length e)) (int (length C)) (- int (length e)))),
           Some (ChangeSet [Some (Splice (sp (int (length (p @ f @ C))) b2 [])),
             Some (Splice (sp (int (length p)) f a))]))"
      using pos l3(1-4) Slice_pre [of _ f b2] Slice_empty [of b] Slice_suf [of _ f _ b2]
      by (simp add: apart_simps m sp_fold del: length_greater_0_conv of_nat_0_less_iff)
    moreover have "Strict (VColl (wrap (p @ a @ q))) (Some (Move
        (mk_move (int (length (p @ a)) + int (length e)) (int (length C)) (- int (length e)))))
        = Some (VColl (wrap (p @ a @ C @ e @ D)))"
      using Strict_mv [OF mmove_left [OF refl refl refl], of "p @ a" e C D] l3(4) by simp
    moreover have "Strict (VColl (wrap (A @ C @ B @ D)))
        (Some (ChangeSet [Some (Splice (sp (int (length (p @ f @ C))) b2 [])),
             Some (Splice (sp (int (length p)) f a))])) = Some (VColl (wrap (p @ a @ C @ e @ D)))"
      using Strict_set2 [OF Strict_sp [OF refl emp, of "p @ f @ C" b2 "e @ D"]]
        Strict_sp [OF refl wf, of p f "C @ e @ D"] l3(1,3) by (simp del: Strict_simps)
    ultimately show ?thesis by (blast intro: convergeI)
  qed
qed

lemma apart_move:
  assumes "mmove (p @ b @ q) m = Some y" "list_all wfe a"
    and "int (length p) + int (length b) \<le> mOffset m \<or> mOffset m + mCount m \<le> int (length p)"
    and "\<not> (mOffset m \<le> int (length p) \<and> int (length p) + int (length b) \<le> mOffset m + mCount m)"
    and "\<not> (int (length p) \<le> mOffset m \<and> mOffset m + mCount m \<le> int (length p) + int (length b))"
  shows "\<exists>mx sx. mergeNonOverlappingMove (sp (int (length p)) b a) m = Some (mx, sx)
    \<and> converge (VColl (wrap (p @ a @ q))) (VColl (wrap y)) mx sx"
  using assms(1)
proof (cases rule: mmove_cases)
  case (right A B C D)
  show ?thesis using apart_move_right [OF right(3,1) assms(2-5)] right(2) by simp
next
  case (left A B C D)
  show ?thesis using apart_move_left [OF left(4,1) assms(2) left(3) assms(3-5)] left(2) by simp
qed

text \<open>The spliced block lies inside the moved one.\<close>

lemma containing_move:
  assumes y: "mmove (p @ b @ q) m = Some y" and wf: "list_all wfe a"
    and out: "mOffset m \<le> int (length p)" "int (length p) + int (length b) \<le> mOffset m + mCount m"
  shows "converge (VColl (wrap (p @ a @ q))) (VColl (wrap y))
    (Some (Move (m\<lparr>mCount := mCount m + (int (length a) - int (length b))\<rparr>)))
    (Some (Splice (sp (int (length p) + mDistance m) b a)))"
  using y
proof (cases rule: mmove_cases)
  case (right A B C D)
  obtain l r where lr: "p = A @ l" "B = l @ b @ r" "q = r @ C @ D"
    using right(1) [symmetric] by (rule inside_block) (use right out in simp_all)
  then show ?thesis
    using right Strict_mv [OF mmove_right, of _ A _ "l @ a @ r" _ C D]
      Strict_sp [OF refl wf, of "A @ C @ l" b "r @ D"]
    by (auto simp: ac_simps simp del: Strict_simps intro!: convergeI)
next
  case (left A B C D)
  have "(A @ B) @ C @ D = p @ b @ q" using left by simp
  then obtain l r where lr: "p = (A @ B) @ l" "C = l @ b @ r" "q = r @ D"
    by (rule inside_block) (use left out in simp_all)
  then show ?thesis
    using left Strict_mv [OF mmove_left, of _ A B _ "l @ a @ r" _ D]
      Strict_sp [OF refl wf, of "A @ l" b "r @ B @ D"]
    by (auto simp: ac_simps simp del: Strict_simps intro!: convergeI)
qed

lemma splice_move:
  assumes s: "strict (Splice s) (VColl (wrap x)) = Some v1"
    and m: "strict (Move m) (VColl (wrap x)) = Some v2" and wf: "list_all wfe x"
  shows "\<exists>mx sx. Splice_MergeMove s m = Some (mx, sx) \<and> converge v1 v2 mx sx"
proof -
  obtain p b a q where p: "x = p @ b @ q" "v1 = VColl (wrap (p @ a @ q))"
    "s = sp (int (length p)) b a" "list_all wfe a" using s by (rule strict_spE)
  obtain y where y: "mmove (p @ b @ q) m = Some y" "v2 = VColl (wrap y)"
    using m unfolding p(1) by (rule strict_mvE)
  have wfb: "list_all wfe b" using wf p(1) by simp
  let ?so = "int (length p)" and ?se = "int (length p) + int (length b)"
  consider (ins) "?so \<le> mOffset m" "mOffset m + mCount m \<le> ?se"
    | (out) "\<not> (?so \<le> mOffset m \<and> mOffset m + mCount m \<le> ?se)" "mOffset m \<le> ?so" "?se \<le> mOffset m + mCount m"
    | (apart) "\<not> (?so \<le> mOffset m \<and> mOffset m + mCount m \<le> ?se)"
      "\<not> (mOffset m \<le> ?so \<and> ?se \<le> mOffset m + mCount m)" "?se \<le> mOffset m \<or> mOffset m + mCount m \<le> ?so"
    | (overlap) "\<not> (?so \<le> mOffset m \<and> mOffset m + mCount m \<le> ?se)"
      "\<not> (mOffset m \<le> ?so \<and> ?se \<le> mOffset m + mCount m)"
      "\<not> (?se \<le> mOffset m \<or> mOffset m + mCount m \<le> ?so)" by blast
  then show ?thesis
  proof cases
    case ins
    then show ?thesis
      using contained_move [OF y(1) p(4) wfb] by (simp add: Splice_MergeMove_def Let_def Count_wrap p y(2))
  next
    case out
    then show ?thesis
      using containing_move [OF y(1) p(4)] by (auto simp: Splice_MergeMove_def Let_def Count_wrap p y(2))
  next
    case apart
    then show ?thesis
      using apart_move [OF y(1) p(4)] by (auto simp: Splice_MergeMove_def Let_def Count_wrap p y(2))
  next
    case overlap
    obtain rest undo where ru: "move_rest_undo s m = (rest, undo)" by fastforce
    obtain z where z: "mmove (p @ b @ q) rest = Some z" "mmove y undo = Some z"
      "?se \<le> mOffset rest \<or> mOffset rest + mCount rest \<le> ?so"
      "\<not> (mOffset rest \<le> ?so \<and> ?se \<le> mOffset rest + mCount rest)"
      "\<not> (?so \<le> mOffset rest \<and> mOffset rest + mCount rest \<le> ?se)"
      by (rule rest_undo [OF y(1) ru, of ?se]) (use overlap in \<open>auto simp: p(3) Count_wrap\<close>)
    obtain mx sx where x: "mergeNonOverlappingMove s rest = Some (mx, sx)"
      "converge v1 (VColl (wrap z)) mx sx"
      using apart_move [OF z(1) p(4) z(3-5)] p(2,3) by auto
    have "Strict v2 (Some (case sx of Some (ChangeSet cs) \<Rightarrow> ChangeSet (Some (Move undo) # cs)
        | _ \<Rightarrow> ChangeSet [Some (Move undo), sx])) = Strict (VColl (wrap z)) sx"
      using strict_mv [OF z(2)] y(2) by (auto simp del: strict.simps split: option.splits change.splits)
    then show ?thesis
      using x overlap ru by (auto simp: Splice_MergeMove_def Let_def Count_wrap p(3) converge_def)
  qed
qed

end

end
