(* ===== verification/Dot_Commute.thy ===== *)
theory Dot_Commute
  imports Dot_Merge Dot_Splice_Move
begin

text \<open>
  How changes of one value interact, one pair of kinds at a time: the three basic changes with
  each other on any value, changes below a path with each other and with a basic change of the
  value the path runs through, and \<open>Simplify\<close>, which never alters the effect of a change.
  These are the facts the methods of \<open>Dot_Diamond\<close> are built from.
\<close>

section \<open>Basic changes\<close>

lemma strict_Splice_cases:
  assumes "strict (Splice s) v = Some w"
  obtains (s8) x where "v = VS8 x" | (arr) x where "v = VA x"
  | (counter) n off d where "v = VCounter n" "w = VCounter (n + d)"
      "s = \<lparr>sOffset = off, sBefore = CCounter 0, sAfter = CCounter d\<rparr>"
proof -
  obtain c where v: "v = VColl c" "map_option VColl (strict_splice c s) = Some w"
    using assms by (cases v) (auto split: if_splits)
  show ?thesis
    using v s8 arr counter [of _ _ "sOffset s"] by (cases c; cases s) (auto split: coll.splits if_splits)
qed

lemma strict_Move_cases:
  assumes "strict (Move m) v = Some w"
  obtains (s8) x where "v = VS8 x" | (arr) x where "v = VA x"
proof -
  obtain c where v: "v = VColl c" "strict_move c m \<noteq> None"
    using assms by (cases v) auto
  show ?thesis using v s8 arr by (cases c) auto
qed

lemma splice_splice_conv:
  assumes s: "strict (Splice s) v = Some v1" and t: "strict (Splice t) v = Some v2"
  shows "\<exists>tx sx. Splice_MergeSplice s t = Some (tx, sx)
    \<and> converge v1 v2 (map_option Splice tx) (map_option Splice sx)"
  using s
proof (cases rule: strict_Splice_cases)
  case (s8 x)
  then show ?thesis using s8.splice_splice s t by blast
next
  case (arr x)
  then show ?thesis using arr.splice_splice s t by blast
next
  case (counter n off d)
  from t show ?thesis
    by (cases rule: strict_Splice_cases)
      (use counter in \<open>auto simp: Splice_MergeSplice_def Let_def Counter_Count_def converge_def add_ac\<close>)
qed

lemma splice_move_conv:
  assumes wf: "wf_val v" and s: "strict (Splice s) v = Some v1" and m: "strict (Move m) v = Some v2"
  shows "\<exists>mx sx. Splice_MergeMove s m = Some (mx, sx) \<and> converge v1 v2 mx sx"
  using m
proof (cases rule: strict_Move_cases)
  case (s8 x)
  then show ?thesis using s8.splice_move [of s x v1 m v2] s m by (simp add: list_all_iff del: strict.simps)
next
  case (arr x)
  then have "list_all wf_elem x" using wf arr.wf_wrap by simp
  then show ?thesis using arr arr.splice_move s m by blast
qed

lemma move_move_conv:
  assumes m: "strict (Move m) v = Some v1" and o1: "strict (Move o1) v = Some v2"
  shows "converge v1 v2 (movesToChange (fst (Move_MergeMove m o1)))
    (movesToChange (snd (Move_MergeMove m o1)))"
  using m by (cases rule: strict_Move_cases) (use s8.move_move arr.move_move m o1 in blast)+

lemma replace_replace_conv:
  assumes "strict (Replace s) v = Some v1" "strict (Replace t) v = Some v2"
  shows "converge v1 v2 (map_option Replace (fst (Replace_MergeReplace s t)))
    (map_option Replace (snd (Replace_MergeReplace s t)))"
  using assms
  by (auto simp: Replace_MergeReplace_def IsDelete_def converge_def split: if_splits)

text \<open>A Replace absorbs the other change into its Before.\<close>

lemma strict_not_Nil:
  "strict (Splice s) v = Some w \<Longrightarrow> w \<noteq> VNil" "strict (Move m) v = Some w \<Longrightarrow> w \<noteq> VNil"
  by (auto split: val.splits if_splits)

lemma replace_absorb:
  assumes "strict (Replace s) v = Some v1" "strict c v = Some v2" "v2 \<noteq> VNil"
  shows "apply_change c (rBefore s) = Some v2"
    and "converge v1 v2 None (Some (Replace (s\<lparr>rBefore := v2\<rparr>)))"
  using assms by (auto simp: converge_def split: if_splits dest: strict_apply)

section \<open>Changes below a path\<close>

lemma path_strict_append: "path_strict f (p @ q) = path_strict (path_strict f q) p"
  by (rule ext) (induction p, auto cong: Option.bind_cong)

lemma path_strict_Cons_Some:
  "path_strict f (k # p) v = Some w \<longleftrightarrow>
     (\<exists>x y. vget v k = Some x \<and> path_strict f p x = Some y \<and> vset v k y = Some w)"
  by (auto simp: bind_Some_ex)

lemma path_strict_id: "wf_val v \<Longrightarrow> path_strict Some p v = Some w \<Longrightarrow> w = v"
proof (induction p arbitrary: v w)
  case (Cons k p)
  then obtain x y where *: "vget v k = Some x" "path_strict Some p x = Some y" "vset v k y = Some w"
    by (auto simp: bind_Some_ex)
  then have "y = x" using Cons.IH [of x y] wf_vget [OF Cons.prems(1)] by simp
  then show ?case using * vset_vget [OF Cons.prems(1)] by simp
qed simp

lemma path_lift:
  assumes "path_strict f p v = Some v1" "path_strict g p v = Some v2" "wf_val v"
    and "\<And>x x1 x2. wf_val x \<Longrightarrow> f x = Some x1 \<Longrightarrow> g x = Some x2 \<Longrightarrow>
      \<exists>y. f' x1 = Some y \<and> g' x2 = Some y"
  shows "\<exists>w. path_strict f' p v1 = Some w \<and> path_strict g' p v2 = Some w"
  using assms(1-3)
proof (induction p arbitrary: v v1 v2)
  case (Cons k p)
  obtain x x1 where 1: "vget v k = Some x" "path_strict f p x = Some x1" "vset v k x1 = Some v1"
    using Cons.prems(1) by (auto simp: bind_Some_ex)
  obtain x2 where 2: "path_strict g p x = Some x2" "vset v k x2 = Some v2"
    using Cons.prems(2) 1(1) by (auto simp: bind_Some_ex)
  obtain y where y: "path_strict f' p x1 = Some y" "path_strict g' p x2 = Some y"
    using Cons.IH [OF 1(2) 2(1)] wf_vget [OF Cons.prems(3) 1(1)] by auto
  obtain w where w: "vset v k y = Some w" using vset_defined [of v k y] 1(1) by auto
  show ?case
    using y w vget_vset_same [OF 1(3)] vset_vset_same [OF 1(3)] vget_vset_same [OF 2(2)]
      vset_vset_same [OF 2(2)] by simp
qed (use assms(4) in auto)

lemma path_strict_end: "path_strict f p v = Some w \<Longrightarrow> \<exists>x y. f x = Some y"
  by (induction p arbitrary: v w) (auto simp: bind_Some_ex)

text \<open>Two paths that differ at some element.\<close>

lemma commonPrefixLen_le: "commonPrefixLen p q \<le> length p" "commonPrefixLen p q \<le> length q"
  by (induction p q rule: commonPrefixLen.induct) auto

lemma commonPrefixLen_prefix:
  "commonPrefixLen p q = length p \<Longrightarrow> q = p @ drop (length p) q"
  by (induction p q rule: commonPrefixLen.induct) (auto split: if_splits)

lemma commonPrefixLen_sym: "commonPrefixLen p q = commonPrefixLen q p"
  by (induction p q rule: commonPrefixLen.induct) auto

lemma path_apart:
  assumes "path_strict f p v = Some v1" "path_strict g q v = Some v2"
    and "length p \<noteq> commonPrefixLen p q" "length q \<noteq> commonPrefixLen p q"
  shows "\<exists>w. path_strict g q v1 = Some w \<and> path_strict f p v2 = Some w"
  using assms
proof (induction p q arbitrary: v v1 v2 rule: commonPrefixLen.induct)
  case (1 a p b q)
  obtain x x1 where x: "vget v a = Some x" "path_strict f p x = Some x1" "vset v a x1 = Some v1"
    using 1(2) by (auto simp: bind_Some_ex)
  obtain z z2 where z: "vget v b = Some z" "path_strict g q z = Some z2" "vset v b z2 = Some v2"
    using 1(3) by (auto simp: bind_Some_ex)
  show ?case
  proof (cases "a = b")
    case True
    then obtain y where y: "path_strict g q x1 = Some y" "path_strict f p z2 = Some y"
      using 1(1) [OF True, of x x1 z2] 1(4,5) x z by auto
    obtain w where "vset v a y = Some w" using vset_defined [of v a y] x(1) by auto
    then show ?thesis
      using True y vget_vset_same [OF x(3)] vset_vset_same [OF x(3)] vget_vset_same [OF z(3)]
        vset_vset_same [OF z(3)] by simp
  next
    case False
    then have g: "vget v1 b = Some z" "vget v2 a = Some x"
      using vget_vset_other [OF x(3), of b] vget_vset_other [OF z(3), of a] x(1) z(1) by auto
    obtain w where "vset v1 b z2 = Some w" using vset_defined [of v1 b z2] g(1) by auto
    then show ?thesis using g x z vset_vset_other [OF x(3) z(3)] False by simp
  qed
qed auto

section \<open>A basic change of an array and a change of one element\<close>

definition elem_get :: "val option \<Rightarrow> val" where
  "elem_get e = (case e of Some v \<Rightarrow> v | None \<Rightarrow> VNil)"

definition elem_put :: "val \<Rightarrow> val option" where
  "elem_put v = (if v \<noteq> VNil then Some v else None)"

lemma A_get_elem: "A_get xs (KInt i) =
    (if 0 \<le> i \<and> i < int (length xs) then Some (elem_get (xs ! nat i)) else None)"
  by (simp add: A_get_def elem_get_def)

lemma A_set_elem: "A_set xs (KInt i) y =
    (if 0 \<le> i \<and> i < int (length xs) then Some (xs[nat i := elem_put y]) else None)"
  by (simp add: A_set_def elem_put_def)

lemma path_array:
  "path_strict f (KInt i # p) (VA xs) = Some w \<longleftrightarrow>
     0 \<le> i \<and> i < int (length xs)
     \<and> (\<exists>y. path_strict f p (elem_get (xs ! nat i)) = Some y \<and> w = VA (xs[nat i := elem_put y]))"
  by (cases "path_strict f p (elem_get (xs ! nat i))") (auto simp: A_get_elem A_set_elem)

lemma path_VColl_cases:
  assumes "path_strict f (k # p) (VColl c) = Some w"
  obtains xs i where "c = CA xs" "k = KInt i"
  using assms by (cases c; cases k) (auto simp: A_get_def bind_Some_ex)

text \<open>Moving and then changing an element is changing it and then moving.\<close>

lemma mmove_update:
  assumes "mmove xs m = Some ys" "0 \<le> i" "i < int (length xs)"
  shows "mmove (xs[nat i := e]) m = Some (ys[nat (Move_MapIndex m i) := e])"
    and "ys ! nat (Move_MapIndex m i) = xs ! nat i"
    and "0 \<le> Move_MapIndex m i \<and> Move_MapIndex m i < int (length ys)"
proof -
  note at = mmove_at [OF assms] mmove_ok [OF assms(1)]
  show "ys ! nat (Move_MapIndex m i) = xs ! nat i" using at(1) by (simp add: at_def)
  show "0 \<le> Move_MapIndex m i \<and> Move_MapIndex m i < int (length ys)" using at by simp
  have ok: "move_ok (int (length (xs[nat i := e]))) m" using at(3) by simp
  then obtain zs where z: "mmove (xs[nat i := e]) m = Some zs" using mmove_defined by blast
  have "zs = ys[nat (Move_MapIndex m i) := e]"
  proof (rule list_eq_at)
    show len: "length zs = length (ys[nat (Move_MapIndex m i) := e])"
      using mmove_ok [OF z] at(3) by simp
    fix j assume j: "0 \<le> j" "j < int (length zs)"
    then obtain k where k: "0 \<le> k" "k < int (length xs)" "Move_MapIndex m k = j"
      using dsts_surj [of "int (length xs)" "[m]" j] at(3) len by auto
    have inj: "Move_MapIndex m k = Move_MapIndex m i \<longleftrightarrow> k = i"
      using mv_dst_src(2) [of "mCount m" "mOffset m" "mDistance m"] at(3)
      by (auto simp: MapIndex_dst move_ok_def mv_ok_def) metis
    have *: "at zs j = at (xs[nat i := e]) k" "at ys j = at xs k"
      using mmove_at(1) [OF z, of k] mmove_at(1) [OF assms(1) k(1,2)] k by auto
    show "at zs j = at (ys[nat (Move_MapIndex m i) := e]) j"
    proof (cases "k = i")
      case True
      then show ?thesis using * k(3) at assms(2,3) by (auto simp: at_def nat_less_iff)
    next
      case False
      then have "j \<noteq> Move_MapIndex m i" using inj k(3) by simp
      then show ?thesis using * False j(1) k assms(2) at(2) by (simp add: at_def nth_list_update nat_eq_iff2)
    qed
  qed
  then show "mmove (xs[nat i := e]) m = Some (ys[nat (Move_MapIndex m i) := e])" using z by simp
qed

lemma sub_move:
  assumes m: "strict (Move m) x = Some x1" and x2: "path_strict g (KInt i # r) x = Some x2"
  shows "\<exists>y. path_strict g (KInt (Move_MapIndex m i) # r) x1 = Some y \<and> strict (Move m) x2 = Some y"
proof -
  obtain xs where x: "x = VA xs" using m x2 by (cases x) (auto elim: path_VColl_cases simp del: path_strict.simps)
  obtain ys where ys: "mmove xs m = Some ys" "x1 = VA ys" using m unfolding x by (rule arr.strict_mvE)
  obtain e where e: "0 \<le> i" "i < int (length xs)" "path_strict g r (elem_get (xs ! nat i)) = Some e"
    "x2 = VA (xs[nat i := elem_put e])" using x2 unfolding x path_array by blast
  note up = mmove_update [OF ys(1) e(1,2)]
  show ?thesis
    unfolding ys(2) e(4) path_array using up(2,3) e(3) arr.strict_mv [OF up(1)] by auto
qed

lemma MapIndex_dest:
  "0 \<le> mCount m \<Longrightarrow> Move_MapIndex m i =
     (if i \<ge> mOffset m \<and> i < mOffset m + mCount m then i + mDistance m
      else if i \<ge> dest m \<and> i < mOffset m then i + mCount m
      else if i \<ge> mOffset m + mCount m \<and> i < dest m then i - mCount m else i)"
  by (auto simp: Move_MapIndex_def dest_def)

lemma sub_splice:
  assumes s: "strict (Splice s) x = Some x1" and x2: "path_strict g (KInt i # r) x = Some x2"
    and len: "n = Count (sBefore s)" "k = Count (sAfter s)"
  shows "i < sOffset s \<Longrightarrow>
      \<exists>y. path_strict g (KInt i # r) x1 = Some y \<and> strict (Splice s) x2 = Some y"
    and "sOffset s + n \<le> i \<Longrightarrow>
      \<exists>y. path_strict g (KInt (i + k - n) # r) x1 = Some y \<and> strict (Splice s) x2 = Some y"
    and "sOffset s \<le> i \<Longrightarrow> i < sOffset s + n \<Longrightarrow>
      \<exists>b. path_strict g (KInt (i - sOffset s) # r) (VColl (sBefore s)) = Some (VColl b)
        \<and> strict (Splice (s\<lparr>sBefore := b\<rparr>)) x2 = Some x1"
proof -
  obtain xs where x: "x = VA xs" using s x2 by (cases x) (auto elim: path_VColl_cases simp del: path_strict.simps)
  obtain p b a q where p: "xs = p @ b @ q" "x1 = VA (p @ a @ q)" "s = arr.sp (int (length p)) b a"
    "list_all wf_elem a" using s unfolding x by (rule arr.strict_spE)
  obtain e where e: "0 \<le> i" "i < int (length xs)" "path_strict g r (elem_get (xs ! nat i)) = Some e"
    "x2 = VA (xs[nat i := elem_put e])" using x2 unfolding x path_array by blast
  have nk: "n = int (length b)" "k = int (length a)" using len p(3) by (auto simp: A_Count_def)
  note st = arr.strict_sp [OF refl p(4)]
  show "\<exists>y. path_strict g (KInt i # r) x1 = Some y \<and> strict (Splice s) x2 = Some y"
    if "i < sOffset s"
  proof -
    have "nat i < length p" using that e(1) p(3) by auto
    then show ?thesis
      unfolding p(2) e(4) path_array using e(1,3) st [of "p[nat i := elem_put e]" b q]
      by (auto simp: p(1,3) nth_append list_update_append simp del: strict.simps)
  qed
  show "\<exists>y. path_strict g (KInt (i + k - n) # r) x1 = Some y \<and> strict (Splice s) x2 = Some y"
    if "sOffset s + n \<le> i"
  proof -
    define j where "j = nat (i - int (length p) - int (length b))"
    have j: "nat i = length p + length b + j" "j < length q" "nat (i + k - n) = length p + length a + j"
      "0 \<le> i + k - n" "i + k - n < int (length p + length a + length q)"
      using that e(1,2) p(1,3) nk unfolding j_def by auto
    then show ?thesis
      unfolding p(2) e(4) path_array using e(3) st [of p b "q[j := elem_put e]"]
      by (auto simp: p(1,3) nth_append list_update_append simp del: strict.simps)
  qed
  show "\<exists>b. path_strict g (KInt (i - sOffset s) # r) (VColl (sBefore s)) = Some (VColl b)
        \<and> strict (Splice (s\<lparr>sBefore := b\<rparr>)) x2 = Some x1"
    if "sOffset s \<le> i" "i < sOffset s + n"
  proof -
    define j where "j = nat (i - int (length p))"
    have j: "nat i = length p + j" "j < length b" "i - sOffset s = int j"
      using that e(1) p(3) nk unfolding j_def by auto
    then have "path_strict g (KInt (i - sOffset s) # r) (VA b) = Some (VA (b[j := elem_put e]))"
      unfolding path_array using e(3) by (auto simp: p(1) nth_append)
    moreover have "strict (Splice (s\<lparr>sBefore := CA (b[j := elem_put e])\<rparr>)) x2 = Some x1"
      using st [of p "b[j := elem_put e]" q] j
      by (simp add: p(1,2,3) e(4) list_update_append nth_append del: strict.simps)
    moreover have "sBefore s = CA b" using p(3) by simp
    ultimately show ?thesis by metis
  qed
qed

lemma vset_not_Nil: "vset v k y = Some w \<Longrightarrow> w \<noteq> VNil"
  by (induction v k y rule: vset.induct) auto

lemma sub_replace:
  assumes r: "strict (Replace s) x = Some x1" and x2: "path_strict g (k # p) x = Some x2"
  shows "rBefore s = x" "strict (Replace (s\<lparr>rBefore := x2\<rparr>)) x2 = Some x1"
  using r x2 by (auto simp: bind_Some_ex split: if_splits dest: vset_not_Nil)

section \<open>Simplify keeps the effect of a change\<close>

lemma pack_strict: "Strict v (pack cs) = foldM Strict v (map Some cs)"
  by (induction cs rule: pack.induct) auto

lemma non_nil_strict: "foldM Strict v (map Some (non_nil cs)) = foldM Strict v cs"
  by (induction cs arbitrary: v rule: list.induct) (auto simp: non_nil_def split: option.splits)

lemma strict_PathChange: "strict (PathChange p c) = path_strict (\<lambda>v. Strict v c) p"
  by (rule ext) simp

lemma join_path_strict: "strict (join_path p c) = path_strict (strict c) p"
  by (cases "(p, c)" rule: join_path.cases)
    (simp_all add: path_strict_append strict_PathChange del: strict.simps strict_compound)

lemma foldM_Strict_map:
  "foldM Strict v cs = Some w \<Longrightarrow> wf_val v \<Longrightarrow>
     (\<And>c x y. c \<in> set cs \<Longrightarrow> Strict x c = Some y \<Longrightarrow> wf_val x \<Longrightarrow> Strict x (f c) = Some y) \<Longrightarrow>
     foldM Strict v (map f cs) = Some w"
proof (induction cs arbitrary: v)
  case (Cons c cs)
  then obtain x where x: "Strict v c = Some x" "foldM Strict x cs = Some w"
    by (auto simp: bind_Some_ex)
  then show ?case using Cons Strict_wf [OF x(1)] by simp
qed simp

lemma path_strict_wf_mono:
  "path_strict f p v = Some w \<Longrightarrow> wf_val v \<Longrightarrow> (\<And>x y. wf_val x \<Longrightarrow> f x = Some y \<Longrightarrow> g x = Some y) \<Longrightarrow>
     path_strict g p v = Some w"
proof (induction p arbitrary: v w)
  case (Cons k p)
  then obtain x y where x: "vget v k = Some x" "path_strict f p x = Some y" "vset v k y = Some w"
    by (auto simp: bind_Some_ex)
  then show ?case using Cons wf_vget [OF Cons.prems(2) x(1)] by simp
qed simp

lemma Strict_Simplify: "Strict v c = Some w \<Longrightarrow> wf_val v \<Longrightarrow> Strict v (Simplify c) = Some w"
proof (induction c arbitrary: v w rule: Simplify.induct)
  case (2 cs)
  then show ?case
    using foldM_Strict_map [of v cs w Simplify] by (simp add: pack_strict non_nil_strict)
next
  case (3 p c)
  have "path_strict (\<lambda>v. Strict v (Simplify c)) p v = Some w"
    by (rule path_strict_wf_mono [of "\<lambda>v. Strict v c"]) (use 3 in auto)
  then show ?case
    using path_strict_id [OF 3(3), of p w]
    by (cases "Simplify c")
      (auto simp: join_path_strict strict_PathChange simp del: strict.simps strict_compound)
qed simp_all

end
