(* ===== verification/Dot_Diamond.thy ===== *)
theory Dot_Diamond
  imports Dot_Commute
begin

text \<open>
  The main contract of package \<open>changes\<close>: two changes made for the same value and merged
  converge. The locale \<open>merge_diamond\<close> states the contract for the two interface calls
  \<open>Merge\<close> and \<open>ReverseMerge\<close>; inside it every method is shown to keep the contract, given
  that the calls it makes keep it. The dispatchers of \<open>Dot_Merge\<close> interpret it for every
  amount of fuel.
\<close>

section \<open>The contract of Merge and ReverseMerge\<close>

locale merge_diamond =
  fixes M RM :: merge_fun
  assumes M_conv: "M c other = Some (ox, cx) \<Longrightarrow> wf_val v \<Longrightarrow> strict c v = Some v1 \<Longrightarrow>
      Strict v other = Some v2 \<Longrightarrow> converge v1 v2 ox cx"
    and RM_conv: "RM c other = Some (ox, cx) \<Longrightarrow> wf_val v \<Longrightarrow> strict c v = Some v1 \<Longrightarrow>
      Strict v other = Some v2 \<Longrightarrow> converge v1 v2 ox cx"
begin

lemma RM_swap:
  "swap_pair (RM c (Some d)) = Some (ox, dx) \<Longrightarrow> wf_val v \<Longrightarrow> strict d v = Some v1 \<Longrightarrow>
     strict c v = Some v2 \<Longrightarrow> converge v1 v2 ox dx"
  using RM_conv [of c "Some d"] by (auto simp: swap_pair_def converge_sym [of v1])

lemma Replace_Merge_conv:
  assumes "Replace_Merge RM s other = Some (ox, cx)" "wf_val v" "strict (Replace s) v = Some v1"
    "Strict v other = Some v2"
  shows "converge v1 v2 ox cx"
proof (cases other)
  case None
  then show ?thesis using assms by (auto simp: Replace_Merge_def converge_def)
next
  case (Some c)
  then have c: "strict c v = Some v2" using assms(4) by simp
  note [simp del] = strict.simps strict_compound
  show ?thesis
  proof (cases c)
    case (Replace r)
    then show ?thesis
      using assms(1) Some replace_replace_conv [OF assms(3), of r v2] c
      by (simp add: Replace_Merge_def change_of_def case_prod_beta Let_def)
  next
    case (Splice t)
    then show ?thesis
      using assms(1) Some replace_absorb [OF assms(3) c] c strict_not_Nil
      by (auto simp: Replace_Merge_def change_of_def Replace_MergeSplice_def)
  next
    case (Move t)
    then show ?thesis
      using assms(1) Some replace_absorb [OF assms(3) c] c strict_not_Nil
      by (auto simp: Replace_Merge_def change_of_def Replace_MergeMove_def)
  qed (use assms(1-3) Some c RM_swap in \<open>auto simp: Replace_Merge_def\<close>)
qed

lemma Splice_Merge_conv:
  assumes "Splice_Merge RM s other = Some (ox, cx)" "wf_val v" "strict (Splice s) v = Some v1"
    "Strict v other = Some v2"
  shows "converge v1 v2 ox cx"
proof (cases other)
  case None
  then show ?thesis using assms by (auto simp: Splice_Merge_def converge_def)
next
  case (Some c)
  then have c: "strict c v = Some v2" using assms(4) by simp
  note [simp del] = strict.simps strict_compound
  show ?thesis
  proof (cases c)
    case (Replace r)
    then show ?thesis
      using assms(1) Some replace_absorb [of r v v2, OF _ assms(3)] c strict_not_Nil(1) [OF assms(3)]
      by (auto simp: Splice_Merge_def change_of_def Splice_MergeReplace_def converge_sym [of v1])
  next
    case (Splice t)
    then show ?thesis
      using assms(1) Some splice_splice_conv [OF assms(3), of t v2] c
      by (auto simp: Splice_Merge_def change_of_def)
  next
    case (Move t)
    then show ?thesis
      using assms(1) Some splice_move_conv [OF assms(2,3), of t v2] c
      by (auto simp: Splice_Merge_def)
  qed (use assms(1-3) Some c RM_swap in \<open>auto simp: Splice_Merge_def\<close>)
qed

lemma Move_Merge_conv:
  assumes "Move_Merge RM m other = Some (ox, cx)" "wf_val v" "strict (Move m) v = Some v1"
    "Strict v other = Some v2"
  shows "converge v1 v2 ox cx"
proof (cases other)
  case None
  then show ?thesis using assms by (auto simp: Move_Merge_def converge_def)
next
  case (Some c)
  then have c: "strict c v = Some v2" using assms(4) by simp
  note [simp del] = strict.simps strict_compound
  show ?thesis
  proof (cases c)
    case (Replace r)
    then show ?thesis
      using assms(1) Some replace_absorb [of r v v2, OF _ assms(3)] c strict_not_Nil(2) [OF assms(3)]
      by (auto simp: Move_Merge_def change_of_def Move_MergeReplace_def converge_sym [of v1])
  next
    case (Splice t)
    then show ?thesis
      using assms(1) Some splice_move_conv [OF assms(2) _ assms(3), of t v2] c
      by (auto simp: Move_Merge_def Move_MergeSplice_def converge_sym [of v1])
  next
    case (Move t)
    then show ?thesis
      using assms(1) Some move_move_conv [OF assms(3), of t v2] c
      by (auto simp: Move_Merge_def Let_def case_prod_beta)
  qed (use assms(1-3) Some c RM_swap in \<open>auto simp: Move_Merge_def\<close>)
qed

lemma Merge_nil_conv:
  assumes "Merge_nil M c other = Some (ox, cx)" "wf_val v" "Strict v c = Some v1" "Strict v other = Some v2"
  shows "converge v1 v2 ox cx"
  using assms M_conv by (cases c) (auto simp: Merge_nil_def converge_def)

lemma ChangeSet_Merge_loop_conv:
  "ChangeSet_Merge_loop M cs other = Some (ox, results) \<Longrightarrow> wf_val v \<Longrightarrow> foldM Strict v cs = Some v1 \<Longrightarrow>
     Strict v other = Some v2 \<Longrightarrow> \<exists>w. Strict v1 ox = Some w \<and> foldM Strict v2 results = Some w"
proof (induction cs arbitrary: other results v v2)
  case (Cons c cs)
  obtain x where x: "Strict v c = Some x" "foldM Strict x cs = Some v1"
    using Cons.prems(3) by (auto simp: bind_Some_ex)
  obtain o' res rs where m: "Merge_nil M c other = Some (o', res)"
    "ChangeSet_Merge_loop M cs o' = Some (ox, rs)" "results = res # rs"
    using Cons.prems(1) by (auto simp: bind_Some_ex)
  obtain y where y: "Strict x o' = Some y" "Strict v2 res = Some y"
    using Merge_nil_conv [OF m(1) Cons.prems(2) x(1) Cons.prems(4)] by (auto simp: converge_def)
  show ?case
    using Cons.IH [OF m(2) Strict_wf [OF x(1) Cons.prems(2)] x(2) y(1)] y(2) m(3) by simp
qed auto

lemma ChangeSet_ReverseMerge_loop_conv:
  "ChangeSet_ReverseMerge_loop M cs other = Some (ox, results) \<Longrightarrow> wf_val v \<Longrightarrow>
     foldM Strict v cs = Some v1 \<Longrightarrow> Strict v other = Some v2 \<Longrightarrow>
     \<exists>w. Strict v1 ox = Some w \<and> foldM Strict v2 results = Some w"
proof (induction cs arbitrary: other results v v2)
  case (Cons c cs)
  obtain x where x: "Strict v c = Some x" "foldM Strict x cs = Some v1"
    using Cons.prems(3) by (auto simp: bind_Some_ex)
  obtain o' res rs where m: "Merge_nil M other c = Some (res, o')"
    "ChangeSet_ReverseMerge_loop M cs o' = Some (ox, rs)" "results = res # rs"
    using Cons.prems(1) by (auto simp: bind_Some_ex)
  obtain y where y: "Strict x o' = Some y" "Strict v2 res = Some y"
    using Merge_nil_conv [OF m(1) Cons.prems(2,4) x(1)] by (auto simp: converge_def)
  show ?case
    using Cons.IH [OF m(2) Strict_wf [OF x(1) Cons.prems(2)] x(2) y(1)] y(2) m(3) by simp
qed auto

lemma Simplify_set_conv:
  assumes "Strict v1 ox = Some w" "foldM Strict v2 results = Some w" "wf_val v2"
  shows "converge v1 v2 ox (ChangeSet_Simplify results)"
  using assms Strict_Simplify [of v2 "Some (ChangeSet results)" w]
  by (auto simp: converge_def ChangeSet_Simplify_def)

lemma ChangeSet_Merge_conv:
  assumes "ChangeSet_Merge M cs other = Some (ox, cx)" "wf_val v" "strict (ChangeSet cs) v = Some v1"
    "Strict v other = Some v2"
  shows "converge v1 v2 ox cx"
proof -
  obtain rs where r: "ChangeSet_Merge_loop M cs other = Some (ox, rs)" "cx = ChangeSet_Simplify rs"
    using assms(1) by (auto simp: ChangeSet_Merge_def bind_Some_ex)
  show ?thesis
    using ChangeSet_Merge_loop_conv [OF r(1) assms(2) _ assms(4)] assms(2-4) r(2)
      Simplify_set_conv Strict_wf by fastforce
qed

lemma ChangeSet_ReverseMerge_conv:
  assumes "ChangeSet_ReverseMerge M cs other = Some (ox, cx)" "wf_val v"
    "strict (ChangeSet cs) v = Some v1" "Strict v other = Some v2"
  shows "converge v1 v2 ox cx"
proof -
  obtain rs where r: "ChangeSet_ReverseMerge_loop M cs other = Some (ox, rs)" "cx = ChangeSet_Simplify rs"
    using assms(1) by (auto simp: ChangeSet_ReverseMerge_def bind_Some_ex)
  show ?thesis
    using ChangeSet_ReverseMerge_loop_conv [OF r(1) assms(2) _ assms(4)] assms(2-4) r(2)
      Simplify_set_conv Strict_wf by fastforce
qed

lemma Meta_Merge_conv:
  assumes "Meta_Merge M d c other = Some (ox, cx)" "wf_val v" "strict (Meta d c) v = Some v1"
    "Strict v other = Some v2"
  shows "converge v1 v2 ox cx"
  using assms M_conv
  by (cases c) (fastforce simp: Meta_Merge_def converge_def bind_Some_ex)+

lemma Meta_ReverseMerge_conv:
  assumes "Meta_ReverseMerge M d c other = Some (ox, cx)" "wf_val v" "strict (Meta d c) v = Some v1"
    "Strict v other = Some v2"
  shows "converge v1 v2 ox cx"
  using assms M_conv
  by (cases other) (fastforce simp: Meta_ReverseMerge_def converge_def bind_Some_ex)+

lemma prefixMerge_conv:
  assumes "prefixMerge M RM p l r reverse = Some (ox, cx)" "wf_val v"
    "path_strict (\<lambda>v. Strict v l) p v = Some v1" "path_strict (\<lambda>v. Strict v r) p v = Some v2"
  shows "converge v1 v2 ox cx"
proof -
  obtain l' r' where lr: "ox = Some (PathChange p l')" "cx = Some (PathChange p r')"
    and conv: "\<And>x x1 x2. wf_val x \<Longrightarrow> Strict x l = Some x1 \<Longrightarrow> Strict x r = Some x2 \<Longrightarrow> converge x1 x2 l' r'"
  proof (cases l)
    case None
    then show ?thesis
      using assms(1) M_conv that
      by (fastforce simp: prefixMerge_def swap_pair_def bind_Some_ex converge_def split: if_splits)
  next
    case (Some lc)
    consider "is_custom lc" "reverse" | rc where "\<not> (is_custom lc \<and> reverse)" "reverse" "r = Some rc"
      | "\<not> reverse \<or> r = None" "\<not> (is_custom lc \<and> reverse)" by (cases r) auto
    then show ?thesis
    proof cases
      case 1
      then show ?thesis using assms(1) Some RM_conv that by (fastforce simp: prefixMerge_def bind_Some_ex)
    next
      case (2 rc)
      then obtain a b where ab: "M rc l = Some (a, b)" "ox = Some (PathChange p b)" "cx = Some (PathChange p a)"
        using assms(1) Some by (auto simp: prefixMerge_def swap_pair_def bind_Some_ex)
      show ?thesis by (rule that [OF ab(2,3)]) (use M_conv [OF ab(1)] 2 in \<open>simp add: converge_sym [of _ _ b a]\<close>)
    next
      case 3
      then obtain a b where ab: "M lc r = Some (a, b)" "ox = Some (PathChange p a)" "cx = Some (PathChange p b)"
        using assms(1) Some by (auto simp: prefixMerge_def bind_Some_ex)
      show ?thesis by (rule that [OF ab(2,3)]) (use M_conv [OF ab(1)] Some in simp)
    qed
  qed
  show ?thesis
    using path_lift [OF assms(3,4,2), of "\<lambda>v. Strict v l'" "\<lambda>v. Strict v r'"] conv lr
    by (auto simp: converge_def)
qed

lemma path_pair_conv:
  assumes "path_strict f p v = Some v1" "path_strict g p v = Some v2" "wf_val v"
    and "\<And>x x1 x2. wf_val x \<Longrightarrow> f x = Some x1 \<Longrightarrow> g x = Some x2 \<Longrightarrow>
      \<exists>y. path_strict (\<lambda>v. Strict v d) q x1 = Some y \<and> Strict x2 c = Some y"
  shows "converge v1 v2 (Some (PathChange (p @ q) d)) (Some (PathChange p c))"
  using path_lift [OF assms(1-3), of "path_strict (\<lambda>v. Strict v d) q" "\<lambda>v. Strict v c"] assms(4)
  by (auto simp: converge_def path_strict_append)

lemma path_absorb_conv:
  assumes "path_strict f p v = Some v1" "path_strict g p v = Some v2" "wf_val v" "wf_val v1"
    and "\<And>x x1 x2. wf_val x \<Longrightarrow> f x = Some x1 \<Longrightarrow> g x = Some x2 \<Longrightarrow> Strict x2 c = Some x1"
  shows "converge v1 v2 None (Some (PathChange p c))"
  using path_lift [OF assms(1-3), of Some "\<lambda>v. Strict v c"] assms(5) path_strict_id [OF assms(4), of p]
  by (fastforce simp: converge_def)

lemma mergeSubPath_conv:
  assumes m: "mergeSubPath M RM p c (p @ k # ks) d reverse = Some (ox, cx)" and wf: "wf_val v"
    and v1: "strict (PathChange p c) v = Some v1"
    and v2: "strict (PathChange (p @ k # ks) d) v = Some v2"
  shows "converge v1 v2 ox cx"
proof -
  let ?f = "\<lambda>v. Strict v c" and ?g = "path_strict (\<lambda>v. Strict v d) (k # ks)"
  have f: "path_strict ?f p v = Some v1" using v1 by simp
  have g: "path_strict ?g p v = Some v2"
    using v2 by (simp only: strict_PathChange path_strict_append)
  have wf1: "wf_val v1" using strict_wf [OF v1 wf] .
  note [simp del] = path_strict.simps strict.simps
  show ?thesis
  proof (cases c)
    case None
    then show ?thesis
      using m v1 v2 path_strict_id [OF wf, of p v1] f
      by (auto simp: mergeSubPath_def Let_def converge_def)
  next
    case (Some ch)
    show ?thesis
    proof (cases ch)
      case (Replace r)
      obtain b where b: "Apply (rBefore r) (Some (PathChange (k # ks) d)) = Some b" "ox = None"
        "cx = Some (PathChange p (Some (Replace (r\<lparr>rBefore := b\<rparr>))))"
        using m Some Replace by (auto simp: mergeSubPath_def Let_def bind_Some_ex simp del: apply_compound)
      show ?thesis
        unfolding b
      proof (rule path_absorb_conv [OF f g wf wf1])
        fix x x1 x2 assume x: "wf_val x" "Strict x c = Some x1" "?g x = Some x2"
        then have "strict (PathChange (k # ks) d) x = Some x2" by simp
        then have "apply_change (PathChange (k # ks) d) x = Some x2" by (rule strict_apply)
        then show "Strict x2 (Some (Replace (r\<lparr>rBefore := b\<rparr>))) = Some x1"
          using x b(1) sub_replace [of r x x1 _ k ks x2] Some Replace by (simp del: apply_compound)
      qed
    next
      case (Move mv)
      obtain i where i: "k = KInt i"
        using m Some Move by (cases k) (auto simp: mergeSubPath_def Let_def key_int_def)
      have pos: "0 \<le> mCount mv" if "strict (Move mv) x = Some x1" for x x1
        using that by (cases rule: strict_Move_cases)
          (use that in \<open>auto simp: strict.simps list_move_Some_iff\<close>)
      have pair: "converge v1 v2 (Some (PathChange (p @ KInt (Move_MapIndex mv i) # ks) d)) (Some (PathChange p c))"
        by (rule path_pair_conv [OF f g wf]) (use Some Move i sub_move in auto)
      obtain x x1 where x: "strict (Move mv) x = Some x1"
        using path_strict_end [OF f] Some Move by auto
      show ?thesis
        using m pair Some Move i pos [OF x]
        by (auto simp: mergeSubPath_def Let_def key_int_def updateSubPathIndex_def MapIndex_dest split: if_splits)
    next
      case (Splice s)
      obtain i where i: "k = KInt i"
        using m Some Splice by (cases k) (auto simp: mergeSubPath_def Let_def key_int_def)
      let ?n = "Count (sBefore s)" and ?k = "Count (sAfter s)"
      consider "i < sOffset s" | "\<not> i < sOffset s" "sOffset s + ?n \<le> i"
        | "\<not> i < sOffset s" "\<not> sOffset s + ?n \<le> i" by linarith
      then show ?thesis
      proof cases
        case 1
        have "converge v1 v2 (Some (PathChange (p @ KInt i # ks) d)) (Some (PathChange p c))"
          by (rule path_pair_conv [OF f g wf]) (use Some Splice i 1 sub_splice(1) in auto)
        then show ?thesis
          using m Some Splice i 1 by (auto simp: mergeSubPath_def Let_def key_int_def)
      next
        case 2
        have "converge v1 v2 (Some (PathChange (p @ KInt (i + ?k - ?n) # ks) d)) (Some (PathChange p c))"
          by (rule path_pair_conv [OF f g wf]) (use Some Splice i 2 sub_splice(2) in auto)
        then show ?thesis
          using m Some Splice i 2
          by (auto simp: mergeSubPath_def Let_def key_int_def updateSubPathIndex_def)
      next
        case 3
        obtain b where b: "ApplyCollection (sBefore s) (PathChange (KInt (i - sOffset s) # ks) d) = Some b"
          "ox = None" "cx = Some (PathChange p (Some (Splice (s\<lparr>sBefore := b\<rparr>))))"
          using m Some Splice i 3
          by (auto simp: mergeSubPath_def Let_def key_int_def bind_Some_ex)
        show ?thesis
          unfolding b
        proof (rule path_absorb_conv [OF f g wf wf1])
          fix x x1 x2 assume "wf_val x" "Strict x c = Some x1" "?g x = Some x2"
          then obtain b' where b': "strict (PathChange (KInt (i - sOffset s) # ks) d) (VColl (sBefore s)) = Some (VColl b')"
            "strict (Splice (s\<lparr>sBefore := b'\<rparr>)) x2 = Some x1"
            using sub_splice(3) [of s x x1 "\<lambda>v. Strict v d" i ks x2] Some Splice i 3 by auto
          obtain xs where "sBefore s = CA xs"
            using b'(1) unfolding strict_PathChange by (rule path_VColl_cases)
          then have "b' = b"
            using b(1) strict_apply [OF b'(1)] by (simp add: ApplyCollection_def del: apply_compound)
          then show "Strict x2 (Some (Splice (s\<lparr>sBefore := b\<rparr>))) = Some x1" using b'(2) by simp
        qed
      qed
    qed (use m Some f g wf prefixMerge_conv [of p c _ reverse ox cx v v1 v2] in
        \<open>auto simp: mergeSubPath_def Let_def strict_PathChange simp del: strict_compound\<close>)
  qed
qed

lemma mergePathChange_conv:
  assumes m: "mergePathChange M RM p c q d reverse = Some (ox, cx)" and wf: "wf_val v"
    and v1: "strict (PathChange p c) v = Some v1" and v2: "strict (PathChange q d) v = Some v2"
  shows "converge v1 v2 ox cx"
proof -
  let ?n = "commonPrefixLen p q"
  consider (apart) "length p \<noteq> ?n" "length q \<noteq> ?n" | (same) "length p = ?n" "length q = ?n"
    | (sub) "length p = ?n" "length q \<noteq> ?n" | (sup) "length p \<noteq> ?n" "length q = ?n" by blast
  then show ?thesis
  proof cases
    case apart
    then show ?thesis
      using m v1 v2 path_apart [of _ p v v1 _ q v2] by (auto simp: mergePathChange_def converge_def)
  next
    case same
    then have "q = p" using commonPrefixLen_prefix [of p q] by simp
    then show ?thesis
      using same m v1 v2 wf prefixMerge_conv by (auto simp: mergePathChange_def)
  next
    case sub
    then obtain k ks where q: "q = p @ k # ks"
      using commonPrefixLen_prefix [of p q] by (metis append_self_conv neq_Nil_conv)
    then show ?thesis
      using sub m v1 v2 mergeSubPath_conv [OF _ wf] by (simp add: mergePathChange_def del: strict_compound)
  next
    case sup
    then have n: "commonPrefixLen q p = length q" by (simp add: commonPrefixLen_sym)
    then obtain k ks where p: "p = q @ k # ks"
      using commonPrefixLen_prefix [OF n] sup by (metis append_self_conv neq_Nil_conv)
    obtain ox' cx' where m': "mergeSubPath M RM q d p c (\<not> reverse) = Some (ox', cx')" "ox = cx'" "cx = ox'"
      using sup m by (auto simp: mergePathChange_def swap_pair_def)
    then show ?thesis
      using v1 v2 mergeSubPath_conv [OF _ wf] unfolding p converge_sym [of v1] by blast
  qed
qed

lemma strict_as_path: "as_path other = (q, d) \<Longrightarrow> Strict v other = strict (PathChange q d) v"
  by (auto simp: as_path_def split: option.splits change.splits)

lemma PathChange_Merge_conv:
  assumes "PathChange_Merge M RM p c other = Some (ox, cx)" "wf_val v"
    "strict (PathChange p c) v = Some v1" "Strict v other = Some v2"
  shows "converge v1 v2 ox cx"
  using assms mergePathChange_conv strict_as_path
  by (auto simp: PathChange_Merge_def split: prod.splits simp del: strict_compound)

lemma PathChange_ReverseMerge_conv:
  assumes "PathChange_ReverseMerge M RM p c other = Some (ox, cx)" "wf_val v"
    "strict (PathChange p c) v = Some v1" "Strict v other = Some v2"
  shows "converge v1 v2 ox cx"
  using assms mergePathChange_conv strict_as_path
  by (auto simp: PathChange_ReverseMerge_def split: prod.splits simp del: strict_compound)

end

section \<open>The dispatchers keep the contract\<close>

lemma merge_diamond_fuel: "merge_diamond (cMerge n) (cReverseMerge n)"
proof (induction n)
  case 0
  show ?case by unfold_locales auto
next
  case (Suc n)
  note conv = merge_diamond.Replace_Merge_conv [OF Suc] merge_diamond.Splice_Merge_conv [OF Suc]
    merge_diamond.Move_Merge_conv [OF Suc] merge_diamond.ChangeSet_Merge_conv [OF Suc]
    merge_diamond.ChangeSet_ReverseMerge_conv [OF Suc] merge_diamond.PathChange_Merge_conv [OF Suc]
    merge_diamond.PathChange_ReverseMerge_conv [OF Suc] merge_diamond.Meta_Merge_conv [OF Suc]
    merge_diamond.Meta_ReverseMerge_conv [OF Suc]
  show ?case
  proof unfold_locales
    fix c other ox cx v v1 v2
    assume *: "wf_val v" "strict c v = Some v1" "Strict v other = Some v2"
    show "converge v1 v2 ox cx" if "cMerge (Suc n) c other = Some (ox, cx)"
      using that *(2)
      by (cases c) (auto simp: Merge_step_def ReverseMerge_step_def
          simp del: strict.simps(1-6) strict_compound intro: conv [OF _ *(1) _ *(3)])
    show "converge v1 v2 ox cx" if "cReverseMerge (Suc n) c other = Some (ox, cx)"
      using that *(2)
      by (cases c) (auto simp: Merge_step_def ReverseMerge_step_def
          simp del: strict.simps(1-6) strict_compound intro: conv [OF _ *(1) _ *(3)])
  qed
qed

interpretation cm: merge_diamond "cMerge n" "cReverseMerge n" for n
  by (rule merge_diamond_fuel)

lemma Merge_converge:
  assumes "Merge n c1 c2 = Some (c2x, c1x)" "wf_val v" "Strict v c1 = Some v1" "Strict v c2 = Some v2"
  shows "converge v1 v2 c2x c1x"
  using assms unfolding Merge_def by (rule cm.Merge_nil_conv)

end
