(* ===== verification/Dot_Fuel.thy ===== *)
theory Dot_Fuel
  imports Dot_Diamond
begin

text \<open>
  More fuel never changes a result of Merge. The locale \<open>merge_mono\<close> relates two pairs of
  dispatchers of which the second returns whatever the first returns; every method keeps that
  relation.
\<close>

locale merge_mono =
  fixes M RM M' RM' :: merge_fun
  assumes M_le: "M c other = Some r \<Longrightarrow> M' c other = Some r"
    and RM_le: "RM c other = Some r \<Longrightarrow> RM' c other = Some r"
begin

lemma swap_le:
  "swap_pair (M c other) = Some r \<Longrightarrow> swap_pair (M' c other) = Some r"
  "swap_pair (RM c other) = Some r \<Longrightarrow> swap_pair (RM' c other) = Some r"
  by (auto simp: swap_pair_def dest: M_le RM_le)

lemma basic_le:
  "Replace_Merge RM s other = Some r \<Longrightarrow> Replace_Merge RM' s other = Some r"
  "Splice_Merge RM t other = Some r \<Longrightarrow> Splice_Merge RM' t other = Some r"
  "Move_Merge RM m other = Some r \<Longrightarrow> Move_Merge RM' m other = Some r"
  by (auto simp: Replace_Merge_def Splice_Merge_def Move_Merge_def swap_le
      split: option.splits change.splits)

lemma Merge_nil_le: "Merge_nil M c other = Some r \<Longrightarrow> Merge_nil M' c other = Some r"
  by (auto simp: Merge_nil_def M_le split: option.splits)

lemma ChangeSet_loop_le:
  "ChangeSet_Merge_loop M cs other = Some r \<Longrightarrow> ChangeSet_Merge_loop M' cs other = Some r"
  by (induction cs arbitrary: other r) (fastforce simp: bind_Some_ex dest: Merge_nil_le)+

lemma ChangeSet_Reverse_loop_le:
  "ChangeSet_ReverseMerge_loop M cs other = Some r \<Longrightarrow> ChangeSet_ReverseMerge_loop M' cs other = Some r"
  by (induction cs arbitrary: other r) (fastforce simp: bind_Some_ex dest: Merge_nil_le)+

lemma ChangeSet_le:
  "ChangeSet_Merge M cs other = Some r \<Longrightarrow> ChangeSet_Merge M' cs other = Some r"
  "ChangeSet_ReverseMerge M cs other = Some r \<Longrightarrow> ChangeSet_ReverseMerge M' cs other = Some r"
  by (auto simp: ChangeSet_Merge_def ChangeSet_ReverseMerge_def bind_Some_ex
      dest!: ChangeSet_loop_le ChangeSet_Reverse_loop_le)

lemma Meta_le:
  "Meta_Merge M d c other = Some r \<Longrightarrow> Meta_Merge M' d c other = Some r"
  "Meta_ReverseMerge M d c other = Some r \<Longrightarrow> Meta_ReverseMerge M' d c other = Some r"
  by (auto simp: Meta_Merge_def Meta_ReverseMerge_def bind_Some_ex split: option.splits dest!: M_le)

lemma prefixMerge_le:
  "prefixMerge M RM p l r bw = Some x \<Longrightarrow> prefixMerge M' RM' p l r bw = Some x"
  by (auto simp: prefixMerge_def bind_Some_ex swap_le M_le RM_le split: option.splits if_splits)

lemma mergeSubPath_le:
  "mergeSubPath M RM p c q d bw = Some x \<Longrightarrow> mergeSubPath M' RM' p c q d bw = Some x"
  by (auto simp: mergeSubPath_def Let_def prefixMerge_le split: option.splits change.splits)

lemma mergePathChange_le:
  "mergePathChange M RM p c q d bw = Some x \<Longrightarrow> mergePathChange M' RM' p c q d bw = Some x"
  by (auto simp: mergePathChange_def Let_def swap_pair_def dest!: prefixMerge_le mergeSubPath_le
      split: if_splits)

lemma PathChange_le:
  "PathChange_Merge M RM p c other = Some x \<Longrightarrow> PathChange_Merge M' RM' p c other = Some x"
  "PathChange_ReverseMerge M RM p c other = Some x \<Longrightarrow> PathChange_ReverseMerge M' RM' p c other = Some x"
  by (auto simp: PathChange_Merge_def PathChange_ReverseMerge_def mergePathChange_le split: prod.splits)

lemma Run_mergeMove_le: "Run_mergeMove M off n c m = Some x \<Longrightarrow> Run_mergeMove M' off n c m = Some x"
  by (auto simp: Run_mergeMove_def Let_def ChangeSet_le split: if_splits)

lemma ordered_le: "ordered_merge M rc oc bw = Some r \<Longrightarrow> ordered_merge M' rc oc bw = Some r"
  by (auto simp: ordered_merge_def swap_le M_le split: if_splits option.splits)

lemma Run_mergeRun_le:
  "Run_mergeRun M off n rc ooff on oc bw = Some x \<Longrightarrow> Run_mergeRun M' off n rc ooff on oc bw = Some x"
  by (auto simp: Run_mergeRun_def Let_def bind_Some_ex swap_pair_def split: if_splits
      dest!: ChangeSet_le ordered_le)

lemma Run_mergePathElem_le:
  "Run_mergePathElem M off n rc p d bw = Some x \<Longrightarrow> Run_mergePathElem M' off n rc p d bw = Some x"
  by (auto simp: Run_mergePathElem_def Let_def bind_Some_ex dest!: ordered_le split: if_split_asm)

lemma Run_merge_le: "Run_merge M RM off n rc other bw = Some x \<Longrightarrow> Run_merge M' RM' off n rc other bw = Some x"
proof (induction other rule: measure_induct_rule [of "size_option size"])
  case (less other)
  show ?case
  proof (cases "(\<exists>d. other = Some (PathChange [] d)) \<and> rc \<noteq> None")
    case True
    then obtain d where "other = Some (PathChange [] d)" "rc \<noteq> None" by auto
    then show ?thesis
      using less Run_merge.simps [of M RM off n rc "Some (PathChange [] d)" bw]
        Run_merge.simps [of M' RM' off n rc "Some (PathChange [] d)" bw] by auto
  next
    case False
    then show ?thesis
      using less.prems by (auto simp: Run_merge.simps [of _ _ _ _ _ other] swap_le Run_mergeMove_le
          Run_mergeRun_le Run_mergePathElem_le split: option.splits change.splits if_splits)
  qed
qed

lemma Update_le: "Update_Merge M RM k b a other bw = Some x \<Longrightarrow> Update_Merge M' RM' k b a other bw = Some x"
proof (induction other rule: measure_induct_rule [of "size_option size"])
  case (less other)
  show ?case
  proof (cases "\<exists>d. other = Some (PathChange [] d)")
    case True
    then obtain d where "other = Some (PathChange [] d)" by auto
    then show ?thesis
      using less Update_Merge.simps [of M RM k b a "Some (PathChange [] d)" bw]
        Update_Merge.simps [of M' RM' k b a "Some (PathChange [] d)" bw] by auto
  next
    case False
    then show ?thesis
      using less.prems by (auto simp: Update_Merge.simps [of _ _ _ _ _ other] Let_def swap_le
          split: option.splits change.splits if_splits)
  qed
qed

lemma step_le: "merge_mono (Merge_step M RM) (ReverseMerge_step M RM) (Merge_step M' RM') (ReverseMerge_step M' RM')"
proof unfold_locales
  fix c other r
  show "Merge_step M RM c other = Some r \<Longrightarrow> Merge_step M' RM' c other = Some r"
    by (cases c) (simp_all add: Merge_step_def basic_le ChangeSet_le PathChange_le Meta_le Run_merge_le Update_le)
  show "ReverseMerge_step M RM c other = Some r \<Longrightarrow> ReverseMerge_step M' RM' c other = Some r"
    by (cases c) (simp_all add: ReverseMerge_step_def ChangeSet_le PathChange_le Meta_le Run_merge_le Update_le)
qed

end

lemma merge_mono_fuel: "merge_mono (cMerge n) (cReverseMerge n) (cMerge (Suc n)) (cReverseMerge (Suc n))"
proof (induction n)
  case 0
  show ?case by unfold_locales auto
next
  case (Suc n)
  then show ?case unfolding cMerge.simps(2) cReverseMerge.simps(2) by (rule merge_mono.step_le)
qed

interpretation fuel: merge_mono "cMerge n" "cReverseMerge n" "cMerge (Suc n)" "cReverseMerge (Suc n)" for n
  by (rule merge_mono_fuel)

lemma cMerge_mono: "cMerge n c other = Some r \<Longrightarrow> n \<le> m \<Longrightarrow> cMerge m c other = Some r"
  by (induction m) (auto simp: le_Suc_eq simp del: cMerge.simps intro: fuel.M_le)

lemma cReverseMerge_mono: "cReverseMerge n c other = Some r \<Longrightarrow> n \<le> m \<Longrightarrow> cReverseMerge m c other = Some r"
  by (induction m) (auto simp: le_Suc_eq simp del: cReverseMerge.simps intro: fuel.RM_le)

lemma Merge_mono: "Merge n c1 c2 = Some r \<Longrightarrow> n \<le> m \<Longrightarrow> Merge m c1 c2 = Some r"
  by (cases c1) (auto simp: Merge_def Merge_nil_def simp del: cMerge.simps intro: cMerge_mono)

end
