(* ===== verification/Dot_Termination.thy ===== *)
theory Dot_Termination
  imports Dot_Fuel
begin

text \<open>
  Merge returns. For two changes without moves, made for the same value, some amount of fuel
  suffices: no call panics and the recursion ends. The recursion is not structural, since a
  change that is merged with the elements of a change set is transformed on the way and may get
  deeper; but it never gets heavier, where the weight counts the basic changes.
\<close>

section \<open>Weight and depth of a change\<close>

fun tame :: "change \<Rightarrow> bool" where
  "tame (ChangeSet cs) = list_all (\<lambda>c. case c of None \<Rightarrow> True | Some c \<Rightarrow> tame c) cs"
| "tame (PathChange p c) = (case c of None \<Rightarrow> True | Some c \<Rightarrow> tame c)"
| "tame (Meta d c) = (case c of None \<Rightarrow> True | Some c \<Rightarrow> tame c)"
| "tame (Replace r) = True"
| "tame (Splice s) = True"
| "tame c = False"

fun weight :: "change \<Rightarrow> nat" where
  "weight (ChangeSet cs) = max 1 (\<Sum>c\<leftarrow>cs. case c of None \<Rightarrow> 1 | Some c \<Rightarrow> weight c)"
| "weight (PathChange p c) = (case c of None \<Rightarrow> 1 | Some c \<Rightarrow> weight c)"
| "weight (Meta d c) = (case c of None \<Rightarrow> 1 | Some c \<Rightarrow> weight c)"
| "weight c = 1"

fun depth :: "change \<Rightarrow> nat" where
  "depth (ChangeSet cs) = Suc (\<Sum>c\<leftarrow>cs. case c of None \<Rightarrow> 0 | Some c \<Rightarrow> depth c)"
| "depth (PathChange p c) = Suc (case c of None \<Rightarrow> 0 | Some c \<Rightarrow> depth c)"
| "depth (Meta d c) = Suc (case c of None \<Rightarrow> 0 | Some c \<Rightarrow> depth c)"
| "depth c = 1"

definition Tame :: "change option \<Rightarrow> bool" where
  "Tame c = (case c of None \<Rightarrow> True | Some c \<Rightarrow> tame c)"

definition Weight :: "change option \<Rightarrow> nat" where
  "Weight c = (case c of None \<Rightarrow> 1 | Some c \<Rightarrow> weight c)"

definition Depth :: "change option \<Rightarrow> nat" where
  "Depth c = (case c of None \<Rightarrow> 0 | Some c \<Rightarrow> depth c)"

lemma measures [simp]:
  "Tame None" "Tame (Some c) = tame c" "Weight None = 1" "Weight (Some c) = weight c" "Depth None = 0" "Depth (Some c) = depth c"
  "tame (ChangeSet cs) = list_all Tame cs" "tame (PathChange p d) = Tame d" "tame (Meta k d) = Tame d"
  "weight (ChangeSet cs) = max 1 (\<Sum>c\<leftarrow>cs. Weight c)" "weight (PathChange p d) = Weight d" "weight (Meta k d) = Weight d"
  "depth (ChangeSet cs) = Suc (\<Sum>c\<leftarrow>cs. Depth c)" "depth (PathChange p d) = Suc (Depth d)" "depth (Meta k d) = Suc (Depth d)"
  by (simp_all add: Tame_def [abs_def] Weight_def [abs_def] Depth_def [abs_def] del: One_nat_def)

declare tame.simps(1-3) [simp del] weight.simps(1-3) [simp del] depth.simps(1-3) [simp del]

lemma weight_pos: "0 < weight c"
proof (induction c rule: weight.induct)
  case (2 p c)
  then show ?case by (cases c) auto
next
  case (3 d c)
  then show ?case by (cases c) auto
qed auto

lemma Weight_pos: "0 < Weight c" by (cases c) (auto simp: weight_pos)

lemma Weight_Suc [simp]: "Suc 0 \<le> Weight c" using Weight_pos [of c] by simp

definition lighter :: "change option \<Rightarrow> change option \<Rightarrow> bool" where
  "lighter a b \<longleftrightarrow> Tame a \<and> Weight a \<le> Weight b"

lemma lighter_refl: "Tame a \<Longrightarrow> lighter a a" by (simp add: lighter_def)

lemma lighter_trans: "lighter a b \<Longrightarrow> lighter b c \<Longrightarrow> lighter a c" by (simp add: lighter_def)

lemma lighter_None [simp]: "lighter None b" using Weight_pos [of b] by (simp add: lighter_def)

lemma pack_lighter: "list_all tame cs \<Longrightarrow> Tame (pack cs) \<and> Weight (pack cs) \<le> max 1 (\<Sum>c\<leftarrow>cs. weight c)"
  by (induction cs rule: pack.induct) (auto simp: o_def list_all_iff)

lemma non_nil_weight: "(\<Sum>c\<leftarrow>non_nil cs. weight c) \<le> (\<Sum>c\<leftarrow>cs. Weight c)"
proof (induction cs)
  case (Cons c cs)
  then show ?case by (cases c) auto
qed simp

lemma non_nil_tame: "list_all Tame cs \<Longrightarrow> list_all tame (non_nil cs)"
proof (induction cs)
  case (Cons c cs)
  then show ?case by (cases c) auto
qed simp

lemma join_path_lighter: "tame (join_path p c) = tame c" "weight (join_path p c) = weight c"
  by (cases "(p, c)" rule: join_path.cases; simp)+

lemma pack_non_nil_lighter:
  assumes "list_all Tame cs" "(\<Sum>c\<leftarrow>cs. Weight c) \<le> w" "0 < w"
  shows "Tame (pack (non_nil cs)) \<and> Weight (pack (non_nil cs)) \<le> w"
  using pack_lighter [OF non_nil_tame [OF assms(1)]] non_nil_weight [of cs] assms(2,3) by (simp add: max_def split: if_splits)

lemma Simplify_lighter: "Tame c \<Longrightarrow> lighter (Simplify c) c"
proof (induction c rule: Simplify.induct)
  case (2 cs)
  then have "list_all Tame (map Simplify cs)" by (auto simp: list_all_iff lighter_def)
  moreover have "(\<Sum>c\<leftarrow>map Simplify cs. Weight c) \<le> (\<Sum>c\<leftarrow>cs. Weight c)"
    using 2 by (simp add: list_all_iff lighter_def sum_list_mono)
  ultimately show ?case
    using pack_non_nil_lighter [of "map Simplify cs" "max 1 (\<Sum>c\<leftarrow>cs. Weight c)"] by (simp add: lighter_def)
next
  case (3 p c)
  then show ?case by (cases "Simplify c") (auto simp: lighter_def join_path_lighter)
qed (auto simp: lighter_def)

lemma ChangeSet_Simplify_lighter:
  assumes "list_all Tame rs" "(\<Sum>c\<leftarrow>rs. Weight c) \<le> (\<Sum>c\<leftarrow>cs. Weight c)"
  shows "lighter (ChangeSet_Simplify rs) (Some (ChangeSet cs))"
proof -
  have "ChangeSet_Simplify rs = Simplify (Some (ChangeSet rs))" by (simp add: ChangeSet_Simplify_def)
  moreover have "lighter (Simplify (Some (ChangeSet rs))) (Some (ChangeSet rs))" using assms(1) by (intro Simplify_lighter) simp
  moreover have "lighter (Some (ChangeSet rs)) (Some (ChangeSet cs))" using assms by (simp add: lighter_def max.coboundedI2)
  ultimately show ?thesis using lighter_trans by simp
qed

section \<open>What it means that a call returns\<close>

definition fits :: "change option \<Rightarrow> change option \<Rightarrow> bool" where
  "fits a b \<longleftrightarrow> Tame a \<and> Tame b \<and> (\<exists>v v1 v2. wf_val v \<and> Strict v a = Some v1 \<and> Strict v b = Some v2)"

definition merges :: "change option \<Rightarrow> change option \<Rightarrow> bool" where
  "merges a b \<longleftrightarrow> (fits a b \<longrightarrow> (\<exists>n ox ax. Merge n a b = Some (ox, ax) \<and> lighter ox b \<and> lighter ax a))"

definition reverse_merges :: "change \<Rightarrow> change option \<Rightarrow> bool" where
  "reverse_merges a b \<longleftrightarrow> (fits (Some a) b \<longrightarrow> (\<exists>n ox ax. cReverseMerge n a b = Some (ox, ax) \<and> lighter ox b \<and> lighter ax (Some a)))"

text \<open>Everything that is lighter, or less deep, returns.\<close>

definition below :: "change option \<Rightarrow> change option \<Rightarrow> change option \<Rightarrow> change option \<Rightarrow> bool" where
  "below a b c d \<longleftrightarrow> Weight a * Weight b < Weight c * Weight d
     \<or> Weight a * Weight b \<le> Weight c * Weight d \<and> Depth a + Depth b < Depth c + Depth d"

definition below_ok :: "change option \<Rightarrow> change option \<Rightarrow> bool" where
  "below_ok c d \<longleftrightarrow> (\<forall>a b. below a b c d \<longrightarrow> merges a b \<and> (\<forall>x. a = Some x \<longrightarrow> is_custom x \<longrightarrow> reverse_merges x b))"

lemma below_ok_sym: "below_ok c d = below_ok d c"
  by (simp add: below_ok_def below_def mult.commute add.commute)

lemma fits_sym: "fits a b = fits b a" by (auto simp: fits_def)

lemma cMerge_merges:
  assumes "merges (Some c) b" "fits (Some c) b"
  obtains n ox cx where "cMerge n c b = Some (ox, cx)" "lighter ox b" "lighter cx (Some c)"
  using assms by (auto simp: merges_def Merge_def Merge_nil_def)

lemma merges_NoneI: "merges None b"
  unfolding merges_def by (auto simp: Merge_def Merge_nil_def fits_def lighter_refl)

lemma mergesI: "cMerge (Suc n) c b = Some (ox, cx) \<Longrightarrow> lighter ox b \<Longrightarrow> lighter cx (Some c) \<Longrightarrow> merges (Some c) b"
  unfolding merges_def by (intro impI exI [of _ "Suc n"] exI) (auto simp: Merge_def Merge_nil_def)

section \<open>Change sets\<close>

lemma mono_max:
  "merge_mono (cMerge n) (cReverseMerge n) (cMerge (max n k)) (cReverseMerge (max n k))"
  "merge_mono (cMerge k) (cReverseMerge k) (cMerge (max n k)) (cReverseMerge (max n k))"
  by (unfold_locales; use cMerge_mono cReverseMerge_mono max.cobounded1 max.cobounded2 in blast)+

text \<open>The first element meets the other change itself, the later ones what has become of it.\<close>

lemma ChangeSet_loop_returns:
  "wf_val v \<Longrightarrow> foldM Strict v cs = Some v1 \<Longrightarrow> Strict v b = Some v2 \<Longrightarrow> list_all Tame cs \<Longrightarrow> Tame b \<Longrightarrow>
   (cs \<noteq> [] \<Longrightarrow> merges (hd cs) b) \<Longrightarrow> (\<And>e o'. e \<in> set (tl cs) \<Longrightarrow> lighter o' b \<Longrightarrow> merges e o') \<Longrightarrow>
    \<exists>n ox rs. ChangeSet_Merge_loop (cMerge n) cs b = Some (ox, rs) \<and> lighter ox b \<and> list_all Tame rs
      \<and> (\<Sum>c\<leftarrow>rs. Weight c) \<le> (\<Sum>c\<leftarrow>cs. Weight c)"
proof (induction cs arbitrary: v v2 b)
  case Nil
  then show ?case by (auto simp: lighter_def)
next
  case (Cons c cs)
  obtain x where x: "Strict v c = Some x" "foldM Strict x cs = Some v1" using Cons.prems(2) by (auto simp: bind_Some_ex)
  have "fits c b" using Cons.prems(1,3-5) x by (auto simp: fits_def)
  moreover have "merges c b" using Cons.prems(6) by simp
  ultimately obtain n ob cx where m: "Merge n c b = Some (ob, cx)" "lighter ob b" "lighter cx c" by (auto simp: merges_def)
  obtain y where y: "Strict x ob = Some y" "Strict v2 cx = Some y"
    using Merge_converge [OF m(1) Cons.prems(1) x(1) Cons.prems(3)] by (auto simp: converge_def)
  have later: "merges e o'" if "e \<in> set cs" "lighter o' ob" for e o'
    using Cons.prems(7) that m(2) lighter_trans by auto
  obtain k ox rs where r: "ChangeSet_Merge_loop (cMerge k) cs ob = Some (ox, rs)" "lighter ox ob" "list_all Tame rs"
    "(\<Sum>c\<leftarrow>rs. Weight c) \<le> (\<Sum>c\<leftarrow>cs. Weight c)"
    using Cons.IH [OF Strict_wf [OF x(1) Cons.prems(1)] x(2) y(1)] later [OF hd_in_set lighter_refl] later [OF list.set_sel(2)]
      Cons.prems(4) m(2) by (fastforce simp: lighter_def)
  have "ChangeSet_Merge_loop (cMerge (max n k)) (c # cs) b = Some (ox, cx # rs)"
    using merge_mono.Merge_nil_le [OF mono_max(1) m(1) [unfolded Merge_def]] merge_mono.ChangeSet_loop_le [OF mono_max(2) r(1)] by simp
  then show ?case using m(2,3) r(2-4) lighter_trans by (fastforce simp: lighter_def)
qed

lemma ChangeSet_Reverse_loop_returns:
  "wf_val v \<Longrightarrow> foldM Strict v cs = Some v1 \<Longrightarrow> Strict v b = Some v2 \<Longrightarrow> list_all Tame cs \<Longrightarrow> Tame b \<Longrightarrow>
   (cs \<noteq> [] \<Longrightarrow> merges b (hd cs)) \<Longrightarrow> (\<And>e o'. e \<in> set (tl cs) \<Longrightarrow> lighter o' b \<Longrightarrow> merges o' e) \<Longrightarrow>
    \<exists>n ox rs. ChangeSet_ReverseMerge_loop (cMerge n) cs b = Some (ox, rs) \<and> lighter ox b \<and> list_all Tame rs
      \<and> (\<Sum>c\<leftarrow>rs. Weight c) \<le> (\<Sum>c\<leftarrow>cs. Weight c)"
proof (induction cs arbitrary: v v2 b)
  case Nil
  then show ?case by (auto simp: lighter_def)
next
  case (Cons c cs)
  obtain x where x: "Strict v c = Some x" "foldM Strict x cs = Some v1" using Cons.prems(2) by (auto simp: bind_Some_ex)
  have "fits b c" using Cons.prems(1,3-5) x by (auto simp: fits_def)
  moreover have "merges b c" using Cons.prems(6) by simp
  ultimately obtain n ob cx where m: "Merge n b c = Some (cx, ob)" "lighter ob b" "lighter cx c" by (auto simp: merges_def)
  obtain y where y: "Strict x ob = Some y" "Strict v2 cx = Some y"
    using Merge_converge [OF m(1) Cons.prems(1) Cons.prems(3) x(1)] by (auto simp: converge_def)
  have later: "merges o' e" if "e \<in> set cs" "lighter o' ob" for e o'
    using Cons.prems(7) that m(2) lighter_trans by auto
  obtain k ox rs where r: "ChangeSet_ReverseMerge_loop (cMerge k) cs ob = Some (ox, rs)" "lighter ox ob" "list_all Tame rs"
    "(\<Sum>c\<leftarrow>rs. Weight c) \<le> (\<Sum>c\<leftarrow>cs. Weight c)"
    using Cons.IH [OF Strict_wf [OF x(1) Cons.prems(1)] x(2) y(1)] later [OF hd_in_set lighter_refl] later [OF list.set_sel(2)]
      Cons.prems(4) m(2) by (fastforce simp: lighter_def)
  have "ChangeSet_ReverseMerge_loop (cMerge (max n k)) (c # cs) b = Some (ox, cx # rs)"
    using merge_mono.Merge_nil_le [OF mono_max(1) m(1) [unfolded Merge_def]] merge_mono.ChangeSet_Reverse_loop_le [OF mono_max(2) r(1)] by simp
  then show ?case using m(2,3) r(2-4) lighter_trans by (fastforce simp: lighter_def)
qed

lemma below_sym: "below a b c d = below b a c d" "below a b c d = below a b d c"
  by (auto simp: below_def mult.commute add.commute)

lemma below_hd: "cs \<noteq> [] \<Longrightarrow> below (hd cs) b (Some (ChangeSet cs)) b"
  by (cases cs) (auto simp: below_def)

lemma below_tl:
  assumes "e \<in> set (tl cs)" "lighter o' b"
  shows "below e o' (Some (ChangeSet cs)) b"
proof -
  obtain c ds where cs: "cs = c # ds" "e \<in> set ds" using assms(1) by (cases cs) auto
  then have "Weight e < (\<Sum>c\<leftarrow>cs. Weight c)"
    using member_le_sum_list [of "Weight e" "map Weight ds"] Weight_pos [of c] by simp
  then show ?thesis using assms(2) Weight_pos [of o'] unfolding below_def lighter_def
    by (intro disjI1) (simp add: mult_less_le_imp_less)
qed

lemma ChangeSet_returns:
  assumes "below_ok (Some (ChangeSet cs)) b"
  shows "merges (Some (ChangeSet cs)) b \<and> reverse_merges (ChangeSet cs) b"
proof -
  have ok: "merges a o'" "merges o' a" if "below a o' (Some (ChangeSet cs)) b" for a o'
    using assms that below_sym unfolding below_ok_def by blast+
  have "\<exists>n ox ax. Merge n (Some (ChangeSet cs)) b = Some (ox, ax) \<and> lighter ox b \<and> lighter ax (Some (ChangeSet cs))"
    if F: "fits (Some (ChangeSet cs)) b"
  proof -
    obtain v v1 v2 where f: "wf_val v" "foldM Strict v cs = Some v1" "Strict v b = Some v2" "list_all Tame cs" "Tame b"
      using F by (auto simp: fits_def)
    obtain n ox rs where r: "ChangeSet_Merge_loop (cMerge n) cs b = Some (ox, rs)" "lighter ox b" "list_all Tame rs"
      "(\<Sum>c\<leftarrow>rs. Weight c) \<le> (\<Sum>c\<leftarrow>cs. Weight c)"
      using ChangeSet_loop_returns [OF f ok(1) [OF below_hd] ok(1) [OF below_tl]] by blast
    then have "Merge (Suc n) (Some (ChangeSet cs)) b = Some (ox, ChangeSet_Simplify rs)"
      by (simp add: Merge_def Merge_nil_def Merge_step_def ChangeSet_Merge_def)
    then show ?thesis using r(2) ChangeSet_Simplify_lighter [OF r(3,4)] by blast
  qed
  moreover have "\<exists>n ox ax. cReverseMerge n (ChangeSet cs) b = Some (ox, ax) \<and> lighter ox b \<and> lighter ax (Some (ChangeSet cs))"
    if F: "fits (Some (ChangeSet cs)) b"
  proof -
    obtain v v1 v2 where f: "wf_val v" "foldM Strict v cs = Some v1" "Strict v b = Some v2" "list_all Tame cs" "Tame b"
      using F by (auto simp: fits_def)
    obtain n ox rs where r: "ChangeSet_ReverseMerge_loop (cMerge n) cs b = Some (ox, rs)" "lighter ox b" "list_all Tame rs"
      "(\<Sum>c\<leftarrow>rs. Weight c) \<le> (\<Sum>c\<leftarrow>cs. Weight c)"
      using ChangeSet_Reverse_loop_returns [OF f ok(2) [OF below_hd] ok(2) [OF below_tl]] by blast
    then have "cReverseMerge (Suc n) (ChangeSet cs) b = Some (ox, ChangeSet_Simplify rs)"
      by (simp add: ReverseMerge_step_def ChangeSet_ReverseMerge_def)
    then show ?thesis using r(2) ChangeSet_Simplify_lighter [OF r(3,4)] by blast
  qed
  ultimately show ?thesis by (simp add: merges_def reverse_merges_def)
qed

section \<open>Meta\<close>

lemma Meta_returns:
  assumes "below_ok (Some (Meta d c)) b"
  shows "merges (Some (Meta d c)) b \<and> reverse_merges (Meta d c) b"
proof -
  have "below c b (Some (Meta d c)) b" by (simp add: below_def)
  then have ok: "merges c b" "merges b c" using assms below_sym unfolding below_ok_def by blast+
  have f: "fits c b" if "fits (Some (Meta d c)) b" using that by (simp add: fits_def)
  have "\<exists>n ox ax. Merge n (Some (Meta d c)) b = Some (ox, ax) \<and> lighter ox b \<and> lighter ax (Some (Meta d c))" if F: "fits (Some (Meta d c)) b"
  proof (cases c)
    case None
    then show ?thesis using F
      by (intro exI [of _ "Suc 0"]) (auto simp: Merge_def Merge_nil_def Merge_step_def Meta_Merge_def lighter_def fits_def)
  next
    case (Some x)
    then obtain n ox cx where "cMerge n x b = Some (ox, cx)" "lighter ox b" "lighter cx c"
      using cMerge_merges ok(1) f [OF F] by blast
    then show ?thesis using Some
      by (intro exI [of _ "Suc n"]) (auto simp: Merge_def Merge_nil_def Merge_step_def Meta_Merge_def lighter_def)
  qed
  moreover have "\<exists>n ox ax. cReverseMerge n (Meta d c) b = Some (ox, ax) \<and> lighter ox b \<and> lighter ax (Some (Meta d c))"
    if F: "fits (Some (Meta d c)) b"
  proof (cases b)
    case None
    then show ?thesis using F
      by (intro exI [of _ "Suc 0"]) (auto simp: ReverseMerge_step_def Meta_ReverseMerge_def lighter_def fits_def)
  next
    case (Some x)
    then obtain n ox cx where "cMerge n x c = Some (cx, ox)" "lighter ox b" "lighter cx c"
      using cMerge_merges ok(2) f [OF F] fits_sym by metis
    then show ?thesis using Some
      by (intro exI [of _ "Suc n"]) (auto simp: ReverseMerge_step_def Meta_ReverseMerge_def lighter_def)
  qed
  ultimately show ?thesis by (simp add: merges_def reverse_merges_def)
qed

section \<open>Paths\<close>

lemma path_both:
  assumes "path_strict f p v = Some v1" "path_strict g p v = Some v2" "wf_val v"
  shows "\<exists>x x1 x2. wf_val x \<and> f x = Some x1 \<and> g x = Some x2"
  using assms
proof (induction p arbitrary: v v1 v2)
  case (Cons k p)
  then show ?case using wf_vget by (fastforce simp: bind_Some_ex)
qed auto

lemma prefixMerge_returns:
  assumes "fits l r" "merges l r" "\<And>lc. l = Some lc \<Longrightarrow> is_custom lc \<Longrightarrow> reverse_merges lc r"
    and "(\<And>lc. l = Some lc \<Longrightarrow> \<not> is_custom lc) \<Longrightarrow> merges r l"
  shows "\<exists>n ox cx. prefixMerge (cMerge n) (cReverseMerge n) p l r reverse = Some (ox, cx) \<and> lighter ox r \<and> lighter cx l"
proof -
  have lr: "lighter (Some (PathChange p a)) b = lighter a b" for a b by (simp add: lighter_def)
  have call: "\<exists>n ox cx. cMerge n rc l = Some (cx, ox) \<and> lighter ox r \<and> lighter cx l" if "r = Some rc" "merges r l" for rc
    using cMerge_merges [of rc l] that assms(1) fits_sym by metis
  show ?thesis
  proof (cases l)
    case None
    show ?thesis
    proof (cases "reverse \<and> r \<noteq> None")
      case True
      then obtain rc n ox cx where "r = Some rc" "cMerge n rc l = Some (cx, ox)" "lighter ox r" "lighter cx l"
        using call assms(4) None by fastforce
      then show ?thesis using None True by (intro exI [of _ n]) (auto simp: prefixMerge_def swap_pair_def lr)
    next
      case False
      then show ?thesis using None assms(1) by (auto simp: prefixMerge_def lr fits_def lighter_refl)
    qed
  next
    case (Some lc)
    obtain n1 ox1 cx1 where c1: "cMerge n1 lc r = Some (ox1, cx1)" "lighter ox1 r" "lighter cx1 l"
      using cMerge_merges [of lc r] assms(1,2) Some by metis
    consider (custom) "is_custom lc" "reverse" | (swapped) rc where "\<not> is_custom lc" "reverse" "r = Some rc"
      | (plain) "\<not> (is_custom lc \<and> reverse)" "\<not> (reverse \<and> r \<noteq> None)" by (cases r) auto
    then show ?thesis
    proof cases
      case custom
      then obtain n ox cx where "cReverseMerge n lc r = Some (ox, cx)" "lighter ox r" "lighter cx l"
        using assms(1,3) Some by (auto simp: reverse_merges_def)
      then show ?thesis using Some custom by (intro exI [of _ n]) (auto simp: prefixMerge_def lr)
    next
      case (swapped rc)
      then obtain n ox cx where "cMerge n rc l = Some (cx, ox)" "lighter ox r" "lighter cx l"
        using call assms(4) Some by fastforce
      then show ?thesis using Some swapped by (intro exI [of _ n]) (auto simp: prefixMerge_def swap_pair_def lr)
    next
      case plain
      then show ?thesis using Some c1 by (intro exI [of _ n1]) (auto simp: prefixMerge_def lr)
    qed
  qed
qed

lemma sub_splice_index:
  assumes "strict (Splice s) x = Some x1" "path_strict g (k # ks) x = Some x2"
  obtains i where "k = KInt i"
proof -
  obtain cc where "x = VColl cc" using assms(1) by (cases x) auto
  then show ?thesis using assms(2) that path_VColl_cases by metis
qed

lemma mergeSubPath_returns:
  assumes "fits (Some (PathChange p c)) (Some (PathChange (p @ k # ks) d))"
    and "\<And>ch. c = Some ch \<Longrightarrow> is_custom ch \<Longrightarrow> merges c (Some (PathChange (k # ks) d)) \<and> reverse_merges ch (Some (PathChange (k # ks) d))"
  shows "\<exists>n ox cx. mergeSubPath (cMerge n) (cReverseMerge n) p c (p @ k # ks) d reverse = Some (ox, cx)
    \<and> lighter ox (Some (PathChange (p @ k # ks) d)) \<and> lighter cx (Some (PathChange p c))"
proof -
  let ?g = "path_strict (\<lambda>v. Strict v d) (k # ks)"
  obtain v v1 v2 where v: "wf_val v" "path_strict (\<lambda>v. Strict v c) p v = Some v1" "path_strict ?g p v = Some v2"
    using assms(1) by (auto simp: fits_def path_strict_append [symmetric])
  obtain x x1 x2 where x: "wf_val x" "Strict x c = Some x1" "?g x = Some x2" using path_both [OF v(2,3,1)] by blast
  have tame: "Tame c" "Tame d" using assms(1) by (auto simp: fits_def)
  have lp: "lighter (Some (PathChange p' a)) (Some (PathChange q' a))" if "Tame a" for p' q' a using that by (simp add: lighter_def)
  note [simp del] = path_strict.simps strict.simps
  show ?thesis
  proof (cases c)
    case None
    then show ?thesis using lp [OF tame(2)] by (auto simp: mergeSubPath_def Let_def)
  next
    case (Some ch)
    show ?thesis
    proof (cases "is_custom ch")
      case True
      have "fits c (Some (PathChange (k # ks) d))" using x tame by (auto simp: fits_def)
      then obtain n ox cx where "prefixMerge (cMerge n) (cReverseMerge n) p c (Some (PathChange (k # ks) d)) reverse = Some (ox, cx)"
        "lighter ox (Some (PathChange (k # ks) d))" "lighter cx c"
        using prefixMerge_returns [of c "Some (PathChange (k # ks) d)" p reverse] assms(2) Some True by auto
      then show ?thesis using Some True by (intro exI [of _ n]) (cases ch, auto simp: mergeSubPath_def Let_def lighter_def)
    next
      case False
      then consider (r) r where "ch = Replace r" | (s) s where "ch = Splice s" using Some tame(1) by (cases ch) auto
      then show ?thesis
      proof cases
        case (r r)
        have "strict (PathChange (k # ks) d) x = Some x2" using x(3) by simp
        then have "apply_change (PathChange (k # ks) d) x = Some x2" by (rule strict_apply)
        moreover have "rBefore r = x" using x(2) Some r sub_replace(1) [of r x x1] x(3) by simp
        ultimately show ?thesis using Some r by (auto simp: mergeSubPath_def Let_def lighter_def simp del: apply_compound)
      next
        case (s s)
        then have sx: "strict (Splice s) x = Some x1" using x(2) Some by simp
        obtain i where i: "k = KInt i" using sub_splice_index [OF sx x(3)] .
        consider "i < sOffset s" | "\<not> i < sOffset s" "sOffset s + Count (sBefore s) \<le> i"
          | (inside) "sOffset s \<le> i" "i < sOffset s + Count (sBefore s)" by linarith
        then show ?thesis
        proof cases
          case inside
          obtain b where b: "strict (PathChange (KInt (i - sOffset s) # ks) d) (VColl (sBefore s)) = Some (VColl b)"
            using sub_splice(3) [OF sx x(3) [unfolded i] refl refl inside] by auto
          obtain xs where "sBefore s = CA xs" using b unfolding strict_PathChange by (rule path_VColl_cases)
          then have "ApplyCollection (sBefore s) (PathChange (KInt (i - sOffset s) # ks) d) = Some b"
            using strict_apply [OF b] by (simp add: ApplyCollection_def del: apply_compound)
          then show ?thesis using Some s i inside by (auto simp: mergeSubPath_def Let_def key_int_def lighter_def)
        qed (use Some s i tame in \<open>auto simp: mergeSubPath_def Let_def key_int_def lighter_def updateSubPathIndex_def\<close>)
      qed
    qed
  qed
qed

lemma mergePathChange_returns:
  assumes f: "fits (Some (PathChange p c)) (Some (PathChange q d))"
    and same: "p = q \<Longrightarrow> merges c d \<and> merges d c \<and> (\<forall>ch. c = Some ch \<longrightarrow> is_custom ch \<longrightarrow> reverse_merges ch d)"
    and sub: "\<And>k ks ch. q = p @ k # ks \<Longrightarrow> c = Some ch \<Longrightarrow> is_custom ch \<Longrightarrow>
      merges c (Some (PathChange (k # ks) d)) \<and> reverse_merges ch (Some (PathChange (k # ks) d))"
    and sup: "\<And>k ks dh. p = q @ k # ks \<Longrightarrow> d = Some dh \<Longrightarrow> is_custom dh \<Longrightarrow>
      merges d (Some (PathChange (k # ks) c)) \<and> reverse_merges dh (Some (PathChange (k # ks) c))"
  shows "\<exists>n ox cx. mergePathChange (cMerge n) (cReverseMerge n) p c q d reverse = Some (ox, cx)
    \<and> lighter ox (Some (PathChange q d)) \<and> lighter cx (Some (PathChange p c))"
proof -
  let ?n = "commonPrefixLen p q"
  have tame: "Tame c" "Tame d" using f by (auto simp: fits_def)
  consider (apart) "length p \<noteq> ?n" "length q \<noteq> ?n" | (eq) "length p = ?n" "length q = ?n"
    | (less) "length p = ?n" "length q \<noteq> ?n" | (more) "length p \<noteq> ?n" "length q = ?n" by blast
  then show ?thesis
  proof cases
    case apart
    then show ?thesis using tame by (auto simp: mergePathChange_def lighter_def)
  next
    case eq
    then have q: "q = p" using commonPrefixLen_prefix [of p q] by simp
    obtain v v1 v2 where v: "wf_val v" "path_strict (\<lambda>v. Strict v c) p v = Some v1" "path_strict (\<lambda>v. Strict v d) p v = Some v2"
      using f q by (auto simp: fits_def)
    then have "fits c d" using path_both [OF v(2,3,1)] tame by (auto simp: fits_def)
    then obtain n ox cx where "prefixMerge (cMerge n) (cReverseMerge n) p c d reverse = Some (ox, cx)" "lighter ox d" "lighter cx c"
      using prefixMerge_returns [of c d p reverse] same q by blast
    then show ?thesis using eq by (intro exI [of _ n]) (auto simp: mergePathChange_def lighter_def)
  next
    case less
    then obtain k ks where q: "q = p @ k # ks"
      using commonPrefixLen_prefix [of p q] by (metis append_self_conv neq_Nil_conv)
    then obtain n ox cx where "mergeSubPath (cMerge n) (cReverseMerge n) p c q d reverse = Some (ox, cx)"
      "lighter ox (Some (PathChange q d))" "lighter cx (Some (PathChange p c))"
      using mergeSubPath_returns [of p c k ks d reverse] f sub by blast
    then show ?thesis using less by (intro exI [of _ n]) (auto simp: mergePathChange_def)
  next
    case more
    then have n: "commonPrefixLen q p = length q" by (simp add: commonPrefixLen_sym)
    then obtain k ks where p: "p = q @ k # ks"
      using commonPrefixLen_prefix [OF n] more by (metis append_self_conv neq_Nil_conv)
    then obtain n ox cx where "mergeSubPath (cMerge n) (cReverseMerge n) q d p c (\<not> reverse) = Some (cx, ox)"
      "lighter ox (Some (PathChange q d))" "lighter cx (Some (PathChange p c))"
      using mergeSubPath_returns [of q d k ks c "\<not> reverse"] f sup fits_sym by metis
    then show ?thesis using more by (intro exI [of _ n]) (auto simp: mergePathChange_def swap_pair_def)
  qed
qed

lemma below_ok_merges:
  assumes "below_ok c d" "below a b c d"
  shows "merges a b" "merges b a" "a = Some x \<Longrightarrow> is_custom x \<Longrightarrow> reverse_merges x b" "b = Some y \<Longrightarrow> is_custom y \<Longrightarrow> reverse_merges y a"
  using assms below_sym unfolding below_ok_def by blast+

lemma set_or_meta_returns:
  "below_ok (Some x) b \<Longrightarrow> x = ChangeSet cs \<or> x = Meta k d \<Longrightarrow> merges (Some x) b \<and> reverse_merges x b"
  using ChangeSet_returns Meta_returns by blast

text \<open>A change that is no path change is taken as one with an empty path.\<close>

lemma PathChange_call_returns:
  assumes "below_ok (Some (PathChange p c)) b" "fits (Some (PathChange p c)) b" "as_path b = (q, d)"
  shows "\<exists>n ox cx. mergePathChange (cMerge n) (cReverseMerge n) p c q d reverse = Some (ox, cx)
    \<and> lighter ox b \<and> lighter cx (Some (PathChange p c))"
proof -
  have same: "Tame (Some (PathChange q d)) = Tame b" "Weight (Some (PathChange q d)) = Weight b"
    using assms(3) by (auto simp: as_path_def split: option.splits change.splits)
  have f: "fits (Some (PathChange p c)) (Some (PathChange q d))"
    using assms(2) cm.strict_as_path [OF assms(3)] unfolding fits_def same(1) by simp
  have w: "lighter ox (Some (PathChange q d)) = lighter ox b" for ox using same by (simp add: lighter_def)
  note ok = below_ok_merges [OF assms(1)]
  show ?thesis
  proof (cases "\<exists>q d. b = Some (PathChange q d)")
    case True
    then have b: "b = Some (PathChange q d)" using assms(3) by (auto simp: as_path_def)
    have bl: "below c d (Some (PathChange p c)) b" "below c (Some (PathChange r d)) (Some (PathChange p c)) b"
      "below d (Some (PathChange r c)) (Some (PathChange p c)) b" for r
      unfolding b by (simp_all add: below_def mult.commute)
    show ?thesis using mergePathChange_returns [OF f, of reverse] ok [OF bl(1)] ok [OF bl(2)] ok [OF bl(3)] unfolding w by blast
  next
    case False
    then have qd: "q = []" "d = b" using assms(3) by (auto simp: as_path_def split: option.splits change.splits)
    have bl: "below c d (Some (PathChange p c)) b" unfolding qd by (simp add: below_def)
    have H: "merges b (Some (PathChange p c)) \<and> reverse_merges dh (Some (PathChange p c))" if "b = Some dh" "is_custom dh" for dh
    proof -
      have "tame dh" using assms(2) that by (simp add: fits_def)
      then have "(\<exists>cs. dh = ChangeSet cs) \<or> (\<exists>k e. dh = Meta k e)" using that False by (cases dh) auto
      then show ?thesis using set_or_meta_returns [of dh "Some (PathChange p c)"] assms(1) below_ok_sym that by blast
    qed
    have "\<exists>n ox cx. mergePathChange (cMerge n) (cReverseMerge n) p c q d reverse = Some (ox, cx)
        \<and> lighter ox (Some (PathChange q d)) \<and> lighter cx (Some (PathChange p c))"
      by (rule mergePathChange_returns [OF f]) (use ok [OF bl] qd H in auto)
    then show ?thesis unfolding w .
  qed
qed

lemma PathChange_returns:
  assumes "below_ok (Some (PathChange p c)) b"
  shows "merges (Some (PathChange p c)) b \<and> reverse_merges (PathChange p c) b"
proof -
  obtain q d where qd: "as_path b = (q, d)" by fastforce
  have m: "Merge (Suc n) (Some (PathChange p c)) b = mergePathChange (cMerge n) (cReverseMerge n) p c q d False" for n
    by (simp add: Merge_def Merge_nil_def Merge_step_def PathChange_Merge_def qd)
  have r: "cReverseMerge (Suc n) (PathChange p c) b = mergePathChange (cMerge n) (cReverseMerge n) p c q d True" for n
    by (simp add: ReverseMerge_step_def PathChange_ReverseMerge_def qd)
  show ?thesis
    using PathChange_call_returns [OF assms _ qd] unfolding merges_def reverse_merges_def by (metis m r)
qed

section \<open>Basic changes\<close>

lemma custom_returns: "below_ok (Some x) b \<Longrightarrow> is_custom x \<Longrightarrow> tame x \<Longrightarrow> merges (Some x) b \<and> reverse_merges x b"
  using set_or_meta_returns PathChange_returns by (cases x) auto

lemma basic_custom_returns:
  assumes "below_ok (Some s) (Some x)" "is_custom x" "\<not> is_custom s" "tame s"
  shows "merges (Some s) (Some x)"
proof -
  have "\<exists>n ox ax. Merge n (Some s) (Some x) = Some (ox, ax) \<and> lighter ox (Some x) \<and> lighter ax (Some s)" if F: "fits (Some s) (Some x)"
  proof -
    have "reverse_merges x (Some s)"
      using custom_returns [of x "Some s"] assms F below_ok_sym by (auto simp: fits_def)
    then obtain n ox ax where r: "cReverseMerge n x (Some s) = Some (ax, ox)" "lighter ox (Some x)" "lighter ax (Some s)"
      using F fits_sym by (auto simp: reverse_merges_def)
    then have "Merge (Suc n) (Some s) (Some x) = Some (ox, ax)"
      using assms(2-4) by (cases s; cases x) (auto simp: Merge_def Merge_nil_def Merge_step_def Replace_Merge_def Splice_Merge_def swap_pair_def)
    then show ?thesis using r by blast
  qed
  then show ?thesis by (simp add: merges_def)
qed

lemma basic_basic_returns:
  assumes "strict a v = Some v1" "strict b v = Some v2" "\<not> is_custom a" "\<not> is_custom b" "wf_val v"
  shows "\<exists>ox ax. Merge 1 (Some a) (Some b) = Some (ox, ax) \<and> (tame a \<longrightarrow> tame b \<longrightarrow> lighter ox (Some b) \<and> lighter ax (Some a))"
proof -
  have 1: "Merge 1 (Some a) (Some b) = Merge_step (cMerge 0) (cReverseMerge 0) a (Some b)"
    by (simp add: Merge_def Merge_nil_def)
  have l0: "lighter (Some (Splice s)) (Some c)" "lighter (Some (Replace r)) (Some c)" for s r c
    by (simp_all add: lighter_def Suc_le_eq weight_pos)
  have l: "lighter (map_option Splice x) (Some c)" "lighter (map_option Replace y) (Some c)" for x y c
    by (cases x; simp add: lighter_def Suc_le_eq weight_pos) (cases y; simp add: lighter_def Suc_le_eq weight_pos)
  note defs = Merge_step_def change_of_def l l0
  note [simp del] = strict.simps
  show ?thesis unfolding 1
  proof (cases a)
    case a: (Replace r)
    show "\<exists>ox ax. Merge_step (cMerge 0) (cReverseMerge 0) a (Some b) = Some (ox, ax) \<and> (tame a \<longrightarrow> tame b \<longrightarrow> lighter ox (Some b) \<and> lighter ax (Some a))"
      using assms replace_absorb(1) [of r v v1 b v2] strict_not_Nil a
      by (cases b) (auto simp: defs Replace_Merge_def Replace_MergeSplice_def Replace_MergeMove_def Let_def case_prod_beta)
  next
    case a: (Splice s)
    show "\<exists>ox ax. Merge_step (cMerge 0) (cReverseMerge 0) a (Some b) = Some (ox, ax) \<and> (tame a \<longrightarrow> tame b \<longrightarrow> lighter ox (Some b) \<and> lighter ax (Some a))"
    proof (cases b)
      case b: (Replace r)
      have "apply_change a (rBefore r) = Some v1" using replace_absorb(1) [of r v v2 a v1] assms a b strict_not_Nil by simp
      then show ?thesis using a b by (auto simp: defs Splice_Merge_def Splice_MergeReplace_def lighter_def)
    next
      case b: (Splice u)
      then show ?thesis using a splice_splice_conv [of s v v1 u v2] assms(1,2) by (auto simp: defs Splice_Merge_def)
    next
      case b: (Move u)
      then show ?thesis using a splice_move_conv [OF assms(5), of s v1 u v2] assms(1,2) by (auto simp: defs Splice_Merge_def)
    qed (use assms(4) in auto)
  next
    case a: (Move m)
    show "\<exists>ox ax. Merge_step (cMerge 0) (cReverseMerge 0) a (Some b) = Some (ox, ax) \<and> (tame a \<longrightarrow> tame b \<longrightarrow> lighter ox (Some b) \<and> lighter ax (Some a))"
    proof (cases b)
      case b: (Replace r)
      have "apply_change a (rBefore r) = Some v1" using replace_absorb(1) [of r v v2 a v1] assms a b strict_not_Nil by simp
      then show ?thesis using a b by (auto simp: defs Move_Merge_def Move_MergeReplace_def)
    next
      case b: (Splice u)
      then show ?thesis using a splice_move_conv [OF assms(5), of u v2 m v1] assms(1,2) by (auto simp: defs Move_Merge_def Move_MergeSplice_def)
    next
      case b: (Move u)
      then show ?thesis using a by (auto simp: defs Move_Merge_def case_prod_beta)
    qed (use assms(4) in auto)
  qed (use assms(3) in auto)
qed

section \<open>Merge returns\<close>

lemma basic_returns:
  assumes "below_ok (Some s) b" "\<not> is_custom s"
  shows "merges (Some s) b"
proof (cases b)
  case None
  then have "Merge 1 (Some s) b = Some (None, Some s)"
    using assms(2) by (cases s) (auto simp: Merge_def Merge_nil_def Merge_step_def Replace_Merge_def Splice_Merge_def Move_Merge_def)
  then show ?thesis using None lighter_refl unfolding merges_def fits_def by (metis lighter_None)
next
  case (Some x)
  have "merges (Some s) (Some x)" if "\<not> is_custom x"
    unfolding merges_def fits_def using basic_basic_returns [of s _ _ x] assms(2) that by fastforce
  moreover have "merges (Some s) (Some x)" if "\<not> tame s" using that by (simp add: merges_def fits_def)
  ultimately show ?thesis using Some basic_custom_returns assms by blast
qed

lemma all_return: "merges a b \<and> (\<forall>x. a = Some x \<longrightarrow> is_custom x \<longrightarrow> reverse_merges x b)"
proof (induction "(Weight a * Weight b, Depth a + Depth b)" arbitrary: a b
    rule: wf_induct_rule [OF wf_lex_prod [OF wf_less_than wf_less_than]])
  case 1
  have "merges c d \<and> (\<forall>x. c = Some x \<longrightarrow> is_custom x \<longrightarrow> reverse_merges x d)" if "below c d a b" for c d
    using 1 [of c d] that unfolding below_def by (auto simp: le_less)
  then have ok: "below_ok a b" unfolding below_ok_def by blast
  show ?case
  proof (cases a)
    case None
    then show ?thesis by (simp add: merges_NoneI)
  next
    case (Some x)
    show ?thesis
    proof (cases "is_custom x \<and> tame x")
      case True
      then show ?thesis using custom_returns ok Some by blast
    next
      case False
      moreover have "merges (Some x) b \<and> reverse_merges x b" if "\<not> tame x" using that by (simp add: merges_def reverse_merges_def fits_def)
      ultimately show ?thesis using basic_returns ok Some by blast
    qed
  qed
qed

lemma Merge_returns:
  assumes "Tame a" "Tame b" "wf_val v" "Strict v a = Some v1" "Strict v b = Some v2"
  shows "\<exists>n ox ax. Merge n a b = Some (ox, ax) \<and> Tame ox \<and> Tame ax"
  using all_return [of a b] assms unfolding merges_def fits_def lighter_def by blast

text \<open>Also with enough fuel for any given number of calls.\<close>

lemma Merge_returns_from:
  assumes "Tame a" "Tame b" "wf_val v" "Strict v a = Some v1" "Strict v b = Some v2"
  shows "\<exists>n ox ax. \<forall>m \<ge> n. Merge m a b = Some (ox, ax)"
  using Merge_returns [OF assms] Merge_mono by blast

end
