(* ===== verification/Dot_Dispatch.thy ===== *)
theory Dot_Dispatch
  imports Dot_Apply
begin

text \<open>
  The methods \<open>Apply\<close> and \<open>ApplyTo\<close> as Go has them: one method per value type that
  switches on the change, and one method per custom change type that calls back into the value.
  Each is written over the interface call \<open>A v c\<close> for \<open>v.Apply(ctx, c)\<close>. The function
  \<open>Apply\<close> of \<open>Dot_Apply\<close> solves this mutual recursion: it equals the method of its
  receiver's type on every value and every change.
\<close>

type_synonym apply_fun = "val \<Rightarrow> change option \<Rightarrow> val option"

section \<open>ApplyTo of the custom changes\<close>

definition ChangeSet_ApplyTo :: "apply_fun \<Rightarrow> change option list \<Rightarrow> val \<Rightarrow> val option" where
  "ChangeSet_ApplyTo A c v = foldM A v c"

definition PathChange_ApplyTo :: "apply_fun \<Rightarrow> key list \<Rightarrow> change option \<Rightarrow> val \<Rightarrow> val option" where
  "PathChange_ApplyTo A p c v = (if p = [] then A v c else None)"

definition Meta_ApplyTo :: "apply_fun \<Rightarrow> change option \<Rightarrow> val \<Rightarrow> val option" where
  "Meta_ApplyTo A c v = A v c"

definition Run_ApplyTo :: "apply_fun \<Rightarrow> int \<Rightarrow> int \<Rightarrow> change option \<Rightarrow> val \<Rightarrow> val option" where
  "Run_ApplyTo A off n c v = foldM (\<lambda>v k. A v (Some (PathChange [k] c))) v (run_keys off n)"

definition Update_ApplyTo ::
  "apply_fun \<Rightarrow> key \<Rightarrow> ref option \<Rightarrow> ref option \<Rightarrow> val \<Rightarrow> val option" where
  "Update_ApplyTo A k b a v = (case v of
     VContainer w refs \<Rightarrow> A v (Some (Update k b a)) | _ \<Rightarrow> None)"

text \<open>The type assertion \<open>c.(changes.Custom)\<close> and the call of its \<open>ApplyTo\<close>.\<close>

fun ApplyTo :: "apply_fun \<Rightarrow> change \<Rightarrow> val \<Rightarrow> val option" where
  "ApplyTo A (ChangeSet cs) v = ChangeSet_ApplyTo A cs v"
| "ApplyTo A (PathChange p c) v = PathChange_ApplyTo A p c v"
| "ApplyTo A (Meta d c) v = Meta_ApplyTo A c v"
| "ApplyTo A (Run off n c) v = Run_ApplyTo A off n c v"
| "ApplyTo A (Update k b a) v = Update_ApplyTo A k b a v"
| "ApplyTo A _ v = None"

section \<open>Apply of the value types\<close>

definition empty_Apply :: "apply_fun \<Rightarrow> change option \<Rightarrow> val option" where
  "empty_Apply A c = (case c of
     None \<Rightarrow> Some VNil
   | Some (Replace r) \<Rightarrow> if IsCreate r then Some (rAfter r) else ApplyTo A (Replace r) VNil
   | Some c \<Rightarrow> ApplyTo A c VNil)"

definition Atomic_Apply :: "apply_fun \<Rightarrow> key \<Rightarrow> change option \<Rightarrow> val option" where
  "Atomic_Apply A a c = (case c of
     None \<Rightarrow> Some (VAtomic a)
   | Some (Replace r) \<Rightarrow> if \<not> IsCreate r then Some (rAfter r) else ApplyTo A (Replace r) (VAtomic a)
   | Some c \<Rightarrow> ApplyTo A c (VAtomic a))"

definition S8_ApplyCollection :: "string \<Rightarrow> change \<Rightarrow> string option" where
  "S8_ApplyCollection s c = (case c of
     Splice x \<Rightarrow> S8_splice s x | Move x \<Rightarrow> S8_move s x | _ \<Rightarrow> None)"

definition S8_Apply :: "apply_fun \<Rightarrow> string \<Rightarrow> change option \<Rightarrow> val option" where
  "S8_Apply A s c = (case c of
     None \<Rightarrow> Some (VS8 s)
   | Some (Replace r) \<Rightarrow> Some (if IsDelete r then VNil else rAfter r)
   | Some c \<Rightarrow> if is_custom c then ApplyTo A c (VS8 s) else map_option VS8 (S8_ApplyCollection s c))"

definition S16_ApplyCollection :: "string \<Rightarrow> change \<Rightarrow> string option" where
  "S16_ApplyCollection s c = (case c of
     Splice x \<Rightarrow> S16_splice s x | Move x \<Rightarrow> S16_move s x | _ \<Rightarrow> None)"

definition S16_Apply :: "apply_fun \<Rightarrow> string \<Rightarrow> change option \<Rightarrow> val option" where
  "S16_Apply A s c = (case c of
     None \<Rightarrow> Some (VS16 s)
   | Some (Replace r) \<Rightarrow> Some (if IsDelete r then VNil else rAfter r)
   | Some c \<Rightarrow> if is_custom c then ApplyTo A c (VS16 s) else map_option VS16 (S16_ApplyCollection s c))"

definition Counter_ApplyCollection :: "32 word \<Rightarrow> change \<Rightarrow> 32 word option" where
  "Counter_ApplyCollection n c = (case c of Splice x \<Rightarrow> Counter_splice n x | _ \<Rightarrow> None)"

definition Counter_Apply :: "apply_fun \<Rightarrow> 32 word \<Rightarrow> change option \<Rightarrow> val option" where
  "Counter_Apply A n c = (case c of
     None \<Rightarrow> Some (VCounter n)
   | Some (Replace r) \<Rightarrow> Some (if IsDelete r then VNil else rAfter r)
   | Some c \<Rightarrow> if is_custom c then ApplyTo A c (VCounter n)
              else map_option VCounter (Counter_ApplyCollection n c))"

text \<open>
  \<open>Generic.Apply\<close> and \<open>Generic.ApplyCollection\<close> with the closures \<open>Get\<close>,
  \<open>Set\<close> and \<open>Splice\<close> as arguments. \<open>AC\<close> is the call of \<open>ApplyCollection\<close> on
  the current value, which panics unless it is a collection.
\<close>

definition Generic_Apply :: "apply_fun \<Rightarrow> (key \<Rightarrow> val option) \<Rightarrow> (key \<Rightarrow> val \<Rightarrow> val option)
    \<Rightarrow> (change \<Rightarrow> val option) \<Rightarrow> change option \<Rightarrow> val \<Rightarrow> val option" where
  "Generic_Apply A gget gset AC c current = (case c of
     None \<Rightarrow> Some current
   | Some (Replace r) \<Rightarrow> Some (if IsDelete r then VNil else rAfter r)
   | Some (PathChange p d) \<Rightarrow> (case p of
       [] \<Rightarrow> A current d
     | k # ks \<Rightarrow> do { x \<leftarrow> gget k; y \<leftarrow> A x (Some (PathChange ks d)); gset k y })
   | Some (Splice s) \<Rightarrow> AC (Splice s)
   | Some (Move m) \<Rightarrow> AC (Move m)
   | Some c \<Rightarrow> ApplyTo A c current)"

definition Generic_ApplyCollection ::
  "(int \<Rightarrow> int \<Rightarrow> coll \<Rightarrow> coll option) \<Rightarrow> (change \<Rightarrow> coll option) \<Rightarrow> change \<Rightarrow> coll \<Rightarrow> coll option" where
  "Generic_ApplyCollection gsplice gapply c current = (case c of
     Splice s \<Rightarrow> gsplice (sOffset s) (Count (sBefore s)) (sAfter s)
   | Move m \<Rightarrow> (let m = Normalize m in do {
       slice \<leftarrow> Slice current (mOffset m) (mCount m);
       empty \<leftarrow> Slice current 0 0;
       rest \<leftarrow> gsplice (mOffset m) (mCount m) empty;
       coll_splice rest \<lparr>sOffset = mOffset m + mDistance m, sBefore = empty, sAfter = slice\<rparr> })
   | c \<Rightarrow> gapply c)"

definition M_Apply :: "apply_fun \<Rightarrow> (key, val) fmap \<Rightarrow> change option \<Rightarrow> val option" where
  "M_Apply A m c = Generic_Apply A (Some \<circ> M_get m) (\<lambda>k v. Some (VM (M_set m k v))) (\<lambda>_. None) c (VM m)"

definition A_ApplyCollection :: "apply_fun \<Rightarrow> val option list \<Rightarrow> change \<Rightarrow> coll option" where
  "A_ApplyCollection A a c = Generic_ApplyCollection (\<lambda>off n after. map_option CA (A_splice a off n after))
     (\<lambda>c. do { v \<leftarrow> A (VA a) (Some c); (case v of VColl r \<Rightarrow> Some r | _ \<Rightarrow> None) }) c (CA a)"

definition A_Apply :: "apply_fun \<Rightarrow> val option list \<Rightarrow> change option \<Rightarrow> val option" where
  "A_Apply A a c = Generic_Apply A (A_get a) (\<lambda>k v. map_option VA (A_set a k v))
     (\<lambda>c. map_option VColl (A_ApplyCollection A a c)) c (VA a)"

definition applyPathChange ::
  "apply_fun \<Rightarrow> val \<Rightarrow> (key, ref) fmap \<Rightarrow> key list \<Rightarrow> change option \<Rightarrow> val option" where
  "applyPathChange A w refs p c = do {
     updated \<leftarrow> merge_refs refs (Some (PathChange p c));
     if hd p \<noteq> KStr ''Value'' then None
     else do { val \<leftarrow> A w (Some (PathChange (tl p) c)); Some (VContainer val updated) } }"

definition Container_Apply :: "apply_fun \<Rightarrow> val \<Rightarrow> (key, ref) fmap \<Rightarrow> change option \<Rightarrow> val option" where
  "Container_Apply A w refs c = (let con = VContainer w refs in case c of
     None \<Rightarrow> Some con
   | Some (Replace r) \<Rightarrow> if \<not> IsCreate r then Some (rAfter r) else ApplyTo A (Replace r) con
   | Some (Update k b a) \<Rightarrow> apply_Update k a con
   | Some (PathChange p d) \<Rightarrow> if p = [] then A con d else applyPathChange A w refs p d
   | Some c \<Rightarrow> ApplyTo A c con)"

text \<open>The dispatch on the receiver.\<close>

fun Value_Apply :: "apply_fun \<Rightarrow> apply_fun" where
  "Value_Apply A VNil c = empty_Apply A c"
| "Value_Apply A (VAtomic a) c = Atomic_Apply A a c"
| "Value_Apply A (VM m) c = M_Apply A m c"
| "Value_Apply A (VContainer w refs) c = Container_Apply A w refs c"
| "Value_Apply A (VColl (CS8 s)) c = S8_Apply A s c"
| "Value_Apply A (VColl (CS16 s)) c = S16_Apply A s c"
| "Value_Apply A (VColl (CCounter n)) c = Counter_Apply A n c"
| "Value_Apply A (VColl (CA a)) c = A_Apply A a c"

section \<open>The joined function solves the recursion\<close>

lemma Run_ApplyTo_Apply: "apply_change (Run off n c) v = Run_ApplyTo Apply off n c v"
  by (simp add: Run_ApplyTo_def)

lemmas value_methods = empty_Apply_def Atomic_Apply_def S8_Apply_def S8_ApplyCollection_def
  S16_Apply_def S16_ApplyCollection_def Counter_Apply_def Counter_ApplyCollection_def

lemma A_ApplyCollection_Move: "A_ApplyCollection A a (Move m) = coll_move (CA a) m"
  by (simp add: A_ApplyCollection_def Generic_ApplyCollection_def A_move_def Let_def A_Slice_def
      Option.bind_assoc map_conv_bind_option)

lemma A_ApplyCollection_Splice: "A_ApplyCollection A a (Splice s) = coll_splice (CA a) s"
  by (simp add: A_ApplyCollection_def Generic_ApplyCollection_def)

lemma Apply_path_Cons:
  "path_apply (\<lambda>v. Apply v d) d (k # ks) v = (case v of
     VContainer w refs \<Rightarrow> applyPathChange Apply w refs (k # ks) d
   | _ \<Rightarrow> do { x \<leftarrow> vget v k; y \<leftarrow> Apply x (Some (PathChange ks d)); vset v k y })"
  by (cases v) (simp_all add: applyPathChange_def cong: Option.bind_cong if_cong)

text \<open>Values without parts accept the empty path only.\<close>

lemma path_apply_plain:
  assumes "\<And>k. vget v k = None" "\<And>w refs. v \<noteq> VContainer w refs"
  shows "path_apply f c p v = (if p = [] then f v else None)"
  using assms by (cases p) (cases v; auto)+

lemma Generic_dispatch:
  assumes "\<And>r. apply_Replace r v = Some (if IsDelete r then VNil else rAfter r)"
    and "\<And>k ks d. path_apply (\<lambda>v. Apply v d) d (k # ks) v
      = do { x \<leftarrow> gget k; y \<leftarrow> Apply x (Some (PathChange ks d)); gset k y }"
    and "\<And>s. apply_change (Splice s) v = AC (Splice s)" "\<And>m. apply_change (Move m) v = AC (Move m)"
    and "\<And>k b a. apply_change (Update k b a) v = None" "\<And>w refs. v \<noteq> VContainer w refs"
  shows "Apply v c = Generic_Apply Apply gget gset AC c v"
proof (cases c)
  case (Some ch)
  show ?thesis
  proof (cases ch)
    case (Update k b a)
    then show ?thesis using Some assms(5,6)
      by (simp add: Generic_Apply_def Update_ApplyTo_def split: val.splits)
  next
    case (PathChange p d)
    then show ?thesis using Some assms(2) by (cases p) (simp_all add: Generic_Apply_def)
  qed (use Some assms(1,3,4) Run_ApplyTo_Apply in
      \<open>simp_all add: Generic_Apply_def ChangeSet_ApplyTo_def Meta_ApplyTo_def del: apply_compound(4)\<close>)
qed (simp add: Generic_Apply_def)

lemma custom_dispatch:
  assumes "\<And>k. vget v k = None" "\<And>w refs. v \<noteq> VContainer w refs" "is_custom ch"
  shows "apply_change ch v = ApplyTo Apply ch v"
proof (cases ch)
  case (Update k b a)
  then show ?thesis using assms(2) by (auto simp: apply_Update_def Update_ApplyTo_def split: val.splits)
next
  case (PathChange p d)
  then show ?thesis using path_apply_plain [of v] assms(1,2) by (simp add: PathChange_ApplyTo_def)
qed (use assms(3) in \<open>simp_all add: ChangeSet_ApplyTo_def Meta_ApplyTo_def Run_ApplyTo_def\<close>)

lemma is_customE:
  obtains (nil) "c = None" | (replace) r where "c = Some (Replace r)" | (splice) s where "c = Some (Splice s)"
  | (move) m where "c = Some (Move m)" | (custom) d where "c = Some d" "is_custom d"
proof (cases c)
  case (Some d)
  then show ?thesis using replace splice move custom by (cases d) simp_all
qed (use nil in simp)

lemma plain_method:
  assumes "\<And>k. vget v k = None" "\<And>w refs. v \<noteq> VContainer w refs"
    and "method None = Some v" "\<And>r. method (Some (Replace r)) = apply_Replace r v"
    and "\<And>s. method (Some (Splice s)) = apply_change (Splice s) v"
    and "\<And>m. method (Some (Move m)) = apply_change (Move m) v"
    and "\<And>d. is_custom d \<Longrightarrow> method (Some d) = ApplyTo Apply d v"
  shows "Apply v c = method c"
  by (cases c rule: is_customE) (use assms custom_dispatch [of v] in \<open>simp_all del: apply_compound\<close>)

lemma custom_methods:
  assumes "is_custom d"
  shows "empty_Apply A (Some d) = ApplyTo A d VNil" "Atomic_Apply A a (Some d) = ApplyTo A d (VAtomic a)"
    "S8_Apply A s (Some d) = ApplyTo A d (VS8 s)" "S16_Apply A s (Some d) = ApplyTo A d (VS16 s)"
    "Counter_Apply A n (Some d) = ApplyTo A d (VCounter n)"
  using assms by (cases d; simp add: value_methods)+

lemma plain_dispatch:
  "Apply VNil c = empty_Apply Apply c" "Apply (VAtomic a) c = Atomic_Apply Apply a c"
  "Apply (VS8 s) c = S8_Apply Apply s c" "Apply (VS16 s) c = S16_Apply Apply s c"
  "Apply (VCounter n) c = Counter_Apply Apply n c"
  by (rule plain_method; (simp add: custom_methods; fail | simp add: value_methods option.map_comp o_def))+

lemma Container_dispatch: "Apply (VContainer w refs) c = Container_Apply Apply w refs c"
proof (cases c)
  case (Some ch)
  show ?thesis
  proof (cases ch)
    case (PathChange p d)
    then show ?thesis
      using Some Apply_path_Cons [of d] by (cases p) (simp_all add: Container_Apply_def Let_def del: path_apply.simps(2))
  qed (use Some in \<open>simp_all add: Container_Apply_def Let_def ChangeSet_ApplyTo_def Meta_ApplyTo_def Run_ApplyTo_def\<close>)
qed (simp add: Container_Apply_def)

lemma Apply_Value_Apply: "Apply v c = Value_Apply Apply v c"
proof (cases v)
  case (VM m)
  show ?thesis unfolding VM Value_Apply.simps M_Apply_def
    by (rule Generic_dispatch) (simp_all add: apply_Update_def cong: Option.bind_cong)
next
  case (VColl cl)
  show ?thesis
  proof (cases cl)
    case (CA a)
    show ?thesis unfolding VColl CA Value_Apply.simps A_Apply_def
      by (rule Generic_dispatch)
        (simp_all add: apply_Update_def A_ApplyCollection_Splice A_ApplyCollection_Move
          del: coll_splice.simps coll_move.simps cong: Option.bind_cong)
  qed (simp_all add: VColl plain_dispatch)
qed (simp_all add: plain_dispatch Container_dispatch)

end
