(* ===== verification/Dot_Streams.thy ===== *)
theory Dot_Streams
  imports Dot_Fuel
begin

text \<open>
  Package \<open>streams\<close>: the interface \<open>Stream\<close> as a record of its methods over a world
  \<open>'w\<close> of mutable objects and a type \<open>'s\<close> of stream values, and its base
  implementation \<open>stream.go\<close>, a linked list of changes whose nodes live in an explicit
  heap. A nil stream is \<open>None\<close> inside the option that stands for a panic.

  The contract that the package documentation states, all streams of a family converge, is the
  locale \<open>stream_family\<close>; it is interpreted on the linked list here and on the wrappers in
  the theories that define them.
\<close>

section \<open>The Stream interface\<close>

record ('w, 's) Stream =
  Append :: "'w \<Rightarrow> 's \<Rightarrow> change option \<Rightarrow> ('w \<times> 's) option"
  ReverseAppend :: "'w \<Rightarrow> 's \<Rightarrow> change option \<Rightarrow> ('w \<times> 's) option"
  Next :: "'w \<Rightarrow> 's \<Rightarrow> ('s \<times> change option) option option"
  Push :: "'w \<Rightarrow> 's \<Rightarrow> ('w \<times> string option) option"
  Pull :: "'w \<Rightarrow> 's \<Rightarrow> ('w \<times> string option) option"
  Undo :: "'w \<Rightarrow> 's \<Rightarrow> 'w option"
  Redo :: "'w \<Rightarrow> 's \<Rightarrow> 'w option"

text \<open>
  \<open>Latest\<close> walks a stream to its end and collects the changes. The loop over an arbitrary
  stream need not end, then it is \<open>None\<close>.
\<close>

partial_function (option) Latest_loop ::
  "('w, 's, 'x) Stream_scheme \<Rightarrow> 'w \<Rightarrow> 's \<Rightarrow> change option list \<Rightarrow> ('s \<times> change option list) option" where
  "Latest_loop S w sx cs = do {
     r \<leftarrow> Next S w sx;
     (case r of
        None \<Rightarrow> Some (sx, cs)
      | Some (v, c) \<Rightarrow> Latest_loop S w v (if c \<noteq> None then cs @ [c] else cs)) }"

declare Latest_loop.simps [code]

definition Latest :: "('w, 's, 'x) Stream_scheme \<Rightarrow> 'w \<Rightarrow> 's \<Rightarrow> ('s \<times> change option) option" where
  "Latest S w s = do { (sx, cs) \<leftarrow> Latest_loop S w s []; Some (sx, ChangeSet_Simplify cs) }"

section \<open>The linked list of changes\<close>

record node =
  nChange :: "change option"
  nNext :: "nat option"

type_synonym heap = "node list"

abbreviation empty_node :: node where
  "empty_node \<equiv> \<lparr>nChange = None, nNext = None\<rparr>"

definition New :: "heap \<Rightarrow> heap \<times> nat" where
  "New h = (h @ [empty_node], length h)"

definition stream_Next :: "heap \<Rightarrow> nat \<Rightarrow> (nat \<times> change option) option" where
  "stream_Next h s = (case nNext (h ! s) of None \<Rightarrow> None | Some t \<Rightarrow> Some (t, nChange (h ! s)))"

definition stream_merge :: "nat \<Rightarrow> change option \<Rightarrow> change option \<Rightarrow> bool \<Rightarrow> change_pair option" where
  "stream_merge n left right reverse =
     (if reverse then swap_pair (Merge n right left) else Merge n left right)"

text \<open>
  The loop of \<open>stream.apply\<close>. Its fuel is the number of nodes: pointers go to younger
  nodes only, so the list that starts at a node is never longer. The argument \<open>n\<close> bounds
  the nesting of Merge calls.
\<close>

fun stream_apply_loop ::
  "nat \<Rightarrow> nat \<Rightarrow> heap \<Rightarrow> nat \<Rightarrow> change option \<Rightarrow> bool \<Rightarrow> nat \<Rightarrow> heap option" where
  "stream_apply_loop 0 n h s c reverse nxt = None"
| "stream_apply_loop (Suc fuel) n h s c reverse nxt = (case nNext (h ! s) of
     None \<Rightarrow> Some (h[s := \<lparr>nChange = c, nNext = Some nxt\<rparr>])
   | Some t \<Rightarrow> do {
       (c, cx) \<leftarrow> stream_merge n (nChange (h ! s)) c reverse;
       let fresh = length h;
       stream_apply_loop fuel n ((h @ [empty_node])[nxt := \<lparr>nChange = cx, nNext = Some fresh\<rparr>])
         t c reverse fresh })"

definition stream_apply ::
  "nat \<Rightarrow> heap \<Rightarrow> nat \<Rightarrow> change option \<Rightarrow> bool \<Rightarrow> (heap \<times> nat) option" where
  "stream_apply n h s c reverse = (let (h1, result) = New h in do {
     h2 \<leftarrow> stream_apply_loop (length h) n h1 s c reverse result;
     Some (h2, result) })"

definition stream_Append :: "nat \<Rightarrow> heap \<Rightarrow> nat \<Rightarrow> change option \<Rightarrow> (heap \<times> nat) option" where
  "stream_Append n h s c = stream_apply n h s c False"

definition stream_ReverseAppend :: "nat \<Rightarrow> heap \<Rightarrow> nat \<Rightarrow> change option \<Rightarrow> (heap \<times> nat) option" where
  "stream_ReverseAppend n h s c = stream_apply n h s c True"

definition plain :: "nat \<Rightarrow> (heap, nat) Stream" where
  "plain n = \<lparr>Append = stream_Append n, ReverseAppend = stream_ReverseAppend n,
     Next = (\<lambda>h s. Some (stream_Next h s)),
     Push = (\<lambda>h s. Some (h, None)), Pull = (\<lambda>h s. Some (h, None)),
     Undo = (\<lambda>h s. Some h), Redo = (\<lambda>h s. Some h)\<rparr>"

section \<open>The contract of a stream\<close>

text \<open>
  \<open>walk w s v\<close> follows a stream from the value \<open>v\<close> with checked application: the
  family it belongs to and the value it ends with.
\<close>

locale stream_family =
  fixes S :: "('w, 's) Stream" and good :: "'w \<Rightarrow> bool"
    and walk :: "'w \<Rightarrow> 's \<Rightarrow> val \<Rightarrow> ('k \<times> val) option" and len :: "'w \<Rightarrow> 's \<Rightarrow> nat"
  assumes Next_ok: "good w \<Longrightarrow> walk w s v = Some (k, f) \<Longrightarrow> Next S w s \<noteq> None"
    and Next_end: "good w \<Longrightarrow> walk w s v = Some (k, f) \<Longrightarrow> Next S w s = Some None \<Longrightarrow> f = v"
    and Next_step: "good w \<Longrightarrow> walk w s v = Some (k, f) \<Longrightarrow> Next S w s = Some (Some (t, c)) \<Longrightarrow>
        \<exists>u. Strict v c = Some u \<and> walk w t u = Some (k, f) \<and> len w t < len w s"
    and Append_law: "good w \<Longrightarrow> walk w s v = Some (k, f) \<Longrightarrow> wf_val v \<Longrightarrow> Strict v c = Some u \<Longrightarrow>
        (if reverse then ReverseAppend S else Append S) w s c = Some (w', t) \<Longrightarrow>
        good w' \<and> (\<exists>k' f'. walk w' t u = Some (k', f') \<and>
          (\<forall>r x. walk w r x = Some (k, f) \<longrightarrow> walk w' r x = Some (k', f')) \<and>
          (\<forall>r x q g. walk w r x = Some (q, g) \<longrightarrow> q \<noteq> k \<longrightarrow> walk w' r x = Some (q, g)))"
    and Append_end: "good w \<Longrightarrow> walk w s v = Some (k, f) \<Longrightarrow> Next S w s = Some None \<Longrightarrow>
        (if reverse then ReverseAppend S else Append S) w s c = Some (w', t) \<Longrightarrow>
        Next S w' s = Some (Some (t, c)) \<and> Next S w' t = Some None"
begin

text \<open>Walking a stream to its end returns, and reaches the value of the family.\<close>

lemma Latest_loop_value:
  "good w \<Longrightarrow> walk w s v = Some (k, f) \<Longrightarrow>
     \<exists>t es. Latest_loop S w s cs = Some (t, cs @ es) \<and> foldM Strict v es = Some f
       \<and> walk w t f = Some (k, f) \<and> Next S w t = Some None"
proof (induction "len w s" arbitrary: s v cs rule: less_induct)
  case less
  consider (stop) "Next S w s = Some None" | (step) t c where "Next S w s = Some (Some (t, c))"
    using Next_ok [OF less.prems] by (metis not_Some_eq surj_pair)
  then show ?case
  proof cases
    case stop
    then show ?thesis using Next_end [OF less.prems stop] less.prems by (simp add: Latest_loop.simps)
  next
    case (step t c)
    obtain u where u: "Strict v c = Some u" "walk w t u = Some (k, f)" "len w t < len w s"
      using Next_step [OF less.prems step] by blast
    show ?thesis
      using less.hyps [OF u(3) less.prems(1) u(2), of "if c \<noteq> None then cs @ [c] else cs"] u(1) step
      by (cases c) (auto simp: Latest_loop.simps [of S w s])
  qed
qed

lemma Latest_value:
  assumes "good w" "walk w s v = Some (k, f)" "wf_val v"
  shows "\<exists>t c. Latest S w s = Some (t, c) \<and> Strict v c = Some f \<and> walk w t f = Some (k, f)
    \<and> Next S w t = Some None"
proof -
  obtain t es where "Latest_loop S w s [] = Some (t, es)" "foldM Strict v es = Some f" "walk w t f = Some (k, f)"
    "Next S w t = Some None"
    using Latest_loop_value [OF assms(1,2), of "[]"] by auto
  then show ?thesis
    using Strict_Simplify [of v "Some (ChangeSet es)" f] assms(3)
    by (auto simp: Latest_def ChangeSet_Simplify_def)
qed

text \<open>Two streams of a family, walked to their ends, give the same value.\<close>

lemma converges:
  assumes "good w" "walk w s v = Some (k, f)" "walk w t u = Some (k, f)" "wf_val v" "wf_val u"
  shows "\<exists>s' c t' d. Latest S w s = Some (s', c) \<and> Latest S w t = Some (t', d)
    \<and> Strict v c = Some f \<and> Strict u d = Some f"
  using Latest_value [OF assms(1,2,4)] Latest_value [OF assms(1,3,5)] by blast

end

section \<open>The linked list keeps the contract\<close>

text \<open>Pointers go to younger nodes.\<close>

definition heap_ok :: "heap \<Rightarrow> bool" where
  "heap_ok h \<longleftrightarrow> (\<forall>a b. a < length h \<longrightarrow> nNext (h ! a) = Some b \<longrightarrow> a < b \<and> b < length h)"

lemma heap_okI: "(\<And>a b. a < length h \<Longrightarrow> nNext (h ! a) = Some b \<Longrightarrow> a < b \<and> b < length h) \<Longrightarrow> heap_ok h"
  unfolding heap_ok_def by blast

lemma heap_okD: "heap_ok h \<Longrightarrow> nNext (h ! a) = Some b \<Longrightarrow> a < length h \<Longrightarrow> a < b \<and> b < length h"
  unfolding heap_ok_def by blast

function chase :: "heap \<Rightarrow> nat \<Rightarrow> val \<Rightarrow> (nat \<times> val) option" where
  "chase h a v =
     (if a < length h then
        (case nNext (h ! a) of
           None \<Rightarrow> Some (a, v)
         | Some b \<Rightarrow> if a < b then Strict v (nChange (h ! a)) \<bind> chase h b else None)
      else None)"
  by pat_completeness auto
termination
  by (relation "measure (\<lambda>(h, a, v). length h - a)") auto

declare chase.simps [simp del]

lemma chase_bounds: "chase h a v = Some (t, f) \<Longrightarrow> a \<le> t \<and> t < length h \<and> nNext (h ! t) = None"
proof (induction h a v rule: chase.induct)
  case (1 h a v)
  then show ?case
    by (force simp: chase.simps [of h a v] bind_Some_ex split: if_splits option.splits)
qed

lemma chase_start: "chase h a v = Some r \<Longrightarrow> a < length h"
  by (auto simp: chase.simps [of h a v] split: if_splits)

text \<open>A heap that differs in ends of other lists only gives the same walk.\<close>

lemma chase_frame:
  assumes "chase h a v = Some (t, f)" "length h \<le> length h'"
    and "\<And>b. b < length h \<Longrightarrow> nNext (h ! b) \<noteq> None \<or> b = t \<Longrightarrow> h' ! b = h ! b"
  shows "chase h' a v = Some (t, f)"
  using assms
proof (induction h a v rule: chase.induct)
  case (1 h a v)
  have a: "a < length h" using chase_start [OF 1(2)] .
  show ?case
  proof (cases "nNext (h ! a)")
    case None
    then have "t = a" "f = v" using 1(2) a by (auto simp: chase.simps [of h a v])
    then show ?thesis using 1(3,4) a None by (simp add: chase.simps [of h' a v])
  next
    case (Some b)
    then obtain u where "Strict v (nChange (h ! a)) = Some u" "chase h b u = Some (t, f)" "a < b"
      using 1(2) a by (auto simp: chase.simps [of h a v] bind_Some_ex split: if_splits)
    moreover have "h' ! a = h ! a" using 1(4) [OF a] Some by simp
    ultimately show ?thesis using 1(1) [OF a Some _ ] 1(3,4) a Some by (simp add: chase.simps [of h' a v])
  qed
qed

text \<open>When the end of a list is given a successor, every walk that ended there goes on.\<close>

lemma chase_extend:
  assumes "chase h a v = Some (t, f)" "length h \<le> length h'"
    and "\<And>b. b < length h \<Longrightarrow> nNext (h ! b) \<noteq> None \<Longrightarrow> h' ! b = h ! b"
    and "chase h' t f = r"
  shows "chase h' a v = r"
  using assms
proof (induction h a v rule: chase.induct)
  case (1 h a v)
  have a: "a < length h" using chase_start [OF 1(2)] .
  show ?case
  proof (cases "nNext (h ! a)")
    case None
    then have "t = a" "f = v" using 1(2) a by (auto simp: chase.simps [of h a v])
    then show ?thesis using 1(5) by simp
  next
    case (Some b)
    then obtain u where "Strict v (nChange (h ! a)) = Some u" "chase h b u = Some (t, f)" "a < b"
      using 1(2) a by (auto simp: chase.simps [of h a v] bind_Some_ex split: if_splits)
    moreover have "h' ! a = h ! a" using 1(4) [OF a] Some by simp
    ultimately show ?thesis using 1(1) [OF a Some] 1(3-5) a Some by (simp add: chase.simps [of h' a v])
  qed
qed

lemma stream_merge_conv:
  assumes "stream_merge n l c bw = Some (cx, lx)" "wf_val v" "Strict v l = Some v1" "Strict v c = Some v2"
  shows "\<exists>w. Strict v1 cx = Some w \<and> Strict v2 lx = Some w"
proof (cases bw)
  case True
  then have "Merge n c l = Some (lx, cx)" using assms(1) by (auto simp: stream_merge_def swap_pair_def)
  then show ?thesis using Merge_converge [OF _ assms(2,4,3), of n lx cx] by (auto simp: converge_def)
next
  case False
  then show ?thesis using Merge_converge [OF _ assms(2-4), of n cx lx] assms(1)
    by (auto simp: stream_merge_def converge_def)
qed

text \<open>
  The loop of \<open>stream.apply\<close>: it touches only the new nodes and the end of the list, which
  gets the transformed change and a successor; the new list ends there too.
\<close>

lemma stream_apply_loop_spec:
  assumes "stream_apply_loop m n h s c bw nxt = Some h'" "heap_ok h"
    and "length h = Suc nxt" "nNext (h ! nxt) = None" "chase h s v = Some (t, f)" "t < nxt"
    and "wf_val v" "Strict v c = Some u"
  shows "\<exists>ct f' e. heap_ok h' \<and> length h \<le> length h' \<and> Strict f ct = Some f' \<and> h' ! t = \<lparr>nChange = ct, nNext = Some e\<rparr>
    \<and> t < e \<and> chase h' nxt u = Some (e, f') \<and> nxt \<le> e \<and> (\<forall>b < nxt. b \<noteq> t \<longrightarrow> h' ! b = h ! b)"
  using assms
proof (induction m n h s c bw nxt arbitrary: v u rule: stream_apply_loop.induct)
  case (2 m n h s c bw nxt)
  have s: "s < length h" using chase_start [OF 2(6)] .
  show ?case
  proof (cases "nNext (h ! s)")
    case None
    then have ts: "t = s" "f = v" using 2(6) s by (auto simp: chase.simps [of h s v])
    let ?h = "h[s := \<lparr>nChange = c, nNext = Some nxt\<rparr>]"
    have h': "h' = ?h" using 2(2) None by simp
    have "heap_ok ?h" using 2(4,7) ts
      by (intro heap_okI) (auto simp: nth_list_update split: if_splits dest: heap_okD [OF 2(3)])
    moreover have "chase ?h nxt u = Some (nxt, u)"
      using 2(4,5,7) ts by (simp add: chase.simps [of _ nxt])
    ultimately show ?thesis using 2(4,7,9) s ts unfolding h' by auto
  next
    case (Some t')
    then obtain v' where v': "Strict v (nChange (h ! s)) = Some v'" "chase h t' v' = Some (t, f)" "s < t'"
      using 2(6) s by (auto simp: chase.simps [of h s v] bind_Some_ex split: if_splits)
    obtain c' cx where m: "stream_merge n (nChange (h ! s)) c bw = Some (c', cx)"
      using 2(2) Some by (auto simp: bind_Some_ex)
    let ?h = "(h @ [empty_node])[nxt := \<lparr>nChange = cx, nNext = Some (length h)\<rparr>]"
    have loop: "stream_apply_loop m n ?h t' c' bw (length h) = Some h'" using 2(2) Some m by (simp add: Let_def)
    obtain w where w: "Strict v' c' = Some w" "Strict u cx = Some w"
      using stream_merge_conv [OF m 2(8) v'(1) 2(9)] by auto
    have old: "?h ! b = h ! b" if "b < nxt" for b using that 2(4) by (simp add: nth_append)
    have ok: "heap_ok ?h"
      using 2(4) by (intro heap_okI)
        (auto simp: nth_list_update nth_append less_Suc_eq split: if_splits dest: heap_okD [OF 2(3)])
    have end_: "?h ! nxt = \<lparr>nChange = cx, nNext = Some (length h)\<rparr>" "nNext (?h ! length h) = None"
      using 2(4) by (simp_all add: nth_append)
    have ch: "chase ?h t' v' = Some (t, f)"
      by (rule chase_frame [OF v'(2)]) (use old 2(4,5,7) in \<open>auto simp: less_Suc_eq\<close>)
    obtain ct f' e where IH: "heap_ok h'" "length ?h \<le> length h'" "Strict f ct = Some f'"
      "h' ! t = \<lparr>nChange = ct, nNext = Some e\<rparr>" "t < e" "chase h' (length h) w = Some (e, f')"
      "length h \<le> e" "\<And>b. b < length h \<Longrightarrow> b \<noteq> t \<Longrightarrow> h' ! b = ?h ! b"
      using 2(1) [OF Some m refl refl loop ok _ end_(2) ch _ Strict_wf [OF v'(1) 2(8)] w(1)] 2(4,7) by auto
    have "h' ! nxt = \<lparr>nChange = cx, nNext = Some (length h)\<rparr>" using IH(8) [of nxt] 2(4,7) end_(1) by simp
    then have "chase h' nxt u = Some (e, f')"
      using IH(2,6) w(2) 2(4) by (simp add: chase.simps [of h' nxt])
    moreover have "h' ! b = h ! b" if "b < nxt" "b \<noteq> t" for b using IH(8) [of b] old that 2(4) by simp
    ultimately show ?thesis using IH 2(4) by (intro exI [of _ ct] exI [of _ f'] exI [of _ e]) auto
  qed
qed simp


lemma heap_ok_New: "heap_ok h \<Longrightarrow> heap_ok (h @ [empty_node])"
  by (intro heap_okI) (auto simp: nth_append less_Suc_eq split: if_splits dest: heap_okD)

lemma chase_New: "chase h a v = Some (t, f) \<Longrightarrow> chase (h @ [empty_node]) a v = Some (t, f)"
  by (erule chase_frame) (simp_all add: nth_append)

text \<open>What \<open>Append\<close> and \<open>ReverseAppend\<close> do to the walks of all streams.\<close>

lemma stream_apply_spec:
  assumes "stream_apply n h s c bw = Some (h', r)" "heap_ok h" "chase h s v = Some (t, f)"
    and "wf_val v" "Strict v c = Some u"
  shows "heap_ok h' \<and> length h < length h' \<and> (\<exists>t' f'. chase h' r u = Some (t', f') \<and>
    (\<forall>a x. chase h a x = Some (t, f) \<longrightarrow> chase h' a x = Some (t', f')) \<and>
    (\<forall>a x q g. chase h a x = Some (q, g) \<longrightarrow> q \<noteq> t \<longrightarrow> chase h' a x = Some (q, g)))"
proof -
  let ?h = "h @ [empty_node]"
  have l: "stream_apply_loop (length h) n ?h s c bw (length h) = Some h'" and r: "r = length h"
    using assms(1) by (auto simp: stream_apply_def New_def bind_Some_ex)
  have t: "t < length h" "nNext (h ! t) = None" using chase_bounds [OF assms(3)] by auto
  obtain ct f' e where *: "heap_ok h'" "length ?h \<le> length h'" "Strict f ct = Some f'"
    "h' ! t = \<lparr>nChange = ct, nNext = Some e\<rparr>" "t < e" "chase h' (length h) u = Some (e, f')" "length h \<le> e"
    "\<forall>b < length h. b \<noteq> t \<longrightarrow> h' ! b = ?h ! b"
    using stream_apply_loop_spec [OF l heap_ok_New [OF assms(2)] _ _ chase_New [OF assms(3)] t(1) assms(4,5)]
    by auto
  have old: "h' ! b = h ! b" if "b < length h" "b \<noteq> t" for b using *(8) that by (simp add: nth_append)
  have "e < length h'" "nNext (h' ! e) = None" using chase_bounds [OF *(6)] by auto
  then have "chase h' t f = Some (e, f')" using * t by (simp add: chase.simps [of _ t] chase.simps [of _ e])
  then have "chase h' a x = Some (e, f')" if "chase h a x = Some (t, f)" for a x
    using chase_extend [OF that, of h' "Some (e, f')"] old t *(2) by force
  moreover have "chase h' a x = Some (q, g)" if "chase h a x = Some (q, g)" "q \<noteq> t" for a x q g
    using chase_frame [OF that(1), of h'] old t that *(2) by force
  ultimately show ?thesis using * r by auto
qed

lemma chase_Next:
  assumes "chase h a v = Some (t, f)"
  shows "stream_Next h a = None \<Longrightarrow> f = v \<and> t = a"
    and "stream_Next h a = Some (b, c) \<Longrightarrow> \<exists>u. Strict v c = Some u \<and> chase h b u = Some (t, f) \<and> a < b"
  using assms by (auto simp: stream_Next_def chase.simps [of h a v] bind_Some_ex split: option.splits if_splits)

lemma stream_apply_end:
  assumes "stream_apply n h s c bw = Some (h', r)" "nNext (h ! s) = None" "s < length h"
  shows "stream_Next h' s = Some (r, c) \<and> stream_Next h' r = None"
proof (cases "length h")
  case (Suc m)
  have "nNext ((h @ [empty_node]) ! s) = None" using assms(2,3) by (simp add: nth_append)
  then show ?thesis
    using assms(1,3) Suc by (auto simp: stream_apply_def New_def nth_append stream_Next_def)
qed (use assms in simp)

interpretation list: stream_family "plain n" heap_ok chase "\<lambda>h a. length h - a" for n
proof unfold_locales
  fix w s v k f c u w' t and bw :: bool
  show "heap_ok w \<Longrightarrow> chase w s v = Some (k, f) \<Longrightarrow> Next (plain n) w s \<noteq> None" by (simp add: plain_def)
  show "heap_ok w \<Longrightarrow> chase w s v = Some (k, f) \<Longrightarrow> Next (plain n) w s = Some None \<Longrightarrow> f = v"
    by (simp add: plain_def chase_Next)
  show "heap_ok w \<Longrightarrow> chase w s v = Some (k, f) \<Longrightarrow> Next (plain n) w s = Some (Some (t, c)) \<Longrightarrow>
     \<exists>u. Strict v c = Some u \<and> chase w t u = Some (k, f) \<and> length w - t < length w - s"
    using chase_Next(2) [of w s v k f t c] chase_start [of w t] by (fastforce simp: plain_def)
  assume "(if bw then ReverseAppend (plain n) else Append (plain n)) w s c = Some (w', t)"
  then have a: "stream_apply n w s c bw = Some (w', t)"
    by (auto simp: plain_def stream_Append_def stream_ReverseAppend_def split: if_splits)
  then show "heap_ok w \<Longrightarrow> chase w s v = Some (k, f) \<Longrightarrow> wf_val v \<Longrightarrow> Strict v c = Some u \<Longrightarrow>
     heap_ok w' \<and> (\<exists>k' f'. chase w' t u = Some (k', f') \<and>
          (\<forall>r x. chase w r x = Some (k, f) \<longrightarrow> chase w' r x = Some (k', f')) \<and>
          (\<forall>r x q g. chase w r x = Some (q, g) \<longrightarrow> q \<noteq> k \<longrightarrow> chase w' r x = Some (q, g)))"
    using stream_apply_spec by blast
  from a show "heap_ok w \<Longrightarrow> chase w s v = Some (k, f) \<Longrightarrow> Next (plain n) w s = Some None \<Longrightarrow>
     Next (plain n) w' s = Some (Some (t, c)) \<and> Next (plain n) w' t = Some None"
    using stream_apply_end [of n w s c bw w' t] chase_start [of w s v]
    by (auto simp: plain_def stream_Next_def split: option.splits)
qed

end
