(* ===== verification/Dot_Branch.thy ===== *)
theory Dot_Branch
  imports Dot_Streams
begin

text \<open>
  \<open>streams/branch.go\<close>: a branch has a downstream of its own, a linked list, and shares a
  mutable \<open>branchInfo\<close> with every stream derived from it. Push replays the downstream changes
  on the upstream, Pull the upstream changes on the downstream.

  The world of a branch holds the world of the upstream, the heap of the downstream lists and the
  \<open>branchInfo\<close> objects; a branch stream is the index of its info and a node.
\<close>

section \<open>The model\<close>

record 's branchInfo =
  bup :: 's
  bdown :: nat
  merging :: bool

record ('w, 's) branch_world =
  upw :: 'w
  dheap :: heap
  infos :: "'s branchInfo list"

type_synonym branch_ref = "nat \<times> nat"

definition Branch :: "('w, 's) branch_world \<Rightarrow> 's \<Rightarrow> ('w, 's) branch_world \<times> branch_ref" where
  "Branch w upstream = (let (h, downstream) = New (dheap w) in
     (w\<lparr>dheap := h, infos := infos w @ [\<lparr>bup = upstream, bdown = downstream, merging = False\<rparr>]\<rparr>,
      (length (infos w), downstream)))"

text \<open>The loop of \<open>branchInfo.merge\<close>: from a stream F into a stream T.\<close>

partial_function (option) branch_merge_loop ::
  "('v, 'f) Stream \<Rightarrow> ('w, 't) Stream \<Rightarrow> 'v \<Rightarrow> 'f \<Rightarrow> 'w \<Rightarrow> 't \<Rightarrow> bool \<Rightarrow> ('f \<times> 'w \<times> 't) option" where
  "branch_merge_loop F T v from w to reverse = do {
     r \<leftarrow> Next F v from;
     (case r of
        None \<Rightarrow> Some (from, w, to)
      | Some (nxt, c) \<Rightarrow> do {
          (w, to) \<leftarrow> (if reverse then ReverseAppend T else Append T) w to c;
          branch_merge_loop F T v nxt w to reverse }) }"

declare branch_merge_loop.simps [code]

definition branch_merge ::
  "('v, 'f) Stream \<Rightarrow> ('w, 't) Stream \<Rightarrow> bool \<Rightarrow> 'v \<Rightarrow> 'f \<Rightarrow> 'w \<Rightarrow> 't \<Rightarrow> bool \<Rightarrow> ('f \<times> 'w \<times> 't) option" where
  "branch_merge F T mg v from w to reverse =
     (if \<not> mg then branch_merge_loop F T v from w to reverse else Some (from, w, to))"

definition branchInfo_push ::
  "nat \<Rightarrow> ('w, 's) Stream \<Rightarrow> ('w, 's) branch_world \<Rightarrow> nat \<Rightarrow> ('w, 's) branch_world option" where
  "branchInfo_push n S w i = (let b = infos w ! i in do {
     (down, uw, up) \<leftarrow> branch_merge (plain n) S (merging b) (dheap w) (bdown b) (upw w) (bup b) False;
     Some (w\<lparr>upw := uw, infos := (infos w)[i := b\<lparr>bup := up, bdown := down\<rparr>]\<rparr>) })"

definition branchInfo_pull ::
  "nat \<Rightarrow> ('w, 's) Stream \<Rightarrow> ('w, 's) branch_world \<Rightarrow> nat \<Rightarrow> ('w, 's) branch_world option" where
  "branchInfo_pull n S w i = (let b = infos w ! i in do {
     (up, dh, down) \<leftarrow> branch_merge S (plain n) (merging b) (upw w) (bup b) (dheap w) (bdown b) True;
     Some (w\<lparr>dheap := dh, infos := (infos w)[i := b\<lparr>bup := up, bdown := down\<rparr>]\<rparr>) })"

text \<open>The methods of \<open>branch\<close>.\<close>

definition branch_Append :: "nat \<Rightarrow> ('w, 's) branch_world \<Rightarrow> branch_ref \<Rightarrow> change option
    \<Rightarrow> (('w, 's) branch_world \<times> branch_ref) option" where
  "branch_Append n w b c = do {
     (h, s) \<leftarrow> Append (plain n) (dheap w) (snd b) c; Some (w\<lparr>dheap := h\<rparr>, (fst b, s)) }"

definition branch_ReverseAppend :: "nat \<Rightarrow> ('w, 's) branch_world \<Rightarrow> branch_ref \<Rightarrow> change option
    \<Rightarrow> (('w, 's) branch_world \<times> branch_ref) option" where
  "branch_ReverseAppend n w b c = do {
     (h, s) \<leftarrow> ReverseAppend (plain n) (dheap w) (snd b) c; Some (w\<lparr>dheap := h\<rparr>, (fst b, s)) }"

definition branch_Next :: "nat \<Rightarrow> ('w, 's) branch_world \<Rightarrow> branch_ref
    \<Rightarrow> (branch_ref \<times> change option) option option" where
  "branch_Next n w b = map_option (map_option (\<lambda>(s, c). ((fst b, s), c))) (Next (plain n) (dheap w) (snd b))"

definition branch :: "nat \<Rightarrow> ('w, 's) Stream \<Rightarrow> (('w, 's) branch_world, branch_ref) Stream" where
  "branch n S = \<lparr>Append = branch_Append n, ReverseAppend = branch_ReverseAppend n, Next = branch_Next n,
     Push = (\<lambda>w b. do { w \<leftarrow> branchInfo_push n S w (fst b); Some (w, None) }),
     Pull = (\<lambda>w b. do { w \<leftarrow> branchInfo_pull n S w (fst b); Some (w, None) }),
     Undo = (\<lambda>w b. Some w), Redo = (\<lambda>w b. Some w)\<rparr>"

section \<open>A branch is a stream\<close>

interpretation br: stream_family "branch n S" "\<lambda>w. heap_ok (dheap w)" "\<lambda>w b. chase (dheap w) (snd b)"
  "\<lambda>w b. length (dheap w) - snd b" for n S
proof unfold_locales
  fix w :: "('a, 'b) branch_world" and s v k f t c
  show "heap_ok (dheap w) \<Longrightarrow> chase (dheap w) (snd s) v = Some (k, f) \<Longrightarrow> Next (branch n S) w s \<noteq> None"
    by (simp add: branch_def branch_Next_def plain_def)
  show "heap_ok (dheap w) \<Longrightarrow> chase (dheap w) (snd s) v = Some (k, f) \<Longrightarrow>
      Next (branch n S) w s = Some None \<Longrightarrow> f = v"
    using list.Next_end [of "dheap w" "snd s" v k f n] by (auto simp: branch_def branch_Next_def)
  show "heap_ok (dheap w) \<Longrightarrow> chase (dheap w) (snd s) v = Some (k, f) \<Longrightarrow>
      Next (branch n S) w s = Some (Some (t, c)) \<Longrightarrow>
      \<exists>u. Strict v c = Some u \<and> chase (dheap w) (snd t) u = Some (k, f)
        \<and> length (dheap w) - snd t < length (dheap w) - snd s"
    using list.Next_step [of "dheap w" "snd s" v k f n "snd t" c] by (auto simp: branch_def branch_Next_def)
next
  fix w w' :: "('a, 'b) branch_world" and s v k f t c u and bw :: bool
  assume g: "heap_ok (dheap w)" "chase (dheap w) (snd s) v = Some (k, f)"
    and "(if bw then ReverseAppend (branch n S) else Append (branch n S)) w s c = Some (w', t)"
  then have a: "(if bw then ReverseAppend (plain n) else Append (plain n)) (dheap w) (snd s) c
      = Some (dheap w', snd t)"
    by (auto simp: branch_def branch_Append_def branch_ReverseAppend_def bind_Some_ex split: if_splits)
  show "wf_val v \<Longrightarrow> Strict v c = Some u \<Longrightarrow> heap_ok (dheap w') \<and>
      (\<exists>k' f'. chase (dheap w') (snd t) u = Some (k', f') \<and>
        (\<forall>r x. chase (dheap w) (snd r) x = Some (k, f) \<longrightarrow> chase (dheap w') (snd r) x = Some (k', f')) \<and>
        (\<forall>r x q g. chase (dheap w) (snd r) x = Some (q, g) \<longrightarrow> q \<noteq> k \<longrightarrow> chase (dheap w') (snd r) x = Some (q, g)))"
    using list.Append_law [OF g _ _ a] by blast
  have "fst t = fst s"
    using \<open>(if bw then ReverseAppend (branch n S) else Append (branch n S)) w s c = Some (w', t)\<close>
    by (auto simp: branch_def branch_Append_def branch_ReverseAppend_def bind_Some_ex split: if_splits)
  then show "Next (branch n S) w s = Some None \<Longrightarrow>
      Next (branch n S) w' s = Some (Some (t, c)) \<and> Next (branch n S) w' t = Some None"
    using list.Append_end [OF g _ a] by (auto simp: branch_def branch_Next_def plain_def intro!: prod_eqI)
qed

section \<open>Push and Pull\<close>

locale stream_pair = src: stream_family F goodF chaseF lenF + dst: stream_family T goodT chaseT lenT
  for F :: "('v, 'f) Stream" and goodF and chaseF :: "'v \<Rightarrow> 'f \<Rightarrow> val \<Rightarrow> ('j \<times> val) option" and lenF
    and T :: "('w, 't) Stream" and goodT and chaseT :: "'w \<Rightarrow> 't \<Rightarrow> val \<Rightarrow> ('k \<times> val) option" and lenT
begin

text \<open>
  Both streams stand at the same value before and after: then they stand at the value the
  first one ends with.
\<close>

lemma branch_merge_loop_spec:
  assumes "branch_merge_loop F T v a w b bw = Some (a', w', b')" "goodF v" "goodT w" "wf_val x"
    and "chaseF v a x = Some (j, f)" "chaseT w b x = Some (k, g)"
  shows "goodT w' \<and> chaseF v a' f = Some (j, f) \<and> Next F v a' = Some None \<and>
    (Next T w b = Some None \<longrightarrow> Next T w' b' = Some None) \<and>
    (\<exists>k' g'. chaseT w' b' f = Some (k', g') \<and>
      (\<forall>r y. chaseT w r y = Some (k, g) \<longrightarrow> chaseT w' r y = Some (k', g')))"
  using assms
proof (induction "lenF v a" arbitrary: a w b x k g rule: less_induct)
  case less
  consider (stop) "Next F v a = Some None" | (step) d c where "Next F v a = Some (Some (d, c))"
    using src.Next_ok [OF less.prems(2,5)] by (metis not_Some_eq surj_pair)
  then show ?case
  proof cases
    case stop
    then show ?thesis
      using less.prems src.Next_end [OF less.prems(2,5) stop]
      by (auto simp: branch_merge_loop.simps [of F T v a])
  next
    case (step d c)
    obtain u where u: "Strict x c = Some u" "chaseF v d u = Some (j, f)" "lenF v d < lenF v a"
      using src.Next_step [OF less.prems(2,5) step] by blast
    obtain w1 b1 where app: "(if bw then ReverseAppend T else Append T) w b c = Some (w1, b1)"
      and loop: "branch_merge_loop F T v d w1 b1 bw = Some (a', w', b')"
      using less.prems(1) step by (auto simp: branch_merge_loop.simps [of F T v a] bind_Some_ex)
    obtain k1 g1 where "goodT w1" and b1: "chaseT w1 b1 u = Some (k1, g1)"
      and rest: "\<And>r y. chaseT w r y = Some (k, g) \<Longrightarrow> chaseT w1 r y = Some (k1, g1)"
      using dst.Append_law [OF less.prems(3,6,4) u(1) app] by blast
    then show ?thesis
      using less.hyps [OF u(3) loop less.prems(2) _ Strict_wf [OF u(1) less.prems(4)] u(2) b1]
        dst.Append_end [OF less.prems(3,6) _ app] by blast
  qed
qed

end


context stream_family
begin

text \<open>
  \<open>bup\<close> and \<open>bdown\<close> of a branch stand at one value: this is what Push and Pull keep.
\<close>

definition level :: "('w, 's) branch_world \<Rightarrow> nat \<Rightarrow> val \<Rightarrow> bool" where
  "level w i v \<longleftrightarrow> i < length (infos w) \<and> \<not> merging (infos w ! i) \<and> good (upw w) \<and> heap_ok (dheap w) \<and> wf_val v
     \<and> walk (upw w) (bup (infos w ! i)) v \<noteq> None \<and> chase (dheap w) (bdown (infos w ! i)) v \<noteq> None"

lemma push_pair: "stream_pair (plain n) heap_ok chase (\<lambda>h a. length h - a) S good walk len"
  by (intro stream_pair.intro list.stream_family_axioms stream_family_axioms)

lemma pull_pair: "stream_pair S good walk len (plain n) heap_ok chase (\<lambda>h a. length h - a)"
  by (intro stream_pair.intro list.stream_family_axioms stream_family_axioms)

lemma push_spec:
  assumes "branchInfo_push n S w i = Some w'" "level w i v"
    and "walk (upw w) (bup (infos w ! i)) v = Some (k, g)" "chase (dheap w) (bdown (infos w ! i)) v = Some (j, f)"
  shows "level w' i f \<and> dheap w' = dheap w \<and> chase (dheap w) (bdown (infos w' ! i)) f = Some (j, f)
    \<and> Next (plain n) (dheap w) (bdown (infos w' ! i)) = Some None \<and>
    (\<exists>k' g'. walk (upw w') (bup (infos w' ! i)) f = Some (k', g') \<and>
      (\<forall>r y. walk (upw w) r y = Some (k, g) \<longrightarrow> walk (upw w') r y = Some (k', g')))"
proof -
  let ?b = "infos w ! i"
  obtain d uw u where m: "branch_merge_loop (plain n) S (dheap w) (bdown ?b) (upw w) (bup ?b) False = Some (d, uw, u)"
    and w': "w' = w\<lparr>upw := uw, infos := (infos w)[i := ?b\<lparr>bup := u, bdown := d\<rparr>]\<rparr>"
    using assms(1,2) by (auto simp: branchInfo_push_def branch_merge_def level_def Let_def bind_Some_ex)
  have wf: "wf_val v" "heap_ok (dheap w)" "good (upw w)" and i: "i < length (infos w)"
    using assms(2) by (auto simp: level_def)
  obtain cs where "foldM Strict v cs = Some f"
    using list.Latest_loop_value [OF wf(2) assms(4)] by blast
  then have "wf_val f" using wf(1) Strict_wf by (rule foldM_invariant)
  then show ?thesis
    using stream_pair.branch_merge_loop_spec [OF push_pair m wf(2,3,1) assms(4,3)] assms(2) i
    unfolding w' level_def by auto
qed

lemma pull_spec:
  assumes "branchInfo_pull n S w i = Some w'" "level w i v"
    and "walk (upw w) (bup (infos w ! i)) v = Some (k, g)" "chase (dheap w) (bdown (infos w ! i)) v = Some (j, f)"
  shows "level w' i g \<and> upw w' = upw w \<and> walk (upw w) (bup (infos w' ! i)) g = Some (k, g)
    \<and> (Next (plain n) (dheap w) (bdown (infos w ! i)) = Some None \<longrightarrow>
        Next (plain n) (dheap w') (bdown (infos w' ! i)) = Some None) \<and>
    (\<exists>j' f'. chase (dheap w') (bdown (infos w' ! i)) g = Some (j', f') \<and>
      (\<forall>r y. chase (dheap w) r y = Some (j, f) \<longrightarrow> chase (dheap w') r y = Some (j', f')))"
proof -
  let ?b = "infos w ! i"
  obtain u dh d where m: "branch_merge_loop S (plain n) (upw w) (bup ?b) (dheap w) (bdown ?b) True = Some (u, dh, d)"
    and w': "w' = w\<lparr>dheap := dh, infos := (infos w)[i := ?b\<lparr>bup := u, bdown := d\<rparr>]\<rparr>"
    using assms(1,2) by (auto simp: branchInfo_pull_def branch_merge_def level_def Let_def bind_Some_ex)
  have wf: "wf_val v" "heap_ok (dheap w)" "good (upw w)" and i: "i < length (infos w)"
    using assms(2) by (auto simp: level_def)
  obtain cs where "foldM Strict v cs = Some g"
    using Latest_loop_value [OF wf(3) assms(3)] by blast
  then have "wf_val g" using wf(1) Strict_wf by (rule foldM_invariant)
  then show ?thesis
    using stream_pair.branch_merge_loop_spec [OF pull_pair m wf(3,2,1) assms(3,4)] assms(2) i
    unfolding w' level_def by auto
qed

text \<open>After a Push and a Pull all streams of the two families end with one value.\<close>

lemma push_pull:
  assumes "branchInfo_push n S w i = Some w1" "branchInfo_pull n S w1 i = Some w2" "level w i v"
    and "walk (upw w) (bup (infos w ! i)) v = Some (k, g)" "chase (dheap w) (bdown (infos w ! i)) v = Some (j, f)"
  shows "\<exists>z k' j'. level w2 i z \<and> (\<forall>r y. walk (upw w) r y = Some (k, g) \<longrightarrow> walk (upw w2) r y = Some (k', z))
    \<and> (\<forall>r y. chase (dheap w) r y = Some (j, f) \<longrightarrow> chase (dheap w2) r y = Some (j', z))"
proof -
  obtain k' z where 1: "level w1 i f" "dheap w1 = dheap w" "chase (dheap w1) (bdown (infos w1 ! i)) f = Some (j, f)"
    "Next (plain n) (dheap w1) (bdown (infos w1 ! i)) = Some None"
    "walk (upw w1) (bup (infos w1 ! i)) f = Some (k', z)"
    and up: "\<And>r y. walk (upw w) r y = Some (k, g) \<Longrightarrow> walk (upw w1) r y = Some (k', z)"
    using push_spec [OF assms(1,3-5)] by auto
  obtain j' f' where 2: "level w2 i z" "upw w2 = upw w1"
    "Next (plain n) (dheap w2) (bdown (infos w2 ! i)) = Some None"
    "chase (dheap w2) (bdown (infos w2 ! i)) z = Some (j', f')"
    and down: "\<And>r y. chase (dheap w1) r y = Some (j, f) \<Longrightarrow> chase (dheap w2) r y = Some (j', f')"
    using pull_spec [OF assms(2) 1(1,5,3)] 1(4) by auto
  have "f' = z" using list.Next_end [OF _ 2(4,3)] 2(1) by (simp add: level_def)
  then show ?thesis using 1(2) 2(1,2) up down by auto
qed

end

end
