(* ===== verification/Dot_Revert.thy ===== *)
theory Dot_Revert
  imports Dot_Fuel
begin

text \<open>
  \<open>Revert\<close> undoes a change: on the value the change produced, the reverted change gives back
  the value the change was made for. The splices of a counter are the exception: an increment
  carries its amount in After and nothing in Before, so its Revert adds nothing.
\<close>

function no_counter :: "change option \<Rightarrow> bool" where
  "no_counter None = True"
| "no_counter (Some (Splice s)) = (case sBefore s of CCounter b \<Rightarrow> False | _ \<Rightarrow> True)"
| "no_counter (Some (ChangeSet cs)) = list_all no_counter cs"
| "no_counter (Some (PathChange p c)) = no_counter c"
| "no_counter (Some (Meta d c)) = no_counter c"
| "no_counter (Some (Replace r)) = True"
| "no_counter (Some (Move m)) = True"
| "no_counter (Some (Run off n c)) = no_counter c"
| "no_counter (Some (Update k b a)) = True"
  by pat_completeness auto
termination
  by (relation "measure (size_option size)") (auto dest: size_change_mem)

definition Revert_opt :: "change option \<Rightarrow> change option" where
  "Revert_opt c = (case c of None \<Rightarrow> None | Some c \<Rightarrow> Revert c)"

lemma path_strict_inverse:
  assumes "path_strict f p v = Some w" "wf_val v"
    and "\<And>x y. wf_val x \<Longrightarrow> f x = Some y \<Longrightarrow> g y = Some x"
  shows "path_strict g p w = Some v"
  using assms(1,2)
proof (induction p arbitrary: v w)
  case (Cons k p)
  then obtain x y where x: "vget v k = Some x" "path_strict f p x = Some y" "vset v k y = Some w"
    by (auto simp: bind_Some_ex)
  then have "path_strict g p y = Some x" using Cons.IH [OF x(2)] wf_vget Cons.prems(2) by blast
  then show ?case
    using x Cons.prems(2) by (simp add: vget_vset_same [OF x(3)] vset_vset_same [OF x(3)] vset_vget)
qed (use assms(3) in simp)

lemma list_splice_inverse: "list_splice off b a x = Some y \<Longrightarrow> list_splice off a b y = Some x"
  by (auto simp: list_splice_Some_iff)

lemma list_move_inverse:
  assumes "list_move off cnt dist x = Some y"
  shows "list_move (off + dist) cnt (- dist) y = Some x"
proof -
  obtain a b c d where *: "x = a @ b @ c @ d" "y = a @ c @ b @ d"
    "off = int (length a) \<and> cnt = int (length b) \<and> dist = int (length c)
     \<or> off = int (length a) + int (length b) \<and> cnt = int (length c) \<and> dist = - int (length b)"
    using assms unfolding list_move_Some_iff by blast
  from *(3) show ?thesis
    by (elim disjE) (simp_all add: * list_move_left list_move_right)
qed

lemma Splice_Revert_strict:
  assumes "strict (Splice s) v = Some w" "wf_val v" "no_counter (Some (Splice s))"
  shows "strict (Splice (Splice_Revert s)) w = Some v"
  using assms(1)
proof (cases rule: strict_Splice_cases)
  case (s8 x)
  then show ?thesis
    using assms(1) list_splice_inverse
    by (auto simp: Splice_Revert_def split: if_splits coll.splits)
next
  case (arr x)
  then obtain b a y where ba: "sBefore s = CA b" "sAfter s = CA a" "w = VA y"
    "list_splice (sOffset s) b a x = Some y"
    using assms(1) by (auto split: if_splits coll.splits)
  then have "wf_coll (CA b)" using assms(2) arr by (auto simp: list_splice_Some_iff)
  then show ?thesis using ba arr list_splice_inverse [OF ba(4)] by (simp add: Splice_Revert_def)
qed (use assms(3) in simp)

lemma Move_Revert_strict:
  assumes "strict (Move m) v = Some w"
  shows "strict (Move (Move_Revert m)) w = Some v"
  using assms by (cases rule: strict_Move_cases)
    (use assms list_move_inverse in \<open>auto simp: Move_Revert_def\<close>)

lemma foldM_inverse:
  "foldM Strict v cs = Some w \<Longrightarrow> wf_val v \<Longrightarrow>
    (\<And>c x y. c \<in> set cs \<Longrightarrow> wf_val x \<Longrightarrow> Strict x c = Some y \<Longrightarrow> Strict y (r c) = Some x) \<Longrightarrow>
    foldM Strict w (map r (rev cs)) = Some v"
proof (induction cs arbitrary: v)
  case (Cons c cs)
  then obtain x where x: "Strict v c = Some x" "foldM Strict x cs = Some w" by (auto simp: bind_Some_ex)
  then have "foldM Strict w (map r (rev cs)) = Some x"
    using Cons.IH [OF x(2)] Strict_wf Cons.prems by simp
  then show ?case using Cons.prems x(1) by (simp add: foldM_append)
qed simp

lemma Revert_undoes:
  "strict c v = Some w \<Longrightarrow> wf_val v \<Longrightarrow> no_counter (Some c) \<Longrightarrow> Strict w (Revert c) = Some v"
proof (induction c arbitrary: v w rule: Revert.induct)
  case (1 s)
  then show ?case by (auto simp: Replace_Revert_def split: if_splits)
next
  case (2 s)
  then show ?case using Splice_Revert_strict by simp
next
  case (3 m)
  then show ?case using Move_Revert_strict by simp
next
  case (4 cs)
  let ?r = "\<lambda>c. case c of None \<Rightarrow> None | Some c \<Rightarrow> Revert c"
  have fold: "foldM Strict v cs = Some w" using 4(2) by simp
  have step: "Strict y (?r c) = Some x" if "c \<in> set cs" "wf_val x" "Strict x c = Some y" for c x y
  proof (cases c)
    case (Some d)
    then have "no_counter (Some d)" using 4(4) that(1) by (auto simp: list_all_iff)
    then show ?thesis using 4(1) [of c d x y] that Some by simp
  qed (use that in simp)
  have "foldM Strict w (map ?r (rev cs)) = Some v" by (rule foldM_inverse [OF fold 4(3)]) (rule step)
  then show ?case
    using Strict_Simplify [of w "Some (ChangeSet (map ?r (rev cs)))" v] strict_wf [OF 4(2,3)]
    by (simp add: ChangeSet_Simplify_def)
next
  case (5 p c)
  show ?case
  proof (cases c)
    case None
    then show ?thesis using 5(2) path_strict_id [OF 5(3), of p w] by simp
  next
    case (Some d)
    then have "path_strict (\<lambda>v. Strict v c) p v = Some w" using 5(2) by simp
    then have "path_strict (\<lambda>v. Strict v (Revert d)) p w = Some v"
      by (rule path_strict_inverse [OF _ 5(3)]) (use 5(1) [OF Some] 5(4) Some in simp)
    then show ?thesis using Some by simp
  qed
next
  case (6 d c)
  then show ?case by (cases c) auto
qed simp_all

text \<open>\<open>Counter.Increment\<close> and \<open>Counter.Set\<close>.\<close>

definition Increment :: "32 word \<Rightarrow> change" where
  "Increment amount = Splice \<lparr>sOffset = 0, sBefore = CCounter 0, sAfter = CCounter amount\<rparr>"

definition Counter_Set :: "32 word \<Rightarrow> 32 word \<Rightarrow> change" where
  "Counter_Set c v = Replace \<lparr>rBefore = VCounter c, rAfter = VCounter v\<rparr>"

text \<open>Increments of any two parties add up, modulo the width of the counter.\<close>

lemma Increment_apply: "strict (Increment d) (VCounter n) = Some (VCounter (n + d))"
  by (simp add: Increment_def)

lemma Increment_revert: "Revert (Increment d) = Some (Splice \<lparr>sOffset = 0, sBefore = CCounter d, sAfter = CCounter 0\<rparr>)"
  by (simp add: Increment_def Splice_Revert_def)

lemma Increment_revert_applies: "Apply (VCounter n) (Revert (Increment d)) = Some (VCounter n)"
  by (simp add: Increment_revert Counter_splice_def)

end
