(* ===== verification/Dot_Undo.thy ===== *)
theory Dot_Undo
  imports Dot_Streams Dot_Revert
begin

text \<open>
  \<open>streams/undo\<close>: the stack logs every change of a base stream with its kind and works out
  the change that undoes or redoes one of them. The base is any stream; the world holds its
  world and the stacks, and an undo stream is a base stream with the index of its stack. The
  mutex of the stack makes its operations atomic, so each is one function here.
\<close>

section \<open>The model\<close>

datatype cType = CLocal | CUpstream | CUndo | CRedo

record 's stack =
  sbase :: 's
  schanges :: "change option list"
  stypes :: "cType list"

partial_function (option) pullChanges ::
  "('w, 's) Stream \<Rightarrow> 'w \<Rightarrow> 's stack \<Rightarrow> cType \<Rightarrow> 's stack option" where
  "pullChanges S w s t = do {
     r \<leftarrow> Next S w (sbase s);
     (case r of
        None \<Rightarrow> Some s
      | Some (base, c) \<Rightarrow>
          (let s = s\<lparr>sbase := base\<rparr> in
           pullChanges S w (if c \<noteq> None
             then s\<lparr>schanges := schanges s @ [c], stypes := stypes s @ [t]\<rparr> else s) t)) }"

declare pullChanges.simps [code]

text \<open>
  The two backward scans, over the types in reverse order; the index of the entry at hand is the
  number of entries before it.
\<close>

fun undo_scan :: "cType list \<Rightarrow> nat \<Rightarrow> nat option" where
  "undo_scan [] skip = None"
| "undo_scan (t # ts) skip = (case t of
     CRedo \<Rightarrow> if skip = 0 then Some (length ts) else undo_scan ts (skip - 1)
   | CLocal \<Rightarrow> if skip = 0 then Some (length ts) else undo_scan ts (skip - 1)
   | CUndo \<Rightarrow> undo_scan ts (skip + 1)
   | CUpstream \<Rightarrow> undo_scan ts skip)"

fun redo_scan :: "cType list \<Rightarrow> nat \<Rightarrow> nat option" where
  "redo_scan [] skip = None"
| "redo_scan (t # ts) skip = (case t of
     CUndo \<Rightarrow> if skip = 0 then Some (length ts) else redo_scan ts (skip - 1)
   | CRedo \<Rightarrow> redo_scan ts (skip + 1)
   | CLocal \<Rightarrow> None
   | CUpstream \<Rightarrow> redo_scan ts skip)"

text \<open>\<open>stack.simplify\<close>: the result so far is kept in reverse order.\<close>

definition cancels :: "cType \<Rightarrow> cType \<Rightarrow> bool" where
  "cancels lastOpType opType \<longleftrightarrow>
     (lastOpType = CLocal \<or> lastOpType = CRedo) \<and> opType = CUndo
     \<or> lastOpType = CUndo \<and> opType = CRedo"

fun simplify_loop :: "('a \<times> cType) list \<Rightarrow> ('a \<times> cType) list \<Rightarrow> ('a \<times> cType) list" where
  "simplify_loop result [] = result"
| "simplify_loop result ((c, t) # cx) = (case result of
     [] \<Rightarrow> simplify_loop [(c, t)] cx
   | (cl, lt) # rest \<Rightarrow>
       if cancels lt t then simplify_loop rest cx else simplify_loop ((c, t) # result) cx)"

definition undo_simplify :: "change option list \<Rightarrow> cType list \<Rightarrow> change option list" where
  "undo_simplify cx types = rev (map fst (simplify_loop [] (zip cx types)))"

definition undoAt :: "nat \<Rightarrow> 's stack \<Rightarrow> nat \<Rightarrow> change option option" where
  "undoAt n s offset =
     (let c = (case schanges s ! offset of None \<Rightarrow> None | Some c \<Rightarrow> Revert c);
          rest = undo_simplify (drop (offset + 1) (schanges s)) (drop (offset + 1) (stypes s)) in do {
      (cx, _) \<leftarrow> ChangeSet_Merge (cMerge n) rest c;
      Some cx })"

definition getUndoChange :: "nat \<Rightarrow> 's stack \<Rightarrow> (change option \<times> bool) option" where
  "getUndoChange n s = (case undo_scan (rev (stypes s)) 0 of
     None \<Rightarrow> Some (None, False)
   | Some offset \<Rightarrow> do { c \<leftarrow> undoAt n s offset; Some (c, True) })"

definition getRedoChange :: "nat \<Rightarrow> 's stack \<Rightarrow> (change option \<times> bool) option" where
  "getRedoChange n s = (case redo_scan (rev (stypes s)) 0 of
     None \<Rightarrow> Some (None, False)
   | Some offset \<Rightarrow> do { c \<leftarrow> undoAt n s offset; Some (c, True) })"

text \<open>\<open>stack.withLock\<close>: the upstream changes are pulled first.\<close>

definition withLock ::
  "('w, 's) Stream \<Rightarrow> 'w \<Rightarrow> 's stack \<Rightarrow> ('w \<Rightarrow> 's stack \<Rightarrow> 'r option) \<Rightarrow> 'r option" where
  "withLock S w s fn = do { s \<leftarrow> pullChanges S w s CUpstream; fn w s }"

definition stack_Undo :: "nat \<Rightarrow> ('w, 's) Stream \<Rightarrow> 'w \<Rightarrow> 's stack \<Rightarrow> ('w \<times> 's stack) option" where
  "stack_Undo n S w s = withLock S w s (\<lambda>w s. do {
     (c, ok) \<leftarrow> getUndoChange n s;
     if ok then do {
       (w, _) \<leftarrow> Append S w (sbase s) c;
       s \<leftarrow> pullChanges S w s CUndo;
       Some (w, s) }
     else Some (w, s) })"

definition stack_Redo :: "nat \<Rightarrow> ('w, 's) Stream \<Rightarrow> 'w \<Rightarrow> 's stack \<Rightarrow> ('w \<times> 's stack) option" where
  "stack_Redo n S w s = withLock S w s (\<lambda>w s. do {
     (c, ok) \<leftarrow> getRedoChange n s;
     if ok then do {
       (w, _) \<leftarrow> Append S w (sbase s) c;
       s \<leftarrow> pullChanges S w s CRedo;
       Some (w, s) }
     else Some (w, s) })"

text \<open>The undo stream: \<open>undo.New\<close> and its methods.\<close>

record ('w, 's) undo_world =
  ubase :: 'w
  stacks :: "'s stack list"

type_synonym 's undo_ref = "'s \<times> nat"

definition undo_New :: "('w, 's) undo_world \<Rightarrow> 's \<Rightarrow> ('w, 's) undo_world \<times> 's undo_ref" where
  "undo_New w base =
     (w\<lparr>stacks := stacks w @ [\<lparr>sbase = base, schanges = [], stypes = []\<rparr>]\<rparr>, (base, length (stacks w)))"

definition undo_Append :: "('w, 's) Stream \<Rightarrow> ('w, 's) undo_world \<Rightarrow> 's undo_ref \<Rightarrow> change option
    \<Rightarrow> (('w, 's) undo_world \<times> 's undo_ref) option" where
  "undo_Append S w s c = withLock S (ubase w) (stacks w ! snd s) (\<lambda>bw st. do {
     (bw, base) \<leftarrow> Append S bw (fst s) c;
     st \<leftarrow> pullChanges S bw st CLocal;
     Some (w\<lparr>ubase := bw, stacks := (stacks w)[snd s := st]\<rparr>, (base, snd s)) })"

definition undo_ReverseAppend :: "('w, 's) Stream \<Rightarrow> ('w, 's) undo_world \<Rightarrow> 's undo_ref \<Rightarrow> change option
    \<Rightarrow> (('w, 's) undo_world \<times> 's undo_ref) option" where
  "undo_ReverseAppend S w s c = do {
     (bw, base) \<leftarrow> ReverseAppend S (ubase w) (fst s) c;
     Some (w\<lparr>ubase := bw\<rparr>, (base, snd s)) }"

definition undo_Next :: "('w, 's) Stream \<Rightarrow> ('w, 's) undo_world \<Rightarrow> 's undo_ref
    \<Rightarrow> ('s undo_ref \<times> change option) option option" where
  "undo_Next S w s = do {
     r \<leftarrow> Next S (ubase w) (fst s);
     Some (case r of None \<Rightarrow> None | Some (base, c) \<Rightarrow> Some ((base, snd s), c)) }"

definition undo_step :: "('w \<Rightarrow> 's stack \<Rightarrow> ('w \<times> 's stack) option) \<Rightarrow> ('w, 's) undo_world \<Rightarrow> 's undo_ref
    \<Rightarrow> ('w, 's) undo_world option" where
  "undo_step f w s = do {
     (bw, st) \<leftarrow> f (ubase w) (stacks w ! snd s);
     Some (w\<lparr>ubase := bw, stacks := (stacks w)[snd s := st]\<rparr>) }"

definition undo_stream :: "nat \<Rightarrow> ('w, 's) Stream \<Rightarrow> (('w, 's) undo_world, 's undo_ref) Stream" where
  "undo_stream n S = \<lparr>Append = undo_Append S, ReverseAppend = undo_ReverseAppend S, Next = undo_Next S,
     Push = (\<lambda>w s. do { (bw, err) \<leftarrow> Push S (ubase w) (fst s); Some (w\<lparr>ubase := bw\<rparr>, err) }),
     Pull = (\<lambda>w s. do { (bw, err) \<leftarrow> Pull S (ubase w) (fst s); Some (w\<lparr>ubase := bw\<rparr>, err) }),
     Undo = undo_step (stack_Undo n S), Redo = undo_step (stack_Redo n S)\<rparr>"

section \<open>Which change is undone or redone\<close>

text \<open>
  The reference: the log is played forward on two stacks of entries, the changes that can be
  undone and those that can be redone. A local change is pushed on the first and clears the
  second, an undo moves to the second, a redo back.
\<close>

fun play :: "'a list \<times> 'a list \<Rightarrow> ('a \<times> cType) list \<Rightarrow> 'a list \<times> 'a list" where
  "play us [] = us"
| "play (us, rs) ((a, t) # log) = (case t of
     CLocal \<Rightarrow> play (a # us, []) log
   | CUpstream \<Rightarrow> play (us, rs) log
   | CUndo \<Rightarrow> play (tl us, a # rs) log
   | CRedo \<Rightarrow> play (a # us, tl rs) log)"

lemma undo_scan_less: "undo_scan ts k = Some i \<Longrightarrow> i < length ts"
  by (induction ts k rule: undo_scan.induct) (auto split: cType.splits if_splits)

lemma play_append: "play us (xs @ ys) = play (play us xs) ys"
  by (induction us xs rule: play.induct) (auto split: cType.splits)

definition numbered :: "cType list \<Rightarrow> (nat \<times> cType) list" where
  "numbered ts = zip [0..<length ts] ts"

lemma numbered_snoc: "numbered (ts @ [t]) = numbered ts @ [(length ts, t)]"
  by (simp add: numbered_def)

definition nth_opt :: "'a list \<Rightarrow> nat \<Rightarrow> 'a option" where
  "nth_opt xs k = (if k < length xs then Some (xs ! k) else None)"

lemma nth_opt_simps [simp]:
  "nth_opt [] k = None" "nth_opt (x # xs) 0 = Some x" "nth_opt (x # xs) (Suc k) = nth_opt xs k"
  "nth_opt (tl xs) k = nth_opt xs (Suc k)"
  by (auto simp: nth_opt_def nth_tl)

lemma scans_play:
  "undo_scan (rev ts) k = nth_opt (fst (play ([], []) (numbered ts))) k
   \<and> redo_scan (rev ts) k = nth_opt (snd (play ([], []) (numbered ts))) k"
proof (induction ts arbitrary: k rule: rev_induct)
  case (snoc t ts)
  obtain us rs where p: "play ([], []) (numbered ts) = (us, rs)" by fastforce
  have IH: "undo_scan (rev ts) k = nth_opt us k" "redo_scan (rev ts) k = nth_opt rs k" for k
    using snoc [of k] p by auto
  show ?case
    by (cases t; cases k) (simp_all add: numbered_snoc play_append p IH)
qed (simp add: numbered_def)


section \<open>Cancelled pairs\<close>

text \<open>
  In a log without redo entries \<open>simplify\<close> cancels a local change with the undo that follows
  it directly or after other cancelled pairs. The lemmas below show that such an undo is the one
  of that very change.
\<close>

abbreviation no_redo :: "('a \<times> cType) list \<Rightarrow> bool" where
  "no_redo xs \<equiv> CRedo \<notin> snd ` set xs"

abbreviation no_undo :: "('a \<times> cType) list \<Rightarrow> bool" where
  "no_undo xs \<equiv> CUndo \<notin> snd ` set xs"

lemma simplify_loop_append: "simplify_loop r (xs @ ys) = simplify_loop (simplify_loop r xs) ys"
  by (induction r xs rule: simplify_loop.induct) (auto split: list.splits)

lemma simplify_loop_keeps_undo:
  "CUndo \<in> snd ` set r \<Longrightarrow> no_redo xs \<Longrightarrow> CUndo \<in> snd ` set (simplify_loop r xs)"
proof (induction xs arbitrary: r)
  case (Cons x xs)
  obtain c t where x: "x = (c, t)" by fastforce
  show ?case
  proof (cases r)
    case (Cons y r')
    obtain cl lt where y: "y = (cl, lt)" by fastforce
    show ?thesis
      using Cons.IH [of "x # r"] Cons.IH [of r'] Cons.prems unfolding x y Cons
      by (auto simp: cancels_def image_iff)
  qed (use Cons.prems in simp)
qed simp

lemma simplify_loop_no_redo: "no_redo r \<Longrightarrow> no_redo xs \<Longrightarrow> no_redo (simplify_loop r xs)"
proof (induction xs arbitrary: r)
  case (Cons x xs)
  obtain c t where x: "x = (c, t)" by fastforce
  show ?case using Cons.IH [of "x # r"] Cons.IH [of "tl r"] Cons.prems unfolding x
    by (cases r) (auto split: list.splits)
qed simp

text \<open>What is below the part of the result that never meets an undo does not matter.\<close>

lemma simplify_loop_frame:
  "no_redo xs \<Longrightarrow> no_undo (simplify_loop r xs) \<Longrightarrow> simplify_loop (r @ q) xs = simplify_loop r xs @ q"
proof (induction xs arbitrary: r)
  case (Cons x xs)
  obtain c t where x: "x = (c, t)" by fastforce
  show ?case
  proof (cases "t = CUndo \<and> (r = [] \<or> \<not> cancels (snd (hd r)) t)")
    case True
    then have "simplify_loop r (x # xs) = simplify_loop (x # r) xs" using x by (cases r) auto
    moreover have "CUndo \<in> snd ` set (simplify_loop (x # r) xs)"
      using simplify_loop_keeps_undo [of "x # r" xs] Cons.prems(1) x True by force
    ultimately show ?thesis using Cons.prems(2) by simp
  next
    case False
    have nr: "no_redo xs" "t \<noteq> CRedo" using Cons.prems(1) x by auto
    show ?thesis
    proof (cases "t = CUndo")
      case True
      then obtain y r' where r: "r = y # r'" "cancels (snd y) t" using False by (cases r) auto
      then show ?thesis
        using Cons.IH [OF nr(1), of r'] Cons.prems(2) x by (cases y) auto
    next
      case False
      then have push: "simplify_loop s (x # xs) = simplify_loop (x # s) xs" for s
        using nr x by (cases s) (auto simp: cancels_def split: prod.splits)
      then show ?thesis using Cons.IH [OF nr(1), of "x # r"] Cons.prems(2) unfolding push by simp
    qed
  qed
qed simp

lemma simplify_balanced:
  assumes "no_redo ws" "simplify_loop [] ws = []"
  shows "simplify_loop q ws = q"
  using simplify_loop_frame [OF assms(1), of "[]" q] assms(2) by simp

text \<open>The entry on top of the result, the entries before it, and a cancelled rest.\<close>

lemma simplify_top:
  "no_redo zs \<Longrightarrow> simplify_loop [] zs = a # A \<Longrightarrow> snd a \<noteq> CUndo \<Longrightarrow>
     \<exists>us ws. zs = us @ a # ws \<and> simplify_loop [] us = A \<and> simplify_loop [] ws = []"
proof (induction zs arbitrary: a A rule: length_induct)
  case (1 zs)
  have IH: "\<exists>us ws. xs = us @ b # ws \<and> simplify_loop [] us = B \<and> simplify_loop [] ws = []"
    if "length xs < length zs" "no_redo xs" "simplify_loop [] xs = b # B" "snd b \<noteq> CUndo"
    for xs :: "('a \<times> cType) list" and b B
    using 1(1) that by blast
  show ?case
  proof (cases zs rule: rev_cases)
    case (snoc zs' e)
    have nr: "no_redo zs'" and ne: "snd e \<noteq> CRedo" using 1(2) snoc by (auto simp: image_iff)
    have e: "simplify_loop (simplify_loop [] zs') [e] = a # A" using 1(3) snoc by (simp add: simplify_loop_append)
    show ?thesis
    proof (cases "\<exists>b B. simplify_loop [] zs' = b # B \<and> cancels (snd b) (snd e)")
      case True
      then obtain b B where b: "simplify_loop [] zs' = b # B" "cancels (snd b) (snd e)" by blast
      then have B: "B = a # A" "snd e = CUndo" "snd b \<noteq> CUndo" using e ne
        by (cases e; cases b; auto simp: cancels_def)+
      obtain us ws where u: "zs' = us @ b # ws" "simplify_loop [] us = a # A" "simplify_loop [] ws = []"
        using IH [OF _ nr b(1) B(3)] b(1) B snoc by auto
      have nr': "no_redo us" "no_redo ws" using nr u(1) by auto
      obtain us' ws' where u': "us = us' @ a # ws'" "simplify_loop [] us' = A" "simplify_loop [] ws' = []"
        using IH [OF _ nr'(1) u(2) 1(4)] u(1) snoc by auto
      have "simplify_loop [] (ws' @ b # ws @ [e]) = simplify_loop (simplify_loop [b] ws) [e]"
        using u'(3) by (cases b) (simp add: simplify_loop_append)
      also have "\<dots> = []"
        using simplify_balanced [OF nr'(2) u(3), of "[b]"] b(2) by (cases b; cases e) simp
      finally show ?thesis using snoc u u' by (intro exI [of _ us'] exI [of _ "ws' @ b # ws @ [e]"]) simp
    next
      case False
      then have "simplify_loop (simplify_loop [] zs') [e] = e # simplify_loop [] zs'"
        by (cases e; cases "simplify_loop [] zs'") auto
      then show ?thesis using e snoc by (intro exI [of _ zs'] exI [of _ "[]"]) auto
    qed
  qed (use 1(3) in simp)
qed

text \<open>A cancelled segment leaves the changes that can be undone as they are.\<close>

definition locals :: "('a \<times> cType) list \<Rightarrow> 'a list" where
  "locals r = map fst (filter (\<lambda>(a, t). t = CLocal) r)"

lemma play_simplify:
  "no_redo xs \<Longrightarrow> no_redo r \<Longrightarrow> no_undo (simplify_loop r xs) \<Longrightarrow>
     fst (play (locals r @ us, rs) xs) = locals (simplify_loop r xs) @ us"
proof (induction xs arbitrary: r rs)
  case (Cons x xs)
  obtain c t where x: "x = (c, t)" by fastforce
  show ?case
  proof (cases "t = CUndo \<and> (r = [] \<or> \<not> cancels (snd (hd r)) t)")
    case True
    then have "simplify_loop r (x # xs) = simplify_loop (x # r) xs" using x by (cases r) auto
    moreover have "CUndo \<in> snd ` set (simplify_loop (x # r) xs)"
      using simplify_loop_keeps_undo [of "x # r" xs] Cons.prems(1) x True by force
    ultimately show ?thesis using Cons.prems(3) by simp
  next
    case False
    have nr: "no_redo xs" "t \<noteq> CRedo" using Cons.prems(1) x by auto
    show ?thesis
    proof (cases "t = CUndo")
      case True
      then obtain b r' where r: "r = (b, CLocal) # r'"
        using False Cons.prems(2) by (cases r) (auto simp: cancels_def image_iff)
      then show ?thesis
        using Cons.IH [OF nr(1), of r'] Cons.prems(2,3) x True by (auto simp: locals_def cancels_def)
    next
      case False
      then have push: "simplify_loop r (x # xs) = simplify_loop (x # r) xs"
        using nr x by (cases r) (auto simp: cancels_def)
      show ?thesis
        using Cons.IH [OF nr(1), of "x # r"] Cons.prems False nr(2) x push
        by (cases t) (auto simp: locals_def)
    qed
  qed
qed simp

text \<open>Which entries cancel depends on their types alone.\<close>

lemma simplify_loop_types:
  "map snd r = map snd r' \<Longrightarrow> map snd xs = map snd xs' \<Longrightarrow>
     map snd (simplify_loop r xs) = map snd (simplify_loop r' xs')"
proof (induction xs arbitrary: r r' xs')
  case (Cons x xs)
  obtain c t where x: "x = (c, t)" by fastforce
  obtain c' ys where y: "xs' = (c', t) # ys" "map snd xs = map snd ys"
    using Cons.prems(2) x by (cases xs') auto
  show ?case
  proof (cases r)
    case Nil
    then show ?thesis using Cons.prems(1) Cons.IH [of "[x]" "[(c', t)]" ys] x y by simp
  next
    case (Cons b s)
    then obtain b' s' where "r' = b' # s'" "snd b' = snd b" "map snd s' = map snd s"
      using Cons.prems(1) by (cases r') auto
    then show ?thesis
      using Cons.IH [of s s' ys] Cons.IH [of "x # r" "(c', t) # r'" ys] x y Cons
      by (cases b; cases b') auto
  qed
qed simp

lemma undo_scan_top:
  assumes "no_redo ws" "simplify_loop [] ws = []" "snd a = CLocal"
  shows "undo_scan (rev (map snd (us @ a # ws))) 0 = Some (length us)"
proof -
  let ?k = "zip [Suc (length us)..<Suc (length us + length ws)] (map snd ws)"
  obtain U R where U: "play ([], []) (numbered (map snd us)) = (U, R)" by fastforce
  have "[0..<Suc (length us + length ws)] = [0..<length us] @ length us # [Suc (length us)..<Suc (length us + length ws)]"
    using upt_add_eq_append [of 0 "length us" "Suc (length ws)"]
      upt_conv_Cons [of "length us" "length us + Suc (length ws)"] by simp
  then have n: "numbered (map snd (us @ a # ws)) = numbered (map snd us) @ (length us, CLocal) # ?k"
    using assms(3) by (simp add: numbered_def)
  have k: "map snd ?k = map snd ws" by (simp del: upt_Suc)
  have nr: "no_redo ?k" using assms(1) k by (metis set_map)
  have e: "simplify_loop [] ?k = []" using simplify_loop_types [OF _ k, of "[]" "[]"] assms(2) by simp
  have "fst (play (length us # U, []) ?k) = length us # U"
    using play_simplify [OF nr, of "[]" "length us # U" "[]"] e by (simp add: locals_def)
  then show ?thesis by (simp only: scans_play n play_append U) simp
qed

section \<open>Undoing a change\<close>

text \<open>
  The logs of a document: local and upstream changes fit the value at hand, an undo is the
  change that the stack works out, as \<open>stack.Undo\<close> appends it.
\<close>

inductive log_run :: "nat \<Rightarrow> val \<Rightarrow> (change option \<times> cType) list \<Rightarrow> val \<Rightarrow> bool" for n v0 where
  empty: "log_run n v0 [] v0"
| change: "log_run n v0 xs v \<Longrightarrow> t = CLocal \<or> t = CUpstream \<Longrightarrow> Strict v c = Some w \<Longrightarrow>
    log_run n v0 (xs @ [(c, t)]) w"
| undo: "log_run n v0 xs v \<Longrightarrow> undo_scan (rev (map snd xs)) 0 = Some i \<Longrightarrow>
    undoAt n \<lparr>sbase = (), schanges = map fst xs, stypes = map snd xs\<rparr> i = Some c \<Longrightarrow>
    Strict v c = Some w \<Longrightarrow> log_run n v0 (xs @ [(c, CUndo)]) w"

lemma log_run_fold: "log_run n v0 xs w \<Longrightarrow> foldM Strict v0 (map fst xs) = Some w"
  by (induction rule: log_run.induct) (simp_all add: foldM_append)

lemma log_run_no_redo: "log_run n v0 xs w \<Longrightarrow> no_redo xs"
  by (induction rule: log_run.induct) auto

lemma undoAt_top:
  assumes "undoAt n \<lparr>sbase = b, schanges = map fst (us @ a # ws), stypes = map snd (us @ a # ws)\<rparr> (length us) = Some c"
    and "simplify_loop [] ws = []"
  shows "c = Revert_opt (fst a)"
  using assms
  by (auto simp: undoAt_def undo_simplify_def zip_map_fst_snd nth_append Let_def ChangeSet_Merge_def Revert_opt_def)

lemma Revert_opt_undoes: "Strict v c = Some w \<Longrightarrow> wf_val v \<Longrightarrow> no_counter c \<Longrightarrow> Strict w (Revert_opt c) = Some v"
  by (cases c) (auto simp: Revert_opt_def Revert_undoes)

text \<open>\<open>simplify\<close> keeps the effect of the log.\<close>

lemma simplify_effect:
  "log_run n v0 (ys @ zs) w \<Longrightarrow> foldM Strict v0 (map fst ys) = Some v \<Longrightarrow> wf_val v0 \<Longrightarrow>
     \<forall>e \<in> set zs. no_counter (fst e) \<Longrightarrow> foldM Strict v (rev (map fst (simplify_loop [] zs))) = Some w"
proof (induction zs arbitrary: w rule: rev_induct)
  case Nil
  then show ?case using log_run_fold by fastforce
next
  case (snoc e zs)
  have nr: "no_redo (zs @ [e])" using log_run_no_redo [OF snoc.prems(1)] by auto
  have run: "log_run n v0 ((ys @ zs) @ [e]) w" using snoc.prems(1) by simp
  obtain u where u: "log_run n v0 (ys @ zs) u" "Strict u (fst e) = Some w"
    using run by (cases rule: log_run.cases) auto
  have IH: "foldM Strict v (rev (map fst (simplify_loop [] zs))) = Some u"
    using snoc.IH [OF u(1) snoc.prems(2,3)] snoc.prems(4) by simp
  show ?case
  proof (cases "\<exists>a A. simplify_loop [] zs = a # A \<and> cancels (snd a) (snd e)")
    case False
    then have "simplify_loop [] (zs @ [e]) = e # simplify_loop [] zs"
      unfolding simplify_loop_append by (cases e; cases "simplify_loop [] zs") auto
    then show ?thesis using IH u(2) by (simp add: foldM_append)
  next
    case True
    then obtain a A where a: "simplify_loop [] zs = a # A" "cancels (snd a) (snd e)" by blast
    have "no_redo (a # A)" using simplify_loop_no_redo [of "[]" zs] nr a(1) by auto
    then have t: "snd a = CLocal" "snd e = CUndo" using a(2) nr by (auto simp: cancels_def)
    obtain us ws where z: "zs = us @ a # ws" "simplify_loop [] us = A" "simplify_loop [] ws = []"
      using simplify_top [OF _ a(1)] nr t by auto
    have nrw: "no_redo ws" using nr z(1) by auto
    have "fst e = Revert_opt (fst a)"
      using run
    proof (cases rule: log_run.cases)
      case (undo xs' v' i c)
      have "i = length (ys @ us)"
        using undo(1,3) undo_scan_top [OF nrw z(3) t(1), of "ys @ us"] z(1) by simp
      then show ?thesis using undoAt_top [of n "()" "ys @ us" a ws c] undo z by auto
    qed (use t in auto)
    moreover obtain x where x: "foldM Strict v (rev (map fst A)) = Some x" "Strict x (fst a) = Some u"
      using IH a(1) by (auto simp: foldM_append bind_Some_ex)
    moreover have "wf_val x" using foldM_Strict_wf [OF x(1)] foldM_Strict_wf [OF snoc.prems(2,3)] by simp
    ultimately have "w = x" using Revert_opt_undoes [OF x(2)] u(2) snoc.prems(4) z(1) by simp
    then show ?thesis using x a unfolding simplify_loop_append by (cases a; cases e) auto
  qed
qed

text \<open>
  The undo change fits the value at hand, and leads to the value that the changes after the undone
  one, transformed, make of the value before it.
\<close>

lemma getUndoChange_correct:
  assumes "log_run n v0 xs w" "wf_val v0" "\<forall>e \<in> set xs. no_counter (fst e)"
    and "schanges s = map fst xs" "stypes s = map snd xs" "getUndoChange n s = Some (c, True)"
  shows "\<exists>i x y z later cx. undo_scan (rev (map snd xs)) 0 = Some i \<and> i < length xs
    \<and> foldM Strict v0 (map fst (take i xs)) = Some x \<and> Strict x (fst (xs ! i)) = Some y
    \<and> later = undo_simplify (map fst (drop (Suc i) xs)) (map snd (drop (Suc i) xs)) \<and> foldM Strict y later = Some w
    \<and> ChangeSet_Merge (cMerge n) later (Revert_opt (fst (xs ! i))) = Some (c, cx)
    \<and> Strict w c = Some z \<and> Strict x cx = Some z \<and> (later = [] \<longrightarrow> z = x)"
proof -
  obtain i where i: "undo_scan (rev (map snd xs)) 0 = Some i" "undoAt n s i = Some c"
    using assms(5,6) by (auto simp: getUndoChange_def bind_Some_ex split: option.splits)
  have len: "i < length xs" using undo_scan_less [OF i(1)] by simp
  let ?ys = "take i xs" and ?a = "xs ! i" and ?zs = "drop (Suc i) xs"
  have xs: "xs = (?ys @ [?a]) @ ?zs" using id_take_nth_drop [OF len] by simp
  obtain x y where x: "foldM Strict v0 (map fst ?ys) = Some x" "Strict x (fst ?a) = Some y"
    "foldM Strict v0 (map fst (?ys @ [?a])) = Some y"
    using log_run_fold [OF assms(1)] unfolding arg_cong [OF xs, of "map fst"]
    by (auto simp: foldM_append bind_Some_ex)
  have wfx: "wf_val x" using foldM_Strict_wf [OF x(1) assms(2)] .
  have rest: "foldM Strict y (undo_simplify (map fst ?zs) (map snd ?zs)) = Some w"
    unfolding undo_simplify_def zip_map_fst_snd
    by (rule simplify_effect [OF _ x(3) assms(2)]) (use assms(1,3) xs in \<open>auto dest: in_set_dropD\<close>)
  have undo: "Strict y (Revert_opt (fst ?a)) = Some x"
    using Revert_opt_undoes [OF x(2) wfx] assms(3) len by simp
  obtain cx where m: "ChangeSet_Merge (cMerge n) (undo_simplify (map fst ?zs) (map snd ?zs)) (Revert_opt (fst ?a)) = Some (c, cx)"
    using i(2) len by (auto simp: undoAt_def assms(4,5) Let_def drop_map Revert_opt_def bind_Some_ex)
  have "converge w x c cx"
    by (rule cm.ChangeSet_Merge_conv [OF m Strict_wf [OF x(2) wfx] _ undo]) (use rest in simp)
  then obtain z where z: "Strict w c = Some z" "Strict x cx = Some z" by (auto simp: converge_def)
  have "z = x" if "undo_simplify (map fst ?zs) (map snd ?zs) = []"
    using m z(2) that by (simp add: ChangeSet_Merge_def ChangeSet_Simplify_def)
  then show ?thesis using len i(1) x(1,2) rest m z by blast
qed

section \<open>The stack over a stream\<close>

definition log_of :: "'s stack \<Rightarrow> (change option \<times> cType) list" where
  "log_of s = zip (schanges s) (stypes s)"

definition stack_wf :: "'s stack \<Rightarrow> bool" where
  "stack_wf s \<longleftrightarrow> length (schanges s) = length (stypes s)"

lemma log_of_fields: "stack_wf s \<Longrightarrow> map fst (log_of s) = schanges s \<and> map snd (log_of s) = stypes s"
  by (simp add: log_of_def stack_wf_def)

lemma pullChanges_stop: "Next S w (sbase s) = Some None \<Longrightarrow> pullChanges S w s t = Some s"
  by (simp add: pullChanges.simps)

context stream_family
begin

text \<open>Pulling: the log grows by the non-nil changes up to the end of the base stream.\<close>

lemma pullChanges_spec:
  "good w \<Longrightarrow> walk w (sbase s) v = Some (k, f) \<Longrightarrow> stack_wf s \<Longrightarrow>
     \<exists>s' cs. pullChanges S w s t = Some s' \<and> stack_wf s' \<and> log_of s' = log_of s @ map (\<lambda>c. (c, t)) cs
       \<and> foldM Strict v cs = Some f \<and> walk w (sbase s') f = Some (k, f) \<and> Next S w (sbase s') = Some None"
proof (induction "len w (sbase s)" arbitrary: s v rule: less_induct)
  case less
  consider (stop) "Next S w (sbase s) = Some None" | (step) b c where "Next S w (sbase s) = Some (Some (b, c))"
    using Next_ok [OF less.prems(1,2)] by (metis not_Some_eq surj_pair)
  then show ?case
  proof cases
    case stop
    then show ?thesis
      using Next_end [OF less.prems(1,2) stop] less.prems
      by (intro exI [of _ s] exI [of _ "[]"]) (simp add: pullChanges.simps)
  next
    case (step b c)
    let ?s = "if c \<noteq> None then s\<lparr>sbase := b, schanges := schanges s @ [c], stypes := stypes s @ [t]\<rparr> else s\<lparr>sbase := b\<rparr>"
    obtain u where u: "Strict v c = Some u" "walk w b u = Some (k, f)" "len w b < len w (sbase s)"
      using Next_step [OF less.prems(1,2) step] by blast
    have base: "sbase ?s = b" and wf: "stack_wf ?s" using less.prems(3) by (auto simp: stack_wf_def)
    obtain s' cs where *: "pullChanges S w ?s t = Some s'" "stack_wf s'" "log_of s' = log_of ?s @ map (\<lambda>c. (c, t)) cs"
      "foldM Strict u cs = Some f" "walk w (sbase s') f = Some (k, f)" "Next S w (sbase s') = Some None"
      using less.hyps [of ?s u] u(2,3) wf less.prems(1) unfolding base by blast
    have "pullChanges S w s t = Some s'" using *(1) step by (cases c) (simp_all add: pullChanges.simps [of S w s])
    moreover have "log_of s' = log_of s @ map (\<lambda>c. (c, t)) (if c = None then cs else c # cs)"
      using *(3) less.prems(3) by (auto simp: log_of_def stack_wf_def)
    moreover have "foldM Strict v (if c = None then cs else c # cs) = Some f" using u(1) *(4) by (cases c) auto
    ultimately show ?thesis using * by blast
  qed
qed

lemma log_run_pull:
  "log_run n v0 xs v \<Longrightarrow> foldM Strict v cs = Some f \<Longrightarrow> t = CLocal \<or> t = CUpstream \<Longrightarrow>
     log_run n v0 (xs @ map (\<lambda>c. (c, t)) cs) f"
proof (induction cs arbitrary: xs v)
  case (Cons c cs)
  then obtain u where "Strict v c = Some u" "foldM Strict u cs = Some f" by (auto simp: bind_Some_ex)
  then show ?case using Cons.IH [of "xs @ [(c, t)]" u] log_run.change [OF Cons.prems(1,3)] Cons.prems(3) by simp
qed simp

text \<open>
  Undo: with a change to undo, the log gets that change at its end, the base stream stands at
  the value it gives; with none, only the upstream changes are pulled.
\<close>

lemma stack_Undo_spec:
  assumes "stack_Undo n S w s = Some (w', s')" "good w" "walk w (sbase s) v = Some (k, f)" "stack_wf s"
    and "log_run n v0 (log_of s) v" "wf_val v0" "\<forall>e \<in> set (log_of s'). no_counter (fst e)"
  shows "good w' \<and> stack_wf s' \<and> (\<exists>s1 cs z k'. pullChanges S w s CUpstream = Some s1 \<and> log_of s1 = log_of s @ map (\<lambda>c. (c, CUpstream)) cs \<and> foldM Strict v cs = Some f
    \<and> (case undo_scan (rev (stypes s1)) 0 of
        None \<Rightarrow> w' = w \<and> log_of s' = log_of s1 \<and> z = f
      | Some i \<Rightarrow> (\<exists>c. undoAt n s1 i = Some c \<and> Strict f c = Some z \<and> log_of s' = log_of s1 @ (if c = None then [] else [(c, CUndo)])))
    \<and> log_run n v0 (log_of s') z \<and> walk w' (sbase s') z = Some (k', z)
    \<and> (\<forall>r x. walk w r x = Some (k, f) \<longrightarrow> walk w' r x = Some (k', z)))"
proof -
  obtain s1 cs where s1: "pullChanges S w s CUpstream = Some s1" "stack_wf s1"
    "log_of s1 = log_of s @ map (\<lambda>c. (c, CUpstream)) cs" "foldM Strict v cs = Some f"
    "walk w (sbase s1) f = Some (k, f)" "Next S w (sbase s1) = Some None"
    using pullChanges_spec [OF assms(2-4)] by blast
  have run: "log_run n v0 (log_of s1) f" using log_run_pull [OF assms(5) s1(4)] s1(3) by simp
  have wff: "wf_val f" using foldM_Strict_wf [OF log_run_fold [OF run] assms(6)] .
  note fields = log_of_fields [OF s1(2)]
  have types: "rev (map snd (log_of s1)) = rev (stypes s1)" using fields by simp
  show ?thesis
  proof (cases "undo_scan (rev (stypes s1)) 0")
    case None
    then have "w' = w" "s' = s1" using assms(1) s1(1) by (auto simp: stack_Undo_def withLock_def getUndoChange_def)
    then show ?thesis using run s1 assms(2) None by (intro conjI exI [of _ s1] exI [of _ cs] exI [of _ f] exI [of _ k]) simp_all
  next
    case (Some i)
    obtain c t where g: "undoAt n s1 i = Some c" and app: "Append S w (sbase s1) c = Some (w', t)" and p: "pullChanges S w' s1 CUndo = Some s'"
      using assms(1) s1(1) Some by (auto simp: stack_Undo_def withLock_def getUndoChange_def bind_Some_ex)
    have app': "(if False then ReverseAppend S else Append S) w (sbase s1) c = Some (w', t)" using app by simp
    have nx: "Next S w' (sbase s1) = Some (Some (t, c))" "Next S w' t = Some None"
      using Append_end [OF assms(2) s1(5,6) app'] by auto
    have s': "s' = (if c = None then s1\<lparr>sbase := t\<rparr>
        else s1\<lparr>sbase := t, schanges := schanges s1 @ [c], stypes := stypes s1 @ [CUndo]\<rparr>)"
      using p nx pullChanges_stop [of S w'] by (cases c) (simp_all add: pullChanges.simps [of S w' s1])
    have log: "log_of s' = log_of s1 @ (if c = None then [] else [(c, CUndo)])" "stack_wf s'" "sbase s' = t"
      using s1(2) unfolding s' by (auto simp: log_of_def stack_wf_def)
    then have "\<forall>e \<in> set (log_of s1). no_counter (fst e)" using assms(7) by auto
    moreover have "getUndoChange n s1 = Some (c, True)" using Some g by (simp add: getUndoChange_def)
    ultimately obtain z where z: "Strict f c = Some z"
      using getUndoChange_correct [OF run assms(6), of s1 c] fields by metis
    have u: "undoAt n \<lparr>sbase = (), schanges = map fst (log_of s1), stypes = map snd (log_of s1)\<rparr> i = Some c"
      using g fields by (simp add: undoAt_def)
    obtain k' f' where w': "good w'" "walk w' t z = Some (k', f')" "\<forall>r x. walk w r x = Some (k, f) \<longrightarrow> walk w' r x = Some (k', f')"
      using Append_law [OF assms(2) s1(5) wff z app'] by blast
    have fz: "f' = z" using Next_end [OF w'(1,2) nx(2)] .
    have "log_run n v0 (log_of s') z"
      using log_run.undo [OF run _ u z] run z Some log(1) types by (cases c) simp_all
    moreover have "\<forall>r x. walk w r x = Some (k, f) \<longrightarrow> walk w' r x = Some (k', z)" using w'(3) fz by simp
    moreover have "\<exists>c. undoAt n s1 i = Some c \<and> Strict f c = Some z \<and> log_of s' = log_of s1 @ (if c = None then [] else [(c, CUndo)])"
      using g z log(1) by blast
    ultimately show ?thesis
      using w'(1,2) fz log(2,3) s1(1,3,4) Some by (intro conjI exI [of _ s1] exI [of _ cs] exI [of _ z] exI [of _ k']) simp_all
  qed
qed

end

end
