(* ===== verification/Dot_Tracking.thy ===== *)
theory Dot_Tracking
  imports Dot_Fuel
begin

text \<open>
  References follow what they refer to. \<open>resolve v p\<close> is the element at a path; when a change
  is applied to the value and the path is merged with it, the new path leads to the old element
  with the scoped change applied. A caret stays inside its collection.

  \<open>refs.Merge\<close> passes over a Meta change as if it did not touch the path, so the tracking
  theorem is about changes without Meta.
\<close>

section \<open>Elements by path\<close>

fun resolve :: "val \<Rightarrow> key list \<Rightarrow> val option" where
  "resolve v [] = Some v"
| "resolve v (k # ks) = do { x \<leftarrow> vget v k; resolve x ks }"

lemma resolve_append: "resolve v (p @ q) = resolve v p \<bind> (\<lambda>x. resolve x q)"
  by (induction p arbitrary: v) (auto simp: Option.bind_assoc)

lemma resolve_path_strict:
  "path_strict f p v = Some w \<Longrightarrow> resolve v p = Some x \<Longrightarrow> \<exists>y. f x = Some y \<and> resolve w p = Some y"
proof (induction p arbitrary: v w)
  case (Cons k p)
  then obtain a b where "vget v k = Some a" "path_strict f p a = Some b" "vset v k b = Some w"
    by (auto simp: bind_Some_ex)
  then show ?case using Cons.IH [of a b] Cons.prems(2) vget_vset_same [of v k b w] by auto
qed simp

lemma path_strict_resolve: "path_strict f p v = Some w \<Longrightarrow> \<exists>x. resolve v p = Some x"
  by (induction p arbitrary: v w) (auto simp: bind_Some_ex)

text \<open>The prefix loop of \<open>refs.Merge\<close>.\<close>

lemma common_prefix_mismatch:
  "common_prefix p q = (n, True) \<Longrightarrow> path_strict f q v = Some w \<Longrightarrow> resolve w p = resolve v p"
proof (induction p q arbitrary: n v w rule: common_prefix.induct)
  case (1 a as b bs)
  obtain x y where x: "vget v b = Some x" "path_strict f bs x = Some y" "vset v b y = Some w"
    using 1(3) by (auto simp: bind_Some_ex)
  show ?case
  proof (cases "a = b")
    case True
    then show ?thesis
      using 1(1) [OF True _ x(2)] 1(2) x vget_vset_same [OF x(3)]
      by (auto split: prod.splits)
  next
    case False
    then show ?thesis using vget_vset_other [OF x(3) False] by simp
  qed
qed auto

lemma common_prefix_match:
  "common_prefix p q = (n, False) \<Longrightarrow> n \<le> length p \<and> take n p = take n q \<and> (n = length p \<or> n = length q)"
  by (induction p q arbitrary: n rule: common_prefix.induct) (auto split: prod.splits if_splits)

section \<open>Indices\<close>

lemma vget_index: "vget v (KInt i) = Some x \<Longrightarrow> v = VA a \<Longrightarrow>
  0 \<le> i \<and> i < int (length a) \<and> x = (case a ! nat i of Some y \<Rightarrow> y | None \<Rightarrow> VNil)"
  by (auto simp: A_get_def split: if_splits)

lemma Splice_MapIndex_get:
  assumes "strict (Splice s) v = Some w" "vget v (KInt i) = Some x" "Splice_MapIndex s i = (j, False)"
  shows "vget w (KInt j) = Some x"
  using assms(1)
proof (cases rule: strict_Splice_cases)
  case (arr a)
  then obtain b ins y where s: "sBefore s = CA b" "sAfter s = CA ins" "w = VA y"
    "list_splice (sOffset s) b ins a = Some y"
    using assms(1) by (auto split: if_splits coll.splits)
  then obtain p q where pq: "a = p @ b @ q" "y = p @ ins @ q" "sOffset s = int (length p)"
    by (auto simp: list_splice_Some_iff)
  have i: "0 \<le> i" "i < int (length a)" using vget_index [OF assms(2) arr] by auto
  consider "i < int (length p)" "j = i"
    | "int (length p) + int (length b) \<le> i" "j = i + int (length ins) - int (length b)"
    using assms(3) by (auto simp: Splice_MapIndex_def s(1,2) A_Count_def pq(3) split: if_splits)
  then show ?thesis
  proof cases
    case 1
    then show ?thesis using assms(2) arr i s(3) pq by (auto simp: A_get_def nth_append nat_less_iff)
  next
    case 2
    define m where "m = nat (i - int (length p) - int (length b))"
    have "nat i = length p + (length b + m)" "nat j = length p + (length ins + m)" "0 \<le> j" "j < int (length y)"
      using 2 i pq by (auto simp: m_def)
    then show ?thesis using assms(2) arr i s(3) pq by (simp add: A_get_def nth_append)
  qed
qed (use assms(2) in auto)

lemma Move_MapIndex_get:
  assumes "strict (Move m) v = Some w" "vget v (KInt i) = Some x"
  shows "vget w (KInt (Move_MapIndex m i)) = Some x"
  using assms(1)
proof (cases rule: strict_Move_cases)
  case (arr a)
  then obtain y where y: "w = VA y" "list_move (mOffset m) (mCount m) (mDistance m) a = Some y"
    using assms(1) by auto
  then obtain p b c q where pq: "a = p @ b @ c @ q" "y = p @ c @ b @ q"
    "mOffset m = int (length p) \<and> mCount m = int (length b) \<and> mDistance m = int (length c)
     \<or> mOffset m = int (length p) + int (length b) \<and> mCount m = int (length c) \<and> mDistance m = - int (length b)"
    by (auto simp: list_move_Some_iff)
  obtain k where k: "i = int k" "k < length a" using vget_index [OF assms(2) arr] zero_le_imp_eq_int [of i] by auto
  let ?j = "if k < length p then k else if k < length p + length b then k + length c
    else if k < length p + length b + length c then k - length b else k"
  have j: "Move_MapIndex m i = int ?j" using pq(3) unfolding k(1)
    by (elim disjE) (simp_all add: Move_MapIndex_def)
  have len: "length y = length a" using pq by simp
  have "?j < length a" using k(2) unfolding pq(1) by auto
  moreover have "y ! ?j = a ! k"
  proof -
    consider "k < length p" | d where "k = length p + d" "d < length b"
      | d where "k = length p + length b + d" "d < length c" | d where "k = length p + length b + length c + d"
      by (metis add.assoc add_less_cancel_left le_Suc_ex linorder_not_less)
    then show ?thesis unfolding pq(1,2) by cases (simp_all add: nth_append)
  qed
  ultimately show ?thesis using assms(2) arr k y(1) len unfolding j by (simp add: A_get_def)
qed (use assms(2) in auto)

section \<open>Tracking a path\<close>

function no_meta :: "change option \<Rightarrow> bool" where
  "no_meta None = True"
| "no_meta (Some (ChangeSet cs)) = list_all no_meta cs"
| "no_meta (Some (PathChange p c)) = no_meta c"
| "no_meta (Some (Meta d c)) = False"
| "no_meta (Some (Splice s)) = True"
| "no_meta (Some (Replace r)) = True"
| "no_meta (Some (Move m)) = True"
| "no_meta (Some (Run off n c)) = no_meta c"
| "no_meta (Some (Update k b a)) = True"
  by pat_completeness auto
termination
  by (relation "measure (size_option size)") (auto dest: size_change_mem)

lemma Strict_joinChanges: "Strict v (joinChanges a b) = Strict v a \<bind> (\<lambda>x. Strict x b)"
  by (auto simp del: strict.simps strict_compound simp: strict_compound(1) [abs_def] joinChanges_def foldM_append
      split: option.splits change.splits)

definition tracks :: "val \<Rightarrow> key list \<Rightarrow> val \<Rightarrow> merge_result \<Rightarrow> bool" where
  "tracks v p w r \<longleftrightarrow> (\<forall>x. resolve v p = Some x \<longrightarrow> (\<exists>y. resolve w (resP r) = Some y \<and> Strict x (Scoped r) = Some y))"

lemma tracks_join:
  "tracks v p u r \<Longrightarrow> tracks u (resP r) w q \<Longrightarrow> result_join r (Some q) = Some rq \<Longrightarrow> tracks v p w rq"
  by (fastforce simp: tracks_def result_join_def Strict_joinChanges bind_Some_ex)

lemma join_all_tracks:
  assumes "join_all refs_Merge r0 cs = Some (Some r)" "foldM Strict u cs = Some w" "tracks v p u r0"
    and "\<And>c q u w r. c \<in> set cs \<Longrightarrow> refs_Merge q c = Some (Some r) \<Longrightarrow> Strict u c = Some w \<Longrightarrow> tracks u q w r"
  shows "tracks v p w r"
  using assms
proof (induction cs arbitrary: r0 u)
  case (Cons c cs)
  obtain q r1 u1 where "refs_Merge (resP r0) c = Some (Some q)" "result_join r0 (Some q) = Some r1"
    and j: "join_all refs_Merge r1 cs = Some (Some r)" and u1: "Strict u c = Some u1" "foldM Strict u1 cs = Some w"
    using Cons.prems(1,2) by (auto simp: bind_Some_ex result_join_def split: option.splits)
  then have "tracks u (resP r0) u1 q" by (intro Cons.prems(4)) auto
  then have "tracks v p u1 r1" using tracks_join [OF Cons.prems(3)] \<open>result_join r0 (Some q) = Some r1\<close> by blast
  then show ?case by (rule Cons.IH [OF j u1(2)]) (rule Cons.prems(4), auto)
qed simp

lemma tracks_unaffected: "tracks v p v (unaffected p c)"
  by (simp add: tracks_def unaffected_def)

lemma tracks_path:
  assumes "refs_Merge p (Some (PathChange q cx)) = Some (Some r)" "path_strict (\<lambda>v. Strict v cx) q v = Some w" "p \<noteq> []"
    and IH: "\<And>p u w r. refs_Merge p cx = Some (Some r) \<Longrightarrow> Strict u cx = Some w \<Longrightarrow> tracks u p w r"
  shows "tracks v p w r"
proof -
  obtain n mis where cp: "common_prefix p q = (n, mis)" by fastforce
  consider (mis) "mis" | (inner) "\<not> mis" "n = length p" | (outer) "\<not> mis" "n \<noteq> length p" by blast
  then show ?thesis
  proof cases
    case mis
    then have "r = unaffected p (Some (PathChange q cx))"
      using assms(1,3) cp by (simp add: refs_Merge.simps [of p])
    then show ?thesis using common_prefix_mismatch [OF _ assms(2), of p n] cp mis
      by (auto simp: tracks_def unaffected_def)
  next
    case inner
    then have q: "q = p @ drop n q" and r: "resP r = p" "Scoped r = Some (PathChange (drop n q) cx)"
      using common_prefix_match [of p q n] cp assms(1,3) append_take_drop_id [of n q]
      by (auto simp: refs_Merge.simps [of p])
    have "path_strict (path_strict (\<lambda>v. Strict v cx) (drop n q)) p v = Some w"
      using assms(2) by (subst (asm) q) (simp add: path_strict_append)
    then show ?thesis using resolve_path_strict r by (force simp: tracks_def)
  next
    case outer
    then have q: "p = q @ drop n p" "take n p = q"
      using common_prefix_match [of p q n] cp append_take_drop_id [of n p] by (metis take_all_iff order_refl)+
    obtain r' where r': "refs_Merge (drop n p) cx = Some (Some r')" "resP r = q @ resP r'" "Scoped r = Scoped r'"
      using assms(1,3) cp outer q(2) by (auto simp: refs_Merge.simps [of p] bind_Some_ex result_Prefix_def)
    show ?thesis
      unfolding tracks_def
    proof (intro allI impI)
      fix x assume "resolve v p = Some x"
      then obtain y where y: "resolve v q = Some y" "resolve y (drop n p) = Some x"
        using resolve_append [of v q "drop n p"] unfolding q(1) [symmetric] by (auto simp: bind_Some_ex)
      then obtain z where "Strict y cx = Some z" "resolve w q = Some z"
        using resolve_path_strict [OF assms(2) y(1)] by auto
      moreover from this obtain x' where "resolve z (resP r') = Some x'" "Strict x (Scoped r') = Some x'"
        using IH [OF r'(1), of y z] y(2) unfolding tracks_def by blast
      ultimately show "\<exists>y. resolve w (resP r) = Some y \<and> Strict x (Scoped r) = Some y"
        using r'(2,3) by (simp add: resolve_append)
    qed
  qed
qed

lemma refs_Merge_tracks:
  "refs_Merge p c = Some (Some r) \<Longrightarrow> Strict v c = Some w \<Longrightarrow> no_meta c \<Longrightarrow> tracks v p w r"
proof (induction c arbitrary: p v w r rule: measure_induct_rule [of "size_option size"])
  case (less c)
  show ?case
  proof (cases "p = [] \<or> c = None")
    case True
    then show ?thesis
      using less.prems by (auto simp: refs_Merge.simps [of p] tracks_def unaffected_def split: if_splits)
  next
    case False
    then obtain k p' d where p: "p = k # p'" and c: "c = Some d" by (cases p) auto
    note [simp del] = strict.simps strict_compound
    show ?thesis
    proof (cases d)
      case (Splice s)
      then obtain i j where i: "k = KInt i" "Splice_MapIndex s i = (j, False)" "r = unaffected (KInt j # p') c"
        using less.prems(1) p c by (cases k) (auto simp: refs_Merge.simps [of "_ # _"] refs_mergeSplice_def key_int_def split: if_splits prod.splits)
      then show ?thesis
        using Splice_MapIndex_get [of s v w i _ j] less.prems(2) p c Splice by (fastforce simp: tracks_def unaffected_def bind_Some_ex)
    next
      case (Move m)
      then obtain i where i: "k = KInt i" "r = unaffected (KInt (Move_MapIndex m i) # p') c"
        using less.prems(1) p c by (cases k) (auto simp: refs_Merge.simps [of "_ # _"] refs_mergeMove_def key_int_def)
      then show ?thesis
        using Move_MapIndex_get [of m v w i] less.prems(2) p c Move by (fastforce simp: tracks_def unaffected_def bind_Some_ex)
    next
      case (ChangeSet cs)
      have f: "foldM Strict v cs = Some w" using less.prems(2) c ChangeSet by (simp add: strict_compound)
      have "join_all refs_Merge (unaffected p None) cs = Some (Some r)"
        using less.prems(1) p c ChangeSet by (simp add: refs_Merge.simps [of "_ # _"])
      then show ?thesis
      proof (rule join_all_tracks [OF _ f tracks_unaffected])
        fix e q u y r' assume "e \<in> set cs" "refs_Merge q e = Some (Some r')" "Strict u e = Some y"
        then show "tracks u q y r'"
          using less.IH [of e q r' u y] size_change_mem [of e cs] less.prems(3) c ChangeSet by (auto simp: list_all_iff)
      qed
    next
      case (PathChange q cx)
      then show ?thesis
        using tracks_path [of p q cx r v w] less.IH [of cx] less.prems p c by (simp add: strict_compound)
    qed (use less.prems p c in \<open>auto simp: refs_Merge.simps [of "_ # _"] strict.simps\<close>)
  qed
qed

section \<open>Carets\<close>

text \<open>A caret into a string: its index stays within the string the change made.\<close>

lemma updateMoveIndex_range:
  assumes "mv_ok n (mOffset m) (mCount m) (mDistance m)" "0 \<le> i" "i \<le> n"
  shows "0 \<le> updateMoveIndex l i m \<and> updateMoveIndex l i m \<le> n"
  using assms by (auto simp: updateMoveIndex_def Move_MapIndex_def mv_ok_def Let_def)

lemma Splice_MapIndex_range:
  assumes "strict (Splice s) (VS8 x) = Some w" "0 \<le> i" "i \<le> int (length x)"
  shows "\<exists>y. w = VS8 y \<and> 0 \<le> fst (Splice_MapIndex s i) \<and> fst (Splice_MapIndex s i) \<le> int (length y)
    \<and> (sOffset s = i \<longrightarrow> i \<le> int (length y))"
  using assms by (auto simp: Splice_MapIndex_def S8_Count_def list_splice_Some_iff split: if_splits coll.splits)

lemma foldM_lockstep:
  "foldM f a cs = Some a' \<Longrightarrow> foldM g b cs = Some b' \<Longrightarrow> R a b \<Longrightarrow>
    (\<And>c x y x' y'. c \<in> set cs \<Longrightarrow> R x y \<Longrightarrow> f x c = Some x' \<Longrightarrow> g y c = Some y' \<Longrightarrow> R x' y') \<Longrightarrow> R a' b'"
proof (induction cs arbitrary: a b)
  case (Cons c cs)
  obtain x y where x: "f a c = Some x" "foldM f x cs = Some a'" and y: "g b c = Some y" "foldM g y cs = Some b'"
    using Cons.prems(1,2) by (auto simp: bind_Some_ex)
  have "R x y" by (rule Cons.prems(4) [OF _ Cons.prems(3) x(1) y(1)]) simp
  then show ?case by (rule Cons.IH [OF x(2) y(2)]) (rule Cons.prems(4), auto)
qed simp

lemma updateIndex_range:
  "updateIndex l i c = Some j \<Longrightarrow> Strict (VS8 x) c = Some w \<Longrightarrow> no_meta c \<Longrightarrow> 0 \<le> i \<Longrightarrow> i \<le> int (length x) \<Longrightarrow>
     \<exists>y. w = VS8 y \<and> 0 \<le> j \<and> j \<le> int (length y)"
proof (induction c arbitrary: i x j w rule: measure_induct_rule [of "size_option size"])
  case (less c)
  note prems = less.prems
  show ?case
  proof (cases c)
    case None
    then show ?thesis using prems by (auto simp: updateIndex.simps)
  next
    case (Some d)
    show ?thesis
    proof (cases d)
      case (Splice s)
      then show ?thesis
        using Splice_MapIndex_range [of s x w i] prems Some
        by (auto simp: updateIndex.simps [of l i] simp del: strict.simps split: if_splits)
    next
      case (Move m)
      then obtain y where "w = VS8 y" "list_move (mOffset m) (mCount m) (mDistance m) x = Some y"
        using prems(2) Some by auto
      then have "w = VS8 y" "mv_ok (int (length x)) (mOffset m) (mCount m) (mDistance m)" "length y = length x"
        by (auto simp: list_move_def split: if_splits)
      then show ?thesis
        using updateMoveIndex_range [of "int (length x)" m i l] prems Some Move by (simp add: updateIndex.simps [of l i])
    next
      case (PathChange q cx)
      then have "q = []" using prems(2) Some by (cases q) auto
      then show ?thesis using less.IH [of cx i j x w] prems Some PathChange by (simp add: updateIndex.simps [of l i])
    next
      case (ChangeSet cs)
      then have "foldM (updateIndex l) i cs = Some j" "foldM Strict (VS8 x) cs = Some w"
        using prems Some by (simp_all add: updateIndex.simps [of l i])
      then show ?thesis
      proof (rule foldM_lockstep [of _ i _ j _ _ w "\<lambda>i v. \<exists>y. v = VS8 y \<and> 0 \<le> i \<and> i \<le> int (length y)"])
        fix e k u k' u'
        assume e: "e \<in> set cs" "\<exists>y. u = VS8 y \<and> 0 \<le> k \<and> k \<le> int (length y)"
          "updateIndex l k e = Some k'" "Strict u e = Some u'"
        have "no_meta e" using prems(3) Some ChangeSet e(1) by (auto simp: list_all_iff)
        then show "\<exists>y. u' = VS8 y \<and> 0 \<le> k' \<and> k' \<le> int (length y)"
          using less.IH [of e k k'] e size_change_mem [OF e(1)] Some ChangeSet by auto
      qed (use prems in simp)
    qed (use prems Some in \<open>auto simp: updateIndex.simps [of l i]\<close>)
  qed
qed

section \<open>Equality\<close>

text \<open>\<open>Equal\<close> decides equality of references.\<close>

lemma Path_Equal_eq: "Path_Equal p q \<longleftrightarrow> p = q"
  by (simp add: list.rel_eq) (metis)

lemma Ref_Equal_eq: "Ref_Equal a b \<longleftrightarrow> a = b"
  by (induction a b rule: Ref_Equal.induct) (auto simp: Path_Equal_eq Caret_Equal_def simp del: Path_Equal.simps intro: caret.equality)

end
