(* ===== verification/Dot_Substream.thy ===== *)
theory Dot_Substream
  imports Dot_Streams Dot_Tracking
begin

text \<open>
  Streams derived from a parent stream: \<open>streams/substream.go\<close>, which shows the changes of one
  element of the parent's value, and \<open>streams/transform.go\<close>, which rewrites changes on the
  way in and out. Both forward the other methods to the embedded parent; a nil parent panics.
\<close>

section \<open>Substreams\<close>

record 's substream =
  sub_parent :: "'s option"
  sub_ref :: ref

definition Substream :: "'s \<Rightarrow> key list \<Rightarrow> 's substream" where
  "Substream parent k = \<lparr>sub_parent = Some parent, sub_ref = RPath k\<rparr>"

definition substream_Next :: "('w, 's) Stream \<Rightarrow> 'w \<Rightarrow> 's substream
    \<Rightarrow> ('s substream \<times> change option) option option" where
  "substream_Next S w s =
     (if sub_ref s = InvalidRef then Some None
      else do {
        p \<leftarrow> sub_parent s;
        n \<leftarrow> Next S w p;
        (case n of
           None \<Rightarrow> Some None
         | Some (nxt, nextc) \<Rightarrow> do {
             (r, c) \<leftarrow> Ref_Merge (sub_ref s) nextc;
             Some (Some (\<lparr>sub_parent = if r = InvalidRef then None else Some nxt, sub_ref = r\<rparr>, c)) }) })"

definition substream_apply :: "('w, 's) Stream \<Rightarrow> 'w \<Rightarrow> 's substream \<Rightarrow> change option \<Rightarrow> bool
    \<Rightarrow> ('w \<times> 's substream) option" where
  "substream_apply S w s c reverse =
     (if sub_ref s = InvalidRef then Some (w, s)
      else do {
        path \<leftarrow> (case sub_ref s of RPath p \<Rightarrow> Some p | _ \<Rightarrow> None);
        p \<leftarrow> sub_parent s;
        (w, p) \<leftarrow> (if reverse then ReverseAppend S else Append S) w p (Some (PathChange path c));
        Some (w, \<lparr>sub_parent = Some p, sub_ref = sub_ref s\<rparr>) })"

definition substream_Append :: "('w, 's) Stream \<Rightarrow> 'w \<Rightarrow> 's substream \<Rightarrow> change option
    \<Rightarrow> ('w \<times> 's substream) option" where
  "substream_Append S w s c = substream_apply S w s c False"

definition substream_ReverseAppend :: "('w, 's) Stream \<Rightarrow> 'w \<Rightarrow> 's substream \<Rightarrow> change option
    \<Rightarrow> ('w \<times> 's substream) option" where
  "substream_ReverseAppend S w s c = substream_apply S w s c True"

definition substream_stream :: "('w, 's) Stream \<Rightarrow> ('w, 's substream) Stream" where
  "substream_stream S = \<lparr>Append = substream_Append S, ReverseAppend = substream_ReverseAppend S,
     Next = substream_Next S,
     Push = (\<lambda>w s. sub_parent s \<bind> Push S w), Pull = (\<lambda>w s. sub_parent s \<bind> Pull S w),
     Undo = (\<lambda>w s. sub_parent s \<bind> Undo S w), Redo = (\<lambda>w s. sub_parent s \<bind> Redo S w)\<rparr>"

section \<open>Transformed streams\<close>

text \<open>
  The functions given to \<open>Transform\<close> are optional and stay with every derived stream, so
  they are arguments of the methods here.
\<close>

type_synonym rewrite = "change option \<Rightarrow> change option"

definition transform_fn :: "rewrite option \<Rightarrow> rewrite" where
  "transform_fn f = (case f of None \<Rightarrow> (\<lambda>c. c) | Some g \<Rightarrow> g)"

definition transform_Next :: "('w, 's) Stream \<Rightarrow> rewrite \<Rightarrow> 'w \<Rightarrow> 's \<Rightarrow> ('s \<times> change option) option option" where
  "transform_Next S nx w s = do {
     n \<leftarrow> Next S w s;
     Some (case n of None \<Rightarrow> None | Some (nxt, nextc) \<Rightarrow> Some (nxt, nx nextc)) }"

definition transform_Append :: "('w, 's) Stream \<Rightarrow> rewrite \<Rightarrow> 'w \<Rightarrow> 's \<Rightarrow> change option \<Rightarrow> ('w \<times> 's) option" where
  "transform_Append S app w s c = (let c = app c in
     if c \<noteq> None then Append S w s c else Some (w, s))"

definition transform_ReverseAppend :: "('w, 's) Stream \<Rightarrow> 'w \<Rightarrow> 's \<Rightarrow> change option \<Rightarrow> ('w \<times> 's) option" where
  "transform_ReverseAppend S w s c = ReverseAppend S w s c"

definition Transform :: "('w, 's) Stream \<Rightarrow> rewrite option \<Rightarrow> rewrite option \<Rightarrow> ('w, 's) Stream" where
  "Transform S app nx = S\<lparr>Append := transform_Append S (transform_fn app),
     ReverseAppend := transform_ReverseAppend S, Next := transform_Next S (transform_fn nx)\<rparr>"

section \<open>A substream follows its element\<close>

lemma path_strict_defined:
  "resolve v p = Some x \<Longrightarrow> f x = Some y \<Longrightarrow> \<exists>w. path_strict f p v = Some w \<and> resolve w p = Some y"
proof (induction p arbitrary: v)
  case (Cons k p)
  then obtain a where a: "vget v k = Some a" "resolve a p = Some x" by (auto simp: bind_Some_ex)
  then obtain b where b: "path_strict f p a = Some b" "resolve b p = Some y" using Cons by blast
  obtain w where "vset v k b = Some w" using vset_defined [of v k b] a(1) by auto
  then show ?case using a b vget_vset_same [of v k b w] by simp
qed simp

context stream_family
begin

text \<open>The next change of a substream takes its element to the element of the next parent.\<close>

lemma substream_Next_tracks:
  assumes "substream_Next S w s = Some (Some (t, c))" "good w" "sub_parent s = Some p" "sub_ref s = RPath q"
    and "walk w p v = Some (k, f)" "resolve v q = Some x" "\<And>nx d. Next S w p = Some (Some (nx, d)) \<Longrightarrow> no_meta d"
  shows "sub_ref t = InvalidRef \<and> sub_parent t = None \<or> (\<exists>p' q' u y. sub_parent t = Some p' \<and> sub_ref t = RPath q'
    \<and> walk w p' u = Some (k, f) \<and> resolve u q' = Some y \<and> Strict x c = Some y)"
proof -
  obtain nx d r where n: "Next S w p = Some (Some (nx, d))" "Path_Merge q d = Some (r, c)"
    "t = \<lparr>sub_parent = if r = InvalidRef then None else Some nx, sub_ref = r\<rparr>"
    using assms(1,3,4) by (auto simp: substream_Next_def bind_Some_ex split: option.splits)
  obtain u where u: "Strict v d = Some u" "walk w nx u = Some (k, f)" using Next_step [OF assms(2,5) n(1)] by blast
  obtain m where m: "refs_Merge q d = Some m"
    "(case m of Some r \<Rightarrow> (RPath (resP r), Scoped r) | None \<Rightarrow> (InvalidRef, None)) = (r, c)"
    using n(2) by (auto simp: Path_Merge_def bind_Some_ex split: option.splits)
  show ?thesis
  proof (cases m)
    case (Some res)
    then have "tracks v q u res" using refs_Merge_tracks [OF _ u(1) assms(7) [OF n(1)]] m(1) by simp
    then show ?thesis using Some m(2) n(3) u(2) assms(6) by (auto simp: tracks_def)
  qed (use m n in auto)
qed

text \<open>A change of the element that fits it is a change of the parent that fits the parent.\<close>

lemma substream_apply_law:
  assumes "substream_apply S w s c bw = Some (w', t)" "good w" "sub_parent s = Some p" "sub_ref s = RPath q"
    and "walk w p v = Some (k, f)" "wf_val v" "resolve v q = Some x" "Strict x c = Some y"
  shows "good w' \<and> (\<exists>p' u k' f'. sub_parent t = Some p' \<and> sub_ref t = RPath q \<and> walk w' p' u = Some (k', f')
    \<and> resolve u q = Some y \<and> (\<forall>r z. walk w r z = Some (k, f) \<longrightarrow> walk w' r z = Some (k', f')))"
proof -
  obtain p' where a: "(if bw then ReverseAppend S else Append S) w p (Some (PathChange q c)) = Some (w', p')"
    and t: "t = \<lparr>sub_parent = Some p', sub_ref = RPath q\<rparr>"
    using assms(1,3,4) by (auto simp: substream_apply_def bind_Some_ex)
  obtain u where u: "path_strict (\<lambda>v. Strict v c) q v = Some u" "resolve u q = Some y"
    using path_strict_defined [OF assms(7), of "\<lambda>v. Strict v c"] assms(8) by auto
  then have "Strict v (Some (PathChange q c)) = Some u" by simp
  then show ?thesis using Append_law [OF assms(2,5,6) _ a] u(2) t by fastforce
qed

end

end
