(* ===== verification/Dot_Value_Streams.thy ===== *)
theory Dot_Value_Streams
  imports Dot_Streams Dot_Revert
begin

text \<open>
  The streams with a value: \<open>streams/bool.go\<close>, \<open>int.go\<close>, \<open>counter.go\<close>,
  \<open>s8.go\<close> and \<open>s16.go\<close>. They share the shape of \<open>Next\<close>, \<open>Latest\<close> and
  \<open>Update\<close>: the Go value is wrapped as a value of the changes package, a change is applied
  and a type assertion reads the result back. The wrapper and the assertion are the two
  arguments \<open>emb\<close> and \<open>prj\<close> of the shared definitions.
\<close>

section \<open>The shared methods\<close>

record ('s, 'v) value_stream =
  vs_stream :: "'s option"
  vs_value :: 'v

definition vs_Next :: "('v \<Rightarrow> val) \<Rightarrow> (val \<Rightarrow> 'v option) \<Rightarrow> ('w, 's) Stream \<Rightarrow> 'w \<Rightarrow> ('s, 'v) value_stream
    \<Rightarrow> (('s, 'v) value_stream \<times> change option) option option" where
  "vs_Next emb prj S w s = (case vs_stream s of
     None \<Rightarrow> Some None
   | Some st \<Rightarrow> do {
       n \<leftarrow> Next S w st;
       (case n of
          None \<Rightarrow> Some None
        | Some (nxt, nextc) \<Rightarrow> do {
            x \<leftarrow> Apply (emb (vs_value s)) nextc;
            Some (Some (case prj x of
                Some v \<Rightarrow> (\<lparr>vs_stream = Some nxt, vs_value = v\<rparr>, nextc)
              | None \<Rightarrow> (\<lparr>vs_stream = None, vs_value = vs_value s\<rparr>, None))) }) })"

partial_function (option) vs_Latest :: "('v \<Rightarrow> val) \<Rightarrow> (val \<Rightarrow> 'v option) \<Rightarrow> ('w, 's) Stream \<Rightarrow> 'w
    \<Rightarrow> ('s, 'v) value_stream \<Rightarrow> ('s, 'v) value_stream option" where
  "vs_Latest emb prj S w s = do {
     n \<leftarrow> vs_Next emb prj S w s;
     (case n of None \<Rightarrow> Some s | Some (nxt, c) \<Rightarrow> vs_Latest emb prj S w nxt) }"

declare vs_Latest.simps [code]

text \<open>The append at the end of every update; a nil stream is left alone by \<open>Update\<close> only.\<close>

definition vs_Update :: "('v \<Rightarrow> val) \<Rightarrow> ('w, 's) Stream \<Rightarrow> 'w \<Rightarrow> ('s, 'v) value_stream \<Rightarrow> 'v
    \<Rightarrow> ('w \<times> ('s, 'v) value_stream) option" where
  "vs_Update emb S w s v = (case vs_stream s of
     None \<Rightarrow> Some (w, s)
   | Some st \<Rightarrow> do {
       (w, nexts) \<leftarrow> Append S w st (Some (Replace \<lparr>rBefore = emb (vs_value s), rAfter = emb v\<rparr>));
       Some (w, \<lparr>vs_stream = Some nexts, vs_value = v\<rparr>) })"

definition vs_Append :: "('w, 's) Stream \<Rightarrow> 'w \<Rightarrow> ('s, 'v) value_stream \<Rightarrow> change \<Rightarrow> 'v
    \<Rightarrow> ('w \<times> ('s, 'v) value_stream) option" where
  "vs_Append S w s c v = do {
     st \<leftarrow> vs_stream s;
     (w, nexts) \<leftarrow> Append S w st (Some c);
     Some (w, \<lparr>vs_stream = Some nexts, vs_value = v\<rparr>) }"

section \<open>The five value types\<close>

definition bool_emb :: "bool \<Rightarrow> val" where "bool_emb b = VAtomic (KBool b)"

definition bool_prj :: "val \<Rightarrow> bool option" where
  "bool_prj x = (case x of VAtomic (KBool b) \<Rightarrow> Some b | _ \<Rightarrow> None)"

definition int_emb :: "int \<Rightarrow> val" where "int_emb i = VAtomic (KInt i)"

definition int_prj :: "val \<Rightarrow> int option" where
  "int_prj x = (case x of VAtomic (KInt i) \<Rightarrow> Some i | _ \<Rightarrow> None)"

definition counter_prj :: "val \<Rightarrow> 32 word option" where
  "counter_prj x = (case x of VColl (CCounter n) \<Rightarrow> Some n | _ \<Rightarrow> None)"

definition s8_prj :: "val \<Rightarrow> string option" where
  "s8_prj x = (case x of VColl (CS8 s) \<Rightarrow> Some s | _ \<Rightarrow> None)"

definition s16_prj :: "val \<Rightarrow> string option" where
  "s16_prj x = (case x of VColl (CS16 s) \<Rightarrow> Some s | _ \<Rightarrow> None)"

definition Bool_Next :: "('w, 's) Stream \<Rightarrow> 'w \<Rightarrow> ('s, bool) value_stream
    \<Rightarrow> (('s, bool) value_stream \<times> change option) option option" where
  "Bool_Next = vs_Next bool_emb bool_prj"

definition Bool_Latest :: "('w, 's) Stream \<Rightarrow> 'w \<Rightarrow> ('s, bool) value_stream \<Rightarrow> ('s, bool) value_stream option" where
  "Bool_Latest = vs_Latest bool_emb bool_prj"

definition Bool_Update :: "('w, 's) Stream \<Rightarrow> 'w \<Rightarrow> ('s, bool) value_stream \<Rightarrow> bool
    \<Rightarrow> ('w \<times> ('s, bool) value_stream) option" where
  "Bool_Update = vs_Update bool_emb"

definition Int_Next :: "('w, 's) Stream \<Rightarrow> 'w \<Rightarrow> ('s, int) value_stream
    \<Rightarrow> (('s, int) value_stream \<times> change option) option option" where
  "Int_Next = vs_Next int_emb int_prj"

definition Int_Latest :: "('w, 's) Stream \<Rightarrow> 'w \<Rightarrow> ('s, int) value_stream \<Rightarrow> ('s, int) value_stream option" where
  "Int_Latest = vs_Latest int_emb int_prj"

definition Int_Update :: "('w, 's) Stream \<Rightarrow> 'w \<Rightarrow> ('s, int) value_stream \<Rightarrow> int
    \<Rightarrow> ('w \<times> ('s, int) value_stream) option" where
  "Int_Update = vs_Update int_emb"

definition Counter_Next :: "('w, 's) Stream \<Rightarrow> 'w \<Rightarrow> ('s, 32 word) value_stream
    \<Rightarrow> (('s, 32 word) value_stream \<times> change option) option option" where
  "Counter_Next = vs_Next VCounter counter_prj"

definition Counter_Latest :: "('w, 's) Stream \<Rightarrow> 'w \<Rightarrow> ('s, 32 word) value_stream
    \<Rightarrow> ('s, 32 word) value_stream option" where
  "Counter_Latest = vs_Latest VCounter counter_prj"

definition Counter_Update :: "('w, 's) Stream \<Rightarrow> 'w \<Rightarrow> ('s, 32 word) value_stream \<Rightarrow> 32 word
    \<Rightarrow> ('w \<times> ('s, 32 word) value_stream) option" where
  "Counter_Update = vs_Update VCounter"

definition Counter_Increment :: "('w, 's) Stream \<Rightarrow> 'w \<Rightarrow> ('s, 32 word) value_stream \<Rightarrow> 32 word
    \<Rightarrow> ('w \<times> ('s, 32 word) value_stream) option" where
  "Counter_Increment S w c amount = (case vs_stream c of
     None \<Rightarrow> Some (w, c)
   | Some st \<Rightarrow> vs_Append S w c (Increment amount) (vs_value c + amount))"

definition S8_Next :: "('w, 's) Stream \<Rightarrow> 'w \<Rightarrow> ('s, string) value_stream
    \<Rightarrow> (('s, string) value_stream \<times> change option) option option" where
  "S8_Next = vs_Next VS8 s8_prj"

definition S8_Latest :: "('w, 's) Stream \<Rightarrow> 'w \<Rightarrow> ('s, string) value_stream \<Rightarrow> ('s, string) value_stream option" where
  "S8_Latest = vs_Latest VS8 s8_prj"

definition S8_Update :: "('w, 's) Stream \<Rightarrow> 'w \<Rightarrow> ('s, string) value_stream \<Rightarrow> string
    \<Rightarrow> ('w \<times> ('s, string) value_stream) option" where
  "S8_Update = vs_Update VS8"

definition S8_Splice :: "('w, 's) Stream \<Rightarrow> 'w \<Rightarrow> ('s, string) value_stream \<Rightarrow> int \<Rightarrow> int \<Rightarrow> string
    \<Rightarrow> ('w \<times> ('s, string) value_stream) option" where
  "S8_Splice S w s offset cnt ins = do {
     bef \<leftarrow> goslice (vs_value s) offset (offset + cnt);
     let c = Splice \<lparr>sOffset = offset, sBefore = CS8 bef, sAfter = CS8 ins\<rparr>;
     x \<leftarrow> Apply (VS8 (vs_value s)) (Some c);
     v \<leftarrow> s8_prj x;
     vs_Append S w s c v }"

definition S8_Move :: "('w, 's) Stream \<Rightarrow> 'w \<Rightarrow> ('s, string) value_stream \<Rightarrow> int \<Rightarrow> int \<Rightarrow> int
    \<Rightarrow> ('w \<times> ('s, string) value_stream) option" where
  "S8_Move S w s offset cnt distance = do {
     let cx = Move \<lparr>mOffset = offset, mCount = cnt, mDistance = distance\<rparr>;
     x \<leftarrow> Apply (VS8 (vs_value s)) (Some cx);
     v \<leftarrow> s8_prj x;
     vs_Append S w s cx v }"

definition S16_Next :: "('w, 's) Stream \<Rightarrow> 'w \<Rightarrow> ('s, string) value_stream
    \<Rightarrow> (('s, string) value_stream \<times> change option) option option" where
  "S16_Next = vs_Next VS16 s16_prj"

definition S16_Latest :: "('w, 's) Stream \<Rightarrow> 'w \<Rightarrow> ('s, string) value_stream \<Rightarrow> ('s, string) value_stream option" where
  "S16_Latest = vs_Latest VS16 s16_prj"

definition S16_Update :: "('w, 's) Stream \<Rightarrow> 'w \<Rightarrow> ('s, string) value_stream \<Rightarrow> string
    \<Rightarrow> ('w \<times> ('s, string) value_stream) option" where
  "S16_Update = vs_Update VS16"

definition S16_Splice :: "('w, 's) Stream \<Rightarrow> 'w \<Rightarrow> ('s, string) value_stream \<Rightarrow> int \<Rightarrow> int \<Rightarrow> string
    \<Rightarrow> ('w \<times> ('s, string) value_stream) option" where
  "S16_Splice S w s offset cnt ins = do {
     off \<leftarrow> ToUTF16 (vs_value s) offset;
     bef \<leftarrow> goslice (vs_value s) offset (offset + cnt);
     let c = Splice \<lparr>sOffset = off, sBefore = CS16 bef, sAfter = CS16 ins\<rparr>;
     x \<leftarrow> Apply (VS16 (vs_value s)) (Some c);
     v \<leftarrow> s16_prj x;
     vs_Append S w s c v }"

text \<open>The distance of \<open>S16.Move\<close> is computed from the count; the given distance is not used.\<close>

definition S16_Move :: "('w, 's) Stream \<Rightarrow> 'w \<Rightarrow> ('s, string) value_stream \<Rightarrow> int \<Rightarrow> int \<Rightarrow> int
    \<Rightarrow> ('w \<times> ('s, string) value_stream) option" where
  "S16_Move S w s offset cnt distance = do {
     off \<leftarrow> ToUTF16 (vs_value s) offset;
     c \<leftarrow> ToUTF16 (vs_value s) cnt;
     d \<leftarrow> ToUTF16 (vs_value s) cnt;
     let cx = Move \<lparr>mOffset = off, mCount = c, mDistance = d\<rparr>;
     x \<leftarrow> Apply (VS16 (vs_value s)) (Some cx);
     v \<leftarrow> s16_prj x;
     vs_Append S w s cx v }"

section \<open>A value stream holds the value of its stream\<close>

locale value_family = stream_family S good walk len
  for S :: "('w, 's) Stream" and good and walk :: "'w \<Rightarrow> 's \<Rightarrow> val \<Rightarrow> ('k \<times> val) option" and len +
  fixes emb :: "'v \<Rightarrow> val" and prj :: "val \<Rightarrow> 'v option"
  assumes prj_iff: "prj x = Some v \<longleftrightarrow> x = emb v"
    and emb_wf: "wf_val (emb v)" and emb_not_Nil: "emb v \<noteq> VNil"
begin

text \<open>While it is attached, the stream stands at the value held.\<close>

definition holds :: "'w \<Rightarrow> 'k \<times> val \<Rightarrow> ('s, 'v) value_stream \<Rightarrow> bool" where
  "holds w kf s \<longleftrightarrow> (\<forall>st. vs_stream s = Some st \<longrightarrow> walk w st (emb (vs_value s)) = Some kf)"

lemma vs_Next_holds:
  assumes "good w" "holds w (k, f) s" "vs_Next emb prj S w s = Some (Some (t, c))"
  shows "holds w (k, f) t"
    and "\<And>st. vs_stream t = Some st \<Longrightarrow> \<exists>s0. vs_stream s = Some s0 \<and> len w st < len w s0"
    and "vs_stream t = None \<Longrightarrow> vs_Next emb prj S w t = Some None"
proof -
  obtain st nx d x where n: "vs_stream s = Some st" "Next S w st = Some (Some (nx, d))"
    "Apply (emb (vs_value s)) d = Some x"
    "(t, c) = (case prj x of Some v \<Rightarrow> (\<lparr>vs_stream = Some nx, vs_value = v\<rparr>, d)
       | None \<Rightarrow> (\<lparr>vs_stream = None, vs_value = vs_value s\<rparr>, None))"
    using assms(3) by (auto simp: vs_Next_def bind_Some_ex split: option.splits)
  have "walk w st (emb (vs_value s)) = Some (k, f)" using assms(2) n(1) by (simp add: holds_def)
  then obtain u where u: "Strict (emb (vs_value s)) d = Some u" "walk w nx u = Some (k, f)" "len w nx < len w st"
    using Next_step [OF assms(1) _ n(2)] by blast
  have "u = x" using Strict_Apply [OF u(1)] n(3) by simp
  then show "holds w (k, f) t" using u n(4) prj_iff by (auto simp: holds_def split: option.splits)
  show "\<And>st. vs_stream t = Some st \<Longrightarrow> \<exists>s0. vs_stream s = Some s0 \<and> len w st < len w s0"
    using n u(3) by (auto split: option.splits)
  show "vs_stream t = None \<Longrightarrow> vs_Next emb prj S w t = Some None"
    by (simp add: vs_Next_def)
qed

lemma vs_Next_returns:
  assumes "good w" "holds w (k, f) s"
  shows "vs_Next emb prj S w s \<noteq> None"
proof (cases "vs_stream s")
  case (Some st)
  then have walk: "walk w st (emb (vs_value s)) = Some (k, f)" using assms(2) by (simp add: holds_def)
  then show ?thesis
    using Next_ok [OF assms(1) walk] Next_step [OF assms(1) walk] Strict_Apply Some
    by (fastforce simp: vs_Next_def split: option.splits)
qed (simp add: vs_Next_def)

text \<open>
  \<open>Latest\<close> returns, and the value it returns is the value of the family unless the stream
  was detached by a value of another type.
\<close>

lemma vs_Latest_value:
  assumes "good w" "holds w (k, f) s"
  shows "\<exists>t. vs_Latest emb prj S w s = Some t \<and> holds w (k, f) t \<and> (vs_stream t \<noteq> None \<longrightarrow> emb (vs_value t) = f)"
  using assms(2)
proof (induction "case vs_stream s of None \<Rightarrow> 0 | Some st \<Rightarrow> Suc (len w st)" arbitrary: s rule: less_induct)
  case less
  show ?case
  proof (cases "the (vs_Next emb prj S w s)")
    case None
    then have n: "vs_Next emb prj S w s = Some None" using vs_Next_returns [OF assms(1) less.prems] by auto
    have "emb (vs_value s) = f" if "vs_stream s = Some st" for st
    proof -
      have "Next S w st = Some None"
        using n that by (auto simp: vs_Next_def bind_Some_ex split: option.splits) (metis option.exhaust surj_pair)
      then show ?thesis using Next_end [OF assms(1)] less.prems that by (auto simp: holds_def)
    qed
    then show ?thesis using n less.prems by (auto simp: vs_Latest.simps)
  next
    case (Some tc)
    obtain t c where n: "vs_Next emb prj S w s = Some (Some (t, c))"
      using vs_Next_returns [OF assms(1) less.prems] Some by (cases tc) auto
    note t = vs_Next_holds [OF assms(1) less.prems n]
    have "(case vs_stream t of None \<Rightarrow> 0 | Some st \<Rightarrow> Suc (len w st)) < (case vs_stream s of None \<Rightarrow> 0 | Some st \<Rightarrow> Suc (len w st))"
      using t(2) n by (cases "vs_stream s"; cases "vs_stream t") (auto simp: vs_Next_def)
    then show ?thesis using less.hyps [OF _ t(1)] n by (simp add: vs_Latest.simps [of emb prj S w s])
  qed
qed

text \<open>An update keeps every value stream of the family attached to the family.\<close>

lemma vs_Append_holds:
  assumes "vs_Append S w s c v = Some (w', t)" "good w" "holds w (k, f) s" "strict c (emb (vs_value s)) = Some (emb v)"
  shows "good w' \<and> vs_value t = v \<and> (\<exists>kf. holds w' kf t \<and> (\<forall>r. holds w (k, f) r \<longrightarrow> holds w' kf r))"
proof -
  obtain st nx where n: "vs_stream s = Some st" "Append S w st (Some c) = Some (w', nx)"
    "t = \<lparr>vs_stream = Some nx, vs_value = v\<rparr>"
    using assms(1) by (auto simp: vs_Append_def bind_Some_ex)
  have walk: "walk w st (emb (vs_value s)) = Some (k, f)" using assms(3) n(1) by (simp add: holds_def)
  have a: "(if False then ReverseAppend S else Append S) w st (Some c) = Some (w', nx)" using n(2) by simp
  have c: "Strict (emb (vs_value s)) (Some c) = Some (emb v)" using assms(4) by simp
  obtain k' f' where "good w'" "walk w' nx (emb v) = Some (k', f')"
    "\<And>r x. walk w r x = Some (k, f) \<Longrightarrow> walk w' r x = Some (k', f')"
    using Append_law [OF assms(2) walk emb_wf c a] by blast
  then show ?thesis using n(3) unfolding holds_def by (intro conjI exI [of _ "(k', f')"]) auto
qed

lemma vs_Update_holds:
  assumes "vs_Update emb S w s v = Some (w', t)" "good w" "holds w (k, f) s" "vs_stream s \<noteq> None"
  shows "good w' \<and> vs_value t = v \<and> (\<exists>kf. holds w' kf t \<and> (\<forall>r. holds w (k, f) r \<longrightarrow> holds w' kf r))"
  using assms(1,4)
  by (intro vs_Append_holds [OF _ assms(2,3), of "Replace \<lparr>rBefore = emb (vs_value s), rAfter = emb v\<rparr>"])
    (auto simp: vs_Update_def vs_Append_def emb_wf emb_not_Nil)

end

interpretation bool_stream: value_family "plain n" heap_ok chase "\<lambda>h a. length h - a" bool_emb bool_prj for n
  by unfold_locales (auto simp: bool_emb_def bool_prj_def split: val.splits key.splits)

interpretation int_stream: value_family "plain n" heap_ok chase "\<lambda>h a. length h - a" int_emb int_prj for n
  by unfold_locales (auto simp: int_emb_def int_prj_def split: val.splits key.splits)

interpretation counter_stream: value_family "plain n" heap_ok chase "\<lambda>h a. length h - a" VCounter counter_prj for n
  by unfold_locales (auto simp: counter_prj_def split: val.splits coll.splits)

interpretation s8_stream: value_family "plain n" heap_ok chase "\<lambda>h a. length h - a" VS8 s8_prj for n
  by unfold_locales (auto simp: s8_prj_def split: val.splits coll.splits)

interpretation s16_stream: value_family "plain n" heap_ok chase "\<lambda>h a. length h - a" VS16 s16_prj for n
  by unfold_locales (auto simp: s16_prj_def split: val.splits coll.splits)

section \<open>Editing a string stream\<close>

lemma goslice_split:
  assumes "goslice x i j = Some b"
  shows "x = take (nat i) x @ b @ drop (nat j) x" "i = int (length (take (nat i) x))" "j = i + int (length b)"
proof -
  have "0 \<le> i" "i \<le> j" "j \<le> int (length x)" "b = take (nat (j - i)) (drop (nat i) x)"
    using assms by (auto simp: goslice_Some_iff)
  moreover have "nat j = nat i + nat (j - i)" using calculation by simp
  ultimately show "x = take (nat i) x @ b @ drop (nat j) x" "i = int (length (take (nat i) x))"
    "j = i + int (length b)"
    by (auto simp: take_add [symmetric] simp flip: append_assoc)
qed

lemma S8_Splice_spec:
  assumes "S8_Splice S w s offset cnt ins = Some (w', t)"
  shows "\<exists>c. vs_Append S w s c (vs_value t) = Some (w', t) \<and> strict c (VS8 (vs_value s)) = Some (VS8 (vs_value t))
    \<and> vs_value t = take (nat offset) (vs_value s) @ ins @ drop (nat (offset + cnt)) (vs_value s)"
proof -
  let ?x = "vs_value s"
  obtain b where b: "goslice ?x offset (offset + cnt) = Some b" using assms by (auto simp: S8_Splice_def bind_Some_ex)
  let ?c = "Splice \<lparr>sOffset = offset, sBefore = CS8 b, sAfter = CS8 ins\<rparr>"
  let ?y = "take (nat offset) ?x @ ins @ drop (nat (offset + cnt)) ?x"
  have st: "strict ?c (VS8 ?x) = Some (VS8 ?y)"
    using goslice_split [OF b] list_splice_append [of "take (nat offset) ?x" b ins "drop (nat (offset + cnt)) ?x"] by simp
  then have "vs_Append S w s ?c ?y = Some (w', t)"
    using assms b strict_apply [OF st] by (simp add: S8_Splice_def s8_prj_def del: strict.simps apply_change.simps)
  moreover from this have "vs_value t = ?y" by (auto simp: vs_Append_def bind_Some_ex)
  ultimately show ?thesis using st by auto
qed

text \<open>A move that the string accepts is a move within range.\<close>

lemma S8_move_in_range: "S8_move x m = Some y \<Longrightarrow> list_move (mOffset m) (mCount m) (mDistance m) x = Some y"
proof -
  assume "S8_move x m = Some y"
  then have ok: "mv_ok (int (length x)) (mOffset m) (mCount m) (mDistance m)"
    by (auto simp: S8_move_def exchange_def Normalize_def mv_ok_def Let_def bind_Some_ex goslice_Some_iff split: if_splits)
  then obtain z where "list_move (mOffset m) (mCount m) (mDistance m) x = Some z" by (simp add: list_move_def)
  then show ?thesis using S8_move_list_move [of m x z] \<open>S8_move x m = Some y\<close> by simp
qed

lemma S8_Move_spec:
  assumes "S8_Move S w s offset cnt dist = Some (w', t)"
  shows "\<exists>c. vs_Append S w s c (vs_value t) = Some (w', t) \<and> strict c (VS8 (vs_value s)) = Some (VS8 (vs_value t))"
proof -
  let ?c = "Move \<lparr>mOffset = offset, mCount = cnt, mDistance = dist\<rparr>"
  obtain y where y: "S8_move (vs_value s) \<lparr>mOffset = offset, mCount = cnt, mDistance = dist\<rparr> = Some y"
    "vs_Append S w s ?c y = Some (w', t)"
    using assms by (auto simp: S8_Move_def bind_Some_ex s8_prj_def)
  then have "strict ?c (VS8 (vs_value s)) = Some (VS8 y)" using S8_move_in_range [OF y(1)] by simp
  moreover have "vs_value t = y" using y(2) by (auto simp: vs_Append_def bind_Some_ex)
  ultimately show ?thesis using y(2) by auto
qed

end
