(* ===== verification/Stream_Properties.thy ===== *)
theory Stream_Properties
  imports Dot_Branch Dot_Undo Dot_Substream Dot_Value_Streams
begin

text \<open>
  What package \<open>streams\<close> and its subpackage \<open>undo\<close> promise, for the linked list and
  the streams built on it: convergence of a family, of a branch and its upstream, of substreams
  and of value streams, and the behaviour of Undo.
\<close>

section \<open>Families of streams\<close>

text \<open>
  C3. Appending a change to a stream, or appending it in reverse, keeps the whole family of the
  stream convergent: the new stream stands at the changed value, and every stream that led to the
  family's value before leads, with the new one, to one common value after.
\<close>

theorem append_converges:
  assumes "(if reverse then stream_ReverseAppend n h s c else stream_Append n h s c) = Some (h', r)"
    and "heap_ok h" "chase h s v = Some (t, f)" "wf_val v" "Strict v c = Some u"
  shows "heap_ok h' \<and> (\<exists>t' f'. chase h' r u = Some (t', f') \<and>
    (\<forall>a x. chase h a x = Some (t, f) \<longrightarrow> chase h' a x = Some (t', f')))"
proof -
  have a: "stream_apply n h s c reverse = Some (h', r)"
    using assms(1) by (simp add: stream_Append_def stream_ReverseAppend_def split: if_splits)
  show ?thesis using stream_apply_spec [OF a assms(2-5)] by blast
qed

abbreviation ins8 :: "int \<Rightarrow> string \<Rightarrow> change option" where
  "ins8 i s \<equiv> Some (Splice \<lparr>sOffset = i, sBefore = CS8 '''', sAfter = CS8 s\<rparr>)"

abbreviation del8 :: "int \<Rightarrow> string \<Rightarrow> change option" where
  "del8 i s \<equiv> Some (Splice \<lparr>sOffset = i, sBefore = CS8 s, sAfter = CS8 ''''\<rparr>)"

lemmas splice_evals = list_splice_def in_range_def splice_list_def slice_list_def

definition ex_heap :: heap where
  "ex_heap = [\<lparr>nChange = ins8 0 ''ab'', nNext = Some 1\<rparr>, empty_node]"

definition ex_heap2 :: heap where
  "ex_heap2 = [\<lparr>nChange = ins8 0 ''ab'', nNext = Some 1\<rparr>, \<lparr>nChange = ins8 2 ''x'', nNext = Some 3\<rparr>,
     \<lparr>nChange = ins8 0 ''ab'', nNext = Some 3\<rparr>, empty_node]"

lemma ex_append: "stream_Append 1 ex_heap 0 (ins8 0 ''x'') = Some (ex_heap2, 2)"
  by code_simp

lemma ex_heap_chase: "heap_ok ex_heap" "chase ex_heap 0 (VS8 '''') = Some (1, VS8 ''ab'')"
  by (auto simp: heap_ok_def ex_heap_def less_Suc_eq chase.simps splice_evals)

theorem append_converges_witness:
  "heap_ok ex_heap2 \<and> (\<exists>t' f'. chase ex_heap2 2 (VS8 ''x'') = Some (t', f') \<and> chase ex_heap2 0 (VS8 '''') = Some (t', f'))"
proof -
  have c: "Strict (VS8 '''') (ins8 0 ''x'') = Some (VS8 ''x'')" by (simp add: splice_evals)
  show ?thesis
    using append_converges [of False 1 ex_heap 0 _ ex_heap2 2, OF _ ex_heap_chase _ c] ex_append ex_heap_chase(2) by auto
qed

text \<open>
  C4. \<open>Latest\<close> returns on every stream, and two streams of one family that follow their
  changes to the end arrive at the same node with the same value.
\<close>

theorem latest_converges:
  assumes "heap_ok h" "chase h a u = Some (t, f)" "chase h b v = Some (t, f)" "wf_val u" "wf_val v"
  shows "\<exists>c d. Latest (plain n) h a = Some (t, c) \<and> Latest (plain n) h b = Some (t, d)
    \<and> Apply u c = Some f \<and> Apply v d = Some f"
proof -
  have latest: "\<exists>c. Latest (plain n) h s = Some (t, c) \<and> Apply x c = Some f"
    if x: "chase h s x = Some (t, f)" "wf_val x" for s x
  proof -
    obtain s' c where l: "Latest (plain n) h s = Some (s', c)" "Strict x c = Some f" "chase h s' f = Some (t, f)"
      "Next (plain n) h s' = Some None"
      using list.Latest_value [OF assms(1) x] by blast
    then show ?thesis using chase_Next(1) [OF l(3)] Strict_Apply by (auto simp: plain_def)
  qed
  show ?thesis using latest [OF assms(2,4)] latest [OF assms(3,5)] by blast
qed

theorem latest_converges_witness:
  "\<exists>c d. Latest (plain 1) ex_heap2 0 = Some (3, c) \<and> Latest (plain 1) ex_heap2 2 = Some (3, d)
    \<and> Apply (VS8 '''') c = Some (VS8 ''abx'') \<and> Apply (VS8 ''x'') d = Some (VS8 ''abx'')"
  by (rule latest_converges)
    (auto simp: heap_ok_def ex_heap2_def less_Suc_eq chase.simps splice_evals)

section \<open>Branches\<close>

text \<open>
  C5. A branch whose two ends stand at one value is level with its upstream after a Push and a
  Pull: all streams of the upstream family and all streams of the branch lead to one value.
\<close>

theorem branch_push_pull:
  assumes "Push (branch n (plain n)) w (i, a) = Some (w1, e1)" "Pull (branch n (plain n)) w1 (i, a) = Some (w2, e2)"
    and "i < length (infos w)" "\<not> merging (infos w ! i)" "heap_ok (upw w)" "heap_ok (dheap w)" "wf_val v"
    and "chase (upw w) (bup (infos w ! i)) v = Some (k, g)" "chase (dheap w) (bdown (infos w ! i)) v = Some (j, f)"
  shows "e1 = None \<and> e2 = None \<and> (\<exists>z k' j'.
     (\<forall>r x. chase (upw w) r x = Some (k, g) \<longrightarrow> chase (upw w2) r x = Some (k', z)) \<and>
     (\<forall>r x. chase (dheap w) r x = Some (j, f) \<longrightarrow> chase (dheap w2) r x = Some (j', z)))"
proof -
  have p: "branchInfo_push n (plain n) w i = Some w1" "branchInfo_pull n (plain n) w1 i = Some w2" "e1 = None" "e2 = None"
    using assms(1,2) by (auto simp: branch_def bind_Some_ex)
  have "list.level w i v" using assms(3-9) by (simp add: list.level_def)
  then show ?thesis using list.push_pull [OF p(1,2) _ assms(8,9)] p(3,4) by blast
qed

definition ex_world :: "(heap, nat) branch_world" where
  "ex_world = \<lparr>upw = [\<lparr>nChange = ins8 0 ''a'', nNext = Some 1\<rparr>, empty_node],
     dheap = [\<lparr>nChange = ins8 0 ''b'', nNext = Some 1\<rparr>, empty_node],
     infos = [\<lparr>bup = 0, bdown = 0, merging = False\<rparr>]\<rparr>"

definition ex_world1 :: "(heap, nat) branch_world" where
  "ex_world1 = \<lparr>upw = [\<lparr>nChange = ins8 0 ''a'', nNext = Some 1\<rparr>, \<lparr>nChange = ins8 1 ''b'', nNext = Some 3\<rparr>,
       \<lparr>nChange = ins8 0 ''a'', nNext = Some 3\<rparr>, empty_node],
     dheap = [\<lparr>nChange = ins8 0 ''b'', nNext = Some 1\<rparr>, empty_node],
     infos = [\<lparr>bup = 2, bdown = 1, merging = False\<rparr>]\<rparr>"

definition ex_world2 :: "(heap, nat) branch_world" where
  "ex_world2 = \<lparr>upw = upw ex_world1,
     dheap = [\<lparr>nChange = ins8 0 ''b'', nNext = Some 1\<rparr>, \<lparr>nChange = ins8 0 ''a'', nNext = Some 2\<rparr>, empty_node],
     infos = [\<lparr>bup = 3, bdown = 2, merging = False\<rparr>]\<rparr>"

lemma ex_push: "Push (branch 1 (plain 1)) ex_world (0, 0) = Some (ex_world1, None)"
  by code_simp

lemma ex_pull: "Pull (branch 1 (plain 1)) ex_world1 (0, 0) = Some (ex_world2, None)"
  by code_simp

theorem branch_push_pull_witness:
  "\<exists>z k' j'. chase (upw ex_world2) 0 (VS8 '''') = Some (k', z) \<and> chase (dheap ex_world2) 0 (VS8 '''') = Some (j', z)"
proof -
  have "chase (upw ex_world) 0 (VS8 '''') = Some (1, VS8 ''a'')" "chase (dheap ex_world) 0 (VS8 '''') = Some (1, VS8 ''b'')"
    by (simp_all add: ex_world_def chase.simps splice_evals)
  then show ?thesis
    using branch_push_pull [OF ex_push ex_pull, of "VS8 ''''" 1 "VS8 ''a''" 1 "VS8 ''b''"]
    by (simp add: ex_world_def heap_ok_def less_Suc_eq) blast
qed

section \<open>Substreams\<close>

text \<open>
  C36. A substream follows its element: when the parent stands at a value whose element at the path
  is \<open>x\<close>, the next change of the substream fits \<open>x\<close> and gives the element that the
  next parent value has at the updated path, unless the substream has become invalid. The change of
  the parent must not be, or hold, a \<open>Meta\<close> change: those are taken not to touch the path.
\<close>

theorem substream_follows:
  assumes "substream_Next (plain n) h s = Some (Some (t, c))" "heap_ok h" "sub_parent s = Some p" "sub_ref s = RPath q"
    and "chase h p v = Some (k, f)" "resolve v q = Some x" "no_meta (nChange (h ! p))"
  shows "sub_ref t = InvalidRef \<and> sub_parent t = None \<or> (\<exists>p' q' u y. sub_parent t = Some p' \<and> sub_ref t = RPath q'
    \<and> chase h p' u = Some (k, f) \<and> resolve u q' = Some y \<and> Apply x c = Some y)"
proof -
  have "no_meta d" if "Next (plain n) h p = Some (Some (nx, d))" for nx d
    using that assms(7) by (auto simp: plain_def stream_Next_def split: option.splits)
  then show ?thesis using list.substream_Next_tracks [OF assms(1-6)] Strict_Apply by blast
qed

definition ex_array :: heap where
  "ex_array = [\<lparr>nChange = Some (Splice \<lparr>sOffset = 0, sBefore = CA [], sAfter = CA [Some (VS8 ''new'')]\<rparr>), nNext = Some 1\<rparr>,
     empty_node]"

theorem substream_follows_witness:
  "\<exists>u y. chase ex_array 1 u = Some (1, VA [Some (VS8 ''new''), Some (VS8 ''old'')])
     \<and> resolve u [KInt 1] = Some y \<and> Apply (VS8 ''old'') None = Some y"
proof -
  have n: "substream_Next (plain 1) ex_array (Substream 0 [KInt 0])
      = Some (Some (\<lparr>sub_parent = Some 1, sub_ref = RPath [KInt 1]\<rparr>, None))"
    by (simp add: substream_Next_def Substream_def plain_def stream_Next_def ex_array_def Path_Merge_def refs_Merge.simps
        refs_mergeSplice_def key_int_def Splice_MapIndex_def A_Count_def unaffected_def)
  have c: "chase ex_array 0 (VA [Some (VS8 ''old'')]) = Some (1, VA [Some (VS8 ''new''), Some (VS8 ''old'')])"
    by (simp add: ex_array_def chase.simps splice_evals)
  have ok: "heap_ok ex_array" by (auto simp: heap_ok_def ex_array_def less_Suc_eq)
  show ?thesis
    using substream_follows [OF n ok _ _ c, of "[KInt 0]" "VS8 ''old''"]
    by (auto simp: Substream_def ex_array_def A_get_def)
qed

section \<open>Value streams\<close>

text \<open>
  Editing a string stream: \<open>S8.Splice\<close> replaces the given range, the stream it returns
  holds the new string, and it stays attached with every other string stream of the family: after
  \<open>Latest\<close>, which returns, all of them hold the same string as long as they are attached.
\<close>

theorem s8_splice_converges:
  assumes "S8_Splice (plain n) h s offset cnt ins = Some (h', t)" "heap_ok h"
    and "vs_stream s = Some a" "chase h a (VS8 (vs_value s)) = Some (k, f)"
    and "vs_stream r = Some b" "chase h b (VS8 (vs_value r)) = Some (k, f)"
  shows "vs_value t = take (nat offset) (vs_value s) @ ins @ drop (nat (offset + cnt)) (vs_value s) \<and>
    (\<exists>tx rx. S8_Latest (plain n) h' t = Some tx \<and> S8_Latest (plain n) h' r = Some rx \<and>
      (vs_stream tx \<noteq> None \<and> vs_stream rx \<noteq> None \<longrightarrow> vs_value tx = vs_value rx))"
proof -
  obtain c where c: "vs_Append (plain n) h s c (vs_value t) = Some (h', t)"
    "strict c (VS8 (vs_value s)) = Some (VS8 (vs_value t))"
    "vs_value t = take (nat offset) (vs_value s) @ ins @ drop (nat (offset + cnt)) (vs_value s)"
    using S8_Splice_spec [OF assms(1)] by blast
  have h: "s8_stream.holds h (k, f) s" "s8_stream.holds h (k, f) r"
    using assms(3-6) by (simp_all add: s8_stream.holds_def)
  obtain k' f' where h': "heap_ok h'" "s8_stream.holds h' (k', f') t" "s8_stream.holds h' (k', f') r"
    using s8_stream.vs_Append_holds [OF c(1) assms(2) h(1) c(2)] h(2) by (metis surj_pair)
  obtain tx rx where "S8_Latest (plain n) h' t = Some tx" "vs_stream tx \<noteq> None \<longrightarrow> VS8 (vs_value tx) = f'"
    "S8_Latest (plain n) h' r = Some rx" "vs_stream rx \<noteq> None \<longrightarrow> VS8 (vs_value rx) = f'"
    using s8_stream.vs_Latest_value [OF h'(1,2)] s8_stream.vs_Latest_value [OF h'(1,3)] unfolding S8_Latest_def by blast
  then show ?thesis using c(3) by auto
qed

theorem s8_splice_converges_witness:
  "\<exists>tx rx. S8_Latest (plain 1) ex_heap2 \<lparr>vs_stream = Some 2, vs_value = ''x''\<rparr> = Some tx
     \<and> S8_Latest (plain 1) ex_heap2 \<lparr>vs_stream = Some 1, vs_value = ''ab''\<rparr> = Some rx
     \<and> (vs_stream tx \<noteq> None \<and> vs_stream rx \<noteq> None \<longrightarrow> vs_value tx = vs_value rx)"
proof -
  have e: "S8_Splice (plain 1) ex_heap \<lparr>vs_stream = Some 0, vs_value = ''''\<rparr> 0 0 ''x''
      = Some (ex_heap2, \<lparr>vs_stream = Some 2, vs_value = ''x''\<rparr>)"
    by code_simp
  have b: "chase ex_heap 1 (VS8 ''ab'') = Some (1, VS8 ''ab'')" by (simp add: ex_heap_def chase.simps)
  show ?thesis
    using s8_splice_converges [OF e ex_heap_chase(1), of 0 1 "VS8 ''ab''" "\<lparr>vs_stream = Some 1, vs_value = ''ab''\<rparr>" 1]
      ex_heap_chase(2) b by simp
qed

text \<open>
  \<open>S16.Move\<close> moves by its count and not by the distance it is given: the distance has no
  effect on its result.
\<close>

theorem s16_move_ignores_distance:
  "S16_Move S w s offset cnt d1 = S16_Move S w s offset cnt d2"
  by (simp add: S16_Move_def)

section \<open>Undo\<close>

text \<open>
  C31. The backward scans of the undo stack pick the change that two stacks kept in step with the
  log would have on top: a local change can be undone, an undone change can be redone until the
  next local change, and a redone change can be undone again.
\<close>

theorem undo_redo_selection:
  "undo_scan (rev ts) 0 = nth_opt (fst (play ([], []) (numbered ts))) 0
   \<and> redo_scan (rev ts) 0 = nth_opt (snd (play ([], []) (numbered ts))) 0"
  by (rule scans_play)

text \<open>
  C29. Undo on a log of local, upstream and undo entries (no redo, and no change of a counter): the change that the
  stack works out is the reverse of the picked change, merged with the changes logged since that are not
  cancelled. It fits the value at hand and leads to the value that those changes, transformed against the
  reverse, make of the value before the picked change; when all of them are cancelled, to that value itself.
\<close>

theorem undo_correct:
  assumes "log_run n v0 xs w" "wf_val v0" "\<forall>e \<in> set xs. no_counter (fst e)"
    and "schanges s = map fst xs" "stypes s = map snd xs" "getUndoChange n s = Some (c, True)"
  shows "\<exists>i x y z later cx. undo_scan (rev (map snd xs)) 0 = Some i \<and> i < length xs
    \<and> foldM Apply v0 (map fst (take i xs)) = Some x \<and> Apply x (fst (xs ! i)) = Some y
    \<and> later = undo_simplify (map fst (drop (Suc i) xs)) (map snd (drop (Suc i) xs)) \<and> foldM Apply y later = Some w
    \<and> ChangeSet_Merge (cMerge n) later (Revert_opt (fst (xs ! i))) = Some (c, cx)
    \<and> Apply w c = Some z \<and> Apply x cx = Some z \<and> (later = [] \<longrightarrow> z = x)"
proof -
  obtain i x y z later cx where *: "undo_scan (rev (map snd xs)) 0 = Some i" "i < length xs"
    "foldM Strict v0 (map fst (take i xs)) = Some x" "Strict x (fst (xs ! i)) = Some y"
    "later = undo_simplify (map fst (drop (Suc i) xs)) (map snd (drop (Suc i) xs))" "foldM Strict y later = Some w"
    "ChangeSet_Merge (cMerge n) later (Revert_opt (fst (xs ! i))) = Some (c, cx)" "Strict w c = Some z" "Strict x cx = Some z" "later = [] \<longrightarrow> z = x"
    using getUndoChange_correct [OF assms] by blast
  have "foldM Apply v0 (map fst (take i xs)) = Some x" using *(3) by (rule foldM_mono) (rule Strict_Apply)
  moreover have "foldM Apply y later = Some w" using *(6) by (rule foldM_mono) (rule Strict_Apply)
  ultimately show ?thesis using * Strict_Apply by blast
qed

definition ex_log :: "(change option \<times> cType) list" where
  "ex_log = [(ins8 0 ''a'', CLocal), (ins8 0 ''b'', CUpstream)]"

theorem undo_correct_witness:
  "\<exists>x y z later cx. foldM Apply (VS8 '''') (map fst (take 0 ex_log)) = Some x \<and> Apply x (ins8 0 ''a'') = Some y
    \<and> foldM Apply y later = Some (VS8 ''ba'') \<and> ChangeSet_Merge (cMerge 1) later (del8 0 ''a'') = Some (del8 1 ''a'', cx)
    \<and> Apply (VS8 ''ba'') (del8 1 ''a'') = Some z \<and> Apply x cx = Some z"
proof -
  have "log_run 1 (VS8 '''') [(ins8 0 ''a'', CLocal)] (VS8 ''a'')"
    using log_run.change [OF log_run.empty, of CLocal "VS8 ''''" "ins8 0 ''a''" "VS8 ''a''" 1] by (simp add: splice_evals)
  then have r: "log_run 1 (VS8 '''') ex_log (VS8 ''ba'')"
    using log_run.change [of 1 "VS8 ''''" "[(ins8 0 ''a'', CLocal)]" "VS8 ''a''" CUpstream "ins8 0 ''b''" "VS8 ''ba''"]
    by (simp add: ex_log_def splice_evals)
  have u: "getUndoChange 1 \<lparr>sbase = (), schanges = map fst ex_log, stypes = map snd ex_log\<rparr> = Some (del8 1 ''a'', True)"
    by code_simp
  show ?thesis
  proof -
    obtain i x y z later cx where *: "undo_scan (rev (map snd ex_log)) 0 = Some i" "foldM Apply (VS8 '''') (map fst (take i ex_log)) = Some x"
      "Apply x (fst (ex_log ! i)) = Some y" "foldM Apply y later = Some (VS8 ''ba'')"
      "ChangeSet_Merge (cMerge 1) later (Revert_opt (fst (ex_log ! i))) = Some (del8 1 ''a'', cx)" "Apply (VS8 ''ba'') (del8 1 ''a'') = Some z" "Apply x cx = Some z"
      using undo_correct [OF r _ _ _ _ u] by (auto simp: ex_log_def simp del: apply_change.simps Apply_simps)
    have i: "i = 0" using *(1) by (simp add: ex_log_def)
    have "Revert_opt (ins8 0 ''a'') = del8 0 ''a''" "fst (ex_log ! 0) = ins8 0 ''a''" by (simp_all add: Revert_opt_def Splice_Revert_def ex_log_def)
    then show ?thesis using *(2-7) unfolding i by metis
  qed
qed

text \<open>
  C30. \<open>Undo\<close> of a stack over a stream: with a log (no redo, and no change of a counter) that leads to the value of the base stream,
  it logs the upstream changes up to the end of the base and then, when there is a change to undo, appends the
  change that \<open>undoAt\<close> works out to the base and logs it as an undo, unless it is nil. The new log leads to the value
  that this change gives; the base stream stands there, and so does the end of every
  stream of its family. With nothing to undo the streams are left as they are.
\<close>

theorem stack_undo_keeps_log:
  assumes "stack_Undo n (plain n) h s = Some (h', s')" "heap_ok h" "chase h (sbase s) v = Some (k, f)" "stack_wf s"
    and "log_run n v0 (log_of s) v" "wf_val v0" "\<forall>e \<in> set (log_of s'). no_counter (fst e)"
  shows "heap_ok h' \<and> stack_wf s' \<and> (\<exists>s1 cs z k'. pullChanges (plain n) h s CUpstream = Some s1
    \<and> log_of s1 = log_of s @ map (\<lambda>c. (c, CUpstream)) cs \<and> foldM Strict v cs = Some f
    \<and> (case undo_scan (rev (stypes s1)) 0 of
        None \<Rightarrow> h' = h \<and> log_of s' = log_of s1 \<and> z = f
      | Some i \<Rightarrow> (\<exists>c. undoAt n s1 i = Some c \<and> Strict f c = Some z \<and> log_of s' = log_of s1 @ (if c = None then [] else [(c, CUndo)])))
    \<and> log_run n v0 (log_of s') z \<and> chase h' (sbase s') z = Some (k', z)
    \<and> (\<forall>r x. chase h r x = Some (k, f) \<longrightarrow> chase h' r x = Some (k', z)))"
  by (rule list.stack_Undo_spec [OF assms])

definition ex_stack :: "nat stack" where
  "ex_stack = \<lparr>sbase = 1, schanges = [ins8 0 ''ab''], stypes = [CLocal]\<rparr>"

definition ex_stack2 :: "nat stack" where
  "ex_stack2 = \<lparr>sbase = 2, schanges = [ins8 0 ''ab'', del8 0 ''ab''], stypes = [CLocal, CUndo]\<rparr>"

definition ex_undone :: heap where
  "ex_undone = [\<lparr>nChange = ins8 0 ''ab'', nNext = Some 1\<rparr>, \<lparr>nChange = del8 0 ''ab'', nNext = Some 2\<rparr>, empty_node]"

theorem stack_undo_keeps_log_witness:
  "heap_ok ex_undone \<and> stack_wf ex_stack2 \<and> (\<exists>z k'. log_run 1 (VS8 '''') (log_of ex_stack2) z \<and> chase ex_undone 2 z = Some (k', z)
     \<and> chase ex_undone 0 (VS8 '''') = Some (k', z))"
proof -
  have u: "stack_Undo 1 (plain 1) ex_heap ex_stack = Some (ex_undone, ex_stack2)" by code_simp
  have r: "log_run 1 (VS8 '''') (log_of ex_stack) (VS8 ''ab'')"
    using log_run.change [OF log_run.empty, of CLocal "VS8 ''''" "ins8 0 ''ab''" "VS8 ''ab''" 1]
    by (simp add: splice_evals log_of_def ex_stack_def)
  have b: "chase ex_heap (sbase ex_stack) (VS8 ''ab'') = Some (1, VS8 ''ab'')"
    by (simp add: ex_heap_def chase.simps ex_stack_def)
  show ?thesis
    using stack_undo_keeps_log [OF u ex_heap_chase(1) b _ r] ex_heap_chase
    by (auto simp: stack_wf_def ex_stack_def log_of_def ex_stack2_def)
qed

definition mispaired :: "nat stack" where
  "mispaired = \<lparr>sbase = 0,
     schanges = [ins8 0 ''a'', ins8 0 ''bbb'', ins8 4 ''x'', del8 0 ''bbb'', ins8 0 ''c'', del8 0 ''c'', ins8 0 ''c'', del8 0 ''c''],
     stypes = [CLocal, CLocal, CUpstream, CUndo, CLocal, CUndo, CRedo, CUndo]\<rparr>"

text \<open>
  The cancelling of \<open>simplify\<close> mistakes a redo for the redo of an earlier undo when an
  upstream change kept that undo in the list. In the log below the document is \<open>ax\<close>, and the
  undo of the first insertion is worked out as a deletion outside of it, which panics.
\<close>

theorem undo_mispairs_redo:
  "foldM Apply (VS8 '''') (schanges mispaired) = Some (VS8 ''ax'')
   \<and> getUndoChange 5 mispaired = Some (del8 2 ''a'', True)
   \<and> Apply (VS8 ''ax'') (del8 2 ''a'') = None"
  by code_simp

definition stuck :: "nat stack" where
  "stuck = \<lparr>sbase = 0, schanges = [ins8 0 ''a'', ins8 0 ''b'', del8 0 ''b''], stypes = [CLocal, CLocal, CUpstream]\<rparr>"

text \<open>
  An Undo whose change has become nil leaves no entry in the log, so every further Undo picks
  the same change again: after an upstream change removed what the last local change inserted, the
  local changes before it cannot be undone any more.
\<close>

theorem undo_gets_stuck:
  "\<exists>h s. stack_Undo 5 (plain 5) [empty_node] stuck = Some (h, s)
     \<and> schanges s = schanges stuck \<and> stypes s = stypes stuck \<and> getUndoChange 5 s = Some (None, True)"
proof -
  have "stack_Undo 5 (plain 5) [empty_node] stuck
      = Some ([\<lparr>nChange = None, nNext = Some 1\<rparr>, empty_node], stuck\<lparr>sbase := 1\<rparr>)" by code_simp
  moreover have "getUndoChange 5 (stuck\<lparr>sbase := 1\<rparr>) = Some (None, True)" by code_simp
  ultimately show ?thesis by simp
qed

end
