(* ===== verification/Dot_Ops.thy ===== *)
theory Dot_Ops
  imports Dot_Fuel "HOL-Library.AList"
begin

text \<open>
  Package \<open>ops\<close>: operations (\<open>op.go\<close>), the interfaces \<open>Store\<close> and \<open>Cache\<close>
  (\<open>store.go\<close>, \<open>cache.go\<close>), the in-memory store and the caches of the repository
  (\<open>test/testops\<close>, \<open>client.go\<close>), and the transformer that turns a store of raw
  operations into one whose operations can be applied in sequence (\<open>transformer.go\<close>).

  A call that can fail returns \<open>string + 'a\<close>; the outer option is a panic or an exhausted
  bound on the nesting of calls. The context argument is dropped.
\<close>

section \<open>Operations\<close>

record op =
  opID :: key
  opParent :: "key option"
  opVersion :: int
  opBasis :: int
  opChange :: "change option"

definition WithVersion :: "op \<Rightarrow> int \<Rightarrow> op" where
  "WithVersion x v = x\<lparr>opVersion := v\<rparr>"

definition WithChanges :: "op \<Rightarrow> change option \<Rightarrow> op" where
  "WithChanges x c = x\<lparr>opChange := c\<rparr>"

lemma With_simps [simp]:
  "opChange (WithChanges x c) = c" "opVersion (WithChanges x c) = opVersion x" "opID (WithChanges x c) = opID x"
  "opVersion (WithVersion x v) = v" "opID (WithVersion x v) = opID x" "opChange (WithVersion x v) = opChange x"
  "opParent (WithChanges x c) = opParent x" "opBasis (WithChanges x c) = opBasis x"
  by (simp_all add: WithChanges_def WithVersion_def)

type_synonym 'a result = "(string + 'a) option"

abbreviation ok :: "'a \<Rightarrow> 'a result" where "ok x \<equiv> Some (Inr x)"
abbreviation err :: "string \<Rightarrow> 'a result" where "err e \<equiv> Some (Inl e)"

definition andThen :: "'a result \<Rightarrow> ('a \<Rightarrow> 'b result) \<Rightarrow> 'b result" where
  "andThen r f = (case r of None \<Rightarrow> None | Some (Inl e) \<Rightarrow> Some (Inl e) | Some (Inr x) \<Rightarrow> f x)"

lemma andThen_simps [simp]:
  "andThen None f = None" "andThen (err e) f = err e" "andThen (ok x) f = f x"
  by (simp_all add: andThen_def)

lemma andThen_ok: "andThen r f = ok y \<longleftrightarrow> (\<exists>x. r = ok x \<and> f x = ok y)"
  by (auto simp: andThen_def split: option.splits sum.splits)

lemma andThen_cong [fundef_cong]: "r = r' \<Longrightarrow> (\<And>x. r' = ok x \<Longrightarrow> f x = g x) \<Longrightarrow> andThen r f = andThen r' g"
  by (auto simp: andThen_def split: option.splits sum.splits)

section \<open>Stores\<close>

record 'w Store =
  st_Append :: "'w \<Rightarrow> op list \<Rightarrow> ('w \<times> string option)"
  st_GetSince :: "'w \<Rightarrow> int \<Rightarrow> int \<Rightarrow> ('w \<times> op list) result"

text \<open>What a store returns when it is read in a given state.\<close>

definition reads :: "'w Store \<Rightarrow> 'w \<Rightarrow> int \<Rightarrow> int \<Rightarrow> op list result" where
  "reads S w version limit = andThen (st_GetSince S w version limit) (\<lambda>(_, ops). ok ops)"

text \<open>The in-memory store: an operation with an ID that was seen is dropped.\<close>

record mem =
  memOps :: "op list"
  memSeen :: "key set"

fun mem_Append_loop :: "mem \<Rightarrow> op list \<Rightarrow> mem" where
  "mem_Append_loop m [] = m"
| "mem_Append_loop m (x # ops) =
     (if opID x \<notin> memSeen m
      then mem_Append_loop \<lparr>memOps = memOps m @ [WithVersion x (int (length (memOps m)))],
                            memSeen = {opID x} \<union> memSeen m\<rparr> ops
      else mem_Append_loop m ops)"

definition mem_Append :: "mem \<Rightarrow> op list \<Rightarrow> mem \<times> string option" where
  "mem_Append m ops = (mem_Append_loop m ops, None)"

definition mem_GetSince :: "mem \<Rightarrow> int \<Rightarrow> int \<Rightarrow> op list result" where
  "mem_GetSince m version limit =
     (if version < int (length (memOps m)) then do {
        result \<leftarrow> goslice (memOps m) version (int (length (memOps m)));
        if int (length result) > limit then map_option Inr (goslice result 0 limit) else ok result }
      else ok [])"

definition MemStore :: "op list \<Rightarrow> mem" where
  "MemStore initial = fst (mem_Append \<lparr>memOps = [], memSeen = {}\<rparr> initial)"

definition mem_store :: "mem Store" where
  "mem_store = \<lparr>st_Append = mem_Append, st_GetSince = (\<lambda>m version limit.
     andThen (mem_GetSince m version limit) (\<lambda>ops. ok (m, ops)))\<rparr>"

section \<open>Caches\<close>

record 'c Cache =
  c_Load :: "'c \<Rightarrow> int \<Rightarrow> (op \<times> op list) option"
  c_Store :: "'c \<Rightarrow> int \<Rightarrow> op \<Rightarrow> op list \<Rightarrow> 'c"

definition nullCache :: "unit Cache" where
  "nullCache = \<lparr>c_Load = (\<lambda>c ver. None), c_Store = (\<lambda>c key x merge. c)\<rparr>"

text \<open>
  The cache of a client session: two maps with the same keys, of which \<open>Load\<close> reads the first
  to see whether there is an entry.
\<close>

record session_cache =
  OpCache :: "(int \<times> op) list"
  MergeCache :: "(int \<times> op list) list"

definition Session_Load :: "session_cache \<Rightarrow> int \<Rightarrow> (op \<times> op list) option" where
  "Session_Load s ver = (case map_of (OpCache s) ver of
     None \<Rightarrow> None
   | Some x \<Rightarrow> Some (x, case map_of (MergeCache s) ver of None \<Rightarrow> [] | Some m \<Rightarrow> m))"

definition Session_Store :: "session_cache \<Rightarrow> int \<Rightarrow> op \<Rightarrow> op list \<Rightarrow> session_cache" where
  "Session_Store s ver x merge =
     s\<lparr>OpCache := AList.update ver x (OpCache s), MergeCache := AList.update ver merge (MergeCache s)\<rparr>"

definition session_cache_ops :: "session_cache Cache" where
  "session_cache_ops = \<lparr>c_Load = Session_Load, c_Store = Session_Store\<rparr>"

section \<open>The transformer\<close>

text \<open>\<open>transformer.merge\<close>.\<close>

definition xmerge :: "nat \<Rightarrow> op \<Rightarrow> op \<Rightarrow> (op \<times> op) option" where
  "xmerge n left right = do {
     (lx, rx) \<leftarrow> Merge n (opChange left) (opChange right);
     Some (WithChanges right lx, WithChanges left rx) }"

text \<open>The loop that takes an operation through a merge chain, as in \<open>getMergeChain\<close>.\<close>

fun chain_loop :: "nat \<Rightarrow> op \<Rightarrow> op list \<Rightarrow> op list \<Rightarrow> (op \<times> op list) option" where
  "chain_loop n x [] acc = Some (x, acc)"
| "chain_loop n x (opx # merge) acc = do {
     (x, opx) \<leftarrow> xmerge n opx x;
     chain_loop n x merge (acc @ [opx]) }"

fun skip_to_parent :: "key option \<Rightarrow> op list \<Rightarrow> op list option" where
  "skip_to_parent None ops = Some ops"
| "skip_to_parent (Some p) [] = None"
| "skip_to_parent (Some p) (x # ops) = (if opID x \<noteq> p then skip_to_parent (Some p) ops else Some (x # ops))"

type_synonym 'c xform_fun = "'c \<Rightarrow> op \<Rightarrow> ('c \<times> op \<times> op list) result"

definition getMergeChain :: "nat \<Rightarrow> 'c xform_fun \<Rightarrow> 'c \<Rightarrow> op \<Rightarrow> op list \<Rightarrow> ('c \<times> op \<times> op list) result" where
  "getMergeChain n xf c x ops = (case opParent x of
     None \<Rightarrow> ok (c, x, [])
   | Some p \<Rightarrow> (case ops of
       [] \<Rightarrow> None
     | q # _ \<Rightarrow> andThen (xf c q) (\<lambda>(c, _, merge).
         map_option (\<lambda>(x, chain). Inr (c, x, chain))
           (chain_loop n x (dropWhile (\<lambda>m. opVersion m \<le> opBasis x) merge) []))))"

text \<open>The loop over the operations since the parent or the basis.\<close>

fun xform_loop :: "nat \<Rightarrow> 'c xform_fun \<Rightarrow> 'c \<Rightarrow> op list \<Rightarrow> op \<Rightarrow> op list \<Rightarrow> ('c \<times> op \<times> op list) result" where
  "xform_loop n xf c [] x merge = ok (c, x, merge)"
| "xform_loop n xf c (opx # ops) x merge = andThen (xf c opx) (\<lambda>(c, opx, _).
     (case xmerge n opx x of
        None \<Rightarrow> None
      | Some (x, opx) \<Rightarrow> xform_loop n xf c ops x (merge @ [opx])))"

fun xform :: "nat \<Rightarrow> nat \<Rightarrow> 'c Cache \<Rightarrow> (int \<Rightarrow> int \<Rightarrow> op list result) \<Rightarrow> 'c xform_fun" where
  "xform 0 n C getSince c x = None"
| "xform (Suc fuel) n C getSince c x = (case c_Load C c (opVersion x) of
     Some (y, merge) \<Rightarrow> ok (c, y, merge)
   | None \<Rightarrow>
      (let gap = opVersion x - opBasis x - 1 in
       if gap = 0 then ok (c_Store C c (opVersion x) x [], x, [])
       else andThen (getSince (opBasis x + 1) gap) (\<lambda>ops.
         (case skip_to_parent (opParent x) ops of
            None \<Rightarrow> None
          | Some ops \<Rightarrow> andThen (getMergeChain n (xform fuel n C getSince) c x ops) (\<lambda>(c, y, merge).
              andThen (xform_loop n (xform fuel n C getSince) c (if opParent x \<noteq> None then tl ops else ops) y merge)
                (\<lambda>(c, y, merge). ok (c_Store C c (opVersion x) y merge, y, merge)))))))"

text \<open>\<open>transformer.GetSince\<close>.\<close>

fun xform_all :: "'c xform_fun \<Rightarrow> 'c \<Rightarrow> op list \<Rightarrow> ('c \<times> op list) result" where
  "xform_all xf c [] = ok (c, [])"
| "xform_all xf c (x # ops) = andThen (xf c x) (\<lambda>(c, y, _).
     andThen (xform_all xf c ops) (\<lambda>(c, ys). ok (c, y # ys)))"

definition Transformed_GetSince :: "nat \<Rightarrow> nat \<Rightarrow> 'c Cache \<Rightarrow> 'w Store \<Rightarrow> 'w \<times> 'c \<Rightarrow> int \<Rightarrow> int
    \<Rightarrow> (('w \<times> 'c) \<times> op list) result" where
  "Transformed_GetSince fuel n C S wc version limit = (case wc of (w, c) \<Rightarrow>
     andThen (st_GetSince S w version limit) (\<lambda>(w, ops).
     andThen (xform_all (xform fuel n C (reads S w)) c ops) (\<lambda>(c, ops). ok ((w, c), ops))))"

definition Transformed_Append :: "'w Store \<Rightarrow> 'w \<times> 'c \<Rightarrow> op list \<Rightarrow> ('w \<times> 'c) \<times> string option" where
  "Transformed_Append S wc ops = (case wc of (w, c) \<Rightarrow> case st_Append S w ops of (w, e) \<Rightarrow> ((w, c), e))"

definition Transformed :: "nat \<Rightarrow> nat \<Rightarrow> 'c Cache \<Rightarrow> 'w Store \<Rightarrow> ('w \<times> 'c) Store" where
  "Transformed fuel n C S = \<lparr>st_Append = Transformed_Append S, st_GetSince = Transformed_GetSince fuel n C S\<rparr>"

end
