(* ===== verification/Dot_Reliable.thy ===== *)
theory Dot_Reliable
  imports Dot_Ops
begin

text \<open>
  The store that never fails (\<open>ops/sync/reliable.go\<close>). Append puts a job on a channel and
  returns; one goroutine runs the jobs in order; deliveries are goroutines of their own that try
  until the store accepts and then put a job on the channel. The state has the channel and the
  running deliveries, and the goroutines are the rules of a step relation, so every interleaving
  is covered. How long a retry waits (\<open>Backoff\<close>) has no influence on the order of steps and
  is left out.
\<close>

datatype job = AppendJob "op list" | DoneJob nat

datatype delivery = Sending "op list" | Sent nat

record 'w reliable =
  relStore :: 'w
  relPending :: "op list"
  relJobs :: "job list"
  relDeliver :: "delivery list"
  relClosed :: bool

definition newReliable :: "'w \<Rightarrow> 'w reliable" where
  "newReliable w = \<lparr>relStore = w, relPending = [], relJobs = [], relDeliver = [], relClosed = False\<rparr>"

text \<open>\<open>r.jobs <- job\<close>: the channel holds 10000 jobs, a send on a full channel waits.\<close>

definition send_job :: "'w reliable \<Rightarrow> job \<Rightarrow> 'w reliable option" where
  "send_job r j = (if length (relJobs r) < 10000 then Some (r\<lparr>relJobs := relJobs r @ [j]\<rparr>) else None)"

definition reliable_Append :: "'w reliable \<Rightarrow> op list \<Rightarrow> 'w reliable option" where
  "reliable_Append r ops = send_job r (AppendJob ops)"

definition reliable_Close :: "'w reliable \<Rightarrow> 'w reliable" where
  "reliable_Close r = r\<lparr>relClosed := True\<rparr>"

text \<open>\<open>go r.deliver(r.pending[:size:size])\<close>, when there is something to deliver.\<close>

definition start_delivery :: "bool \<Rightarrow> 'w reliable \<Rightarrow> 'w reliable" where
  "start_delivery idle r =
     (if idle \<and> relPending r \<noteq> [] then r\<lparr>relDeliver := relDeliver r @ [Sending (relPending r)]\<rparr> else r)"

text \<open>The two functions that are put on the channel. Go panics when it cuts more than is pending.\<close>

fun run_job :: "'w reliable \<Rightarrow> job \<Rightarrow> 'w reliable option" where
  "run_job r (AppendJob ops) =
     Some (start_delivery (relPending r = []) (r\<lparr>relPending := relPending r @ ops\<rparr>))"
| "run_job r (DoneJob k) = do {
     rest \<leftarrow> goslice (relPending r) (int k) (int (length (relPending r)));
     Some (start_delivery True (r\<lparr>relPending := rest\<rparr>)) }"

definition run_next :: "'w reliable \<Rightarrow> 'w reliable option" where
  "run_next r = (case relJobs r of [] \<Rightarrow> None | j # js \<Rightarrow> run_job (r\<lparr>relJobs := js\<rparr>) j)"

text \<open>
  One attempt of \<open>deliver\<close>, through \<open>retry\<close>: an error leaves the delivery where it was. Once the store is
  closed a delivery may give up, after an attempt or while it waits for the next one.
\<close>

definition attempt :: "'w Store \<Rightarrow> 'w reliable \<Rightarrow> nat \<Rightarrow> 'w reliable \<times> string option" where
  "attempt S r i = (case relDeliver r ! i of
     Sending ops \<Rightarrow> (case st_Append S (relStore r) ops of
        (w, None) \<Rightarrow> (r\<lparr>relStore := w, relDeliver := (relDeliver r)[i := Sent (length ops)]\<rparr>, None)
      | (w, Some e) \<Rightarrow> (r\<lparr>relStore := w\<rparr>, Some e))
   | Sent k \<Rightarrow> (r, None))"

definition give_up :: "'w reliable \<Rightarrow> nat \<Rightarrow> 'w reliable" where
  "give_up r i = r\<lparr>relDeliver := take i (relDeliver r) @ drop (Suc i) (relDeliver r)\<rparr>"

definition report_done :: "'w reliable \<Rightarrow> nat \<Rightarrow> nat \<Rightarrow> 'w reliable option" where
  "report_done r i k = send_job (give_up r i) (DoneJob k)"

section \<open>The goroutines\<close>

datatype event = Submitted "op list" | Accepted "op list" | Failed | Internal | Closed

inductive rel_step :: "'w Store \<Rightarrow> 'w reliable \<Rightarrow> event \<Rightarrow> 'w reliable \<Rightarrow> bool" for S where
  submit: "reliable_Append r ops = Some r' \<Longrightarrow> rel_step S r (Submitted ops) r'"
| run: "run_next r = Some r' \<Longrightarrow> rel_step S r Internal r'"
| deliver: "i < length (relDeliver r) \<Longrightarrow> relDeliver r ! i = Sending ops \<Longrightarrow> attempt S r i = (r', None)
    \<Longrightarrow> rel_step S r (Accepted ops) r'"
| retry: "i < length (relDeliver r) \<Longrightarrow> relDeliver r ! i = Sending ops \<Longrightarrow> attempt S r i = (r', Some e)
    \<Longrightarrow> rel_step S r Failed r'"
| quit: "i < length (relDeliver r) \<Longrightarrow> relDeliver r ! i = Sending ops \<Longrightarrow> relClosed r \<Longrightarrow> rel_step S r Failed (give_up r i)"
| report: "i < length (relDeliver r) \<Longrightarrow> relDeliver r ! i = Sent k \<Longrightarrow> report_done r i k = Some r'
    \<Longrightarrow> rel_step S r Internal r'"
| shut: "rel_step S r Closed (reliable_Close r)"

inductive_cases rel_stepE: "rel_step S r e r'"

inductive rel_run :: "'w Store \<Rightarrow> 'w reliable \<Rightarrow> event list \<Rightarrow> 'w reliable \<Rightarrow> bool" for S r where
  start: "rel_run S r [] r"
| next_step: "rel_run S r tr r1 \<Longrightarrow> rel_step S r1 e r2 \<Longrightarrow> rel_run S r (tr @ [e]) r2"

fun submitted :: "event list \<Rightarrow> op list" where
  "submitted [] = []"
| "submitted (Submitted ops # tr) = ops @ submitted tr"
| "submitted (_ # tr) = submitted tr"

fun accepted :: "event list \<Rightarrow> op list" where
  "accepted [] = []"
| "accepted (Accepted ops # tr) = ops @ accepted tr"
| "accepted (_ # tr) = accepted tr"

lemma submitted_append [simp]: "submitted (xs @ ys) = submitted xs @ submitted ys"
  by (induction xs rule: submitted.induct) auto

lemma accepted_append [simp]: "accepted (xs @ ys) = accepted xs @ accepted ys"
  by (induction xs rule: accepted.induct) auto

section \<open>The invariant\<close>

text \<open>
  What the queue still holds, and the tokens: there is at most one delivery, or job that reports
  one, at any time.
\<close>

fun queued :: "job list \<Rightarrow> op list" where
  "queued [] = []"
| "queued (AppendJob ops # js) = ops @ queued js"
| "queued (DoneJob k # js) = queued js"

fun reports :: "job list \<Rightarrow> delivery list" where
  "reports [] = []"
| "reports (AppendJob ops # js) = reports js"
| "reports (DoneJob k # js) = Sent k # reports js"

lemma queued_append [simp]: "queued (xs @ ys) = queued xs @ queued ys"
  by (induction xs rule: queued.induct) auto

lemma reports_append [simp]: "reports (xs @ ys) = reports xs @ reports ys"
  by (induction xs rule: reports.induct) auto

definition tokens :: "'w reliable \<Rightarrow> delivery list" where
  "tokens r = relDeliver r @ reports (relJobs r)"

fun token_ok :: "op list \<Rightarrow> delivery \<Rightarrow> bool" where
  "token_ok pending (Sending ops) \<longleftrightarrow> ops \<noteq> [] \<and> (\<exists>rest. pending = ops @ rest)"
| "token_ok pending (Sent k) \<longleftrightarrow> 0 < k \<and> k \<le> length pending"

fun unaccepted :: "delivery list \<Rightarrow> op list \<Rightarrow> op list" where
  "unaccepted [Sent k] pending = drop k pending"
| "unaccepted _ pending = pending"

definition rel_inv :: "event list \<Rightarrow> 'w reliable \<Rightarrow> bool" where
  "rel_inv tr r \<longleftrightarrow> length (tokens r) \<le> 1 \<and> (\<forall>t \<in> set (tokens r). token_ok (relPending r) t)
     \<and> (tokens r = [] \<longrightarrow> relPending r = [] \<or> relClosed r)
     \<and> submitted tr = accepted tr @ unaccepted (tokens r) (relPending r) @ queued (relJobs r)"

lemma one_token:
  assumes "length (tokens r) \<le> 1" "i < length (relDeliver r)" "relDeliver r ! i = d"
  shows "i = 0 \<and> relDeliver r = [d] \<and> reports (relJobs r) = [] \<and> tokens r = [d]"
  using assms by (cases "relDeliver r") (auto simp: tokens_def)

lemma token_ok_grow: "token_ok p t \<Longrightarrow> token_ok (p @ q) t"
  by (cases t) auto

lemma unaccepted_grow: "\<forall>t \<in> set ts. token_ok p t \<Longrightarrow> unaccepted ts (p @ q) = unaccepted ts p @ q"
  by (induction ts p rule: unaccepted.induct) auto

lemma run_job_inv:
  assumes "rel_inv tr r" "run_next r = Some r'"
  shows "rel_inv tr r'"
proof -
  obtain j js where j: "relJobs r = j # js" "run_job (r\<lparr>relJobs := js\<rparr>) j = Some r'"
    using assms(2) by (auto simp: run_next_def split: list.splits)
  show ?thesis
  proof (cases j)
    case (AppendJob ops)
    let ?r = "r\<lparr>relJobs := js, relPending := relPending r @ ops\<rparr>"
    have ts: "tokens ?r = tokens r" using j(1) AppendJob by (simp add: tokens_def)
    have r': "r' = start_delivery (relPending r = []) ?r" using j(2) AppendJob by simp
    show ?thesis
    proof (cases "relPending r = []")
      case True
      then have no: "tokens r = []" using assms(1) by (cases "tokens r"; cases "hd (tokens r)") (auto simp: rel_inv_def)
      then show ?thesis using assms(1) r' True ts j(1) AppendJob
        by (cases "ops = []") (auto simp: rel_inv_def start_delivery_def tokens_def)
    next
      case False
      have "r' = ?r" using r' False by (simp add: start_delivery_def)
      moreover have "\<forall>t \<in> set (tokens r). token_ok (relPending r) t" using assms(1) by (simp add: rel_inv_def)
      ultimately show ?thesis using assms(1) ts j(1) AppendJob False unaccepted_grow [of "tokens r" "relPending r" ops]
        by (auto simp: rel_inv_def token_ok_grow)
    qed
  next
    case (DoneJob k)
    have ts: "tokens r = [Sent k]" "relDeliver r = []" "reports js = []"
      using assms(1) j(1) DoneJob by (auto simp: rel_inv_def tokens_def)
    then have k: "0 < k" "k \<le> length (relPending r)" using assms(1) by (auto simp: rel_inv_def)
    have "r' = start_delivery True (r\<lparr>relJobs := js, relPending := drop k (relPending r)\<rparr>)"
      using j(2) DoneJob k(2) by (auto simp: goslice_def bind_Some_ex split: if_splits)
    then show ?thesis using assms(1) ts j(1) DoneJob
      by (auto simp: rel_inv_def start_delivery_def tokens_def split: if_splits)
  qed
qed

lemma rel_step_inv: "rel_step S r e r' \<Longrightarrow> rel_inv tr r \<Longrightarrow> rel_inv (tr @ [e]) r'"
proof (induction rule: rel_step.induct)
  case (submit r ops r')
  then show ?case by (auto simp: rel_inv_def reliable_Append_def send_job_def tokens_def split: if_splits)
next
  case (run r r')
  then show ?case using run_job_inv [of tr r r'] by (simp add: rel_inv_def)
next
  case (deliver i r ops r')
  then have t: "i = 0" "relDeliver r = [Sending ops]" "reports (relJobs r) = []" "tokens r = [Sending ops]"
    using one_token [of r i] by (auto simp: rel_inv_def)
  obtain w where "r' = r\<lparr>relStore := w, relDeliver := [Sent (length ops)]\<rparr>"
    using deliver.hyps(3) t by (auto simp: attempt_def split: prod.splits option.splits)
  then show ?case using deliver.prems t by (auto simp: rel_inv_def tokens_def)
next
  case (retry i r ops r' e)
  then obtain w where "r' = r\<lparr>relStore := w\<rparr>" by (auto simp: attempt_def split: prod.splits option.splits)
  then show ?case using retry.prems by (auto simp: rel_inv_def tokens_def)
next
  case (quit i r ops)
  then have t: "i = 0" "relDeliver r = [Sending ops]" "reports (relJobs r) = []" "tokens r = [Sending ops]"
    using one_token [of r i] by (auto simp: rel_inv_def)
  then show ?case using quit t by (auto simp: rel_inv_def tokens_def give_up_def)
next
  case (report i r k r')
  then have t: "i = 0" "relDeliver r = [Sent k]" "reports (relJobs r) = []" "tokens r = [Sent k]"
    using one_token [of r i] by (auto simp: rel_inv_def)
  then show ?case using report
    by (auto simp: rel_inv_def tokens_def report_done_def give_up_def send_job_def split: if_splits)
next
  case (shut r)
  then show ?case by (auto simp: rel_inv_def tokens_def reliable_Close_def)
qed

lemma rel_run_inv: "rel_run S (newReliable w) tr r \<Longrightarrow> rel_inv tr r"
  by (induction rule: rel_run.induct) (auto simp: rel_step_inv, simp add: rel_inv_def newReliable_def tokens_def)

section \<open>Progress\<close>

text \<open>
  A bound on the steps that are left until everything is delivered, when the store accepts. It
  shrinks with every step but a new Append, a failure and Close.
\<close>

fun job_work :: "job \<Rightarrow> nat" where
  "job_work (AppendJob ops) = 4 + 4 * length ops"
| "job_work (DoneJob k) = 1"

fun delivery_work :: "delivery \<Rightarrow> nat" where
  "delivery_work (Sending ops) = 3"
| "delivery_work (Sent k) = 2"

definition work :: "'w reliable \<Rightarrow> nat" where
  "work r = 4 * length (relPending r) + sum_list (map job_work (relJobs r)) + sum_list (map delivery_work (relDeliver r))"

lemma work_start: "work (start_delivery b r) \<le> work r + 3"
  by (simp add: work_def start_delivery_def)

lemma rel_step_work:
  assumes "rel_step S r e r'" "rel_inv tr r" "e = Internal \<or> (\<exists>ops. e = Accepted ops)"
  shows "work r' < work r"
  using assms
proof cases
  case run
  then obtain j js where j: "relJobs r = j # js" "run_job (r\<lparr>relJobs := js\<rparr>) j = Some r'"
    by (auto simp: run_next_def split: list.splits)
  show ?thesis
  proof (cases j)
    case (AppendJob ops)
    then show ?thesis using j work_start [of "relPending r = []" "r\<lparr>relJobs := js, relPending := relPending r @ ops\<rparr>"]
      by (auto simp: work_def)
  next
    case (DoneJob k)
    then have "0 < k \<and> k \<le> length (relPending r)" using assms(2) j(1) by (auto simp: rel_inv_def tokens_def)
    then show ?thesis using j DoneJob work_start [of True "r\<lparr>relJobs := js, relPending := drop k (relPending r)\<rparr>"]
      by (auto simp: work_def goslice_def bind_Some_ex split: if_splits)
  qed
next
  case (deliver i ops)
  then show ?thesis using one_token [of r i "Sending ops"] assms(2)
    by (auto simp: rel_inv_def attempt_def work_def split: prod.splits option.splits)
next
  case (report i k)
  then show ?thesis using one_token [of r i "Sent k"] assms(2)
    by (auto simp: rel_inv_def report_done_def give_up_def send_job_def work_def split: if_splits)
qed auto

text \<open>As long as there is work, and the store accepts, some goroutine can take a step.\<close>

lemma rel_progress:
  assumes "rel_inv tr r" "relJobs r \<noteq> [] \<or> relDeliver r \<noteq> []" "\<And>w ops. snd (st_Append S w ops) = None"
  shows "\<exists>e r'. rel_step S r e r' \<and> (e = Internal \<or> (\<exists>ops. e = Accepted ops))"
proof (cases "relJobs r")
  case (Cons j js)
  have "run_next r \<noteq> None"
  proof (cases j)
    case (DoneJob k)
    then have "k \<le> length (relPending r)" using assms(1) Cons by (auto simp: rel_inv_def tokens_def)
    then show ?thesis using Cons DoneJob by (simp add: run_next_def goslice_def)
  qed (simp add: run_next_def Cons)
  then show ?thesis using run by blast
next
  case Nil
  then obtain d ds where d: "relDeliver r = d # ds" using assms(2) by (cases "relDeliver r") auto
  show ?thesis
  proof (cases d)
    case (Sending ops)
    obtain w where "st_Append S (relStore r) ops = (w, None)" using assms(3) by (metis surjective_pairing)
    then have "snd (attempt S r 0) = None" using d Sending by (simp add: attempt_def)
    then show ?thesis using deliver [of 0 r ops S] d Sending by (metis length_greater_0_conv list.distinct(1) nth_Cons_0 surjective_pairing)
  next
    case (Sent k)
    have "report_done r 0 k \<noteq> None" using Nil by (simp add: report_done_def send_job_def give_up_def)
    then show ?thesis using report [of 0 r k _ S] d Sent by auto
  qed
qed

end
