(* ===== verification/Dot_Polling.thy ===== *)
theory Dot_Polling
  imports Dot_Ops
begin

text \<open>
  Reading from a store: the retries of the reliable store (\<open>ops/sync/reliable.go\<close>), the
  store that fetches in the background (\<open>ops/sync/nonblocking.go\<close>) and the store that lets
  readers wait for the next Append (\<open>ops/poller.go\<close>).
\<close>

section \<open>Retries\<close>

text \<open>
  \<open>retry\<close> calls a function until it succeeds or its context is done. Each element of the list
  is one round: what the call sees, the error of the context after the call, and the error of the
  context when it is done while waiting. A list that ends before the loop does is a loop that is
  still running.
\<close>

type_synonym 'a round = "'a \<times> string option \<times> string option"

fun retry :: "('s \<Rightarrow> 'a \<Rightarrow> 's \<times> string option) \<Rightarrow> 's \<Rightarrow> 'a round list \<Rightarrow> ('s \<times> string option \<times> string option) option" where
  "retry fn s [] = None"
| "retry fn s ((a, now, wait) # rounds) = (let (s, e) = fn s a in
     if e = None \<or> e = now then Some (s, e, now)
     else (case wait of Some c \<Rightarrow> Some (s, Some c, Some c) | None \<Rightarrow> retry fn s rounds))"

text \<open>The function that GetSince retries: an empty result counts as an error.\<close>

definition getsince_fn :: "op list \<Rightarrow> string + op list \<Rightarrow> op list \<times> string option" where
  "getsince_fn result r = (case r of
     Inl e \<Rightarrow> ([], Some e)
   | Inr rops \<Rightarrow> (if rops = [] then (result, Some ''retrying on empty result'') else (rops, None)))"

definition reliable_GetSince :: "(string + op list) round list \<Rightarrow> (op list \<times> string option) option" where
  "reliable_GetSince rounds = do { (result, e, ctx) \<leftarrow> retry getsince_fn [] rounds; Some (result, ctx) }"

lemma retry_Cons:
  "retry fn s ((a, now, wait) # rounds) =
     (if snd (fn s a) = None \<or> snd (fn s a) = now then Some (fst (fn s a), snd (fn s a), now)
      else (case wait of Some c \<Rightarrow> Some (fst (fn s a), Some c, Some c) | None \<Rightarrow> retry fn (fst (fn s a)) rounds))"
  by (simp add: prod.case_eq_if)

declare retry.simps(2) [simp del]

lemma getsince_fn_None: "snd (getsince_fn s a) = None \<longleftrightarrow> (\<exists>ops. a = Inr ops \<and> ops \<noteq> [])"
  by (cases a) (simp_all add: getsince_fn_def)

lemma getsince_fn_ok: "ops \<noteq> [] \<Longrightarrow> getsince_fn s (Inr ops) = (ops, None)"
  by (simp add: getsince_fn_def)

lemma retry_getsince:
  "retry getsince_fn s rounds = Some (result, e, None) \<Longrightarrow> e = None \<and> result \<noteq> [] \<and> Inr result \<in> fst ` set rounds"
proof (induction rounds arbitrary: s)
  case (Cons r rounds)
  obtain a now wait where r: "r = (a, now, wait)" by (cases r)
  show ?case
  proof (cases "snd (getsince_fn s a) = None")
    case True
    then obtain ops where "a = Inr ops" "ops \<noteq> []" using getsince_fn_None by blast
    then show ?thesis using Cons.prems True by (simp add: r retry_Cons getsince_fn_ok)
  next
    case False
    then have "retry getsince_fn (fst (getsince_fn s a)) rounds = Some (result, e, None)"
      using Cons.prems by (auto simp: r retry_Cons split: if_splits option.splits)
    from Cons.IH [OF this] show ?thesis by simp
  qed
qed simp

text \<open>A round that neither brings operations nor is cancelled.\<close>

definition fruitless :: "(string + op list) round \<Rightarrow> bool" where
  "fruitless r \<longleftrightarrow> (case r of (a, now, wait) \<Rightarrow> (case a of Inl e \<Rightarrow> True | Inr ops \<Rightarrow> ops = []) \<and> now = None \<and> wait = None)"

lemma retry_first:
  "\<forall>r \<in> set bad. fruitless r \<Longrightarrow> ops \<noteq> [] \<Longrightarrow> retry getsince_fn s (bad @ (Inr ops, now, wait) # rest) = Some (ops, None, now)"
proof (induction bad arbitrary: s)
  case (Cons r bad)
  obtain a n w where r: "r = (a, n, w)" by (cases r)
  have f: "snd (getsince_fn s a) \<noteq> None" "n = None" "w = None"
    using Cons.prems(1) r by (auto simp: fruitless_def getsince_fn_None split: sum.splits)
  have "retry getsince_fn (fst (getsince_fn s a)) (bad @ (Inr ops, now, wait) # rest) = Some (ops, None, now)"
    using Cons.IH Cons.prems by simp
  then show ?case using f by (auto simp: r retry_Cons)
qed (simp add: retry_Cons getsince_fn_ok)

section \<open>Fetching in the background\<close>

record 'w nonblocking =
  nbStore :: 'w
  nbCache :: "int \<Rightarrow> op list option"
  nbProgress :: "int set"
  nbFetches :: "(int \<times> int) list"

definition NonBlocking :: "'w \<Rightarrow> 'w nonblocking" where
  "NonBlocking w = \<lparr>nbStore = w, nbCache = Map.empty, nbProgress = {}, nbFetches = []\<rparr>"

definition nb_GetSince :: "'w nonblocking \<Rightarrow> int \<Rightarrow> int \<Rightarrow> 'w nonblocking \<times> op list" where
  "nb_GetSince nb version limit =
     (if version \<in> nbProgress nb then (nb, [])
      else (case nbCache nb version of
        Some ops \<Rightarrow> (nb\<lparr>nbCache := (nbCache nb)(version := None)\<rparr>, ops)
      | None \<Rightarrow> (nb\<lparr>nbProgress := {version} \<union> nbProgress nb, nbFetches := nbFetches nb @ [(version, limit)]\<rparr>, [])))"

text \<open>The end of a fetch: the goroutine with index \<open>i\<close> stores what it read. Go panics as the store does.\<close>

definition nb_fetch :: "'w Store \<Rightarrow> 'w nonblocking \<Rightarrow> nat \<Rightarrow> 'w nonblocking option" where
  "nb_fetch S nb i = (case nbFetches nb ! i of (version, limit) \<Rightarrow> do {
     r \<leftarrow> st_GetSince S (nbStore nb) version limit;
     let nb = nb\<lparr>nbProgress := nbProgress nb - {version},
                 nbFetches := take i (nbFetches nb) @ drop (Suc i) (nbFetches nb)\<rparr>;
     (case r of
        Inl e \<Rightarrow> Some nb
      | Inr (w, ops) \<Rightarrow> Some (nb\<lparr>nbStore := w, nbCache := (nbCache nb)(version \<mapsto> ops)\<rparr>)) })"

definition nb_Append :: "'w Store \<Rightarrow> 'w nonblocking \<Rightarrow> op list \<Rightarrow> 'w nonblocking \<times> string option" where
  "nb_Append S nb ops = (case st_Append S (nbStore nb) ops of (w, e) \<Rightarrow> (nb\<lparr>nbStore := w\<rparr>, e))"

datatype nb_event = Hit int "op list" | Miss int | Fetched int "op list" | FetchFailed int | Stored

inductive nb_step :: "'w Store \<Rightarrow> 'w nonblocking \<Rightarrow> nb_event \<Rightarrow> 'w nonblocking \<Rightarrow> bool" for S where
  hit: "v \<notin> nbProgress nb \<Longrightarrow> nbCache nb v = Some ops \<Longrightarrow> nb_GetSince nb v l = (nb', ops) \<Longrightarrow> nb_step S nb (Hit v ops) nb'"
| miss: "v \<in> nbProgress nb \<or> nbCache nb v = None \<Longrightarrow> nb_GetSince nb v l = (nb', ops) \<Longrightarrow> nb_step S nb (Miss v) nb'"
| fetched: "i < length (nbFetches nb) \<Longrightarrow> nbFetches nb ! i = (v, l) \<Longrightarrow> st_GetSince S (nbStore nb) v l = ok (w, ops) \<Longrightarrow>
    nb_fetch S nb i = Some nb' \<Longrightarrow> nb_step S nb (Fetched v ops) nb'"
| fetch_failed: "i < length (nbFetches nb) \<Longrightarrow> nbFetches nb ! i = (v, l) \<Longrightarrow> st_GetSince S (nbStore nb) v l = err e \<Longrightarrow>
    nb_fetch S nb i = Some nb' \<Longrightarrow> nb_step S nb (FetchFailed v) nb'"
| stored: "nb_Append S nb ops = (nb', e) \<Longrightarrow> nb_step S nb Stored nb'"

inductive nb_run :: "'w Store \<Rightarrow> 'w nonblocking \<Rightarrow> nb_event list \<Rightarrow> 'w nonblocking \<Rightarrow> bool" for S nb where
  nb_start: "nb_run S nb [] nb"
| nb_next: "nb_run S nb tr nb1 \<Longrightarrow> nb_step S nb1 e nb2 \<Longrightarrow> nb_run S nb (tr @ [e]) nb2"

text \<open>What was fetched for a version, and what was handed out.\<close>

fun fetches_of :: "int \<Rightarrow> nb_event list \<Rightarrow> op list list" where
  "fetches_of v [] = []"
| "fetches_of v (Fetched u ops # tr) = (if u = v then ops # fetches_of v tr else fetches_of v tr)"
| "fetches_of v (_ # tr) = fetches_of v tr"

fun hits_of :: "int \<Rightarrow> nb_event list \<Rightarrow> op list list" where
  "hits_of v [] = []"
| "hits_of v (Hit u ops # tr) = (if u = v then ops # hits_of v tr else hits_of v tr)"
| "hits_of v (_ # tr) = hits_of v tr"

lemma fetches_of_append [simp]: "fetches_of v (xs @ ys) = fetches_of v xs @ fetches_of v ys"
  by (induction v xs rule: fetches_of.induct) auto

lemma hits_of_append [simp]: "hits_of v (xs @ ys) = hits_of v xs @ hits_of v ys"
  by (induction v xs rule: hits_of.induct) auto

definition nb_inv :: "nb_event list \<Rightarrow> 'w nonblocking \<Rightarrow> bool" where
  "nb_inv tr nb \<longleftrightarrow> distinct (map fst (nbFetches nb)) \<and> nbProgress nb = fst ` set (nbFetches nb)
     \<and> (\<forall>v \<in> nbProgress nb. nbCache nb v = None)
     \<and> (\<forall>v. fetches_of v tr = hits_of v tr @ (case nbCache nb v of None \<Rightarrow> [] | Some ops \<Rightarrow> [ops]))"

lemma remove_nth_fst:
  assumes "distinct (map fst xs)" "i < length xs" "xs ! i = (v, l)"
  shows "distinct (map fst (take i xs @ drop (Suc i) xs)) \<and> fst ` set (take i xs @ drop (Suc i) xs) = fst ` set xs - {v}"
proof -
  have split: "distinct (map fst (as @ bs)) \<and> fst ` set (as @ bs) = fst ` set (as @ (v, l) # bs) - {v}"
    if "distinct (map fst (as @ (v, l) # bs))" for as bs :: "('a \<times> 'b) list"
    using that by auto
  have "xs = take i xs @ (v, l) # drop (Suc i) xs" using id_take_nth_drop [OF assms(2)] assms(3) by simp
  then show ?thesis using split [of "take i xs" "drop (Suc i) xs"] assms(1) by simp
qed

lemma nb_step_inv: "nb_step S nb e nb' \<Longrightarrow> nb_inv tr nb \<Longrightarrow> nb_inv (tr @ [e]) nb'"
proof (induction rule: nb_step.induct)
  case (hit v nb ops l nb')
  then have "nb' = nb\<lparr>nbCache := (nbCache nb)(v := None)\<rparr>" by (simp add: nb_GetSince_def)
  then show ?case using hit.hyps(1,2) hit.prems by (simp add: nb_inv_def)
next
  case (miss v nb l nb' ops)
  show ?case
  proof (cases "v \<in> nbProgress nb")
    case True
    then show ?thesis using miss by (simp add: nb_inv_def nb_GetSince_def)
  next
    case False
    then have "nb' = nb\<lparr>nbProgress := {v} \<union> nbProgress nb, nbFetches := nbFetches nb @ [(v, l)]\<rparr>"
      using miss.hyps by (auto simp: nb_GetSince_def)
    then show ?thesis using miss.hyps(1) miss.prems False by (simp add: nb_inv_def)
  qed
next
  case (fetched i nb v l w ops nb')
  note f = remove_nth_fst [OF _ fetched.hyps(1,2)]
  have "nb' = nb\<lparr>nbProgress := nbProgress nb - {v}, nbFetches := take i (nbFetches nb) @ drop (Suc i) (nbFetches nb),
     nbStore := w, nbCache := (nbCache nb)(v \<mapsto> ops)\<rparr>"
    using fetched.hyps(2-4) by (simp add: nb_fetch_def Let_def)
  moreover have "v \<in> nbProgress nb" using fetched.hyps(1,2) fetched.prems by (force simp: nb_inv_def in_set_conv_nth)
  ultimately show ?case using fetched.prems f by (auto simp: nb_inv_def)
next
  case (fetch_failed i nb v l e nb')
  note f = remove_nth_fst [OF _ fetch_failed.hyps(1,2)]
  have "nb' = nb\<lparr>nbProgress := nbProgress nb - {v}, nbFetches := take i (nbFetches nb) @ drop (Suc i) (nbFetches nb)\<rparr>"
    using fetch_failed.hyps(2-4) by (simp add: nb_fetch_def Let_def)
  then show ?case using fetch_failed.prems f by (auto simp: nb_inv_def)
next
  case (stored nb ops nb' e)
  then obtain w where "nb' = nb\<lparr>nbStore := w\<rparr>" by (auto simp: nb_Append_def split: prod.splits)
  then show ?case using stored.prems by (simp add: nb_inv_def)
qed

lemma nb_run_inv: "nb_run S (NonBlocking w) tr nb \<Longrightarrow> nb_inv tr nb"
  by (induction rule: nb_run.induct) (auto simp: nb_step_inv, simp add: nb_inv_def NonBlocking_def)

section \<open>Waiting for the next Append\<close>

text \<open>
  The poller. A channel of a waiting reader is a number, \<open>poSent\<close> are the channels that hold a
  value. The critical sections are functions; a reader goes through them one at a time.
\<close>

record 'w poller =
  poStore :: 'w
  poWaiters :: "nat set"
  poSent :: "nat set"
  poFresh :: nat

definition Polled :: "'w \<Rightarrow> 'w poller" where
  "Polled w = \<lparr>poStore = w, poWaiters = {}, poSent = {}, poFresh = 0\<rparr>"

definition wake_all :: "'w poller \<Rightarrow> 'w poller" where
  "wake_all p = p\<lparr>poSent := poSent p \<union> poWaiters p, poWaiters := {}\<rparr>"

definition poller_Append :: "'w Store \<Rightarrow> 'w poller \<Rightarrow> op list \<Rightarrow> 'w poller \<times> string option" where
  "poller_Append S p ops = (case st_Append S (poStore p) ops of
     (w, None) \<Rightarrow> (wake_all (p\<lparr>poStore := w\<rparr>), None)
   | (w, Some e) \<Rightarrow> (p\<lparr>poStore := w\<rparr>, Some e))"

definition poller_Close :: "'w poller \<Rightarrow> 'w poller" where
  "poller_Close p = wake_all p"

definition poll_register :: "'w poller \<Rightarrow> 'w poller \<times> nat" where
  "poll_register p = (p\<lparr>poWaiters := {poFresh p} \<union> poWaiters p, poFresh := poFresh p + 1\<rparr>, poFresh p)"

definition poll_remove :: "'w poller \<Rightarrow> nat \<Rightarrow> 'w poller" where
  "poll_remove p ch = p\<lparr>poWaiters := poWaiters p - {ch}\<rparr>"

text \<open>Where a reader is in GetSince.\<close>

datatype reader = Reading | Registering | Waiting nat | Woken nat bool | Rereading | Returned "op list" "string option"

text \<open>The next step of a reader; \<open>expired\<close> says that its deadline has passed. None: it has to wait.\<close>

definition read_store :: "'w Store \<Rightarrow> 'w poller \<Rightarrow> int \<Rightarrow> int \<Rightarrow> ('w poller \<times> (string + op list)) option" where
  "read_store S p version limit = do {
     r \<leftarrow> st_GetSince S (poStore p) version limit;
     Some (case r of Inl e \<Rightarrow> (p, Inl e) | Inr (w, ops) \<Rightarrow> (p\<lparr>poStore := w\<rparr>, Inr ops)) }"

fun poller_GetSince :: "'w Store \<Rightarrow> int \<Rightarrow> int \<Rightarrow> bool \<Rightarrow> bool \<Rightarrow> 'w poller \<Rightarrow> reader \<Rightarrow> ('w poller \<times> reader) option" where
  "poller_GetSince S version limit deadline expired p Reading = do {
     (p, r) \<leftarrow> read_store S p version limit;
     Some (case r of
        Inl e \<Rightarrow> (p, Returned [] (Some e))
      | Inr ops \<Rightarrow> (p, if deadline \<and> ops = [] then Registering else Returned ops None)) }"
| "poller_GetSince S version limit deadline expired p Registering =
     (case poll_register p of (p, ch) \<Rightarrow> Some (p, Waiting ch))"
| "poller_GetSince S version limit deadline expired p (Waiting ch) =
     (if ch \<in> poSent p then Some (p\<lparr>poSent := poSent p - {ch}\<rparr>, Woken ch expired)
      else if expired then Some (p, Woken ch True) else None)"
| "poller_GetSince S version limit deadline expired p (Woken ch late) =
     Some (poll_remove p ch, if late \<or> expired then Returned [] None else Rereading)"
| "poller_GetSince S version limit deadline expired p Rereading = do {
     (p, r) \<leftarrow> read_store S p version limit;
     Some (case r of Inl e \<Rightarrow> (p, Returned [] (Some e)) | Inr ops \<Rightarrow> (p, Returned ops None)) }"
| "poller_GetSince S version limit deadline expired p (Returned ops e) = None"

text \<open>
  A channel holds at most one value: a channel that was sent to is no longer among the waiters, so
  Append never blocks on a full channel.
\<close>

definition poller_inv :: "'w poller \<Rightarrow> bool" where
  "poller_inv p \<longleftrightarrow> poWaiters p \<inter> poSent p = {} \<and> (\<forall>ch \<in> poWaiters p \<union> poSent p. ch < poFresh p)"

lemma read_store_channels:
  "read_store S p version limit = Some (p', r) \<Longrightarrow> poWaiters p' = poWaiters p \<and> poSent p' = poSent p \<and> poFresh p' = poFresh p"
proof (cases "st_GetSince S (poStore p) version limit")
  case (Some x)
  then show "read_store S p version limit = Some (p', r) \<Longrightarrow> ?thesis" by (cases x) (auto simp: read_store_def)
qed (simp add: read_store_def)

lemma poller_inv_steps:
  "poller_inv (Polled w)"
  "poller_inv p \<Longrightarrow> poller_inv (fst (poller_Append S p ops))"
  "poller_inv p \<Longrightarrow> poller_inv (poller_Close p)"
  "poller_inv p \<Longrightarrow> poller_GetSince S version limit deadline expired p rd = Some (p', rd') \<Longrightarrow> poller_inv p'"
proof -
  show "poller_inv (Polled w)" by (simp add: poller_inv_def Polled_def)
  show "poller_inv p \<Longrightarrow> poller_inv (fst (poller_Append S p ops))"
    by (auto simp: poller_inv_def poller_Append_def wake_all_def split: prod.splits option.splits)
  show "poller_inv p \<Longrightarrow> poller_inv (poller_Close p)" by (auto simp: poller_inv_def poller_Close_def wake_all_def)
  assume i: "poller_inv p" "poller_GetSince S version limit deadline expired p rd = Some (p', rd')"
  show "poller_inv p'"
  proof (cases rd)
    case Registering
    then have "poWaiters p' = {poFresh p} \<union> poWaiters p" "poSent p' = poSent p" "poFresh p' = Suc (poFresh p)"
      using i(2) by (auto simp: poll_register_def)
    moreover have "poFresh p \<notin> poSent p" using i(1) by (auto simp: poller_inv_def)
    ultimately show ?thesis using i(1) unfolding poller_inv_def by (simp add: less_Suc_eq)
  next
    case Reading
    then obtain r where "read_store S p version limit = Some (p', r)"
      using i(2) by (cases "read_store S p version limit") (auto split: sum.split_asm)
    then show ?thesis using i(1) read_store_channels [of S p] by (simp add: poller_inv_def)
  next
    case Rereading
    then obtain r where "read_store S p version limit = Some (p', r)"
      using i(2) by (cases "read_store S p version limit") (auto split: sum.split_asm)
    then show ?thesis using i(1) read_store_channels [of S p] by (simp add: poller_inv_def)
  next
    case (Waiting ch)
    then show ?thesis using i by (auto simp: poller_inv_def split: if_splits)
  next
    case (Woken ch late)
    then show ?thesis using i by (auto simp: poller_inv_def poll_remove_def)
  qed (use i in simp)
qed

end
