(* ===== verification/Dot_Strings.thy ===== *)
theory Dot_Strings
  imports Dot_Prelude
begin

text \<open>
  Numbers as text: \<open>strconv.Itoa\<close>, \<open>strconv.Atoi\<close>, \<open>big.Int.Text\<close> and
  \<open>SetString\<close> for a base up to 62, \<open>strings.Split\<close>, and the lemmas that reading undoes
  writing.
\<close>

section \<open>Digits\<close>

definition digit :: "nat \<Rightarrow> char" where
  "digit d = char_of (if d < 10 then 48 + d else if d < 36 then 87 + d else 29 + d)"

definition undigit :: "char \<Rightarrow> nat option" where
  "undigit c = (let k = of_char c in
     if 48 \<le> k \<and> k < 58 then Some (k - 48)
     else if 97 \<le> k \<and> k < 123 then Some (k - 87)
     else if 65 \<le> k \<and> k < 91 then Some (k - 29) else None)"

lemma undigit_digit: "d < 62 \<Longrightarrow> undigit (digit d) = Some d"
  by (auto simp: undigit_def digit_def Let_def of_char_of)

lemma digit_no_sign: "d < 62 \<Longrightarrow> digit d \<noteq> CHR ''-'' \<and> digit d \<noteq> CHR ''+'' \<and> digit d \<noteq> CHR '',''"
  using undigit_digit [of d] by (auto simp: undigit_def)

fun text_nat :: "nat \<Rightarrow> nat \<Rightarrow> string" where
  "text_nat b k = (if b < 2 \<or> k < b then [digit k] else text_nat b (k div b) @ [digit (k mod b)])"

declare text_nat.simps [simp del]

fun parse_nat :: "nat \<Rightarrow> nat \<Rightarrow> string \<Rightarrow> nat option" where
  "parse_nat b acc [] = Some acc"
| "parse_nat b acc (c # cs) = do { d \<leftarrow> undigit c; if d < b then parse_nat b (b * acc + d) cs else None }"

lemma parse_nat_append: "parse_nat b acc (xs @ ys) = parse_nat b acc xs \<bind> (\<lambda>a. parse_nat b a ys)"
  by (induction xs arbitrary: acc) (auto simp: Option.bind_assoc intro!: Option.bind_cong)

lemma parse_text_nat: "2 \<le> b \<Longrightarrow> b \<le> 62 \<Longrightarrow> parse_nat b 0 (text_nat b k) = Some k"
proof (induction k rule: less_induct)
  case (less k)
  show ?case
  proof (cases "k < b")
    case True
    then show ?thesis using less.prems by (simp add: text_nat.simps [of b k] undigit_digit)
  next
    case False
    have "k mod b < b" "k mod b < 62" using less.prems mod_less_divisor [of b k] by linarith+
    moreover have "k div b < k" using less.prems False by (intro div_less_dividend) auto
    ultimately show ?thesis
      using less.IH [of "k div b"] less.prems False by (simp add: text_nat.simps [of b k] parse_nat_append undigit_digit)
  qed
qed

lemma text_nat_chars: "2 \<le> b \<Longrightarrow> b \<le> 62 \<Longrightarrow> c \<in> set (text_nat b k) \<Longrightarrow> c \<noteq> CHR ''-'' \<and> c \<noteq> CHR ''+'' \<and> c \<noteq> CHR '',''"
proof (induction k rule: less_induct)
  case (less k)
  show ?case
  proof (cases "k < b")
    case True
    then show ?thesis using less.prems digit_no_sign [of k] by (simp add: text_nat.simps [of b k])
  next
    case False
    have m: "k mod b < 62" using less.prems(1,2) mod_less_divisor [of b k] by linarith
    have d: "k div b < k" using less.prems(1) False by (intro div_less_dividend) auto
    have "c \<in> set (text_nat b (k div b)) \<or> c = digit (k mod b)"
      using less.prems(1,3) False by (auto simp: text_nat.simps [of b k] not_less)
    then show ?thesis using less.IH [OF d less.prems(1,2)] digit_no_sign [OF m] by auto
  qed
qed

lemma text_nat_Nil [simp]: "text_nat b k \<noteq> []"
  by (simp add: text_nat.simps [of b k])

section \<open>Integers\<close>

definition text_int :: "nat \<Rightarrow> int \<Rightarrow> string" where
  "text_int b i = (if i < 0 then CHR ''-'' # text_nat b (nat (- i)) else text_nat b (nat i))"

definition parse_int :: "nat \<Rightarrow> string \<Rightarrow> int option" where
  "parse_int b s = (case s of
     [] \<Rightarrow> None
   | c # cs \<Rightarrow>
       if c = CHR ''-'' then (if cs = [] then None else map_option (\<lambda>k. - int k) (parse_nat b 0 cs))
       else if c = CHR ''+'' then (if cs = [] then None else map_option int (parse_nat b 0 cs))
       else map_option int (parse_nat b 0 (c # cs)))"

lemma parse_text_int: "2 \<le> b \<Longrightarrow> b \<le> 62 \<Longrightarrow> parse_int b (text_int b i) = Some i"
proof (cases "i < 0")
  case False
  assume b: "2 \<le> b" "b \<le> 62"
  obtain c cs where c: "text_nat b (nat i) = c # cs" by (cases "text_nat b (nat i)") simp_all
  then have "c \<noteq> CHR ''-''" "c \<noteq> CHR ''+''" using text_nat_chars [OF b, of c "nat i"] by simp_all
  then show ?thesis using False c parse_text_nat [OF b, of "nat i"] by (simp add: text_int_def parse_int_def)
qed (simp add: text_int_def parse_int_def parse_text_nat)

lemma text_int_no_comma: "2 \<le> b \<Longrightarrow> b \<le> 62 \<Longrightarrow> CHR '','' \<notin> set (text_int b i)"
  using text_nat_chars by (auto simp: text_int_def)

definition Itoa :: "int \<Rightarrow> string" where
  "Itoa i = text_int 10 i"

definition Atoi :: "string \<Rightarrow> int option" where
  "Atoi s = parse_int 10 s"

section \<open>Splitting\<close>

fun Split :: "string \<Rightarrow> char \<Rightarrow> string list" where
  "Split [] sep = [[]]"
| "Split (c # cs) sep = (if c = sep then [] # Split cs sep
     else (case Split cs sep of [] \<Rightarrow> [[c]] | p # ps \<Rightarrow> (c # p) # ps))"

lemma Split_last: "sep \<notin> set s \<Longrightarrow> Split s sep = [s]"
  by (induction s) auto

lemma Split_sep: "sep \<notin> set s \<Longrightarrow> Split (s @ sep # r) sep = s # Split r sep"
  by (induction s) auto

end
