(* ===== verification/Dot_Session.thy ===== *)
theory Dot_Session
  imports Dot_Reliable Dot_Polling Dot_Streams Dot_Strings
begin

text \<open>
  Package \<open>ops/sync\<close>: the session that keeps a stream in step with a store
  (\<open>session.go\<close>, \<open>sync.go\<close>), its configuration (\<open>config.go\<close>) and the client
  session that remembers its state (\<open>client.go\<close>).

  The state of a session holds the heap of its stream and the world of its store. IDs come from
  a random source, so \<open>newID\<close> is an argument of push: an error or a fresh ID.
\<close>

section \<open>Configuration\<close>

record Config =
  AutoTransform :: bool
  NonBlockingFlag :: bool
  cfgVersion :: int
  cfgPending :: "op list"
  cfgMergeChain :: "op list"
  cfgCache :: session_cache

type_synonym config_option = "Config \<Rightarrow> Config"

definition WithSession :: "int \<Rightarrow> op list \<Rightarrow> op list \<Rightarrow> config_option" where
  "WithSession version pending mergeChain c =
     c\<lparr>cfgVersion := version, cfgPending := pending, cfgMergeChain := mergeChain\<rparr>"

definition WithAutoTransform :: "session_cache \<Rightarrow> config_option" where
  "WithAutoTransform cache c = c\<lparr>AutoTransform := True, cfgCache := cache\<rparr>"

definition WithNonBlocking :: "bool \<Rightarrow> config_option" where
  "WithNonBlocking nonBlock c = c\<lparr>NonBlockingFlag := nonBlock\<rparr>"

definition default_config :: Config where
  "default_config = \<lparr>AutoTransform = False, NonBlockingFlag = False, cfgVersion = - 1, cfgPending = [], cfgMergeChain = [],
     cfgCache = \<lparr>OpCache = [], MergeCache = []\<rparr>\<rparr>"

section \<open>The session\<close>

type_synonym notification = "int \<times> op list \<times> op list"

record 'w session =
  cfg :: Config
  sheap :: heap
  sstream :: nat
  sout :: "op list"
  sworld :: 'w
  snotified :: "notification list"

definition notify :: "'w session \<Rightarrow> 'w session" where
  "notify s = s\<lparr>snotified := snotified s @ [(cfgVersion (cfg s), cfgPending (cfg s), cfgMergeChain (cfg s))]\<rparr>"

section \<open>The stores of a stream\<close>

text \<open>
  \<open>sync.Stream\<close> wraps the store it is given: in a transformer, when \<open>AutoTransform\<close> is set, then in a
  reliable store and, when \<open>NonBlocking\<close> is set, in a non-blocking one. The world of the session
  has all layers; a layer that is not configured is passed through. The goroutines of the layers are
  steps of their own, in \<open>Dot_Reliable\<close>, \<open>Dot_Polling\<close> and \<open>Dot_System\<close>.
\<close>

definition sync_Raw :: "nat \<Rightarrow> nat \<Rightarrow> Config \<Rightarrow> 'w Store \<Rightarrow> ('w \<times> session_cache) Store" where
  "sync_Raw fuel n c S = (if AutoTransform c then Transformed fuel n session_cache_ops S
     else \<lparr>st_Append = Transformed_Append S,
           st_GetSince = (\<lambda>(w, k) version limit. andThen (st_GetSince S w version limit) (\<lambda>(w, ops). ok ((w, k), ops)))\<rparr>)"

text \<open>
  The reliable store as a store. Append returns as soon as there is room in the channel; while there is
  none it waits, and the session takes no step. GetSince retries until it has a result: \<open>None\<close> is a call that has not
  returned yet, and the read that counts is the last one. The context of a session is never done.
\<close>

definition Reliable_Append :: "'w reliable \<Rightarrow> op list \<Rightarrow> 'w reliable \<times> string option" where
  "Reliable_Append r ops = (case reliable_Append r ops of Some r \<Rightarrow> (r, None) | None \<Rightarrow> (r, Some ''waiting for room''))"

definition Reliable_GetSince :: "'w Store \<Rightarrow> 'w reliable \<Rightarrow> int \<Rightarrow> int \<Rightarrow> ('w reliable \<times> op list) result" where
  "Reliable_GetSince S r version limit = do {
     x \<leftarrow> st_GetSince S (relStore r) version limit;
     (result, e) \<leftarrow> reliable_GetSince [(map_sum (\<lambda>e. e) snd x, None, None)];
     Some (Inr (case x of Inl e \<Rightarrow> r | Inr (w, ops) \<Rightarrow> r\<lparr>relStore := w\<rparr>, result)) }"

definition Reliable :: "'w Store \<Rightarrow> 'w reliable Store" where
  "Reliable S = \<lparr>st_Append = Reliable_Append, st_GetSince = Reliable_GetSince S\<rparr>"

definition sync_Store :: "nat \<Rightarrow> nat \<Rightarrow> Config \<Rightarrow> 'w Store \<Rightarrow> ('w \<times> session_cache) reliable nonblocking Store" where
  "sync_Store fuel n c S = (let R = Reliable (sync_Raw fuel n c S) in
     \<lparr>st_Append = nb_Append R,
      st_GetSince = (if NonBlockingFlag c then (\<lambda>nb version limit. ok (nb_GetSince nb version limit))
        else (\<lambda>nb version limit. andThen (st_GetSince R (nbStore nb) version limit) (\<lambda>(r, ops). ok (nb\<lparr>nbStore := r\<rparr>, ops))))\<rparr>)"

text \<open>\<open>sync.Stream\<close>: the options are applied in order, the pending operations are sent again.\<close>

definition sync_Stream :: "'w \<Rightarrow> config_option list \<Rightarrow> ('w \<times> session_cache) reliable nonblocking session" where
  "sync_Stream w opts =
     (let c = foldl (\<lambda>c opt. opt c) default_config opts; (h, st) = New [] in
      \<lparr>cfg = c, sheap = h, sstream = st, sout = cfgPending c, sworld = NonBlocking (newReliable (w, cfgCache c)), snotified = []\<rparr>)"

section \<open>Push and pull\<close>

definition appendChange :: "string + key \<Rightarrow> 'w session \<Rightarrow> change option \<Rightarrow> 'w session \<times> string option" where
  "appendChange newID s c =
     (if c = None then (s, None)
      else (case newID of
        Inl e \<Rightarrow> (s, Some e)
      | Inr i \<Rightarrow>
          (let p = cfgPending (cfg s);
               x = \<lparr>opID = i, opParent = (if p \<noteq> [] then Some (opID (last p)) else None),
                    opVersion = 0, opBasis = cfgVersion (cfg s), opChange = c\<rparr>;
               s = s\<lparr>cfg := (cfg s)\<lparr>cfgPending := p @ [x], cfgMergeChain := cfgMergeChain (cfg s) @ [x]\<rparr>,
                     sout := sout s @ [x]\<rparr>
           in (notify s, None))))"

definition session_push :: "nat \<Rightarrow> 'w Store \<Rightarrow> string + key \<Rightarrow> 'w session \<Rightarrow> ('w session \<times> string option) option" where
  "session_push n S newID s = do {
     (stream, c) \<leftarrow> Latest (plain n) (sheap s) (sstream s);
     let (s, e) = appendChange newID (s\<lparr>sstream := stream\<rparr>) c;
     if sout s \<noteq> [] \<and> e = None
     then (let (w, e) = st_Append S (sworld s) (sout s) in
           Some (if e = None then s\<lparr>sworld := w, sout := []\<rparr> else s\<lparr>sworld := w\<rparr>, e))
     else Some (s, e) }"

text \<open>The inner loop of pull: the operation goes through the merge chain.\<close>

fun pull_chain :: "nat \<Rightarrow> op \<Rightarrow> op list \<Rightarrow> (op \<times> op list) option" where
  "pull_chain n x [] = Some (x, [])"
| "pull_chain n x (pending # chain) = do {
     (pc, oc) \<leftarrow> Merge n (opChange x) (opChange pending);
     (x, chain) \<leftarrow> pull_chain n (WithChanges x oc) chain;
     Some (x, WithChanges pending pc # chain) }"

text \<open>
  The loop of pull over the fetched operations: the state, and the error that ended it. An own
  operation that comes back is taken off both lists; Go panics when there is no merge chain left.
\<close>

definition pull_step :: "nat \<Rightarrow> 'w session \<Rightarrow> op \<Rightarrow> 'w session option" where
  "pull_step n s x =
     (let c = cfg s; v = cfgVersion c + 1 in
      if cfgPending c \<noteq> [] \<and> opID (hd (cfgPending c)) = opID x
      then (if cfgMergeChain c = [] then None
            else Some (s\<lparr>cfg := c\<lparr>cfgPending := tl (cfgPending c), cfgMergeChain := tl (cfgMergeChain c), cfgVersion := v\<rparr>\<rparr>))
      else do {
        (x, chain) \<leftarrow> pull_chain n x (cfgMergeChain c);
        (h, st) \<leftarrow> stream_ReverseAppend n (sheap s) (sstream s) (opChange x);
        Some (s\<lparr>cfg := c\<lparr>cfgMergeChain := chain, cfgVersion := v\<rparr>, sheap := h, sstream := st\<rparr>) })"

text \<open>The message of a version that does not follow.\<close>

definition verMismatchError :: "int \<Rightarrow> int \<Rightarrow> string" where
  "verMismatchError got expected = ''version mismatched: '' @ Itoa got @ '' (expected '' @ Itoa expected @ '')''"

fun pull_loop :: "nat \<Rightarrow> 'w session \<Rightarrow> op list \<Rightarrow> ('w session \<times> string option) option" where
  "pull_loop n s [] = Some (s, None)"
| "pull_loop n s (x # ops) =
     (if opVersion x \<noteq> cfgVersion (cfg s) + 1 then Some (s, Some (verMismatchError (opVersion x) (cfgVersion (cfg s) + 1)))
      else do { s \<leftarrow> pull_step n s x; pull_loop n s ops })"

definition session_pull :: "nat \<Rightarrow> 'w Store \<Rightarrow> 'w session \<Rightarrow> ('w session \<times> string option) option" where
  "session_pull n S s = do {
     r \<leftarrow> st_GetSince S (sworld s) (cfgVersion (cfg s) + 1) 1000;
     (case r of
        Inl e \<Rightarrow> Some (s, Some e)
      | Inr (w, ops) \<Rightarrow> do {
          (s1, e) \<leftarrow> pull_loop n (s\<lparr>sworld := w\<rparr>) ops;
          if e \<noteq> None then Some (s1, e)
          else Some (if cfgVersion (cfg s1) > cfgVersion (cfg s) then notify s1 else s1, None) }) }"

text \<open>The stream of a session: a node of its heap, with Push and Pull of the session.\<close>

definition sync_Append :: "nat \<Rightarrow> 'w session \<Rightarrow> nat \<Rightarrow> change option \<Rightarrow> ('w session \<times> nat) option" where
  "sync_Append n s st c = do { (h, st) \<leftarrow> stream_Append n (sheap s) st c; Some (s\<lparr>sheap := h\<rparr>, st) }"

definition sync_ReverseAppend :: "nat \<Rightarrow> 'w session \<Rightarrow> nat \<Rightarrow> change option \<Rightarrow> ('w session \<times> nat) option" where
  "sync_ReverseAppend n s st c = do { (h, st) \<leftarrow> stream_ReverseAppend n (sheap s) st c; Some (s\<lparr>sheap := h\<rparr>, st) }"

definition sync_Next :: "'w session \<Rightarrow> nat \<Rightarrow> (nat \<times> change option) option option" where
  "sync_Next s st = Some (stream_Next (sheap s) st)"

definition sync_stream :: "nat \<Rightarrow> 'w Store \<Rightarrow> string + key \<Rightarrow> ('w session, nat) Stream" where
  "sync_stream n S newID = \<lparr>Append = sync_Append n, ReverseAppend = sync_ReverseAppend n, Next = sync_Next,
     Push = (\<lambda>s st. session_push n S newID s), Pull = (\<lambda>s st. session_pull n S s),
     Undo = (\<lambda>s st. Some s), Redo = (\<lambda>s st. Some s)\<rparr>"

text \<open>The client session that is notified: \<open>Session\<close> of \<open>client.go\<close>.\<close>

record Session =
  seVersion :: int
  sePending :: "op list"
  seMerge :: "op list"
  seCache :: session_cache

definition NewSession :: Session where
  "NewSession = \<lparr>seVersion = - 1, sePending = [], seMerge = [], seCache = \<lparr>OpCache = [], MergeCache = []\<rparr>\<rparr>"

definition UpdateVersion :: "Session \<Rightarrow> notification \<Rightarrow> Session" where
  "UpdateVersion s nt = (case nt of (version, pending, merge) \<Rightarrow>
     s\<lparr>seVersion := version, sePending := pending, seMerge := merge\<rparr>)"

definition Session_Stream :: "'w \<Rightarrow> Session \<Rightarrow> ('w \<times> session_cache) reliable nonblocking session" where
  "Session_Stream w s = sync_Stream w [WithSession (seVersion s) (sePending s) (seMerge s), WithAutoTransform (seCache s)]"

definition NonBlockingStream :: "'w \<Rightarrow> Session \<Rightarrow> ('w \<times> session_cache) reliable nonblocking session" where
  "NonBlockingStream w s =
     sync_Stream w [WithSession (seVersion s) (sePending s) (seMerge s), WithAutoTransform (seCache s), WithNonBlocking True]"

section \<open>A session is a stream\<close>

interpretation ses: stream_family "sync_stream n S newID" "\<lambda>s. heap_ok (sheap s)" "\<lambda>s. chase (sheap s)"
  "\<lambda>s a. length (sheap s) - a" for n S newID
proof unfold_locales
  fix w :: "'a session" and s v k f t c
  show "heap_ok (sheap w) \<Longrightarrow> chase (sheap w) s v = Some (k, f) \<Longrightarrow> Next (sync_stream n S newID) w s \<noteq> None"
    by (simp add: sync_stream_def sync_Next_def)
  show "heap_ok (sheap w) \<Longrightarrow> chase (sheap w) s v = Some (k, f) \<Longrightarrow>
      Next (sync_stream n S newID) w s = Some None \<Longrightarrow> f = v"
    using list.Next_end [of "sheap w" s v k f n] by (auto simp: sync_stream_def sync_Next_def plain_def)
  show "heap_ok (sheap w) \<Longrightarrow> chase (sheap w) s v = Some (k, f) \<Longrightarrow>
      Next (sync_stream n S newID) w s = Some (Some (t, c)) \<Longrightarrow>
      \<exists>u. Strict v c = Some u \<and> chase (sheap w) t u = Some (k, f) \<and> length (sheap w) - t < length (sheap w) - s"
    using list.Next_step [of "sheap w" s v k f n t c] by (auto simp: sync_stream_def sync_Next_def plain_def)
next
  fix w w' :: "'a session" and s v k f t c u and bw :: bool
  assume g: "heap_ok (sheap w)" "chase (sheap w) s v = Some (k, f)"
    and "(if bw then ReverseAppend (sync_stream n S newID) else Append (sync_stream n S newID)) w s c = Some (w', t)"
  then have a: "(if bw then ReverseAppend (plain n) else Append (plain n)) (sheap w) s c = Some (sheap w', t)"
    by (auto simp: sync_stream_def sync_Append_def sync_ReverseAppend_def plain_def bind_Some_ex split: if_splits)
  show "wf_val v \<Longrightarrow> Strict v c = Some u \<Longrightarrow> heap_ok (sheap w') \<and>
      (\<exists>k' f'. chase (sheap w') t u = Some (k', f') \<and>
        (\<forall>r x. chase (sheap w) r x = Some (k, f) \<longrightarrow> chase (sheap w') r x = Some (k', f')) \<and>
        (\<forall>r x q g. chase (sheap w) r x = Some (q, g) \<longrightarrow> q \<noteq> k \<longrightarrow> chase (sheap w') r x = Some (q, g)))"
    using list.Append_law [OF g _ _ a] by blast
  show "Next (sync_stream n S newID) w s = Some None \<Longrightarrow>
      Next (sync_stream n S newID) w' s = Some (Some (t, c)) \<and> Next (sync_stream n S newID) w' t = Some None"
    using list.Append_end [OF g _ a] by (simp add: sync_stream_def sync_Next_def plain_def)
qed

section \<open>Staying in step\<close>

text \<open>
  A session is in step with the value \<open>v\<close> of the store at its version: its merge chain leads from
  \<open>v\<close> to the value at which its stream was when it pushed last, and from there the stream
  leads to where it leads from its first node, at the value \<open>root\<close> that it started with.
\<close>

definition in_step :: "val \<Rightarrow> val \<Rightarrow> 'w session \<Rightarrow> bool" where
  "in_step root v s \<longleftrightarrow> wf_val v \<and> heap_ok (sheap s) \<and> map opID (cfgPending (cfg s)) = map opID (cfgMergeChain (cfg s))
     \<and> (\<exists>u k f. foldM Strict v (map opChange (cfgMergeChain (cfg s))) = Some u \<and> chase (sheap s) (sstream s) u = Some (k, f)
          \<and> chase (sheap s) 0 root = Some (k, f))"

lemma pull_chain_conv:
  "pull_chain n x chain = Some (x', chain') \<Longrightarrow> wf_val v \<Longrightarrow> Strict v (opChange x) = Some v1 \<Longrightarrow>
     foldM Strict v (map opChange chain) = Some u \<Longrightarrow>
     \<exists>u'. Strict u (opChange x') = Some u' \<and> foldM Strict v1 (map opChange chain') = Some u'
       \<and> map opID chain' = map opID chain"
proof (induction chain arbitrary: x chain' v v1)
  case (Cons p chain)
  obtain pc oc ch where m: "Merge n (opChange x) (opChange p) = Some (pc, oc)"
    "pull_chain n (WithChanges x oc) chain = Some (x', ch)" "chain' = WithChanges p pc # ch"
    using Cons.prems(1) by (auto simp: bind_Some_ex)
  obtain v2 where v2: "Strict v (opChange p) = Some v2" "foldM Strict v2 (map opChange chain) = Some u"
    using Cons.prems(4) by (auto simp: bind_Some_ex)
  obtain w where w: "Strict v1 pc = Some w" "Strict v2 oc = Some w"
    using Merge_converge [OF m(1) Cons.prems(2,3) v2(1)] by (auto simp: converge_def)
  show ?case
    using Cons.IH [OF m(2) Strict_wf [OF v2(1) Cons.prems(2)], of w] v2(2) w m(3) by auto
qed auto

text \<open>
  One step of pull takes a session that is in step with the store to one that is in step with the
  next version, for a foreign operation that fits the store and for an own operation that has there
  the effect it has in the merge chain.
\<close>

lemma pull_step_in_step:
  assumes "pull_step n s x = Some s'" "in_step root v s" "Strict v (opChange x) = Some v'"
    and own: "cfgPending (cfg s) \<noteq> [] \<Longrightarrow> opID (hd (cfgPending (cfg s))) = opID x \<Longrightarrow>
      Strict v (opChange (hd (cfgMergeChain (cfg s)))) = Some v'"
  shows "in_step root v' s' \<and> cfgVersion (cfg s') = cfgVersion (cfg s) + 1"
proof -
  obtain u k f where st: "wf_val v" "heap_ok (sheap s)" "map opID (cfgPending (cfg s)) = map opID (cfgMergeChain (cfg s))"
    "foldM Strict v (map opChange (cfgMergeChain (cfg s))) = Some u" "chase (sheap s) (sstream s) u = Some (k, f)"
    "chase (sheap s) 0 root = Some (k, f)"
    using assms(2) by (auto simp: in_step_def)
  have wf': "wf_val v'" using Strict_wf [OF assms(3) st(1)] .
  show ?thesis
  proof (cases "cfgPending (cfg s) \<noteq> [] \<and> opID (hd (cfgPending (cfg s))) = opID x")
    case True
    then obtain p ps q qs where l: "cfgPending (cfg s) = p # ps" "cfgMergeChain (cfg s) = q # qs"
      using st(3) by (cases "cfgPending (cfg s)"; cases "cfgMergeChain (cfg s)") auto
    then have "foldM Strict v' (map opChange qs) = Some u" using own True st(4) by simp
    then show ?thesis using assms(1) True l st wf' by (auto simp: pull_step_def in_step_def Let_def)
  next
    case False
    then obtain x1 chain h r where p: "pull_chain n x (cfgMergeChain (cfg s)) = Some (x1, chain)"
      "stream_apply n (sheap s) (sstream s) (opChange x1) True = Some (h, r)"
      "s' = s\<lparr>cfg := (cfg s)\<lparr>cfgMergeChain := chain, cfgVersion := cfgVersion (cfg s) + 1\<rparr>, sheap := h, sstream := r\<rparr>"
      using assms(1) by (auto simp: pull_step_def Let_def bind_Some_ex stream_ReverseAppend_def)
    obtain u' where u': "Strict u (opChange x1) = Some u'" "foldM Strict v' (map opChange chain) = Some u'"
      "map opID chain = map opID (cfgMergeChain (cfg s))"
      using pull_chain_conv [OF p(1) st(1) assms(3) st(4)] by blast
    have "wf_val u" using foldM_Strict_wf [OF st(4,1)] .
    then have "heap_ok h \<and> (\<exists>t' f'. chase h r u' = Some (t', f') \<and> chase h 0 root = Some (t', f'))"
      using stream_apply_spec [OF p(2) st(2,5) _ u'(1)] st(6) by blast
    then show ?thesis using p(3) u' st(3) wf' by (auto simp: in_step_def)
  qed
qed

end
