(* ===== verification/Dot_Transformer.thy ===== *)
theory Dot_Transformer
  imports Dot_Ops
begin

text \<open>
  The transformer against a reference: \<open>xspec\<close> gives the transformed operation and the merge
  chain of the operation with index \<open>k\<close> of a raw log by recursion on \<open>k\<close>, with no cache and
  no store calls. The code computes it with any cache that returns only what was stored, from any
  store that returns the raw log. The reference is then shown to make a raw log into a sequence
  of operations that apply one after the other.
\<close>

section \<open>The contracts of a store and of a cache\<close>

locale op_store =
  fixes S :: "'w Store" and good :: "'w \<Rightarrow> bool" and contents :: "'w \<Rightarrow> op list"
  assumes get: "good w \<Longrightarrow> 0 \<le> v \<Longrightarrow> 0 \<le> limit \<Longrightarrow>
      st_GetSince S w v limit = ok (w, take (nat limit) (drop (nat v) (contents w)))"
    and versions: "good w \<Longrightarrow> i < length (contents w) \<Longrightarrow> opVersion (contents w ! i) = int i"
    and ids: "good w \<Longrightarrow> distinct (map opID (contents w))"
    and append: "good w \<Longrightarrow> st_Append S w xs = (w', None) \<Longrightarrow> good w' \<and>
      (\<exists>ys. contents w' = contents w @ ys \<and> opID ` set (contents w') = opID ` set (contents w) \<union> opID ` set xs)"

locale op_cache =
  fixes C :: "'c Cache"
  assumes load_store: "c_Load C (c_Store C c v x m) u = Some r \<Longrightarrow> c_Load C c u = Some r \<or> u = v \<and> r = (x, m)"

definition mem_ok :: "mem \<Rightarrow> bool" where
  "mem_ok m \<longleftrightarrow> memSeen m = opID ` set (memOps m) \<and> distinct (map opID (memOps m))
     \<and> (\<forall>i < length (memOps m). opVersion (memOps m ! i) = int i)"

lemma mem_Append_loop_ok:
  "mem_ok m \<Longrightarrow> mem_ok (mem_Append_loop m xs) \<and> (\<exists>ys. memOps (mem_Append_loop m xs) = memOps m @ ys
     \<and> opID ` set (memOps (mem_Append_loop m xs)) = opID ` set (memOps m) \<union> opID ` set xs)"
proof (induction m xs rule: mem_Append_loop.induct)
  case (2 m x xs)
  show ?case
  proof (cases "opID x \<in> memSeen m")
    case True
    then show ?thesis using 2(2,3) by (auto simp: mem_ok_def)
  next
    case False
    let ?m = "\<lparr>memOps = memOps m @ [WithVersion x (int (length (memOps m)))], memSeen = {opID x} \<union> memSeen m\<rparr>"
    have "mem_ok ?m" using 2(3) False by (auto simp: mem_ok_def nth_append less_Suc_eq)
    then show ?thesis using 2(1) False by auto
  qed
qed auto

lemma mem_GetSince_slice:
  assumes "0 \<le> v" "0 \<le> limit"
  shows "mem_GetSince m v limit = ok (take (nat limit) (drop (nat v) (memOps m)))"
  using assms by (auto simp: mem_GetSince_def goslice_def nat_diff_distrib nat_le_iff min_def not_less)

interpretation mem_st: op_store mem_store mem_ok memOps
proof unfold_locales
  fix w w' :: mem and v limit :: int and i :: nat and xs :: "op list"
  show "0 \<le> v \<Longrightarrow> 0 \<le> limit \<Longrightarrow> st_GetSince mem_store w v limit = ok (w, take (nat limit) (drop (nat v) (memOps w)))"
    by (simp add: mem_store_def mem_GetSince_slice)
  show "mem_ok w \<Longrightarrow> i < length (memOps w) \<Longrightarrow> opVersion (memOps w ! i) = int i" by (simp add: mem_ok_def)
  show "mem_ok w \<Longrightarrow> distinct (map opID (memOps w))" by (simp add: mem_ok_def)
  show "mem_ok w \<Longrightarrow> st_Append mem_store w xs = (w', None) \<Longrightarrow> mem_ok w' \<and>
     (\<exists>ys. memOps w' = memOps w @ ys \<and> opID ` set (memOps w') = opID ` set (memOps w) \<union> opID ` set xs)"
    using mem_Append_loop_ok [of w xs] by (auto simp: mem_store_def mem_Append_def)
qed

interpretation null_cache: op_cache nullCache
  by unfold_locales (simp add: nullCache_def)

interpretation session_cache: op_cache session_cache_ops
  by unfold_locales (auto simp: session_cache_ops_def Session_Load_def Session_Store_def update_conv split: option.splits if_splits)

section \<open>The reference\<close>

text \<open>The index of the parent among the operations between the basis and the operation.\<close>

fun find_id :: "key \<Rightarrow> op list \<Rightarrow> nat option" where
  "find_id p [] = None"
| "find_id p (x # xs) = (if opID x = p then Some 0 else map_option Suc (find_id p xs))"

definition parent_index :: "op list \<Rightarrow> nat \<Rightarrow> nat option option" where
  "parent_index rs k = (let x = rs ! k; lo = nat (opBasis x + 1) in
     case opParent x of
       None \<Rightarrow> Some None
     | Some p \<Rightarrow> (case find_id p (take (k - lo) (drop lo rs)) of
         None \<Rightarrow> None
       | Some i \<Rightarrow> Some (Some (lo + i))))"

lemma find_id_less: "find_id p xs = Some i \<Longrightarrow> i < length xs"
  by (induction xs arbitrary: i) (auto split: if_splits)

lemma parent_index_less: "parent_index rs k = Some (Some p) \<Longrightarrow> p < k"
  by (auto simp: parent_index_def Let_def split: option.splits dest!: find_id_less)

definition merge_step :: "nat \<Rightarrow> op \<times> op list \<Rightarrow> op \<Rightarrow> (op \<times> op list) option" where
  "merge_step n xm opx = do { (x, opx) \<leftarrow> xmerge n opx (fst xm); Some (x, snd xm @ [opx]) }"

function xspec :: "nat \<Rightarrow> op list \<Rightarrow> nat \<Rightarrow> (op \<times> op list) option" where
  "xspec n rs k = (let x = rs ! k; lo = nat (opBasis x + 1) in
     case parent_index rs k of
       None \<Rightarrow> None
     | Some None \<Rightarrow>
         foldM (\<lambda>xm j. xspec n rs j \<bind> (\<lambda>(y, _). merge_step n xm y)) (x, []) [lo..<k]
     | Some (Some p) \<Rightarrow> do {
         (_, mp) \<leftarrow> xspec n rs p;
         xm \<leftarrow> foldM (merge_step n) (x, []) (dropWhile (\<lambda>m. opVersion m \<le> opBasis x) mp);
         foldM (\<lambda>xm j. xspec n rs j \<bind> (\<lambda>(y, _). merge_step n xm y)) xm [Suc p..<k] })"
  by pat_completeness auto
termination
  by (relation "measure (\<lambda>(n, rs, k). k)") (auto dest: parent_index_less)

declare xspec.simps [simp del]

definition xop :: "nat \<Rightarrow> op list \<Rightarrow> nat \<Rightarrow> op" where
  "xop n rs j = fst (the (xspec n rs j))"

lemma chain_loop_foldM: "chain_loop n x ms acc = foldM (merge_step n) (x, acc) ms"
  by (induction ms arbitrary: x acc) (auto simp: merge_step_def Option.bind_assoc split: prod.splits intro!: Option.bind_cong)

lemma skip_to_parent_find:
  "skip_to_parent (Some p) xs = (case find_id p xs of None \<Rightarrow> None | Some i \<Rightarrow> Some (drop i xs))"
  by (induction xs) (auto split: option.splits)

section \<open>The code computes the reference\<close>

text \<open>Every operation is based on an earlier version; the first possible basis is \<open>-1\<close>.\<close>

definition basis_ok :: "op list \<Rightarrow> bool" where
  "basis_ok rs \<longleftrightarrow> (\<forall>k < length rs. - 1 \<le> opBasis (rs ! k) \<and> opBasis (rs ! k) < int k)"

text \<open>A cache that only holds what the reference computes.\<close>

definition computed :: "nat \<Rightarrow> op list \<Rightarrow> (int \<Rightarrow> (op \<times> op list) option) \<Rightarrow> bool" where
  "computed n rs load \<longleftrightarrow> (\<forall>v r. load v = Some r \<longrightarrow> 0 \<le> v \<and> v < int (length rs) \<and> xspec n rs (nat v) = Some r)"

locale transformed_store = op_cache C + op_store S good contents
  for C :: "'c Cache" and S :: "'w Store" and good contents
begin

abbreviation cache_ok :: "nat \<Rightarrow> op list \<Rightarrow> 'c \<Rightarrow> bool" where
  "cache_ok n rs c \<equiv> computed n rs (c_Load C c)"

lemma cache_ok_store:
  "cache_ok n rs c \<Longrightarrow> k < length rs \<Longrightarrow> xspec n rs k = Some (x, m) \<Longrightarrow> cache_ok n rs (c_Store C c (int k) x m)"
  unfolding computed_def using load_store by fastforce

definition computes :: "nat \<Rightarrow> op list \<Rightarrow> 'c xform_fun \<Rightarrow> nat \<Rightarrow> bool" where
  "computes n rs xf j \<longleftrightarrow> (\<forall>c y m. cache_ok n rs c \<longrightarrow> xspec n rs j = Some (y, m) \<longrightarrow>
     (\<exists>c'. xf c (rs ! j) = ok (c', y, m) \<and> cache_ok n rs c'))"

lemma xform_loop_spec:
  assumes "foldM (\<lambda>xm j. xspec n rs j \<bind> (\<lambda>(y, _). merge_step n xm y)) (x, m) js = Some (x', m')"
    and "cache_ok n rs c" "\<And>j. j \<in> set js \<Longrightarrow> computes n rs xf j"
  shows "\<exists>c'. xform_loop n xf c (map ((!) rs) js) x m = ok (c', x', m') \<and> cache_ok n rs c'"
  using assms
proof (induction js arbitrary: x m c)
  case (Cons j js)
  obtain y mj x1 opx where s: "xspec n rs j = Some (y, mj)" "xmerge n y x = Some (x1, opx)"
    "foldM (\<lambda>xm j. xspec n rs j \<bind> (\<lambda>(y, _). merge_step n xm y)) (x1, m @ [opx]) js = Some (x', m')"
    using Cons.prems(1) by (auto simp: bind_Some_ex merge_step_def)
  obtain c1 where c1: "xf c (rs ! j) = ok (c1, y, mj)" "cache_ok n rs c1"
    using Cons.prems(2,3) s(1) unfolding computes_def by fastforce
  show ?case using Cons.IH [OF s(3) c1(2)] Cons.prems(3) c1(1) s(2) by auto
qed auto

lemma raw_slice: fixes rs :: "op list" shows "k < length rs \<Longrightarrow> a \<le> k \<Longrightarrow> take (k - a) (drop a rs) = map ((!) rs) [a..<k]"
  by (intro nth_equalityI) auto

lemma xform_spec:
  assumes "good w" "rs = contents w" "basis_ok rs" "k < length rs" "k < fuel"
  shows "computes n rs (xform fuel n C (reads S w)) k"
  using assms(4,5)
proof (induction k arbitrary: fuel rule: less_induct)
  case (less k)
  obtain fuel' where fuel: "fuel = Suc fuel'" using less.prems(2) by (cases fuel) auto
  have IH: "computes n rs (xform fuel' n C (reads S w)) j" if "j < k" for j
    using less.IH [OF that] that less.prems fuel by simp
  let ?x = "rs ! k" and ?lo = "nat (opBasis (rs ! k) + 1)"
  have v: "opVersion ?x = int k" and b: "- 1 \<le> opBasis ?x" "opBasis ?x < int k"
    using versions [OF assms(1), of k] assms(2,3) less.prems(1) by (auto simp: basis_ok_def)
  then have lo: "int ?lo = opBasis ?x + 1" "?lo \<le> k" by auto
  show ?case
    unfolding computes_def
  proof (intro allI impI)
    fix c y m assume c: "cache_ok n rs c" and s: "xspec n rs k = Some (y, m)"
    note sp = s [unfolded xspec.simps [of n rs k] Let_def]
    show "\<exists>c'. xform fuel n C (reads S w) c ?x = ok (c', y, m) \<and> cache_ok n rs c'"
    proof (cases "c_Load C c (int k)")
      case (Some r)
      then have "r = (y, m)" using c s by (cases r) (force simp: computed_def)
      then show ?thesis using Some c v by (simp add: fuel)
    next
      case load: None
      show ?thesis
      proof (cases "opVersion ?x - opBasis ?x - 1 = 0")
        case True
        then have "?lo = k" using v by auto
        then have "opParent ?x = None" "(y, m) = (?x, [])"
          using sp by (auto simp: parent_index_def Let_def split: option.splits)
        then show ?thesis using load v True cache_ok_store [OF c less.prems(1) s] by (simp add: fuel)
      next
        case gap: False
        have ops: "reads S w (opBasis ?x + 1) (opVersion ?x - opBasis ?x - 1) = ok (map ((!) rs) [?lo..<k])"
        proof -
          have "nat (opVersion ?x - opBasis ?x - 1) = k - ?lo" using v b by auto
          then show ?thesis
            using get [OF assms(1), of "opBasis ?x + 1" "opVersion ?x - opBasis ?x - 1"] b v raw_slice [OF less.prems(1) lo(2)] assms(2)
            by (simp add: reads_def)
        qed
        have finish: "\<exists>c'. xform fuel n C (reads S w) c ?x = ok (c', y, m) \<and> cache_ok n rs c'"
          if q: "skip_to_parent (opParent ?x) (map ((!) rs) [?lo..<k]) = Some ps"
            "getMergeChain n (xform fuel' n C (reads S w)) c ?x ps = ok (c1, x1, m1)" "cache_ok n rs c1"
            "foldM (\<lambda>xm j. xspec n rs j \<bind> (\<lambda>(y, _). merge_step n xm y)) (x1, m1) [a..<k] = Some (y, m)"
            "(if opParent ?x \<noteq> None then tl ps else ps) = map ((!) rs) [a..<k]" for ps c1 x1 m1 a
        proof -
          obtain c2 where "xform_loop n (xform fuel' n C (reads S w)) c1 (map ((!) rs) [a..<k]) x1 m1 = ok (c2, y, m)" "cache_ok n rs c2"
            using xform_loop_spec [OF q(4,3)] IH by auto
          then show ?thesis
            using q load gap ops cache_ok_store [OF _ less.prems(1) s, of c2] v by (simp add: fuel Let_def)
        qed
        show ?thesis
        proof (cases "opParent ?x")
          case None
          then show ?thesis
            using finish [of "map ((!) rs) [?lo..<k]" c ?x "[]" ?lo] sp c
            by (simp add: getMergeChain_def parent_index_def Let_def)
        next
          case (Some p)
          obtain i where i: "find_id p (map ((!) rs) [?lo..<k]) = Some i" "parent_index rs k = Some (Some (?lo + i))"
            using sp Some raw_slice [OF less.prems(1) lo(2)] by (auto simp: parent_index_def Let_def split: option.splits)
          have ik: "?lo + i < k" using parent_index_less [OF i(2)] .
          have ps: "drop i (map ((!) rs) [?lo..<k]) = rs ! (?lo + i) # map ((!) rs) [Suc (?lo + i)..<k]"
            using ik by (simp add: drop_map upt_conv_Cons [of "?lo + i"])
          obtain yp mp x1 m1 where m: "xspec n rs (?lo + i) = Some (yp, mp)"
            "foldM (merge_step n) (?x, []) (dropWhile (\<lambda>m. opVersion m \<le> opBasis ?x) mp) = Some (x1, m1)"
            "foldM (\<lambda>xm j. xspec n rs j \<bind> (\<lambda>(y, _). merge_step n xm y)) (x1, m1) [Suc (?lo + i)..<k] = Some (y, m)"
            using sp i(2) by (auto simp: bind_Some_ex)
          obtain c1 where "xform fuel' n C (reads S w) c (rs ! (?lo + i)) = ok (c1, yp, mp)" "cache_ok n rs c1"
            using IH [OF ik] c m(1) unfolding computes_def by blast
          then show ?thesis
            using finish [of _ c1 x1 m1 "Suc (?lo + i)", OF _ _ _ m(3)] m(2) i(1) Some ps
            by (simp add: getMergeChain_def skip_to_parent_find chain_loop_foldM)
        qed
      qed
    qed
  qed
qed

lemma xform_all_spec:
  assumes "good w" "rs = contents w" "basis_ok rs" "cache_ok n rs c" "length rs < fuel"
    and "\<And>j. j \<in> set js \<Longrightarrow> j < length rs \<and> xspec n rs j \<noteq> None"
  shows "\<exists>c'. xform_all (xform fuel n C (reads S w)) c (map ((!) rs) js) = ok (c', map (xop n rs) js) \<and> cache_ok n rs c'"
  using assms(4,6)
proof (induction js arbitrary: c)
  case (Cons j js)
  obtain y m where s: "xspec n rs j = Some (y, m)" "j < length rs" using Cons.prems(2) [of j] by auto
  obtain c1 where c1: "xform fuel n C (reads S w) c (rs ! j) = ok (c1, y, m)" "cache_ok n rs c1"
    using xform_spec [OF assms(1-3) s(2), of fuel n] s(2) assms(5) s(1) Cons.prems(1) unfolding computes_def by force
  show ?case using Cons.IH [OF c1(2)] Cons.prems(2) c1(1) s(1) by (auto simp: xop_def simp del: xform.simps)
qed simp

lemma Transformed_get:
  assumes "good w" "rs = contents w" "basis_ok rs" "cache_ok n rs c" "length rs < fuel"
    and "\<And>j. j < length rs \<Longrightarrow> xspec n rs j \<noteq> None" "0 \<le> v" "0 \<le> limit"
  shows "\<exists>c'. st_GetSince (Transformed fuel n C S) (w, c) v limit
    = ok ((w, c'), map (xop n rs) [nat v..<min (length rs) (nat v + nat limit)]) \<and> cache_ok n rs c'"
proof -
  let ?js = "[nat v..<min (length rs) (nat v + nat limit)]"
  have "take (nat limit) (drop (nat v) rs) = map ((!) rs) ?js" by (rule nth_equalityI) auto
  moreover have "j < length rs \<and> xspec n rs j \<noteq> None" if "j \<in> set ?js" for j using that assms(6) [of j] by simp
  moreover obtain c' where "xform_all (xform fuel n C (reads S w)) c (map ((!) rs) ?js) = ok (c', map (xop n rs) ?js)"
    "cache_ok n rs c'"
    using xform_all_spec [OF assms(1-5), of ?js] calculation(2) by blast
  ultimately show ?thesis
    using get [OF assms(1,7,8)] assms(2) by (simp add: Transformed_def Transformed_GetSince_def)
qed

end

interpretation xf_mem: transformed_store session_cache_ops mem_store mem_ok memOps
  by unfold_locales

interpretation xf_null: transformed_store nullCache mem_store mem_ok memOps
  by unfold_locales

section \<open>The transformed operations apply in sequence\<close>

text \<open>
  The value of the document after the first \<open>k\<close> transformed operations, and the value a raw
  operation was made for: for an operation without parent the value after its basis; for one with
  a parent the value of the client after the parent and after the operations of the parent's merge
  chain up to its basis.
\<close>

fun server :: "nat \<Rightarrow> op list \<Rightarrow> val \<Rightarrow> nat \<Rightarrow> val option" where
  "server n rs v0 0 = Some v0"
| "server n rs v0 (Suc k) = do {
     v \<leftarrow> server n rs v0 k; (x, _) \<leftarrow> xspec n rs k; Strict v (opChange x) }"

function base_value :: "nat \<Rightarrow> op list \<Rightarrow> val \<Rightarrow> nat \<Rightarrow> val option" where
  "base_value n rs v0 k = (let x = rs ! k in
     case parent_index rs k of
       None \<Rightarrow> None
     | Some None \<Rightarrow> server n rs v0 (nat (opBasis x + 1))
     | Some (Some p) \<Rightarrow> do {
         v \<leftarrow> base_value n rs v0 p;
         v \<leftarrow> Strict v (opChange (rs ! p));
         (_, mp) \<leftarrow> xspec n rs p;
         foldM Strict v (map opChange (takeWhile (\<lambda>m. opVersion m \<le> opBasis x) mp)) })"
  by pat_completeness auto
termination
  by (relation "measure (\<lambda>(n, rs, v0, k). k)") (auto dest: parent_index_less)

declare base_value.simps [simp del]

text \<open>A valid raw log: every operation fits the value it was made for.\<close>

definition log_fits :: "nat \<Rightarrow> op list \<Rightarrow> val \<Rightarrow> bool" where
  "log_fits n rs v0 \<longleftrightarrow> (\<forall>k < length rs. \<exists>v w. base_value n rs v0 k = Some v \<and> Strict v (opChange (rs ! k)) = Some w)"

definition client :: "nat \<Rightarrow> op list \<Rightarrow> val \<Rightarrow> nat \<Rightarrow> val option" where
  "client n rs v0 k = do { v \<leftarrow> base_value n rs v0 k; Strict v (opChange (rs ! k)) }"

lemma merge_step_conv:
  assumes "merge_step n (x, m) y = Some (x', m')" "wf_val v" "Strict v (opChange y) = Some v1"
    and "Strict v (opChange x) = Some u" "foldM Strict c (map opChange m) = Some u"
  shows "\<exists>u'. Strict v1 (opChange x') = Some u' \<and> foldM Strict c (map opChange m') = Some u'"
proof -
  obtain lx rx where m: "Merge n (opChange y) (opChange x) = Some (lx, rx)" "x' = WithChanges x lx" "m' = m @ [WithChanges y rx]"
    using assms(1) by (auto simp: merge_step_def xmerge_def bind_Some_ex)
  then show ?thesis using Merge_converge [OF m(1) assms(2-4)] assms(5) by (auto simp: converge_def foldM_append)
qed

lemma merge_chain_conv:
  assumes "foldM (merge_step n) (x, m) ys = Some (x', m')" "wf_val v" "foldM Strict v (map opChange ys) = Some v1"
    and "Strict v (opChange x) = Some u" "foldM Strict c (map opChange m) = Some u"
  shows "\<exists>u'. Strict v1 (opChange x') = Some u' \<and> foldM Strict c (map opChange m') = Some u'"
  using assms
proof (induction ys arbitrary: x m v u)
  case (Cons y ys)
  obtain x1 m1 where 1: "merge_step n (x, m) y = Some (x1, m1)" "foldM (merge_step n) (x1, m1) ys = Some (x', m')"
    using Cons.prems(1) by (auto simp: bind_Some_ex)
  obtain v2 where v2: "Strict v (opChange y) = Some v2" "foldM Strict v2 (map opChange ys) = Some v1"
    using Cons.prems(3) by (auto simp: bind_Some_ex)
  obtain u' where "Strict v2 (opChange x1) = Some u'" "foldM Strict c (map opChange m1) = Some u'"
    using merge_step_conv [OF 1(1) Cons.prems(2) v2(1) Cons.prems(4,5)] by blast
  then show ?case using Cons.IH [OF 1(2) Strict_wf [OF v2(1) Cons.prems(2)] v2(2)] by blast
qed auto

lemma server_wf: "server n rs v0 k = Some v \<Longrightarrow> wf_val v0 \<Longrightarrow> wf_val v"
  by (induction k arbitrary: v) (auto simp: bind_Some_ex intro: Strict_wf)

lemma server_chain_conv:
  assumes "foldM (\<lambda>xm j. xspec n rs j \<bind> (\<lambda>(y, _). merge_step n xm y)) (x, m) [a..<k] = Some (x', m')"
    and "wf_val v0" "server n rs v0 a = Some v" "\<And>j. j < k \<Longrightarrow> server n rs v0 (Suc j) \<noteq> None" "a \<le> k"
    and "Strict v (opChange x) = Some u" "foldM Strict c (map opChange m) = Some u"
  shows "\<exists>vk u'. server n rs v0 k = Some vk \<and> Strict vk (opChange x') = Some u' \<and> foldM Strict c (map opChange m') = Some u'"
  using assms
proof (induction "k - a" arbitrary: a x m v u)
  case 0
  then show ?case by auto
next
  case (Suc d)
  then have a: "[a..<k] = a # [Suc a..<k]" "a < k" by (simp_all add: upt_conv_Cons)
  obtain y my x1 m1 where 1: "xspec n rs a = Some (y, my)" "merge_step n (x, m) y = Some (x1, m1)"
    "foldM (\<lambda>xm j. xspec n rs j \<bind> (\<lambda>(y, _). merge_step n xm y)) (x1, m1) [Suc a..<k] = Some (x', m')"
    using Suc.prems(1) unfolding a(1) by (auto simp: bind_Some_ex)
  obtain v2 where v2: "server n rs v0 (Suc a) = Some v2" "Strict v (opChange y) = Some v2"
    using Suc.prems(4) [OF a(2)] Suc.prems(3) 1(1) by auto
  obtain u' where "Strict v2 (opChange x1) = Some u'" "foldM Strict c (map opChange m1) = Some u'"
    using merge_step_conv [OF 1(2) server_wf [OF Suc.prems(3,2)] v2(2) Suc.prems(6,7)] by blast
  then show ?case using Suc.hyps(1) [OF _ 1(3) Suc.prems(2) v2(1) Suc.prems(4)] Suc.hyps(2) a(2) by auto
qed

lemma base_value_wf: "base_value n rs v0 k = Some v \<Longrightarrow> wf_val v0 \<Longrightarrow> wf_val v"
proof (induction k arbitrary: v rule: less_induct)
  case (less k)
  consider (root) "parent_index rs k = Some None" | (parent) p where "parent_index rs k = Some (Some p)"
    using less.prems(1) by (auto simp: base_value.simps [of n rs v0 k] Let_def split: option.splits)
  then show ?case
  proof cases
    case root
    then show ?thesis using less.prems server_wf by (auto simp: base_value.simps [of n rs v0 k] Let_def)
  next
    case (parent p)
    then obtain b c and m :: "op list" where b: "base_value n rs v0 p = Some b" "Strict b (opChange (rs ! p)) = Some c"
      "foldM Strict c (map opChange (takeWhile (\<lambda>m. opVersion m \<le> opBasis (rs ! k)) m)) = Some v"
      using less.prems(1) by (auto simp: base_value.simps [of n rs v0 k] Let_def bind_Some_ex)
    have "wf_val c" using Strict_wf [OF b(2) less.IH [OF parent_index_less [OF parent] b(1) less.prems(2)]] .
    then show ?thesis using foldM_Strict_wf [OF b(3)] by simp
  qed
qed

lemma transformed_step:
  assumes "log_fits n rs v0" "wf_val v0" "basis_ok rs" "k < length rs" "xspec n rs k = Some (x', m')"
    and "\<And>j. j < k \<Longrightarrow> \<exists>w c m y. server n rs v0 (Suc j) = Some w \<and> client n rs v0 j = Some c
      \<and> xspec n rs j = Some (y, m) \<and> foldM Strict c (map opChange m) = Some w"
    and "client n rs v0 k = Some c"
  shows "\<exists>w. server n rs v0 (Suc k) = Some w \<and> foldM Strict c (map opChange m') = Some w"
proof -
  let ?x = "rs ! k" and ?lo = "nat (opBasis (rs ! k) + 1)"
  have lo: "?lo \<le> k" using assms(3,4) by (auto simp: basis_ok_def)
  have def: "server n rs v0 (Suc j) \<noteq> None" if "j < k" for j using assms(6) [OF that] by auto
  obtain b where b: "base_value n rs v0 k = Some b" "Strict b (opChange ?x) = Some c"
    using assms(7) by (auto simp: client_def bind_Some_ex)
  obtain pi where pi: "parent_index rs k = Some pi" using b(1) by (auto simp: base_value.simps [of n rs v0 k] Let_def split: option.splits)
  have fin: ?thesis
    if "foldM (\<lambda>xm j. xspec n rs j \<bind> (\<lambda>(y, _). merge_step n xm y)) (x1, m1) [a..<k] = Some (x', m')"
      "server n rs v0 a = Some v" "a \<le> k" "Strict v (opChange x1) = Some u" "foldM Strict c (map opChange m1) = Some u" for x1 m1 a v u
    using server_chain_conv [OF that(1) assms(2) that(2) def that(3-5)] assms(5) by auto
  show ?thesis
  proof (cases pi)
    case None
    then show ?thesis
      using fin [of ?x "[]" ?lo b c] assms(5) b pi lo
      by (simp add: base_value.simps [of n rs v0 k] xspec.simps [of n rs k] Let_def)
  next
    case (Some p)
    have p: "p < k" using parent_index_less pi Some by simp
    obtain w cp mp y where w: "server n rs v0 (Suc p) = Some w" "client n rs v0 p = Some cp" "xspec n rs p = Some (y, mp)"
      "foldM Strict cp (map opChange mp) = Some w"
      using assms(6) [OF p] by blast
    let ?P = "\<lambda>m. opVersion m \<le> opBasis ?x"
    have b': "foldM Strict cp (map opChange (takeWhile ?P mp)) = Some b"
      using b(1) pi Some w(2,3) by (auto simp: base_value.simps [of n rs v0 k] Let_def client_def bind_Some_ex)
    have rest: "foldM Strict b (map opChange (dropWhile ?P mp)) = Some w"
      using w(4) b' takeWhile_dropWhile_id [of ?P mp] foldM_append [of Strict cp "map opChange (takeWhile ?P mp)"]
      by (metis (no_types, lifting) bind.bind_lunit map_append)
    obtain x1 m1 where m1: "foldM (merge_step n) (?x, []) (dropWhile ?P mp) = Some (x1, m1)"
      "foldM (\<lambda>xm j. xspec n rs j \<bind> (\<lambda>(y, _). merge_step n xm y)) (x1, m1) [Suc p..<k] = Some (x', m')"
      using assms(5) pi Some w(3) by (auto simp: xspec.simps [of n rs k] Let_def bind_Some_ex)
    have "wf_val b" using base_value_wf [OF b(1) assms(2)] .
    then obtain u where "Strict w (opChange x1) = Some u" "foldM Strict c (map opChange m1) = Some u"
      using merge_chain_conv [OF m1(1) _ rest b(2), of c] by auto
    then show ?thesis using fin [OF m1(2) w(1)] p by simp
  qed
qed

lemma transformed_sequence:
  assumes "log_fits n rs v0" "wf_val v0" "basis_ok rs" "\<And>j. j < length rs \<Longrightarrow> xspec n rs j \<noteq> None"
  shows "k < length rs \<Longrightarrow> \<exists>w c m y. server n rs v0 (Suc k) = Some w \<and> client n rs v0 k = Some c
    \<and> xspec n rs k = Some (y, m) \<and> foldM Strict c (map opChange m) = Some w"
proof (induction k rule: less_induct)
  case (less k)
  obtain y m where x: "xspec n rs k = Some (y, m)" using assms(4) [OF less.prems] by auto
  obtain c where c: "client n rs v0 k = Some c"
    using assms(1) less.prems by (auto simp: log_fits_def client_def)
  show ?case
    using transformed_step [OF assms(1-3) less.prems x _ c] less.IH less.prems x c by auto
qed

end
