(* ===== verification/Dot_Sync_Correct.thy ===== *)
theory Dot_Sync_Correct
  imports Dot_Session Dot_Transformer
begin

text \<open>
  A session and the transformer compute the same operations. A session merges its pending
  operations with every operation it pulls; the transformer merges a raw operation with everything
  that the store received between its basis and itself. When an operation of the session comes
  back from the store, it is the one at the head of the session's merge chain, so the session can
  drop it without any change. From this: a session that is in step with the store stays in step.
\<close>

section \<open>The merge chain of a session, as the transformer sees it\<close>

text \<open>
  The pending operations \<open>ps\<close> were merged into \<open>qs\<close>: the first with the operations
  of \<open>M\<close> after its basis, the next with what they became, and so on.
\<close>

fun following :: "nat \<Rightarrow> op list \<Rightarrow> op list \<Rightarrow> op list \<Rightarrow> bool" where
  "following n M [] qs \<longleftrightarrow> qs = []"
| "following n M (p # ps) qs \<longleftrightarrow>
     (case foldM (merge_step n) (p, []) (dropWhile (\<lambda>m. opVersion m \<le> opBasis p) M) of
        None \<Rightarrow> False
      | Some (x, m) \<Rightarrow> qs \<noteq> [] \<and> opID (hd qs) = opID p \<and> opChange (hd qs) = opChange x \<and> following n m ps (tl qs))"

lemma following_ids: "following n M ps qs \<Longrightarrow> map opID ps = map opID qs"
proof (induction n M ps qs rule: following.induct)
  case (2 n M p ps qs)
  then show ?case by (cases qs) (auto split: option.splits)
qed simp

lemma following_pull:
  "following n M ps qs \<Longrightarrow> pull_chain n x qs = Some (x', qs') \<Longrightarrow> (\<And>p. p \<in> set ps \<Longrightarrow> opBasis p < opVersion x)
     \<Longrightarrow> following n (M @ [x]) ps qs'"
proof (induction ps arbitrary: M qs x qs')
  case (Cons p ps)
  let ?P = "\<lambda>m. opVersion m \<le> opBasis p"
  obtain y m q rs where f: "foldM (merge_step n) (p, []) (dropWhile ?P M) = Some (y, m)" "qs = q # rs"
    "opID q = opID p" "opChange q = opChange y" "following n m ps rs"
    using Cons.prems(1) by (cases qs) (auto split: option.splits)
  obtain pc oc ch where p: "Merge n (opChange x) (opChange q) = Some (pc, oc)"
    "pull_chain n (WithChanges x oc) rs = Some (x', ch)" "qs' = WithChanges q pc # ch"
    using Cons.prems(2) f(2) by (auto simp: bind_Some_ex)
  have "dropWhile ?P (M @ [x]) = dropWhile ?P M @ [x]"
    using Cons.prems(3) [of p] by (intro dropWhile_append3) simp
  moreover have "merge_step n (y, m) x = Some (WithChanges y pc, m @ [WithChanges x oc])"
    using p(1) f(4) by (simp add: merge_step_def xmerge_def)
  moreover have "following n (m @ [WithChanges x oc]) ps ch"
    using Cons.IH [OF f(5) p(2)] Cons.prems(3) by simp
  ultimately show ?case using f(1,3) p(3) by (simp add: foldM_append)
qed simp

text \<open>A new operation is based on everything the session has pulled.\<close>

lemma merge_step_Some:
  "merge_step n (x, m) y = Some r \<longleftrightarrow>
     (\<exists>lx rx. Merge n (opChange y) (opChange x) = Some (lx, rx) \<and> r = (WithChanges x lx, m @ [WithChanges y rx]))"
  by (auto simp: merge_step_def xmerge_def bind_Some_ex)

lemma merge_fold_versions:
  "foldM (merge_step n) (x, m0) ys = Some (x', m) \<Longrightarrow>
     opID x' = opID x \<and> opVersion x' = opVersion x \<and> (\<exists>m1. m = m0 @ m1 \<and> map opVersion m1 = map opVersion ys)"
proof (induction ys arbitrary: x m0)
  case (Cons y ys)
  obtain lx rx where "foldM (merge_step n) (WithChanges x lx, m0 @ [WithChanges y rx]) ys = Some (x', m)"
    using Cons.prems by (auto simp: merge_step_Some bind_Some_ex)
  from Cons.IH [OF this] show ?case by auto
qed simp

lemma following_push:
  "following n M ps qs \<Longrightarrow> (\<And>m. m \<in> set M \<Longrightarrow> opVersion m \<le> opBasis x) \<Longrightarrow> following n M (ps @ [x]) (qs @ [x])"
proof (induction n M ps qs rule: following.induct)
  case (2 n M p ps qs)
  let ?P = "\<lambda>m. opVersion m \<le> opBasis p"
  obtain y m where f: "foldM (merge_step n) (p, []) (dropWhile ?P M) = Some (y, m)" "following n m ps (tl qs)" "qs \<noteq> []"
    "opID (hd qs) = opID p" "opChange (hd qs) = opChange y"
    using "2.prems"(1) by (auto split: option.splits)
  have "map opVersion m = map opVersion (dropWhile ?P M)" using merge_fold_versions [OF f(1)] by simp
  then have vs: "set (map opVersion m) = set (map opVersion (dropWhile ?P M))" by (rule arg_cong)
  have "opVersion a \<le> opBasis x" if a: "a \<in> set m" for a
  proof -
    have "opVersion a \<in> set (map opVersion (dropWhile ?P M))" unfolding vs [symmetric] using a by simp
    then show ?thesis using "2.prems"(2) by (auto dest: set_dropWhileD)
  qed
  then show ?case using "2.IH" [OF f(1)] f by simp
next
  case (1 n M qs)
  then have drop: "dropWhile (\<lambda>m. opVersion m \<le> opBasis x) M = []" by simp
  show ?case using "1.prems"(1) by (simp add: drop)
qed

section \<open>Own operations come back as the session merged them\<close>

definition log_ok :: "nat \<Rightarrow> op list \<Rightarrow> bool" where
  "log_ok n rs \<longleftrightarrow> basis_ok rs \<and> distinct (map opID rs) \<and>
     (\<forall>j < length rs. opVersion (rs ! j) = int j \<and> xspec n rs j \<noteq> None)"

text \<open>What a pending operation without pending parent is to be merged with, at version \<open>V\<close>.\<close>

definition origin :: "nat \<Rightarrow> op list \<Rightarrow> nat \<Rightarrow> op \<Rightarrow> op list \<Rightarrow> bool" where
  "origin n rs V p M \<longleftrightarrow> (case opParent p of
     None \<Rightarrow> M = map (xop n rs) [0..<V]
   | Some i \<Rightarrow> (\<exists>k < V. opID (rs ! k) = i \<and> opBasis p < int k
        \<and> M = snd (the (xspec n rs k)) @ map (xop n rs) [Suc k..<V]))"

lemma origin_Suc:
  assumes "origin n rs V p M"
  shows "origin n rs (Suc V) p (M @ [xop n rs V])"
proof (cases "opParent p")
  case None
  then show ?thesis using assms by (simp add: origin_def)
next
  case (Some i)
  then obtain k where "k < V" "opID (rs ! k) = i \<and> opBasis p < int k" "M = snd (the (xspec n rs k)) @ map (xop n rs) [Suc k..<V]"
    using assms unfolding origin_def by auto
  then show ?thesis unfolding origin_def Some option.case by (intro exI [of _ k]) simp
qed

fun linked :: "op list \<Rightarrow> bool" where
  "linked (p # q # ps) \<longleftrightarrow> opParent q = Some (opID p) \<and> linked (q # ps)"
| "linked _ \<longleftrightarrow> True"

lemma linked_snoc: "linked (ps @ [x]) \<longleftrightarrow> linked ps \<and> (ps \<noteq> [] \<longrightarrow> opParent x = Some (opID (last ps)))"
  by (induction ps rule: linked.induct) auto

lemma xop_loop:
  "(\<And>j. j \<in> set js \<Longrightarrow> xspec n rs j \<noteq> None) \<Longrightarrow>
     foldM (\<lambda>xm j. xspec n rs j \<bind> (\<lambda>(y, _). merge_step n xm y)) xm js = foldM (merge_step n) xm (map (xop n rs) js)"
proof (induction js arbitrary: xm)
  case (Cons j js)
  then show ?case by (cases "xspec n rs j") (fastforce simp: xop_def intro!: Option.bind_cong)+
qed simp

lemma xspec_keeps:
  assumes "xspec n rs k = Some (x, m)" "\<And>j. j < k \<Longrightarrow> xspec n rs j \<noteq> None"
  shows "opID x = opID (rs ! k) \<and> opVersion x = opVersion (rs ! k)"
proof -
  have "\<exists>ys. foldM (merge_step n) (rs ! k, []) ys = Some (x, m)"
  proof (cases "the (parent_index rs k)")
    case None
    then show ?thesis using assms xop_loop [of "[nat (opBasis (rs ! k) + 1)..<k]" n rs]
      by (auto simp: xspec.simps [of n rs k] Let_def split: option.splits)
  next
    case (Some p)
    then obtain q x1 and mp m1 :: "op list" where "xspec n rs p = Some (q, mp)"
      "foldM (merge_step n) (rs ! k, []) (dropWhile (\<lambda>m. opVersion m \<le> opBasis (rs ! k)) mp) = Some (x1, m1)"
      "foldM (merge_step n) (x1, m1) (map (xop n rs) [Suc p..<k]) = Some (x, m)"
      using assms xop_loop [of "[Suc p..<k]" n rs]
      by (auto simp: xspec.simps [of n rs k] Let_def bind_Some_ex split: option.splits)
    then have "foldM (merge_step n) (rs ! k, []) (dropWhile (\<lambda>m. opVersion m \<le> opBasis (rs ! k)) mp @ map (xop n rs) [Suc p..<k]) = Some (x, m)"
      by (simp add: foldM_append)
    then show ?thesis by blast
  qed
  then show ?thesis using merge_fold_versions by blast
qed

lemma xop_keeps: "log_ok n rs \<Longrightarrow> j < length rs \<Longrightarrow> opID (xop n rs j) = opID (rs ! j) \<and> opVersion (xop n rs j) = int j"
  using xspec_keeps [of n rs j] by (auto simp: log_ok_def xop_def)

lemma find_id_nth: "distinct (map opID xs) \<Longrightarrow> j < length xs \<Longrightarrow> find_id (opID (xs ! j)) xs = Some j"
  by (induction xs arbitrary: j) (auto simp: nth_Cons split: nat.splits)

lemma dropWhile_upt:
  assumes "\<And>j. j < V \<Longrightarrow> opVersion (f j) = int j" "lo \<le> V"
  shows "dropWhile (\<lambda>m. opVersion m \<le> int lo - 1) (map f [0..<V]) = map f [lo..<V]"
proof -
  have "map f [0..<V] = map f [0..<lo] @ map f [lo..<V]" using assms(2) by (metis map_append upt_add_eq_append zero_le le_add_diff_inverse add_0)
  moreover have "dropWhile (\<lambda>m. opVersion m \<le> int lo - 1) (map f [lo..<V]) = map f [lo..<V]"
    using assms by (cases "lo < V") (simp_all add: upt_conv_Cons)
  moreover have "opVersion m \<le> int lo - 1" if "m \<in> set (map f [0..<lo])" for m using that assms by auto
  ultimately show ?thesis by (metis (no_types, lifting) dropWhile_append2)
qed

text \<open>Which raw operation the transformer merges the operation at \<open>V\<close> with.\<close>

lemma xspec_origin:
  assumes "log_ok n rs" "V < length rs" "origin n rs V (rs ! V) M"
  shows "xspec n rs V = foldM (merge_step n) (rs ! V, []) (dropWhile (\<lambda>m. opVersion m \<le> opBasis (rs ! V)) M)"
proof -
  let ?x = "rs ! V" and ?lo = "nat (opBasis (rs ! V) + 1)"
  let ?P = "\<lambda>m. opVersion m \<le> opBasis ?x"
  have b: "- 1 \<le> opBasis ?x" "opBasis ?x < int V" using assms(1,2) by (auto simp: log_ok_def basis_ok_def)
  then have lo: "opBasis ?x = int ?lo - 1" "?lo \<le> V" by auto
  have ver: "opVersion (xop n rs j) = int j" if "j < V" for j using xop_keeps [OF assms(1)] that assms(2) by simp
  have def: "xspec n rs j \<noteq> None" if "j < V" for j using assms(1,2) that by (simp add: log_ok_def)
  show ?thesis
  proof (cases "opParent ?x")
    case None
    then show ?thesis
      using dropWhile_upt [OF ver lo(2)] lo(1) assms(3) xop_loop [of "[?lo..<V]" n rs] def
      by (simp add: origin_def xspec.simps [of n rs V] parent_index_def Let_def)
  next
    case (Some i)
    obtain k where k: "k < V" "opID (rs ! k) = i" "opBasis ?x < int k" "M = snd (the (xspec n rs k)) @ map (xop n rs) [Suc k..<V]"
      using assms(3) Some by (auto simp: origin_def)
    have "?lo \<le> k" using k(3) b by auto
    then have "find_id i (take (V - ?lo) (drop ?lo rs)) = Some (k - ?lo)"
      using find_id_nth [of "take (V - ?lo) (drop ?lo rs)" "k - ?lo"] assms(1,2) k(1,2)
      by (simp add: log_ok_def take_map [symmetric] drop_map [symmetric])
    then have pi: "parent_index rs V = Some (Some k)" using Some \<open>?lo \<le> k\<close> by (simp add: parent_index_def Let_def)
    have "dropWhile ?P M = dropWhile ?P (snd (the (xspec n rs k))) @ map (xop n rs) [Suc k..<V]"
      using k ver by (cases "Suc k < V") (simp_all add: upt_conv_Cons dropWhile_append3)
    then show ?thesis
      using pi def [OF k(1)] xop_loop [of "[Suc k..<V]" n rs] def
      by (auto simp: xspec.simps [of n rs V] Let_def foldM_append)
  qed
qed

text \<open>
  A session that pulled \<open>V\<close> operations tracks the log: its merge chain is what the transformer
  makes of its pending operations.
\<close>

definition tracking :: "nat \<Rightarrow> op list \<Rightarrow> nat \<Rightarrow> op list \<Rightarrow> op list \<Rightarrow> bool" where
  "tracking n rs V pend chain \<longleftrightarrow> linked pend \<and> (\<forall>p \<in> set pend. - 1 \<le> opBasis p \<and> opBasis p < int V) \<and>
     (if pend = [] then chain = [] else (\<exists>M. origin n rs V (hd pend) M \<and> following n M pend chain))"

text \<open>The store keeps what is sent: an operation with a pending ID is the pending operation.\<close>

definition kept :: "op list \<Rightarrow> op list \<Rightarrow> bool" where
  "kept rs pend \<longleftrightarrow> (\<forall>p \<in> set pend. \<forall>j < length rs. opID (rs ! j) = opID p \<longrightarrow> rs ! j = WithVersion p (int j))"

lemma merge_step_WithVersion:
  "merge_step n (WithVersion x v, m) y = map_option (\<lambda>(x, m). (WithVersion x v, m)) (merge_step n (x, m) y)"
  by (cases "Merge n (opChange y) (opChange x)") (auto simp: merge_step_def xmerge_def WithVersion_def WithChanges_def)

lemma merge_fold_WithVersion:
  "foldM (merge_step n) (WithVersion x v, m) ys = map_option (\<lambda>(x, m). (WithVersion x v, m)) (foldM (merge_step n) (x, m) ys)"
proof (induction ys arbitrary: x m)
  case (Cons y ys)
  then show ?case by (cases "merge_step n (x, m) y") (auto simp: merge_step_WithVersion)
qed simp

text \<open>An own operation comes back as the head of the merge chain; the rest is what the session still tracks.\<close>

lemma tracking_own:
  assumes "log_ok n rs" "V < length rs" "kept rs (p # ps)" "tracking n rs V (p # ps) chain" "opID (rs ! V) = opID p"
  shows "\<exists>q qs. chain = q # qs \<and> opChange q = opChange (xop n rs V) \<and> tracking n rs (Suc V) ps qs"
proof -
  have V: "rs ! V = WithVersion p (int V)" using assms(2,3,5) by (simp add: kept_def)
  obtain M where M: "origin n rs V p M" "following n M (p # ps) chain" "linked (p # ps)"
    "\<forall>r \<in> set (p # ps). - 1 \<le> opBasis r \<and> opBasis r < int V"
    using assms(4) by (auto simp: tracking_def)
  then obtain x m q qs where f: "foldM (merge_step n) (p, []) (dropWhile (\<lambda>m. opVersion m \<le> opBasis p) M) = Some (x, m)"
    "chain = q # qs" "opChange q = opChange x" "following n m ps qs"
    by (cases chain) (auto split: option.splits)
  have b: "opBasis (rs ! V) = opBasis p" "opParent (rs ! V) = opParent p" using V by (simp_all add: WithVersion_def)
  have org: "origin n rs V (rs ! V) M" using M(1) unfolding origin_def b .
  have "xspec n rs V = Some (WithVersion x (int V), m)"
    using xspec_origin [OF assms(1,2) org] f(1) unfolding b(1) unfolding V by (simp add: merge_fold_WithVersion)
  then have x: "xop n rs V = WithVersion x (int V)" "snd (the (xspec n rs V)) = m" by (simp_all add: xop_def)
  have "tracking n rs (Suc V) ps qs"
  proof (cases ps)
    case (Cons r rest)
    then have "origin n rs (Suc V) r m"
      using M(3,4) x(2) assms(5) unfolding origin_def by (auto intro!: exI [of _ V])
    then show ?thesis using M(3,4) f(4) Cons by (fastforce simp: tracking_def)
  qed (use f(4) in \<open>simp add: tracking_def\<close>)
  then show ?thesis using f(2,3) x(1) by simp
qed

lemma tracking_foreign:
  assumes "log_ok n rs" "V < length rs" "tracking n rs V pend chain" "pull_chain n (xop n rs V) chain = Some (x, chain')"
  shows "tracking n rs (Suc V) pend chain'"
proof (cases "pend = []")
  case False
  then obtain M where M: "origin n rs V (hd pend) M" "following n M pend chain" using assms(3) by (auto simp: tracking_def)
  have "opBasis p < opVersion (xop n rs V)" if "p \<in> set pend" for p
    using xop_keeps [OF assms(1,2)] assms(3) that by (simp add: tracking_def)
  then show ?thesis using following_pull [OF M(2) assms(4)] origin_Suc [OF M(1)] False assms(3) by (fastforce simp: tracking_def)
qed (use assms(3,4) in \<open>auto simp: tracking_def\<close>)

section \<open>A session stays in step with the store\<close>

definition synced :: "nat \<Rightarrow> op list \<Rightarrow> val \<Rightarrow> val \<Rightarrow> 'w session \<Rightarrow> bool" where
  "synced n rs v0 root s \<longleftrightarrow> (let V = nat (cfgVersion (cfg s) + 1) in
     - 1 \<le> cfgVersion (cfg s) \<and> V \<le> length rs \<and> tracking n rs V (cfgPending (cfg s)) (cfgMergeChain (cfg s)) \<and>
     (\<exists>v. server n rs v0 V = Some v \<and> in_step root v s))"

definition sound_log :: "nat \<Rightarrow> op list \<Rightarrow> val \<Rightarrow> bool" where
  "sound_log n rs v0 \<longleftrightarrow> log_ok n rs \<and> log_fits n rs v0 \<and> wf_val v0"

lemma server_Suc:
  assumes "sound_log n rs v0" "V < length rs" "server n rs v0 V = Some v"
  shows "\<exists>w. server n rs v0 (Suc V) = Some w \<and> Strict v (opChange (xop n rs V)) = Some w"
proof -
  obtain w y m where "server n rs v0 (Suc V) = Some w" "xspec n rs V = Some (y, m)"
    using transformed_sequence [of n rs v0 V] assms(1,2) by (auto simp: sound_log_def log_ok_def)
  then show ?thesis using assms(3) by (simp add: xop_def)
qed

lemma pull_step_synced:
  assumes "sound_log n rs v0" "synced n rs v0 root s" "kept rs (cfgPending (cfg s))" "cfgVersion (cfg s) = int V - 1" "V < length rs"
    and "pull_step n s (xop n rs V) = Some s'"
  shows "synced n rs v0 root s' \<and> cfgVersion (cfg s') = int V \<and> set (cfgPending (cfg s')) \<subseteq> set (cfgPending (cfg s))"
proof -
  let ?c = "cfg s" and ?x = "xop n rs V"
  have lo: "log_ok n rs" using assms(1) by (simp add: sound_log_def)
  obtain v where v: "server n rs v0 V = Some v" "in_step root v s" "tracking n rs V (cfgPending ?c) (cfgMergeChain ?c)"
    using assms(2,4) by (auto simp: synced_def Let_def)
  obtain w where w: "server n rs v0 (Suc V) = Some w" "Strict v (opChange ?x) = Some w"
    using server_Suc [OF assms(1,5) v(1)] by blast
  have id: "opID ?x = opID (rs ! V)" using xop_keeps [OF lo assms(5)] by simp
  show ?thesis
  proof (cases "cfgPending ?c \<noteq> [] \<and> opID (hd (cfgPending ?c)) = opID ?x")
    case True
    then obtain p ps where ps: "cfgPending ?c = p # ps" "opID (rs ! V) = opID p" using id by (cases "cfgPending ?c") auto
    obtain q qs where q: "cfgMergeChain ?c = q # qs" "opChange q = opChange ?x" "tracking n rs (Suc V) ps qs"
      using tracking_own [OF lo assms(5), of p ps "cfgMergeChain ?c"] assms(3) v(3) ps by auto
    have "in_step root w s' \<and> cfgVersion (cfg s') = cfgVersion ?c + 1"
      using pull_step_in_step [OF assms(6) v(2) w(2)] q w(2) by simp
    moreover have "s' = s\<lparr>cfg := ?c\<lparr>cfgPending := ps, cfgMergeChain := qs, cfgVersion := int V\<rparr>\<rparr>"
      using assms(4,6) True ps q(1) by (auto simp: pull_step_def Let_def)
    ultimately show ?thesis using w(1) q(3) assms(4,5) ps by (auto simp: synced_def Let_def nat_add_distrib)
  next
    case False
    then obtain x1 chain h r where p: "pull_chain n ?x (cfgMergeChain ?c) = Some (x1, chain)"
      "s' = s\<lparr>cfg := ?c\<lparr>cfgMergeChain := chain, cfgVersion := int V\<rparr>, sheap := h, sstream := r\<rparr>"
      using assms(4,6) by (auto simp: pull_step_def Let_def bind_Some_ex stream_ReverseAppend_def)
    have "in_step root w s' \<and> cfgVersion (cfg s') = cfgVersion ?c + 1"
      using pull_step_in_step [OF assms(6) v(2) w(2)] False by blast
    then show ?thesis using w(1) tracking_foreign [OF lo assms(5) v(3) p(1)] p(2) assms(4,5)
      by (auto simp: synced_def Let_def nat_add_distrib)
  qed
qed

lemma pull_loop_synced:
  assumes "sound_log n rs v0" "synced n rs v0 root s" "kept rs (cfgPending (cfg s))" "cfgVersion (cfg s) = int V - 1" "m \<le> length rs"
    and "pull_loop n s (map (xop n rs) [V..<m]) = Some (s', e)"
  shows "e = None \<and> synced n rs v0 root s' \<and> cfgVersion (cfg s') = int (max V m) - 1 \<and> set (cfgPending (cfg s')) \<subseteq> set (cfgPending (cfg s))"
  using assms(2-6)
proof (induction "m - V" arbitrary: V s)
  case (Suc d)
  then have V: "[V..<m] = V # [Suc V..<m]" "V < length rs" "V < m" by (auto simp: upt_conv_Cons)
  have "opVersion (xop n rs V) = int V" using xop_keeps [OF _ V(2)] assms(1) by (simp add: sound_log_def)
  then obtain s1 where s1: "pull_step n s (xop n rs V) = Some s1" "pull_loop n s1 (map (xop n rs) [Suc V..<m]) = Some (s', e)"
    using Suc.prems(3,5) unfolding V(1) by (auto simp: bind_Some_ex)
  have p: "synced n rs v0 root s1" "cfgVersion (cfg s1) = int (Suc V) - 1" "set (cfgPending (cfg s1)) \<subseteq> set (cfgPending (cfg s))"
    using pull_step_synced [OF assms(1) Suc.prems(1-3) V(2) s1(1)] by auto
  then have "kept rs (cfgPending (cfg s1))" using Suc.prems(2) by (auto simp: kept_def)
  moreover have "d = m - Suc V" using Suc.hyps(2) by simp
  ultimately show ?case using Suc.hyps(1) [OF _ p(1) _ p(2) Suc.prems(4) s1(2)] p(3) V(3) by (auto dest!: subsetD)
qed (auto simp: max_def)

section \<open>Pull\<close>

text \<open>
  Pull over a transformed in-memory store. It never reports an error; the session is in step with
  the store again and has pulled everything, up to 1000 operations.
\<close>

lemma synced_world [simp]: "synced n rs v0 root (s\<lparr>sworld := w\<rparr>) \<longleftrightarrow> synced n rs v0 root s"
  by (simp add: synced_def in_step_def Let_def)

lemma synced_out [simp]: "synced n rs v0 root (s\<lparr>sout := w\<rparr>) \<longleftrightarrow> synced n rs v0 root s"
  by (simp add: synced_def in_step_def Let_def)

lemma synced_notify [simp]: "synced n rs v0 root (notify s) \<longleftrightarrow> synced n rs v0 root s"
  by (simp add: synced_def in_step_def Let_def notify_def)

lemma cfg_notify [simp]: "cfg (notify s) = cfg s" "sworld (notify s) = sworld s" "sout (notify s) = sout s"
  by (simp_all add: notify_def)

lemma pull_step_world: "pull_step n s x = Some s' \<Longrightarrow> sworld s' = sworld s"
  by (auto simp: pull_step_def Let_def bind_Some_ex split: if_splits)

lemma pull_loop_world: "pull_loop n s xs = Some (s', e) \<Longrightarrow> sworld s' = sworld s"
  by (induction xs arbitrary: s) (auto simp: bind_Some_ex pull_step_world split: if_splits)

context transformed_store
begin

lemma session_pull_loop:
  assumes "good w" "basis_ok (contents w)" "\<And>j. j < length (contents w) \<Longrightarrow> xspec n (contents w) j \<noteq> None"
    and "length (contents w) < fuel" "cache_ok n (contents w) c" "sworld s = (w, c)" "0 \<le> cfgVersion (cfg s) + 1"
    and "session_pull n (Transformed fuel n C S) s = Some (s', e)"
  shows "\<exists>c' s1 e1. cache_ok n (contents w) c' \<and> pull_loop n (s\<lparr>sworld := (w, c')\<rparr>) (map (xop n (contents w))
      [nat (cfgVersion (cfg s) + 1)..<min (length (contents w)) (nat (cfgVersion (cfg s) + 1) + nat 1000)]) = Some (s1, e1)
    \<and> (if e1 \<noteq> None then s' = s1 \<and> e = e1 else e = None \<and> (s' = notify s1 \<or> s' = s1))"
proof -
  let ?rs = "contents w" and ?v = "cfgVersion (cfg s) + 1"
  obtain c' where c': "st_GetSince (Transformed fuel n C S) (w, c) ?v 1000
      = ok ((w, c'), map (xop n ?rs) [nat ?v..<min (length ?rs) (nat ?v + nat 1000)])" "cache_ok n ?rs c'"
    using Transformed_get [OF assms(1) refl assms(2,5,4,3,7), of 1000] by auto
  then show ?thesis
    using assms(6,8) by (intro exI [of _ c']) (auto simp: session_pull_def bind_Some_ex split: if_splits)
qed

lemma pull_synced:
  assumes "good w" "sound_log n (contents w) v0" "length (contents w) < fuel" "cache_ok n (contents w) c"
    and "synced n (contents w) v0 root s" "kept (contents w) (cfgPending (cfg s))" "sworld s = (w, c)"
    and "session_pull n (Transformed fuel n C S) s = Some (s', e)"
  shows "e = None \<and> synced n (contents w) v0 root s' \<and> set (cfgPending (cfg s')) \<subseteq> set (cfgPending (cfg s))
    \<and> cfgVersion (cfg s') = max (cfgVersion (cfg s)) (min (int (length (contents w)) - 1) (cfgVersion (cfg s) + 1000))
    \<and> (\<exists>c'. sworld s' = (w, c') \<and> cache_ok n (contents w) c')"
proof -
  let ?rs = "contents w" and ?v = "cfgVersion (cfg s) + 1"
  let ?V = "nat ?v" and ?m = "min (length ?rs) (nat ?v + nat 1000)"
  have v: "0 \<le> ?v" "?V \<le> length ?rs" using assms(5) by (auto simp: synced_def Let_def)
  have lo: "basis_ok ?rs" "\<And>j. j < length ?rs \<Longrightarrow> xspec n ?rs j \<noteq> None" using assms(2) by (auto simp: sound_log_def log_ok_def)
  from session_pull_loop [OF assms(1) lo assms(3,4,7) v(1) assms(8)]
  obtain c' s1 e1 where c': "cache_ok n ?rs c'"
    and p: "pull_loop n (s\<lparr>sworld := (w, c')\<rparr>) (map (xop n ?rs) [?V..<?m]) = Some (s1, e1)"
    "if e1 \<noteq> None then s' = s1 \<and> e = e1 else e = None \<and> (s' = notify s1 \<or> s' = s1)" by blast
  have q: "e1 = None \<and> synced n ?rs v0 root s1 \<and> cfgVersion (cfg s1) = int (max ?V ?m) - 1
     \<and> set (cfgPending (cfg s1)) \<subseteq> set (cfgPending (cfg s))"
    using pull_loop_synced [OF assms(2) _ _ _ _ p(1)] assms(5,6) v by simp
  moreover have "int (max ?V ?m) - 1 = max (cfgVersion (cfg s)) (min (int (length ?rs) - 1) (cfgVersion (cfg s) + 1000))"
    using v by auto
  ultimately show ?thesis using p(2) c' pull_loop_world [OF p(1)] by auto
qed

end

section \<open>Push\<close>

text \<open>The merge chain that the transformer computes for an operation only holds earlier operations.\<close>

lemma xspec_versions:
  assumes "log_ok n rs"
  shows "k < length rs \<Longrightarrow> m \<in> set (snd (the (xspec n rs k))) \<Longrightarrow> opVersion m < int k"
proof (induction k arbitrary: m rule: less_induct)
  case (less k)
  have def: "xspec n rs j \<noteq> None" if "j \<le> k" for j using assms less.prems(1) that by (simp add: log_ok_def)
  have ver: "opVersion (xop n rs j) = int j" if "j < k" for j using xop_keeps [OF assms] that less.prems(1) by simp
  obtain x ms where s: "xspec n rs k = Some (x, ms)" using def [of k] by auto
  have chain: "opVersion m < int k"
    if "foldM (merge_step n) (rs ! k, []) ys = Some (x, ms)" "\<And>y. y \<in> set ys \<Longrightarrow> opVersion y < int k" for ys
  proof -
    have vs: "map opVersion ms = map opVersion ys" using merge_fold_versions [OF that(1)] by simp
    have "opVersion m \<in> set (map opVersion ms)" using less.prems(2) s by simp
    then show ?thesis unfolding vs using that(2) by auto
  qed
  show ?case
  proof (cases "the (parent_index rs k)")
    case None
    then show ?thesis using s xop_loop [of "[nat (opBasis (rs ! k) + 1)..<k]" n rs] def ver
      by (intro chain [of "map (xop n rs) [nat (opBasis (rs ! k) + 1)..<k]"])
        (auto simp: xspec.simps [of n rs k] Let_def split: option.splits)
  next
    case (Some p)
    then have p: "p < k" using s parent_index_less by (auto simp: xspec.simps [of n rs k] Let_def split: option.splits)
    let ?mp = "dropWhile (\<lambda>m. opVersion m \<le> opBasis (rs ! k)) (snd (the (xspec n rs p)))"
    have "foldM (merge_step n) (rs ! k, []) (?mp @ map (xop n rs) [Suc p..<k]) = Some (x, ms)"
      using s Some xop_loop [of "[Suc p..<k]" n rs] def
      by (auto simp: xspec.simps [of n rs k] Let_def bind_Some_ex foldM_append split: option.splits)
    moreover have "opVersion y < int k" if "y \<in> set ?mp" for y
      using less.IH [OF p _ set_dropWhileD [OF that]] p less.prems(1) by simp
    ultimately show ?thesis using ver by (intro chain) auto
  qed
qed

lemma origin_versions:
  assumes "log_ok n rs" "V \<le> length rs" "origin n rs V p M" "m \<in> set M"
  shows "opVersion m < int V"
proof -
  have ver: "opVersion (xop n rs j) < int V" if "j < V" for j using xop_keeps [OF assms(1), of j] that assms(2) by simp
  show ?thesis
  proof (cases "opParent p")
    case None
    then show ?thesis using assms(3,4) ver by (auto simp: origin_def)
  next
    case (Some i)
    then obtain k where k: "k < V" "M = snd (the (xspec n rs k)) @ map (xop n rs) [Suc k..<V]"
      using assms(3) by (auto simp: origin_def)
    then show ?thesis using assms(2,4) ver xspec_versions [OF assms(1), of k m] by auto
  qed
qed

lemma tracking_push:
  assumes "log_ok n rs" "V \<le> length rs" "tracking n rs V pend chain" "opBasis x = int V - 1"
    and "opParent x = (if pend \<noteq> [] then Some (opID (last pend)) else None)"
  shows "tracking n rs V (pend @ [x]) (chain @ [x])"
proof -
  have "\<exists>M. origin n rs V (hd (pend @ [x])) M \<and> following n M pend chain"
  proof (cases "pend = []")
    case True
    then show ?thesis using assms(3,5) by (auto simp: tracking_def origin_def)
  next
    case False
    then show ?thesis using assms(3) by (auto simp: tracking_def)
  qed
  then obtain M where M: "origin n rs V (hd (pend @ [x])) M" "following n M pend chain" by blast
  have "opVersion m \<le> opBasis x" if "m \<in> set M" for m
    using origin_versions [OF assms(1,2) M(1) that] assms(4) by simp
  then have "following n M (pend @ [x]) (chain @ [x])" by (rule following_push [OF M(2)])
  then show ?thesis using M(1) assms(3-5) by (auto simp: tracking_def linked_snoc)
qed

text \<open>A push takes the session to the end of its stream and adds what happened there as an operation.\<close>

definition push_op :: "key \<Rightarrow> 'w session \<Rightarrow> change option \<Rightarrow> op" where
  "push_op i s c = (let p = cfgPending (cfg s) in
     \<lparr>opID = i, opParent = (if p \<noteq> [] then Some (opID (last p)) else None), opVersion = 0, opBasis = cfgVersion (cfg s), opChange = c\<rparr>)"

lemma session_push_op:
  assumes "log_ok n rs" "synced n rs v0 root s" "session_push n S (Inr i) s = Some (s', e)"
  shows "synced n rs v0 root s' \<and> cfgVersion (cfg s') = cfgVersion (cfg s) \<and>
    (\<exists>t c. Latest (plain n) (sheap s) (sstream s) = Some (t, c)
      \<and> cfgPending (cfg s') = cfgPending (cfg s) @ (if c = None then [] else [push_op i s c])
      \<and> (let out = sout s @ (if c = None then [] else [push_op i s c]); r = st_Append S (sworld s) out in
          if out = [] then s' = s\<lparr>sstream := t\<rparr> \<and> e = None
          else sworld s' = fst r \<and> e = snd r \<and> sout s' = (if e = None then [] else out)))"
proof -
  let ?V = "nat (cfgVersion (cfg s) + 1)" and ?pend = "cfgPending (cfg s)" and ?chain = "cfgMergeChain (cfg s)"
  obtain v u k f where st: "server n rs v0 ?V = Some v" "wf_val v" "heap_ok (sheap s)" "map opID ?pend = map opID ?chain"
    "foldM Strict v (map opChange ?chain) = Some u" "chase (sheap s) (sstream s) u = Some (k, f)"
    and rt: "chase (sheap s) 0 root = Some (k, f)"
    and tr: "tracking n rs ?V ?pend ?chain" "?V \<le> length rs" "- 1 \<le> cfgVersion (cfg s)"
    using assms(2) by (auto simp: synced_def Let_def in_step_def)
  have "wf_val u" using foldM_Strict_wf [OF st(5,2)] .
  from list.Latest_value [OF st(3,6) this, of n] obtain t c where l: "Latest (plain n) (sheap s) (sstream s) = Some (t, c)"
    "Strict u c = Some f" "chase (sheap s) t f = Some (k, f)" by blast
  let ?s = "s\<lparr>sstream := t, cfg := (cfg s)\<lparr>cfgPending := ?pend @ [push_op i s c], cfgMergeChain := ?chain @ [push_op i s c]\<rparr>,
    sout := sout s @ [push_op i s c]\<rparr>"
  have a: "appendChange (Inr i) (s\<lparr>sstream := t\<rparr>) c = (if c = None then s\<lparr>sstream := t\<rparr> else notify ?s, None)"
    by (simp add: appendChange_def push_op_def Let_def)
  have "tracking n rs ?V (?pend @ [push_op i s c]) (?chain @ [push_op i s c])"
    using tr by (intro tracking_push [OF assms(1)]) (simp_all add: push_op_def Let_def)
  then have "synced n rs v0 root ?s"
    using st rt l tr by (auto simp: synced_def in_step_def Let_def foldM_append push_op_def)
  moreover have "synced n rs v0 root (s\<lparr>sstream := t\<rparr>)" if "c = None"
    using that st rt l tr by (auto simp: synced_def in_step_def Let_def)
  ultimately show ?thesis
    using assms(3) l(1) a by (auto simp: session_push_def Let_def split: if_splits prod.splits)
qed

end
