(* ===== verification/Dot_Outstanding.thy ===== *)
theory Dot_Outstanding
  imports Dot_Sync_Correct
begin

text \<open>
  Operations that a client has pushed and that the store does not have yet. Each was made for a value that
  is determined by its parent, its basis and the log up to there, wherever in the log it will
  be put. From this: the log that the store makes of what clients send is one in which every raw operation fits the
  value its client had, so that the transformed log can be applied in sequence.
\<close>

section \<open>A log that grows\<close>

lemma slice_append: "k \<le> length rs \<Longrightarrow> take (k - lo) (drop lo (rs @ ys)) = take (k - lo) (drop lo rs)"
  by simp

lemma parent_index_append: "k < length rs \<Longrightarrow> parent_index (rs @ ys) k = parent_index rs k"
  unfolding parent_index_def Let_def by (simp add: nth_append slice_append cong: option.case_cong)

lemma xspec_append: "k < length rs \<Longrightarrow> xspec n (rs @ ys) k = xspec n rs k"
proof (induction k rule: less_induct)
  case (less k)
  have loop: "foldM (\<lambda>xm j. xspec n (rs @ ys) j \<bind> (\<lambda>(y, _). merge_step n xm y)) xm js
      = foldM (\<lambda>xm j. xspec n rs j \<bind> (\<lambda>(y, _). merge_step n xm y)) xm js" if "\<And>j. j \<in> set js \<Longrightarrow> j < k" for xm js
    using that less by (intro foldM_cong) auto
  have x: "(rs @ ys) ! k = rs ! k" "parent_index (rs @ ys) k = parent_index rs k"
    using less.prems by (simp_all add: nth_append parent_index_append)
  show ?case
  proof (cases "parent_index rs k")
    case (Some pi)
    show ?thesis
    proof (cases pi)
      case None
      then show ?thesis using x Some loop [of "[nat (opBasis (rs ! k) + 1)..<k]"]
        by (simp add: xspec.simps [of n "rs @ ys" k] xspec.simps [of n rs k] Let_def)
    next
      case (Some p)
      then have "p < k" using parent_index_less \<open>parent_index rs k = Some pi\<close> by simp
      then show ?thesis using x Some \<open>parent_index rs k = Some pi\<close> loop [of "[Suc p..<k]"] less
        by (simp add: xspec.simps [of n "rs @ ys" k] xspec.simps [of n rs k] Let_def)
    qed
  qed (use x in \<open>simp add: xspec.simps [of n "rs @ ys" k] xspec.simps [of n rs k] Let_def\<close>)
qed

lemma xop_append: "k < length rs \<Longrightarrow> xop n (rs @ ys) k = xop n rs k"
  by (simp add: xop_def xspec_append)

lemma server_append: "k \<le> length rs \<Longrightarrow> server n (rs @ ys) v0 k = server n rs v0 k"
  by (induction k) (simp_all add: xspec_append)

lemma base_value_append: "basis_ok rs \<Longrightarrow> k < length rs \<Longrightarrow> base_value n (rs @ ys) v0 k = base_value n rs v0 k"
proof (induction k rule: less_induct)
  case (less k)
  have lo: "nat (opBasis (rs ! k) + 1) \<le> length rs" using less.prems by (fastforce simp: basis_ok_def)
  have x: "(rs @ ys) ! k = rs ! k" "parent_index (rs @ ys) k = parent_index rs k"
    using less.prems by (simp_all add: nth_append parent_index_append)
  show ?case
  proof (cases "\<exists>p. parent_index rs k = Some (Some p)")
    case True
    then obtain p where p: "parent_index rs k = Some (Some p)" by blast
    then have "p < k" by (rule parent_index_less)
    then show ?thesis using x p less
      by (simp add: base_value.simps [of n "rs @ ys" _ k] base_value.simps [of n rs _ k] Let_def xspec_append nth_append)
  next
    case False
    then show ?thesis using x server_append [OF lo]
      by (simp add: base_value.simps [of n "rs @ ys" _ k] base_value.simps [of n rs _ k] Let_def split: option.splits)
  qed
qed

lemma origin_append: "V \<le> length rs \<Longrightarrow> origin n rs V p M \<Longrightarrow> origin n (rs @ ys) V p M"
proof -
  assume V: "V \<le> length rs" and o: "origin n rs V p M"
  have xs: "map (xop n (rs @ ys)) [a..<V] = map (xop n rs) [a..<V]" for a using V by (auto simp: xop_append)
  show "origin n (rs @ ys) V p M"
  proof (cases "opParent p")
    case None
    show ?thesis using o unfolding origin_def None option.case xs .
  next
    case (Some i)
    then obtain k where "k < V" "opID (rs ! k) = i \<and> opBasis p < int k" "M = snd (the (xspec n rs k)) @ map (xop n rs) [Suc k..<V]"
      using o unfolding origin_def by auto
    then show ?thesis using V unfolding origin_def Some option.case
      by (intro exI [of _ k]) (simp add: xs nth_append xspec_append)
  qed
qed

lemma tracking_append: "V \<le> length rs \<Longrightarrow> tracking n rs V pend chain \<Longrightarrow> tracking n (rs @ ys) V pend chain"
  using origin_append unfolding tracking_def by (metis (no_types, lifting))

lemma synced_append: "synced n rs v0 root s \<Longrightarrow> synced n (rs @ ys) v0 root s"
  by (auto simp: synced_def Let_def tracking_append server_append)

lemma computed_append: "computed n rs load \<Longrightarrow> computed n (rs @ ys) load"
  unfolding computed_def by (metis (no_types, lifting) xspec_append length_append nat_less_iff of_nat_add trans_less_add1 of_nat_less_iff zero_le_imp_eq_int nat_int)

section \<open>Where the pending operations of a client are in the log\<close>

definition at_index :: "op list \<Rightarrow> op \<Rightarrow> nat \<Rightarrow> bool" where
  "at_index rs p k \<longleftrightarrow> k < length rs \<and> rs ! k = WithVersion p (int k)"

lemma at_indexD: "at_index rs p k \<Longrightarrow> opID (rs ! k) = opID p \<and> opParent (rs ! k) = opParent p \<and> opBasis (rs ! k) = opBasis p
    \<and> opChange (rs ! k) = opChange p \<and> k < length rs"
  by (simp add: at_index_def WithVersion_def)

lemma log_ok_inj: "log_ok n rs \<Longrightarrow> i < length rs \<Longrightarrow> j < length rs \<Longrightarrow> opID (rs ! i) = opID (rs ! j) \<Longrightarrow> i = j"
  using nth_eq_iff_index_eq [of "map opID rs" i j] by (simp add: log_ok_def)

lemma find_id_Some: "find_id p xs = Some i \<Longrightarrow> i < length xs \<and> opID (xs ! i) = p"
  by (induction xs arbitrary: i) (auto split: if_splits)

lemma parent_index_Some:
  assumes "parent_index rs k = Some (Some j)" "- 1 \<le> opBasis (rs ! k)" "k < length rs"
  shows "j < k \<and> opParent (rs ! k) = Some (opID (rs ! j)) \<and> opBasis (rs ! k) < int j"
proof -
  let ?lo = "nat (opBasis (rs ! k) + 1)"
  obtain i p where i: "opParent (rs ! k) = Some p" "find_id p (take (k - ?lo) (drop ?lo rs)) = Some i" "j = ?lo + i"
    using assms(1) by (auto simp: parent_index_def Let_def split: option.splits)
  then show ?thesis using find_id_Some [OF i(2)] assms(2,3) by (auto simp: nth_append)
qed

text \<open>The parent of an operation of a sound log comes before it and after its basis.\<close>

lemma parent_before:
  assumes "log_ok n rs" "log_fits n rs v0" "k < length rs" "opParent (rs ! k) = Some (opID (rs ! j))" "j < length rs"
  shows "parent_index rs k = Some (Some j) \<and> j < k \<and> opBasis (rs ! k) < int j"
proof -
  have "base_value n rs v0 k \<noteq> None" using assms(2,3) by (auto simp: log_fits_def)
  then have "parent_index rs k \<noteq> None" by (rule contrapos_nn) (simp add: base_value.simps [of n rs v0 k] Let_def)
  then obtain i where i: "parent_index rs k = Some (Some i)"
    using assms(4) by (auto simp: parent_index_def Let_def split: option.splits)
  have "- 1 \<le> opBasis (rs ! k)" using assms(1,3) by (simp add: log_ok_def basis_ok_def)
  from parent_index_Some [OF i this assms(3)] show ?thesis using log_ok_inj [OF assms(1), of j i] assms(3-5) i by auto
qed

lemma linked_indices:
  assumes "log_ok n rs" "log_fits n rs v0"
  shows "linked (p # ps) \<Longrightarrow> at_index rs p k \<Longrightarrow> (\<And>r. r \<in> set ps \<Longrightarrow> \<exists>j. at_index rs r j) \<Longrightarrow> q \<in> set ps \<Longrightarrow> at_index rs q l \<Longrightarrow> k < l"
proof (induction ps arbitrary: p k)
  case (Cons r ps)
  obtain j where j: "at_index rs r j" using Cons.prems(3) by auto
  have "opParent (rs ! j) = Some (opID (rs ! k))" using Cons.prems(1) at_indexD [OF j] at_indexD [OF Cons.prems(2)] by simp
  then have kj: "k < j" using parent_before [OF assms] at_indexD [OF j] at_indexD [OF Cons.prems(2)] by blast
  show ?case
  proof (cases "q = r")
    case True
    then have "j = l" using log_ok_inj [OF assms(1)] at_indexD [OF j] at_indexD [OF Cons.prems(5)] by metis
    then show ?thesis using kj by simp
  next
    case False
    then show ?thesis using Cons.IH [of r j] Cons.prems j kj by fastforce
  qed
qed simp

section \<open>The values that operations were made for\<close>

lemma dropWhile_later: "(\<And>a. a \<in> set R \<Longrightarrow> \<not> P a) \<Longrightarrow> dropWhile P (M @ R) = dropWhile P M @ R"
  by (cases R) (simp_all add: dropWhile_append3)

lemma takeWhile_later: "(\<And>a. a \<in> set R \<Longrightarrow> \<not> P a) \<Longrightarrow> takeWhile P (M @ R) = takeWhile P M"
  by (induction M) (auto simp: takeWhile_eq_Nil_iff hd_in_set)

lemma server_run:
  assumes "sound_log n rs v0" "V \<le> length rs" "a \<le> V" "server n rs v0 a = Some v"
  shows "foldM Strict v (map opChange (map (xop n rs) [a..<V])) = server n rs v0 V"
  using assms(2-4)
proof (induction "V - a" arbitrary: a v)
  case (Suc d)
  have "a < length rs" using Suc.hyps(2) Suc.prems(1) by simp
  from server_Suc [OF assms(1) this Suc.prems(3)]
  obtain w where w: "server n rs v0 (Suc a) = Some w" "Strict v (opChange (xop n rs a)) = Some w" by blast
  have "[a..<V] = a # [Suc a..<V]" using Suc.hyps(2) by (simp add: upt_conv_Cons)
  then show ?case using Suc.hyps(1) [of "Suc a" w] Suc.hyps(2) Suc.prems(1) w by simp
qed simp

lemma find_id_later: "distinct (map opID xs) \<Longrightarrow> lo \<le> k \<Longrightarrow> k < length xs \<Longrightarrow> find_id (opID (xs ! k)) (drop lo xs) = Some (k - lo)"
  using find_id_nth [of "drop lo xs" "k - lo"] by (simp add: drop_map [symmetric])

text \<open>
  The value that an operation without pending parent was made for, when \<open>V\<close> operations are known; and
  that every operation of a list fits its value: each is made on top of the one before it
  and of what that was merged with up to its basis.
\<close>

definition base_of :: "nat \<Rightarrow> op list \<Rightarrow> val \<Rightarrow> nat \<Rightarrow> op \<Rightarrow> val \<Rightarrow> bool" where
  "base_of n rs v0 V p b \<longleftrightarrow> (case opParent p of
     None \<Rightarrow> server n rs v0 (nat (opBasis p + 1)) = Some b
   | Some i \<Rightarrow> (\<exists>k c. k < V \<and> opID (rs ! k) = i \<and> opBasis p < int k \<and> client n rs v0 k = Some c
       \<and> foldM Strict c (map opChange (takeWhile (\<lambda>m. opVersion m \<le> opBasis p) (snd (the (xspec n rs k))))) = Some b))"

fun made :: "nat \<Rightarrow> op list \<Rightarrow> val \<Rightarrow> op list \<Rightarrow> bool" where
  "made n M b [] \<longleftrightarrow> True"
| "made n M b (p # ps) \<longleftrightarrow> (\<exists>c x m. Strict b (opChange p) = Some c
     \<and> foldM (merge_step n) (p, []) (dropWhile (\<lambda>m. opVersion m \<le> opBasis p) M) = Some (x, m)
     \<and> (case ps of [] \<Rightarrow> True
        | q # _ \<Rightarrow> (\<exists>b'. foldM Strict c (map opChange (takeWhile (\<lambda>m. opVersion m \<le> opBasis q) m)) = Some b' \<and> made n m b' ps)))"

definition made_ok :: "nat \<Rightarrow> op list \<Rightarrow> val \<Rightarrow> nat \<Rightarrow> op list \<Rightarrow> op list \<Rightarrow> bool" where
  "made_ok n rs v0 V pend chain \<longleftrightarrow> pend = [] \<or> (\<exists>M b. origin n rs V (hd pend) M \<and> following n M pend chain
     \<and> base_of n rs v0 V (hd pend) b \<and> made n M b pend)"

lemma client_append: "basis_ok rs \<Longrightarrow> k < length rs \<Longrightarrow> client n (rs @ ys) v0 k = client n rs v0 k"
  by (simp add: client_def base_value_append nth_append)

lemma base_of_append:
  assumes "basis_ok rs" "V \<le> length rs" "opBasis p < int V" "base_of n rs v0 V p b"
  shows "base_of n (rs @ ys) v0 V p b"
proof (cases "opParent p")
  case None
  then show ?thesis using assms server_append [of "nat (opBasis p + 1)" rs n ys v0] by (simp add: base_of_def nat_le_iff)
next
  case (Some i)
  then obtain k c where "k < V" "opID (rs ! k) = i" "opBasis p < int k" "client n rs v0 k = Some c"
    "foldM Strict c (map opChange (takeWhile (\<lambda>m. opVersion m \<le> opBasis p) (snd (the (xspec n rs k))))) = Some b"
    using assms(4) by (auto simp: base_of_def)
  then show ?thesis using Some assms(1,2) unfolding base_of_def
    by (auto simp: client_append nth_append xspec_append intro!: exI [of _ k])
qed

lemma made_ok_append:
  "basis_ok rs \<Longrightarrow> V \<le> length rs \<Longrightarrow> tracking n rs V pend chain \<Longrightarrow> made_ok n rs v0 V pend chain \<Longrightarrow> made_ok n (rs @ ys) v0 V pend chain"
  unfolding made_ok_def tracking_def using base_of_append origin_append by (metis list.set_sel(1))

text \<open>The index of the parent, wherever in the log the operation is.\<close>

lemma parent_index_at:
  assumes "distinct (map opID rs)" "k < length rs" "j < k" "opParent (rs ! k) = Some (opID (rs ! j))" "opBasis (rs ! k) < int j"
  shows "parent_index rs k = Some (Some j)"
proof -
  let ?lo = "nat (opBasis (rs ! k) + 1)"
  have lo: "?lo \<le> j" using assms(5) by simp
  have "find_id (opID (rs ! j)) (take (k - ?lo) (drop ?lo rs)) = Some (j - ?lo)"
    using find_id_nth [of "take (k - ?lo) (drop ?lo rs)" "j - ?lo"] assms(1-3) lo by (simp add: take_map [symmetric] drop_map [symmetric])
  then show ?thesis using assms(4) lo by (simp add: parent_index_def Let_def)
qed

lemma base_of_placed:
  assumes "distinct (map opID rs)" "V \<le> k" "at_index rs p k" "base_of n rs v0 V p b" "- 1 \<le> opBasis p"
    and "\<And>j. j < V \<Longrightarrow> xspec n rs j \<noteq> None"
  shows "base_value n rs v0 k = Some b"
proof -
  note kd = at_indexD [OF assms(3)]
  show ?thesis
  proof (cases "opParent p")
    case None
    then show ?thesis using assms(4) kd by (simp add: base_of_def base_value.simps [of n rs v0 k] parent_index_def Let_def)
  next
    case (Some i)
    then obtain j c where j: "j < V" "opID (rs ! j) = i" "opBasis p < int j" "client n rs v0 j = Some c"
      "foldM Strict c (map opChange (takeWhile (\<lambda>m. opVersion m \<le> opBasis p) (snd (the (xspec n rs j))))) = Some b"
      using assms(4) by (auto simp: base_of_def)
    have "parent_index rs k = Some (Some j)" using parent_index_at [OF assms(1), of k j] kd Some j(1-3) assms(2) by simp
    moreover obtain y mp where "xspec n rs j = Some (y, mp)" using assms(6) [OF j(1)] by auto
    ultimately show ?thesis using j(4,5) kd by (auto simp: base_value.simps [of n rs v0 k] Let_def client_def bind_Some_ex)
  qed
qed

text \<open>From the value of an operation, what it is to be merged with leads to the value of the store.\<close>

lemma origin_base:
  assumes "sound_log n rs v0" "V \<le> length rs" "origin n rs V p M" "base_of n rs v0 V p b" "- 1 \<le> opBasis p" "opBasis p < int V" "server n rs v0 V = Some v"
  shows "foldM Strict b (map opChange (dropWhile (\<lambda>m. opVersion m \<le> opBasis p) M)) = Some v"
proof -
  let ?P = "\<lambda>m. opVersion m \<le> opBasis p"
  have lo: "log_ok n rs" "log_fits n rs v0" "wf_val v0" "basis_ok rs" using assms(1) by (auto simp: sound_log_def log_ok_def)
  show ?thesis
  proof (cases "opParent p")
    case None
    then have M: "M = map (xop n rs) [0..<V]" using assms(3) by (simp add: origin_def)
    obtain L where L: "opBasis p = int L - 1"
      using assms(5) by (metis add_diff_cancel_right' diff_minus_eq_add le_diff_eq zero_le_imp_eq_int diff_0)
    have "server n rs v0 L = Some b" using assms(4) None L by (simp add: base_of_def)
    moreover have l: "L \<le> V" using assms(6) L by simp
    moreover have "dropWhile ?P M = map (xop n rs) [L..<V]"
      unfolding M L using xop_keeps [OF lo(1)] assms(2) l by (subst dropWhile_upt) auto
    ultimately show ?thesis using server_run [OF assms(1,2), of L b] assms(7) by simp
  next
    case (Some i)
    then obtain j where j: "j < V" "opID (rs ! j) = i" "opBasis p < int j" "M = snd (the (xspec n rs j)) @ map (xop n rs) [Suc j..<V]"
      using assms(3) by (auto simp: origin_def)
    obtain k c where k: "k < V" "opID (rs ! k) = i" "client n rs v0 k = Some c"
      "foldM Strict c (map opChange (takeWhile ?P (snd (the (xspec n rs k))))) = Some b"
      using assms(4) Some by (auto simp: base_of_def)
    have "k = j" using log_ok_inj [OF lo(1), of k j] k(1,2) j(1,2) assms(2) by simp
    then obtain w mp y where w: "server n rs v0 (Suc j) = Some w" "xspec n rs j = Some (y, mp)" "foldM Strict c (map opChange mp) = Some w"
      "foldM Strict c (map opChange (takeWhile ?P mp)) = Some b"
      using transformed_sequence [OF lo(2,3,4), of j] lo(1) j(1) assms(2) k(3,4) by (auto simp: log_ok_def)
    have "foldM Strict b (map opChange (dropWhile ?P mp)) = Some w"
      using w(3,4) takeWhile_dropWhile_id [of ?P mp] foldM_append [of Strict c "map opChange (takeWhile ?P mp)"]
      by (metis (no_types, lifting) bind.bind_lunit map_append)
    moreover have "dropWhile ?P M = dropWhile ?P mp @ map (xop n rs) [Suc j..<V]"
      unfolding j(4) w(2) option.sel snd_conv using xop_keeps [OF lo(1)] assms(2) j(3) by (intro dropWhile_later) auto
    ultimately show ?thesis using server_run [OF assms(1,2), of "Suc j" w] w(1) assms(7) j(1) by (simp add: foldM_append)
  qed
qed

section \<open>Pull and push keep the values\<close>

lemma made_pull:
  "made n M b ps \<Longrightarrow> following n (M @ [x]) ps qs \<Longrightarrow> (\<And>p. p \<in> set ps \<Longrightarrow> opBasis p < opVersion x) \<Longrightarrow> made n (M @ [x]) b ps"
proof (induction ps arbitrary: M b qs x)
  case (Cons p ps)
  let ?P = "\<lambda>m. opVersion m \<le> opBasis p"
  obtain c y m where c: "Strict b (opChange p) = Some c" "foldM (merge_step n) (p, []) (dropWhile ?P M) = Some (y, m)"
    "case ps of [] \<Rightarrow> True | q # _ \<Rightarrow> (\<exists>b'. foldM Strict c (map opChange (takeWhile (\<lambda>m. opVersion m \<le> opBasis q) m)) = Some b' \<and> made n m b' ps)"
    using Cons.prems(1) by auto
  have d: "dropWhile ?P (M @ [x]) = dropWhile ?P M @ [x]" using Cons.prems(3) [of p] by (intro dropWhile_append3) simp
  obtain y' m' where m': "foldM (merge_step n) (p, []) (dropWhile ?P M @ [x]) = Some (y', m')" "following n m' ps (tl qs)"
    using Cons.prems(2) unfolding following.simps d by (auto split: option.splits)
  then obtain x' where x': "m' = m @ [x']" "opVersion x' = opVersion x"
    using c(2) by (auto simp: foldM_append merge_step_Some)
  show ?case
  proof (cases ps)
    case Nil
    then show ?thesis using c(1) m'(1) d by auto
  next
    case (Cons q qs')
    then obtain b' where b': "foldM Strict c (map opChange (takeWhile (\<lambda>m. opVersion m \<le> opBasis q) m)) = Some b'" "made n m b' ps"
      using c(3) by auto
    have "takeWhile (\<lambda>m. opVersion m \<le> opBasis q) m' = takeWhile (\<lambda>m. opVersion m \<le> opBasis q) m"
      unfolding x'(1) using Cons.prems(3) [of q] Cons x'(2) by (intro takeWhile_later) simp
    moreover have "made n m' b' ps" unfolding x'(1)
      by (rule Cons.IH [OF b'(2) m'(2) [unfolded x'(1)]]) (use Cons.prems(3) x'(2) in simp)
    ultimately show ?thesis using c(1) m'(1) d b'(1) Cons by auto
  qed
qed simp

lemma made_foreign:
  assumes "log_ok n rs" "V < length rs" "tracking n rs V pend chain" "made_ok n rs v0 V pend chain"
    and "pull_chain n (xop n rs V) chain = Some (x, chain')"
  shows "made_ok n rs v0 (Suc V) pend chain'"
proof (cases "pend = []")
  case False
  then obtain M b where M: "origin n rs V (hd pend) M" "following n M pend chain" "base_of n rs v0 V (hd pend) b" "made n M b pend"
    using assms(4) by (auto simp: made_ok_def)
  have v: "opBasis p < opVersion (xop n rs V)" if "p \<in> set pend" for p
    using xop_keeps [OF assms(1,2)] assms(3) that by (simp add: tracking_def)
  have f: "following n (M @ [xop n rs V]) pend chain'" by (rule following_pull [OF M(2) assms(5)]) (rule v)
  have "made n (M @ [xop n rs V]) b pend" by (rule made_pull [OF M(4) f]) (rule v)
  moreover have "base_of n rs v0 (Suc V) (hd pend) b" using M(3) by (auto simp: base_of_def less_Suc_eq split: option.splits)
  ultimately show ?thesis using f origin_Suc [OF M(1)] by (auto simp: made_ok_def)
qed (simp add: made_ok_def)

lemma made_own:
  assumes "sound_log n rs v0" "V < length rs" "kept rs (p # ps)" "tracking n rs V (p # ps) chain" "made_ok n rs v0 V (p # ps) chain"
    and "opID (rs ! V) = opID p"
  shows "made_ok n rs v0 (Suc V) ps (tl chain)"
proof (cases ps)
  case (Cons q qs)
  have lo: "log_ok n rs" using assms(1) by (simp add: sound_log_def)
  have V: "rs ! V = WithVersion p (int V)" using assms(2,3,6) by (simp add: kept_def)
  have at: "at_index rs p V" using V assms(2) by (simp add: at_index_def)
  obtain M b where M: "origin n rs V p M" "following n M (p # ps) chain" "base_of n rs v0 V p b" "made n M b (p # ps)"
    using assms(5) by (auto simp: made_ok_def)
  obtain c x m b' where c: "Strict b (opChange p) = Some c" "foldM (merge_step n) (p, []) (dropWhile (\<lambda>m. opVersion m \<le> opBasis p) M) = Some (x, m)"
    "foldM Strict c (map opChange (takeWhile (\<lambda>m. opVersion m \<le> opBasis q) m)) = Some b'" "made n m b' ps"
    using M(4) Cons by auto
  have f: "following n m ps (tl chain)" using M(2) c(2) by simp
  have b: "opBasis (rs ! V) = opBasis p" "opParent (rs ! V) = opParent p" using V by (simp_all add: WithVersion_def)
  have org: "origin n rs V (rs ! V) M" using M(1) unfolding origin_def b .
  have xs: "xspec n rs V = Some (WithVersion x (int V), m)"
    using xspec_origin [OF lo assms(2) org] c(2) unfolding b(1) unfolding V by (simp add: merge_fold_WithVersion)
  have "base_value n rs v0 V = Some b"
    by (rule base_of_placed [OF _ order.refl at M(3)]) (use lo assms(2,4) in \<open>auto simp: log_ok_def tracking_def\<close>)
  then have "client n rs v0 V = Some c" using c(1) at_indexD [OF at] by (simp add: client_def)
  moreover have q: "opParent q = Some (opID p)" "opBasis q < int V" using assms(4) Cons by (auto simp: tracking_def)
  ultimately have "base_of n rs v0 (Suc V) q b'" using xs c(3) assms(6) unfolding base_of_def by (auto intro!: exI [of _ V])
  moreover have "origin n rs (Suc V) q m" using q xs assms(6) unfolding origin_def by (auto intro!: exI [of _ V])
  moreover have "hd ps = q" using Cons by simp
  ultimately show ?thesis using f c(4) unfolding made_ok_def by blast
qed (simp add: made_ok_def)


lemma made_one: "(\<And>m. m \<in> set M \<Longrightarrow> opVersion m \<le> opBasis x) \<Longrightarrow> Strict u (opChange x) \<noteq> None \<Longrightarrow> made n M u [x]"
proof -
  assume "\<And>m. m \<in> set M \<Longrightarrow> opVersion m \<le> opBasis x" "Strict u (opChange x) \<noteq> None"
  moreover then have "dropWhile (\<lambda>m. opVersion m \<le> opBasis x) M = []" by simp
  ultimately show ?thesis by (simp only: made.simps) auto
qed

lemma made_push:
  "made n M b ps \<Longrightarrow> following n M ps qs \<Longrightarrow> ps \<noteq> [] \<Longrightarrow> wf_val b \<Longrightarrow>
     foldM Strict b (map opChange (dropWhile (\<lambda>m. opVersion m \<le> opBasis (hd ps)) M)) = Some v \<Longrightarrow> foldM Strict v (map opChange qs) = Some u \<Longrightarrow>
     (\<And>m. m \<in> set M \<Longrightarrow> opVersion m \<le> opBasis x) \<Longrightarrow> Strict u (opChange x) \<noteq> None \<Longrightarrow> made n M b (ps @ [x])"
proof (induction ps arbitrary: M b qs v)
  case (Cons p ps)
  let ?P = "\<lambda>m. opVersion m \<le> opBasis p"
  obtain c y m where c: "Strict b (opChange p) = Some c" "foldM (merge_step n) (p, []) (dropWhile ?P M) = Some (y, m)"
    "case ps of [] \<Rightarrow> True | q # _ \<Rightarrow> (\<exists>b'. foldM Strict c (map opChange (takeWhile (\<lambda>m. opVersion m \<le> opBasis q) m)) = Some b' \<and> made n m b' ps)"
    using Cons.prems(1) by auto
  obtain q rest where q: "qs = q # rest" "opChange q = opChange y" "following n m ps rest"
    using Cons.prems(2) c(2) by (cases qs) auto
  obtain u1 where u1: "Strict v (opChange y) = Some u1" "foldM Strict u1 (map opChange rest) = Some u" "foldM Strict c (map opChange m) = Some u1"
    using Cons.prems(6) q merge_chain_conv [OF c(2) Cons.prems(4) _ c(1), of v c] Cons.prems(5) by (auto simp: bind_Some_ex)
  have vm: "opVersion a \<le> opBasis x" if "a \<in> set m" for a
  proof -
    have "map opVersion m = map opVersion (dropWhile ?P M)" using merge_fold_versions [OF c(2)] by simp
    then have "opVersion a \<in> set (map opVersion (dropWhile ?P M))" using that by (metis image_eqI set_map)
    then show ?thesis using Cons.prems(7) by (auto dest: set_dropWhileD)
  qed
  have wfc: "wf_val c" using Strict_wf [OF c(1) Cons.prems(4)] .
  show ?case
  proof (cases ps)
    case Nil
    then have u: "u1 = u" using q(3) u1(2) by simp
    have t: "takeWhile (\<lambda>m. opVersion m \<le> opBasis x) m = m" using vm by (simp add: takeWhile_eq_all_conv)
    have "foldM Strict c (map opChange (takeWhile (\<lambda>m. opVersion m \<le> opBasis x) m)) = Some u" unfolding t using u1(3) u by simp
    moreover have "made n m u [x]" by (rule made_one [OF vm Cons.prems(8)])
    ultimately show ?thesis using c(1,2) Nil by (auto simp del: made.simps simp: made.simps(2) [of n M b])
  next
    case (Cons r ps')
    then obtain b' where b': "foldM Strict c (map opChange (takeWhile (\<lambda>m. opVersion m \<le> opBasis r) m)) = Some b'" "made n m b' ps"
      using c(3) by auto
    have "foldM Strict b' (map opChange (dropWhile (\<lambda>m. opVersion m \<le> opBasis r) m)) = Some u1"
      using u1(3) b'(1) takeWhile_dropWhile_id [of "\<lambda>m. opVersion m \<le> opBasis r" m] foldM_append [of Strict c]
      by (metis (no_types, lifting) bind.bind_lunit map_append)
    then have "made n m b' (ps @ [x])"
      using Cons.IH [OF b'(2) q(3) _ foldM_Strict_wf [OF b'(1) wfc], of u1] u1(2) vm Cons.prems(8) Cons by auto
    then show ?thesis using c(1,2) b'(1) Cons by auto
  qed
qed simp

lemma origin_ex_hd: "tracking n rs V pend chain \<Longrightarrow> pend \<noteq> [] \<Longrightarrow> - 1 \<le> opBasis (hd pend) \<and> opBasis (hd pend) < int V"
  by (auto simp: tracking_def)

lemma base_of_wf:
  assumes "base_of n rs v0 V p b" "wf_val v0"
  shows "wf_val b"
proof (cases "opParent p")
  case None
  then show ?thesis using assms server_wf by (auto simp: base_of_def)
next
  case (Some i)
  then obtain k c mp where k: "client n rs v0 k = Some c" "foldM Strict c mp = Some b" using assms(1) by (auto simp: base_of_def)
  then have "wf_val c" using base_value_wf [of n rs v0 k] assms(2) Strict_wf by (auto simp: client_def bind_Some_ex)
  then show ?thesis using foldM_Strict_wf [OF k(2)] by blast
qed

lemma made_ok_push:
  assumes "sound_log n rs v0" "V \<le> length rs" "tracking n rs V pend chain" "made_ok n rs v0 V pend chain"
    and "server n rs v0 V = Some v" "foldM Strict v (map opChange chain) = Some u" "Strict u (opChange x) \<noteq> None"
    and "opBasis x = int V - 1" "opParent x = (if pend \<noteq> [] then Some (opID (last pend)) else None)"
  shows "made_ok n rs v0 V (pend @ [x]) (chain @ [x])"
proof -
  have lo: "log_ok n rs" "wf_val v0" using assms(1) by (auto simp: sound_log_def)
  show ?thesis
  proof (cases "pend = []")
    case True
    let ?M = "map (xop n rs) [0..<V]"
    have vM: "opVersion m \<le> opBasis x" if "m \<in> set ?M" for m using that xop_keeps [OF lo(1)] assms(2,8) by auto
    have "chain = []" using assms(3) True by (simp add: tracking_def)
    then have u: "u = v" using assms(6) by simp
    have "origin n rs V x ?M" using assms(9) True by (simp add: origin_def)
    moreover have "following n ?M [x] [x]" using following_push [of n ?M "[]" "[]" x] vM by simp
    moreover have "base_of n rs v0 V x u" using assms(5,8,9) True u by (simp add: base_of_def)
    moreover have "made n ?M u [x]" by (rule made_one [OF vM assms(7)])
    ultimately show ?thesis using True \<open>chain = []\<close> unfolding made_ok_def by (metis append_Nil list.sel(1))
  next
    case False
    then obtain M b where M: "origin n rs V (hd pend) M" "following n M pend chain" "base_of n rs v0 V (hd pend) b" "made n M b pend"
      using assms(4) by (auto simp: made_ok_def)
    have vM: "opVersion m \<le> opBasis x" if "m \<in> set M" for m
      using origin_versions [OF lo(1) assms(2) M(1) that] assms(8) by simp
    have "foldM Strict b (map opChange (dropWhile (\<lambda>m. opVersion m \<le> opBasis (hd pend)) M)) = Some v"
      using origin_base [OF assms(1,2) M(1,3)] origin_ex_hd [OF assms(3) False] assms(5) by blast
    from made_push [OF M(4,2) False base_of_wf [OF M(3) lo(2)] this assms(6) _ assms(7)]
    have "made n M b (pend @ [x])" using vM by blast
    moreover have "following n M (pend @ [x]) (chain @ [x])" by (rule following_push [OF M(2) vM])
    ultimately show ?thesis using M(1,3) False unfolding made_ok_def by (metis hd_append2)
  qed
qed

section \<open>An operation reaches the store\<close>

text \<open>An operation that is in the log: what it is merged with and the value it was made for.\<close>

definition located :: "nat \<Rightarrow> op list \<Rightarrow> val \<Rightarrow> nat \<Rightarrow> op \<Rightarrow> op list \<Rightarrow> val \<Rightarrow> bool" where
  "located n rs v0 V p M b \<longleftrightarrow> (\<exists>k R. V \<le> k \<and> at_index rs p k \<and> origin n rs k (rs ! k) (M @ R) \<and> (\<forall>a \<in> set R. int V \<le> opVersion a)
     \<and> base_value n rs v0 k = Some b)"

lemma located_after:
  assumes "log_ok n rs" "located n rs v0 V p M b" "opBasis p < int V" "Strict b (opChange p) = Some c"
    and "foldM (merge_step n) (p, []) (dropWhile (\<lambda>m. opVersion m \<le> opBasis p) M) = Some (x, m)"
  shows "\<exists>k rest y. V \<le> k \<and> at_index rs p k \<and> xspec n rs k = Some (y, m @ rest) \<and> (\<forall>a \<in> set rest. int V \<le> opVersion a) \<and> client n rs v0 k = Some c"
proof -
  let ?P = "\<lambda>m. opVersion m \<le> opBasis p"
  obtain k R where k: "V \<le> k" "at_index rs p k" "origin n rs k (rs ! k) (M @ R)" "\<forall>a \<in> set R. int V \<le> opVersion a" "base_value n rs v0 k = Some b"
    using assms(2) by (auto simp: located_def)
  note kd = at_indexD [OF k(2)]
  have drop: "dropWhile ?P (M @ R) = dropWhile ?P M @ R" using k(4) assms(3) by (intro dropWhile_later) force
  have f: "foldM (merge_step n) (rs ! k, []) (dropWhile ?P M) = Some (WithVersion x (int k), m)"
    using k(2) assms(5) by (simp add: at_index_def merge_fold_WithVersion)
  have "xspec n rs k = foldM (merge_step n) (rs ! k, []) (dropWhile ?P M @ R)"
    using xspec_origin [OF assms(1) _ k(3)] kd drop by simp
  moreover obtain y my where y: "xspec n rs k = Some (y, my)" using assms(1) kd by (fastforce simp: log_ok_def)
  ultimately have "foldM (merge_step n) (WithVersion x (int k), m) R = Some (y, my)" using f by (simp add: foldM_append)
  then obtain rest where rest: "my = m @ rest" "map opVersion rest = map opVersion R" using merge_fold_versions by blast
  have "int V \<le> opVersion a" if "a \<in> set rest" for a
  proof -
    have "opVersion a \<in> set (map opVersion R)" using that rest(2) by (metis image_eqI set_map)
    then show ?thesis using k(4) by auto
  qed
  then show ?thesis using k(1,2,5) y rest(1) assms(4) kd by (auto simp: client_def)
qed

text \<open>The base of an operation whose parent is in the log, when it is put anywhere after it.\<close>

lemma base_after_parent:
  assumes "distinct (map opID rs)" "at_index rs q l" "opParent q = Some (opID (rs ! k))" "k < l" "opBasis q < int V" "V \<le> k"
    and "xspec n rs k = Some (y, m @ rest)" "\<forall>a \<in> set rest. int V \<le> opVersion a" "client n rs v0 k = Some c"
    and "foldM Strict c (map opChange (takeWhile (\<lambda>m. opVersion m \<le> opBasis q) m)) = Some b"
  shows "base_value n rs v0 l = Some b"
proof -
  note ld = at_indexD [OF assms(2)]
  have "opBasis q < int k" using assms(5,6) by linarith
  then have "parent_index rs l = Some (Some k)" using parent_index_at [OF assms(1), of l k] ld assms(3,4) by simp
  moreover have "takeWhile (\<lambda>m. opVersion m \<le> opBasis q) (m @ rest) = takeWhile (\<lambda>m. opVersion m \<le> opBasis q) m"
    using assms(5,8) by (intro takeWhile_later) force
  ultimately show ?thesis using assms(7,9,10) ld by (auto simp: base_value.simps [of n rs v0 l] Let_def client_def bind_Some_ex)
qed

lemma delivered_base:
  "made n M b (ps @ x # rest) \<Longrightarrow> ps \<noteq> [] \<Longrightarrow> sound_log n rs v0 \<Longrightarrow> linked (ps @ x # rest) \<Longrightarrow> located n rs v0 V (hd ps) M b \<Longrightarrow>
    (\<And>p. p \<in> set ps \<Longrightarrow> opBasis p < int V \<and> (\<exists>k. at_index rs p k)) \<Longrightarrow> opBasis x < int V \<Longrightarrow> opID x \<notin> opID ` set rs \<Longrightarrow>
    \<exists>bx. base_value n (rs @ [WithVersion x (int (length rs))]) v0 (length rs) = Some bx \<and> Strict bx (opChange x) \<noteq> None"
proof (induction ps arbitrary: M b)
  case (Cons p ps)
  let ?rs = "rs @ [WithVersion x (int (length rs))]"
  have lo: "log_ok n rs" "log_fits n rs v0" "basis_ok rs" "distinct (map opID rs)" using Cons.prems(3) by (auto simp: sound_log_def log_ok_def)
  obtain q qs where q: "ps @ x # rest = q # qs" by (cases ps) auto
  obtain c y m b' where c: "Strict b (opChange p) = Some c" "foldM (merge_step n) (p, []) (dropWhile (\<lambda>m. opVersion m \<le> opBasis p) M) = Some (y, m)"
    "foldM Strict c (map opChange (takeWhile (\<lambda>m. opVersion m \<le> opBasis q) m)) = Some b'" "made n m b' (ps @ x # rest)"
    using Cons.prems(1) q by auto
  obtain k r z where k: "V \<le> k" "at_index rs p k" "xspec n rs k = Some (z, m @ r)" "\<forall>a \<in> set r. int V \<le> opVersion a" "client n rs v0 k = Some c"
    using located_after [OF lo(1) _ _ c(1,2)] Cons.prems(5,6) by fastforce
  note kd = at_indexD [OF k(2)]
  show ?case
  proof (cases ps)
    case Nil
    then have qx: "q = x" using q by simp
    have par: "opParent x = Some (opID (rs ! k))" using Cons.prems(4) Nil kd by simp
    have "base_value n ?rs v0 (length rs) = Some b'"
    proof (rule base_after_parent [of _ x _ k V n z m r])
      show "distinct (map opID ?rs)" using lo(4) Cons.prems(8) by simp
      show "at_index ?rs x (length rs)" by (simp add: at_index_def)
      show "opParent x = Some (opID (?rs ! k))" "k < length rs" "xspec n ?rs k = Some (z, m @ r)" "client n ?rs v0 k = Some c"
        using par kd k(3,5) by (simp_all add: nth_append xspec_append client_append [OF lo(3)])
    qed (use k c(3) Cons.prems(7) qx in simp_all)
    moreover have "Strict b' (opChange x) \<noteq> None" using c(4) Nil by auto
    ultimately show ?thesis by blast
  next
    case (Cons q' ps')
    then have qq: "q' = q" using q by simp
    obtain l where l: "at_index rs q l" using Cons.prems(6) Cons qq by auto
    note ld = at_indexD [OF l]
    have par: "opParent q = Some (opID (rs ! k))" using Cons.prems(4) Cons qq kd by simp
    have kl: "k < l" using parent_before [OF lo(1,2), of l k] par kd ld by simp
    have bq: "opBasis q < int V" using Cons.prems(6) Cons qq by simp
    have bv: "base_value n rs v0 l = Some b'" by (rule base_after_parent [OF lo(4) l par kl bq k(1,3,4,5) c(3)])
    let ?R = "r @ map (xop n rs) [Suc k..<l]"
    have "int V \<le> opVersion a" if "a \<in> set ?R" for a using that k(1,4) xop_keeps [OF lo(1)] ld by auto
    moreover have "origin n rs l (rs ! l) (m @ ?R)"
      unfolding origin_def using ld par kl k(1,3) bq by (auto intro!: exI [of _ k])
    ultimately have "located n rs v0 V q m b'" using l bv k(1) kl unfolding located_def by (intro exI [of _ l] exI [of _ ?R]) simp
    then show ?thesis using Cons.IH [OF c(4)] Cons.prems Cons qq by fastforce
  qed
qed simp

text \<open>
  What a client still has to deliver. The pending operations \<open>pend\<close> are first some that the store has, after
  version \<open>ver\<close>, and then some it does not have; the latter are the end of what is on the way,
  \<open>out\<close>. The store may have more of \<open>out\<close>, from deliveries whose success was not reported.
\<close>

definition outbox :: "op list \<Rightarrow> int \<Rightarrow> op list \<Rightarrow> op list \<Rightarrow> bool" where
  "outbox rs ver pend out \<longleftrightarrow> (\<exists>P Q R. pend = P @ R \<and> out = Q @ R \<and> (\<forall>p \<in> set P. \<exists>k. at_index rs p k \<and> ver < int k)
     \<and> opID ` set Q \<subseteq> opID ` set rs \<and> opID ` set R \<inter> opID ` set rs = {} \<and> distinct (map opID R))"

lemma outboxI:
  "pend = P @ R \<Longrightarrow> out = Q @ R \<Longrightarrow> (\<And>p. p \<in> set P \<Longrightarrow> \<exists>k. at_index rs p k \<and> ver < int k) \<Longrightarrow> opID ` set Q \<subseteq> opID ` set rs \<Longrightarrow>
     opID ` set R \<inter> opID ` set rs = {} \<Longrightarrow> distinct (map opID R) \<Longrightarrow> outbox rs ver pend out"
  unfolding outbox_def by blast

lemma outboxE:
  assumes "outbox rs ver pend out"
  obtains P Q R where "pend = P @ R" "out = Q @ R" "\<forall>p \<in> set P. \<exists>k. at_index rs p k \<and> ver < int k"
    "opID ` set Q \<subseteq> opID ` set rs" "opID ` set R \<inter> opID ` set rs = {}" "distinct (map opID R)"
  using assms unfolding outbox_def by blast

lemma at_index_append: "at_index rs p k \<Longrightarrow> at_index (rs @ ys) p k"
  by (simp add: at_index_def nth_append)

lemma outbox_kept: "log_ok n rs \<Longrightarrow> outbox rs ver pend out \<Longrightarrow> kept rs pend"
proof (elim outboxE)
  fix P Q R assume lo: "log_ok n rs" and s: "pend = P @ R" "\<forall>p \<in> set P. \<exists>k. at_index rs p k \<and> ver < int k" "opID ` set R \<inter> opID ` set rs = {}"
  show "kept rs pend" unfolding kept_def
  proof (intro ballI allI impI)
    fix p j assume p: "p \<in> set pend" "j < length rs" "opID (rs ! j) = opID p"
    then have "p \<notin> set R" using s(3) by (metis IntI empty_iff imageI nth_mem)
    then obtain k where "at_index rs p k" using p(1) s(1,2) by auto
    then show "rs ! j = WithVersion p (int j)" using log_ok_inj [OF lo, of j k] p(2,3) by (auto simp: at_index_def)
  qed
qed

lemma outbox_append:
  assumes "outbox rs ver pend out" "opID ` set ys \<inter> opID ` set pend = {}"
  shows "outbox (rs @ ys) ver pend out"
  using assms(1)
proof (rule outboxE)
  fix P Q R assume s: "pend = P @ R" "out = Q @ R" "\<forall>p \<in> set P. \<exists>k. at_index rs p k \<and> ver < int k"
    "opID ` set Q \<subseteq> opID ` set rs" "opID ` set R \<inter> opID ` set rs = {}" "distinct (map opID R)"
  show ?thesis
  proof (rule outboxI [OF s(1,2)])
    fix p assume "p \<in> set P"
    then show "\<exists>k. at_index (rs @ ys) p k \<and> ver < int k" using s(3) at_index_append by metis
  qed (use s(1,4-6) assms(2) in auto)
qed

lemma outbox_push:
  assumes "outbox rs ver pend out" "opID x \<notin> opID ` set rs" "opID x \<notin> opID ` set pend"
  shows "outbox rs ver (pend @ [x]) (out @ [x])"
  using assms(1)
proof (rule outboxE)
  fix P Q R assume s: "pend = P @ R" "out = Q @ R" "\<forall>p \<in> set P. \<exists>k. at_index rs p k \<and> ver < int k"
    "opID ` set Q \<subseteq> opID ` set rs" "opID ` set R \<inter> opID ` set rs = {}" "distinct (map opID R)"
  show ?thesis by (rule outboxI [of _ P "R @ [x]" _ Q]) (use s assms(2,3) in auto)
qed

text \<open>Where the boundary is: before the first operation that the store does not have.\<close>

lemma outbox_split:
  assumes "Q @ R = pre @ rest" "opID ` set Q \<subseteq> A" "opID ` set R \<inter> A = {}" "opID ` set pre \<subseteq> A"
  obtains q where "Q = pre @ q" "rest = q @ R"
proof -
  obtain us where "Q = pre @ us \<and> us @ R = rest \<or> Q @ us = pre \<and> R = us @ rest" using assms(1) by (auto simp: append_eq_append_conv2)
  moreover have "us = []" if "Q @ us = pre" "R = us @ rest"
  proof (rule ccontr)
    assume "us \<noteq> []"
    then have "opID (hd us) \<in> A" "opID (hd us) \<in> opID ` set R" using that assms(4) by auto
    then show False using assms(3) by blast
  qed
  ultimately show ?thesis using that by fastforce
qed

lemma outbox_accept:
  assumes "outbox rs ver pend (ops @ out)" "opID ` set ops \<subseteq> opID ` set rs"
  shows "outbox rs ver pend out"
  using assms(1)
proof (rule outboxE)
  fix P Q R assume s: "pend = P @ R" "ops @ out = Q @ R" "\<forall>p \<in> set P. \<exists>k. at_index rs p k \<and> ver < int k"
    "opID ` set Q \<subseteq> opID ` set rs" "opID ` set R \<inter> opID ` set rs = {}" "distinct (map opID R)"
  obtain q where "Q = ops @ q" "out = q @ R" using outbox_split [OF s(2) [symmetric] s(4,5) assms(2)] .
  then show ?thesis by (intro outboxI [of _ P R _ q]) (use s in auto)
qed

section \<open>The log that the store makes\<close>

text \<open>A client towards a log: what it tracks, the values of its pending operations and what it still delivers.\<close>

definition sending :: "nat \<Rightarrow> val \<Rightarrow> op list \<Rightarrow> 'w session \<Rightarrow> op list \<Rightarrow> bool" where
  "sending n v0 rs s out \<longleftrightarrow> (let V = nat (cfgVersion (cfg s) + 1) in - 1 \<le> cfgVersion (cfg s) \<and> V \<le> length rs
     \<and> tracking n rs V (cfgPending (cfg s)) (cfgMergeChain (cfg s)) \<and> made_ok n rs v0 V (cfgPending (cfg s)) (cfgMergeChain (cfg s))
     \<and> outbox rs (cfgVersion (cfg s)) (cfgPending (cfg s)) out)"

lemma sending_append:
  assumes "basis_ok rs" "sending n v0 rs s out" "opID ` set ys \<inter> opID ` set (cfgPending (cfg s)) = {}"
  shows "sending n v0 (rs @ ys) s out"
  using assms outbox_append made_ok_append tracking_append unfolding sending_def Let_def by (metis length_append trans_le_add1)

lemma sound_log_deliver:
  assumes "sound_log n rs v0" "opID x \<notin> opID ` set rs" "- 1 \<le> opBasis x" "opBasis x < int (length rs)" "rs' = rs @ [WithVersion x (int (length rs))]"
    and "base_value n rs' v0 (length rs) = Some b" "Strict b (opChange x) \<noteq> None" "xspec n rs' (length rs) \<noteq> None"
  shows "sound_log n rs' v0"
proof -
  have lo: "log_ok n rs" "basis_ok rs" "log_fits n rs v0" "wf_val v0" using assms(1) by (auto simp: sound_log_def log_ok_def)
  have x: "opBasis (WithVersion x (int (length rs))) = opBasis x" by (simp add: WithVersion_def)
  have "log_ok n rs'"
    using lo(1) assms(2-4,8) x unfolding assms(5) by (auto simp: log_ok_def basis_ok_def nth_append less_Suc_eq xspec_append)
  moreover have "log_fits n rs' v0"
    using lo(3) assms(6,7) unfolding assms(5) by (auto simp: log_fits_def less_Suc_eq nth_append base_value_append [OF lo(2)])
  ultimately show ?thesis using lo(4) by (simp add: sound_log_def)
qed

lemma origin_grow: "origin n rs V p M \<Longrightarrow> origin n rs (V + d) p (M @ map (xop n rs) [V..<V + d])"
proof (induction d)
  case (Suc d)
  have "origin n rs (Suc (V + d)) p ((M @ map (xop n rs) [V..<V + d]) @ [xop n rs (V + d)])"
    by (rule origin_Suc) (rule Suc.IH [OF Suc.prems])
  then show ?case by simp
qed simp

lemma next_base:
  assumes "sound_log n rs v0" "sending n v0 rs s out" "cfgPending (cfg s) = P @ x # R" "opID x \<notin> opID ` set rs"
    and "\<And>p. p \<in> set P \<Longrightarrow> \<exists>k. at_index rs p k \<and> cfgVersion (cfg s) < int k"
  shows "\<exists>b. base_value n (rs @ [WithVersion x (int (length rs))]) v0 (length rs) = Some b \<and> Strict b (opChange x) \<noteq> None"
proof -
  let ?V = "nat (cfgVersion (cfg s) + 1)" and ?rs = "rs @ [WithVersion x (int (length rs))]"
  have lo: "log_ok n rs" "basis_ok rs" "distinct (map opID rs)" using assms(1) by (auto simp: sound_log_def log_ok_def)
  have V: "- 1 \<le> cfgVersion (cfg s)" "?V \<le> length rs" and tr: "tracking n rs ?V (P @ x # R) (cfgMergeChain (cfg s))"
    and mk: "made_ok n rs v0 ?V (P @ x # R) (cfgMergeChain (cfg s))"
    using assms(2,3) by (simp_all add: sending_def Let_def)
  obtain M b where M: "origin n rs ?V (hd (P @ x # R)) M" "base_of n rs v0 ?V (hd (P @ x # R)) b" "made n M b (P @ x # R)"
    using mk by (auto simp: made_ok_def)
  have bs: "- 1 \<le> opBasis p \<and> opBasis p < int ?V" if "p \<in> set (P @ x # R)" for p using tr that unfolding tracking_def by blast
  have def: "xspec n rs j \<noteq> None" if "j < ?V" for j using lo(1) V(2) that by (simp add: log_ok_def)
  show ?thesis
  proof (cases P)
    case Nil
    have "base_value n ?rs v0 (length rs) = Some b"
    proof (rule base_of_placed [of _ ?V _ x])
      show "distinct (map opID ?rs)" using lo(3) assms(4) by simp
      show "at_index ?rs x (length rs)" by (simp add: at_index_def)
      show "base_of n ?rs v0 ?V x b" using base_of_append [OF lo(2) V(2)] bs [of x] M(2) Nil by simp
      show "xspec n ?rs j \<noteq> None" if "j < ?V" for j using def [OF that] that V(2) by (simp add: xspec_append)
    qed (use V(2) bs [of x] in simp_all)
    then show ?thesis using M(3) Nil by auto
  next
    case (Cons p P')
    obtain k where k: "at_index rs p k" "?V \<le> k" using assms(5) [of p] Cons by (auto simp: nat_le_iff)
    note kd = at_indexD [OF k(1)]
    let ?T = "map (xop n rs) [?V..<k]"
    have "base_value n rs v0 k = Some b" by (rule base_of_placed [OF lo(3) k(2,1)]) (use M(2) Cons bs [of p] def in simp_all)
    moreover have "origin n rs k p (M @ ?T)" using origin_grow [of n rs ?V p M "k - ?V"] M(1) k(2) Cons by simp
    then have "origin n rs k (rs ! k) (M @ ?T)" using kd unfolding origin_def by (simp cong: option.case_cong)
    moreover have "int ?V \<le> opVersion a" if "a \<in> set ?T" for a using that xop_keeps [OF lo(1)] kd by auto
    ultimately have "located n rs v0 ?V p M b" using k unfolding located_def by (intro exI [of _ k] exI [of _ ?T]) simp
    then show ?thesis
      using delivered_base [OF M(3) _ assms(1)] tr bs assms(4,5) Cons unfolding tracking_def by (metis (no_types, lifting) Un_iff list.discI list.sel(1) list.set_intros(1) set_append)
  qed
qed

lemma deliver_loop:
  assumes "mem_ok m" "sound_log n (memOps m) v0" "sending n v0 (memOps m) s (pre @ ops @ rest)" "opID ` set pre \<subseteq> opID ` set (memOps m)"
    and "m' = mem_Append_loop m ops" "\<And>j. j < length (memOps m') \<Longrightarrow> xspec n (memOps m') j \<noteq> None"
  shows "sound_log n (memOps m') v0 \<and> sending n v0 (memOps m') s (pre @ ops @ rest)
    \<and> (\<exists>ys. memOps m' = memOps m @ ys \<and> opID ` set ys \<subseteq> opID ` set (cfgPending (cfg s)))"
  using assms
proof (induction ops arbitrary: m pre)
  case (Cons x ops)
  have seen: "memSeen m = opID ` set (memOps m)" using Cons.prems(1) by (simp add: mem_ok_def)
  show ?case
  proof (cases "opID x \<in> opID ` set (memOps m)")
    case True
    then show ?thesis using Cons.IH [of m "pre @ [x]"] Cons.prems seen by simp
  next
    case False
    let ?rs = "memOps m" and ?m = "\<lparr>memOps = memOps m @ [WithVersion x (int (length (memOps m)))], memSeen = {opID x} \<union> memSeen m\<rparr>"
    let ?c = "cfg s"
    have m': "m' = mem_Append_loop ?m ops" using Cons.prems(5) False seen by simp
    have mok: "mem_ok ?m" using Cons.prems(1) False by (auto simp: mem_ok_def nth_append less_Suc_eq)
    have sd: "- 1 \<le> cfgVersion ?c" "nat (cfgVersion ?c + 1) \<le> length ?rs" "tracking n ?rs (nat (cfgVersion ?c + 1)) (cfgPending ?c) (cfgMergeChain ?c)"
      "made_ok n ?rs v0 (nat (cfgVersion ?c + 1)) (cfgPending ?c) (cfgMergeChain ?c)" "outbox ?rs (cfgVersion ?c) (cfgPending ?c) (pre @ x # ops @ rest)"
      using Cons.prems(3) by (simp_all add: sending_def Let_def)
    obtain P Q R where s: "cfgPending ?c = P @ R" "pre @ x # ops @ rest = Q @ R" "\<forall>p \<in> set P. \<exists>k. at_index ?rs p k \<and> cfgVersion ?c < int k"
      "opID ` set Q \<subseteq> opID ` set ?rs" "opID ` set R \<inter> opID ` set ?rs = {}" "distinct (map opID R)"
      using sd(5) by (rule outboxE)
    obtain q where "Q = pre @ q" "x # ops @ rest = q @ R" using outbox_split [OF s(2) [symmetric] s(4,5) Cons.prems(4)] .
    then have QR: "Q = pre" "R = x # ops @ rest" using s(4) False by (cases q; auto)+
    have pend: "cfgPending ?c = P @ x # ops @ rest" using s(1) QR by simp
    have bs: "- 1 \<le> opBasis x" "opBasis x < int (length ?rs)" using sd(1-3) pend by (auto simp: tracking_def)
    obtain ys where ys: "memOps m' = memOps ?m @ ys" using mem_Append_loop_ok [OF mok, of ops] m' by auto
    have "xspec n (memOps ?m) (length ?rs) \<noteq> None"
      using Cons.prems(6) [of "length ?rs"] xspec_append [of "length ?rs" "memOps ?m" n ys] ys by simp
    then have sl: "sound_log n (memOps ?m) v0"
      using next_base [OF Cons.prems(2,3) pend False] s(3) sound_log_deliver [OF Cons.prems(2) False bs] by auto
    have bok: "basis_ok ?rs" using Cons.prems(2) by (simp add: sound_log_def log_ok_def)
    have "outbox (memOps ?m) (cfgVersion ?c) (cfgPending ?c) ((pre @ [x]) @ ops @ rest)"
    proof (rule outboxI [of _ "P @ [x]" "ops @ rest" _ "pre @ [x]"])
      fix p assume "p \<in> set (P @ [x])"
      moreover have "at_index (memOps ?m) x (length ?rs)" by (simp add: at_index_def)
      moreover have "cfgVersion ?c < int (length ?rs)" using sd(1,2) by simp
      moreover have "\<exists>k. at_index (memOps ?m) p k \<and> cfgVersion ?c < int k" if "p \<in> set P" using s(3) that at_index_append by fastforce
      ultimately show "\<exists>k. at_index (memOps ?m) p k \<and> cfgVersion ?c < int k" by auto
    qed (use pend s(5,6) QR Cons.prems(4) in auto)
    then have "sending n v0 (memOps ?m) s ((pre @ [x]) @ ops @ rest)"
      using sd(1-4) made_ok_append [OF bok sd(2-4)] tracking_append [OF sd(2,3)] by (simp add: sending_def Let_def)
    then have "sound_log n (memOps m') v0 \<and> sending n v0 (memOps m') s ((pre @ [x]) @ ops @ rest)
        \<and> (\<exists>ys. memOps m' = memOps ?m @ ys \<and> opID ` set ys \<subseteq> opID ` set (cfgPending ?c))"
      by (rule Cons.IH [OF mok sl _ _ m' Cons.prems(6)]) (use Cons.prems(4) in auto)
    then show ?thesis using pend by auto
  qed
qed auto

section \<open>Pull and push of a session\<close>

lemma pull_step_pending:
  "pull_step n s x = Some s' \<Longrightarrow> cfgPending (cfg s') =
     (if cfgPending (cfg s) \<noteq> [] \<and> opID (hd (cfgPending (cfg s))) = opID x then tl (cfgPending (cfg s)) else cfgPending (cfg s))"
  by (auto simp: pull_step_def Let_def bind_Some_ex split: if_splits)

lemma linked_prefix: "linked (as @ bs) \<Longrightarrow> linked as"
  by (induction as rule: linked.induct) auto

lemma outbox_pull:
  assumes "sound_log n rs v0" "linked pend" "outbox rs (int V - 1) pend out" "V < length rs"
  shows "outbox rs (int V) (if pend \<noteq> [] \<and> opID (hd pend) = opID (rs ! V) then tl pend else pend) out"
  using assms(3)
proof (rule outboxE)
  fix P Q R assume s: "pend = P @ R" "out = Q @ R" "\<forall>p \<in> set P. \<exists>k. at_index rs p k \<and> int V - 1 < int k"
    "opID ` set Q \<subseteq> opID ` set rs" "opID ` set R \<inter> opID ` set rs = {}" "distinct (map opID R)"
  have lo: "log_ok n rs" "log_fits n rs v0" using assms(1) by (auto simp: sound_log_def)
  show ?thesis
  proof (cases P)
    case Nil
    have "opID (hd R) \<noteq> opID (rs ! V)" if "R \<noteq> []" using s(5) assms(4) that by (metis IntI empty_iff hd_in_set imageI nth_mem)
    then show ?thesis using s Nil by (intro outboxI [of _ "[]" R _ Q]) auto
  next
    case (Cons p ps)
    then obtain k where k: "at_index rs p k" "V \<le> k" using s(3) by auto
    have lk: "linked (p # ps)" using assms(2) s(1) Cons linked_prefix by metis
    have after: "\<exists>l. at_index rs q l \<and> k < l" if "q \<in> set ps" for q
      using linked_indices [OF lo lk k(1) _ that] s(3) Cons that by (metis list.set_intros(2))
    show ?thesis
    proof (cases "opID p = opID (rs ! V)")
      case True
      have "\<exists>l. at_index rs q l \<and> int V < int l" if "q \<in> set ps" for q using after [OF that] k(2) by force
      then show ?thesis using s Cons True by (intro outboxI [of _ ps R _ Q]) auto
    next
      case False
      then have "V < k" using at_indexD [OF k(1)] k(2) by (cases "k = V") auto
      then have "\<exists>l. at_index rs q l \<and> int V < int l" if "q \<in> set P" for q using that Cons after [of q] k(1) by force
      then show ?thesis using s Cons False by (intro outboxI [of _ P R _ Q]) auto
    qed
  qed
qed

lemma pull_step_sending:
  assumes "sound_log n rs v0" "synced n rs v0 root s" "sending n v0 rs s out" "cfgVersion (cfg s) = int V - 1" "V < length rs"
    and "pull_step n s (xop n rs V) = Some s'"
  shows "synced n rs v0 root s' \<and> sending n v0 rs s' out \<and> cfgVersion (cfg s') = int V \<and> sout s' = sout s"
proof -
  let ?p = "cfgPending (cfg s)" and ?x = "xop n rs V"
  have lo: "log_ok n rs" using assms(1) by (simp add: sound_log_def)
  have sd: "tracking n rs V ?p (cfgMergeChain (cfg s))" "made_ok n rs v0 V ?p (cfgMergeChain (cfg s))" "outbox rs (int V - 1) ?p out"
    using assms(3,4) by (simp_all add: sending_def Let_def)
  have kp: "kept rs ?p" by (rule outbox_kept [OF lo sd(3)])
  have sy: "synced n rs v0 root s'" "cfgVersion (cfg s') = int V" using pull_step_synced [OF assms(1,2) kp assms(4-6)] by simp_all
  have id: "opID ?x = opID (rs ! V)" using xop_keeps [OF lo assms(5)] by simp
  have out: "sout s' = sout s" using assms(6) by (auto simp: pull_step_def Let_def bind_Some_ex split: if_splits)
  have ob: "outbox rs (int V) (cfgPending (cfg s')) out"
    using outbox_pull [OF assms(1) _ sd(3) assms(5)] sd(1) pull_step_pending [OF assms(6)] unfolding id tracking_def by simp
  have "made_ok n rs v0 (Suc V) (cfgPending (cfg s')) (cfgMergeChain (cfg s'))"
  proof (cases "?p \<noteq> [] \<and> opID (hd ?p) = opID ?x")
    case True
    then obtain p ps where ps: "?p = p # ps" "opID (rs ! V) = opID p" using id by (cases ?p) auto
    have "cfgMergeChain (cfg s') = tl (cfgMergeChain (cfg s))" "cfgPending (cfg s') = ps"
      using assms(6) True ps(1) by (auto simp: pull_step_def Let_def split: if_splits)
    then show ?thesis using made_own [OF assms(1,5) _ _ _ ps(2)] kp sd(1,2) ps(1) by simp
  next
    case False
    then obtain x1 chain h r where p: "pull_chain n ?x (cfgMergeChain (cfg s)) = Some (x1, chain)"
      "s' = s\<lparr>cfg := (cfg s)\<lparr>cfgMergeChain := chain, cfgVersion := int V\<rparr>, sheap := h, sstream := r\<rparr>"
      using assms(4,6) by (auto simp: pull_step_def Let_def bind_Some_ex stream_ReverseAppend_def)
    then show ?thesis using made_foreign [OF lo assms(5) sd(1,2) p(1)] by simp
  qed
  then show ?thesis using sy ob out by (auto simp: sending_def synced_def Let_def nat_add_distrib)
qed

lemma pull_loop_sending:
  assumes "sound_log n rs v0" "synced n rs v0 root s" "sending n v0 rs s out" "cfgVersion (cfg s) = int V - 1" "m \<le> length rs"
    and "pull_loop n s (map (xop n rs) [V..<m]) = Some (s', e)"
  shows "e = None \<and> synced n rs v0 root s' \<and> sending n v0 rs s' out \<and> sout s' = sout s"
  using assms(2-6)
proof (induction "m - V" arbitrary: V s)
  case (Suc d)
  then have V: "[V..<m] = V # [Suc V..<m]" "V < length rs" "V < m" by (auto simp: upt_conv_Cons)
  have lo: "log_ok n rs" using assms(1) by (simp add: sound_log_def)
  have "opVersion (xop n rs V) = int V" using xop_keeps [OF lo V(2)] by simp
  then obtain s1 where s1: "pull_step n s (xop n rs V) = Some s1" "pull_loop n s1 (map (xop n rs) [Suc V..<m]) = Some (s', e)"
    using Suc.prems(3,5) unfolding V(1) by (auto simp: bind_Some_ex)
  have "synced n rs v0 root s1" "sending n v0 rs s1 out" "cfgVersion (cfg s1) = int (Suc V) - 1" "sout s1 = sout s"
    using pull_step_sending [OF assms(1) Suc.prems(1-3) V(2) s1(1)] by auto
  then show ?case using Suc.hyps(1) [of "Suc V" s1] Suc.hyps(2) Suc.prems(4) s1(2) by auto
qed auto

lemma sending_more [simp]: "sending n v0 rs (s\<lparr>sworld := w\<rparr>) out = sending n v0 rs s out" "sending n v0 rs (notify s) out = sending n v0 rs s out"
  "sending n v0 rs (s\<lparr>sheap := h\<rparr>) out = sending n v0 rs s out" "sending n v0 rs (s\<lparr>sstream := t\<rparr>) out = sending n v0 rs s out"
  by (simp_all add: sending_def)

lemma session_pull_sending:
  assumes "sound_log n rs v0" "synced n rs v0 root s" "sending n v0 rs s out"
    and "st_GetSince S (sworld s) (cfgVersion (cfg s) + 1) 1000 = ok (w, map (xop n rs) [nat (cfgVersion (cfg s) + 1)..<m])" "m \<le> length rs"
    and "session_pull n S s = Some (s', e)"
  shows "synced n rs v0 root s' \<and> sending n v0 rs s' out \<and> sout s' = sout s \<and> sworld s' = w"
proof -
  let ?V = "nat (cfgVersion (cfg s) + 1)"
  have ver: "cfgVersion (cfg s) = int ?V - 1" using assms(3) by (simp add: sending_def Let_def)
  obtain s1 e1 where p: "pull_loop n (s\<lparr>sworld := w\<rparr>) (map (xop n rs) [?V..<m]) = Some (s1, e1)" "s' = notify s1 \<or> s' = s1"
    using assms(4,6) by (auto simp: session_pull_def bind_Some_ex split: if_splits)
  show ?thesis
    using pull_loop_sending [OF assms(1) _ _ _ assms(5) p(1)] pull_loop_world [OF p(1)] assms(2,3) ver p(2) by auto
qed

lemma session_push_sending:
  assumes "sound_log n rs v0" "synced n rs v0 root s" "sending n v0 rs s out" "sout s = []"
    and "i \<notin> opID ` set rs" "i \<notin> opID ` set (cfgPending (cfg s))" "session_push n S (Inr i) s = Some (s', e)"
  shows "synced n rs v0 root s' \<and> (\<exists>xs. sending n v0 rs s' (out @ xs) \<and> opID ` set xs \<subseteq> {i} \<and> cfgPending (cfg s') = cfgPending (cfg s) @ xs
    \<and> (if xs = [] then sworld s' = sworld s \<and> sout s' = [] else sworld s' = fst (st_Append S (sworld s) xs) \<and> (snd (st_Append S (sworld s) xs) = None \<longrightarrow> sout s' = [])))"
proof -
  let ?V = "nat (cfgVersion (cfg s) + 1)" and ?pend = "cfgPending (cfg s)" and ?chain = "cfgMergeChain (cfg s)"
  have lo: "log_ok n rs" using assms(1) by (simp add: sound_log_def)
  have sd: "- 1 \<le> cfgVersion (cfg s)" "?V \<le> length rs" "tracking n rs ?V ?pend ?chain" "made_ok n rs v0 ?V ?pend ?chain"
    "outbox rs (cfgVersion (cfg s)) ?pend out" using assms(3) by (simp_all add: sending_def Let_def)
  obtain t c where tc: "synced n rs v0 root s'" "cfgVersion (cfg s') = cfgVersion (cfg s)" "Latest (plain n) (sheap s) (sstream s) = Some (t, c)"
    "cfgPending (cfg s') = ?pend @ (if c = None then [] else [push_op i s c])"
    "if c = None then s' = s\<lparr>sstream := t\<rparr> else (let r = st_Append S (sworld s) [push_op i s c]
       in sworld s' = fst r \<and> e = snd r \<and> sout s' = (if e = None then [] else [push_op i s c]))"
    using session_push_op [OF lo assms(2,7)] assms(4) by (auto simp: Let_def split: if_splits)
  show ?thesis
  proof (cases "c = None")
    case True
    then have "s' = s\<lparr>sstream := t\<rparr>" using tc(5) by simp
    then show ?thesis using tc(1) assms(3,4) by (intro conjI exI [of _ "[]"]) simp_all
  next
    case False
    let ?x = "push_op i s c"
    have x: "opID ?x = i" "opBasis ?x = int ?V - 1" "opParent ?x = (if ?pend \<noteq> [] then Some (opID (last ?pend)) else None)" "opChange ?x = c"
      using sd(1) by (simp_all add: push_op_def Let_def)
    obtain v u k f where st: "server n rs v0 ?V = Some v" "wf_val v" "heap_ok (sheap s)"
      "foldM Strict v (map opChange ?chain) = Some u" "chase (sheap s) (sstream s) u = Some (k, f)"
      using assms(2) by (auto simp: synced_def Let_def in_step_def)
    have "wf_val u" using foldM_Strict_wf [OF st(4,2)] .
    then have "Strict u c = Some f" using list.Latest_value [OF st(3,5), of n] tc(3) by auto
    then have mk: "made_ok n rs v0 ?V (?pend @ [?x]) (?chain @ [?x])"
      using made_ok_push [OF assms(1) sd(2-4) st(1,4) _ x(2,3)] x(4) by simp
    have ch: "cfgMergeChain (cfg s') = ?chain @ [?x]"
      using assms(7) tc(3) False by (auto simp: session_push_def appendChange_def push_op_def Let_def notify_def split: if_splits prod.splits)
    have "tracking n rs ?V (?pend @ [?x]) (?chain @ [?x])" by (rule tracking_push [OF lo sd(2,3) x(2,3)])
    moreover have "outbox rs (cfgVersion (cfg s)) (?pend @ [?x]) (out @ [?x])" using outbox_push [OF sd(5)] assms(5,6) x(1) by simp
    ultimately have "sending n v0 rs s' (out @ [?x])"
      using mk ch tc(2,4) False sd(1,2) by (simp add: sending_def Let_def)
    then show ?thesis using tc(1,4,5) False x(1) by (intro conjI exI [of _ "[?x]"]) (auto simp: Let_def)
  qed
qed

end
