(* ===== verification/Dot_System.thy ===== *)
theory Dot_System
  imports Dot_Outstanding
begin

text \<open>
  Clients of one in-memory store, through all the layers that \<open>sync.Stream\<close> puts between them: the session,
  the store that reads in the background, the store that delivers in the background, the transformer
  and its cache. The goroutines of the layers are steps of the system, so an operation
  reaches the store long after it was pushed, perhaps more than once, and what a
  client reads may have been fetched long before.
\<close>

section \<open>The system\<close>

type_synonym member_reliable = "(mem \<times> session_cache) reliable"
type_synonym member = "member_reliable nonblocking session"

record system =
  sysStore :: mem
  sysClients :: "member list"

abbreviation member_rel :: "member \<Rightarrow> member_reliable" where
  "member_rel s \<equiv> nbStore (sworld s)"

definition with_rel :: "member \<Rightarrow> member_reliable \<Rightarrow> member" where
  "with_rel s r = s\<lparr>sworld := (sworld s)\<lparr>nbStore := r\<rparr>\<rparr>"

text \<open>A client sees the store through its world, which is brought up to date when the client is used.\<close>

definition facing :: "mem \<Rightarrow> member \<Rightarrow> member" where
  "facing m s = with_rel s ((member_rel s)\<lparr>relStore := (m, snd (relStore (member_rel s)))\<rparr>)"

abbreviation member_raw :: "nat \<Rightarrow> nat \<Rightarrow> member \<Rightarrow> (mem \<times> session_cache) Store" where
  "member_raw fuel n s \<equiv> sync_Raw fuel n (cfg s) mem_store"

abbreviation member_store :: "nat \<Rightarrow> nat \<Rightarrow> member \<Rightarrow> member_reliable nonblocking Store" where
  "member_store fuel n s \<equiv> sync_Store fuel n (cfg s) mem_store"

text \<open>
  The steps. A client joins with a new session, that waits for its reads or does not;
  appends to its stream at any node that leads to its end, a change that fits the value there;
  pushes, with a new ID and when there is room in the channel; pulls. A goroutine of the reliable store takes a
  step: it runs a job, makes a delivery, gives up after Close, reports a delivery; or the
  client is closed. A delivery reaches the store but its reply is lost, so that it is tried again. A
  read in the background ends.
\<close>

inductive system_step :: "nat \<Rightarrow> val \<Rightarrow> system \<Rightarrow> system \<Rightarrow> bool" for n v0 where
  join: "system_step n v0 \<sigma> (\<sigma>\<lparr>sysClients := sysClients \<sigma> @
    [if nonblock then NonBlockingStream (sysStore \<sigma>) NewSession else Session_Stream (sysStore \<sigma>) NewSession]\<rparr>)"
| edit: "a < length (sysClients \<sigma>) \<Longrightarrow> s = sysClients \<sigma> ! a \<Longrightarrow> chase (sheap s) 0 v0 = Some (k, f) \<Longrightarrow>
    chase (sheap s) nd v = Some (k, f) \<Longrightarrow> wf_val v \<Longrightarrow> Strict v c \<noteq> None \<Longrightarrow>
    (if bw then sync_ReverseAppend n s nd c else sync_Append n s nd c) = Some (s', nd') \<Longrightarrow>
    system_step n v0 \<sigma> (\<sigma>\<lparr>sysClients := (sysClients \<sigma>)[a := s']\<rparr>)"
| push: "a < length (sysClients \<sigma>) \<Longrightarrow> s = facing (sysStore \<sigma>) (sysClients \<sigma> ! a) \<Longrightarrow> i \<notin> opID ` set (memOps (sysStore \<sigma>)) \<Longrightarrow>
    (\<forall>t \<in> set (sysClients \<sigma>). i \<notin> opID ` set (cfgPending (cfg t))) \<Longrightarrow> length (relJobs (member_rel s)) < 10000 \<Longrightarrow>
    session_push n (member_store fuel n s) (Inr i) s = Some (s', e) \<Longrightarrow>
    system_step n v0 \<sigma> (\<sigma>\<lparr>sysClients := (sysClients \<sigma>)[a := s']\<rparr>)"
| pull: "a < length (sysClients \<sigma>) \<Longrightarrow> s = facing (sysStore \<sigma>) (sysClients \<sigma> ! a) \<Longrightarrow> length (memOps (sysStore \<sigma>)) < fuel \<Longrightarrow>
    session_pull n (member_store fuel n s) s = Some (s', e) \<Longrightarrow>
    system_step n v0 \<sigma> (\<sigma>\<lparr>sysClients := (sysClients \<sigma>)[a := s']\<rparr>)"
| background: "a < length (sysClients \<sigma>) \<Longrightarrow> s = facing (sysStore \<sigma>) (sysClients \<sigma> ! a) \<Longrightarrow>
    rel_step (member_raw fuel n s) (member_rel s) ev r \<Longrightarrow> (\<forall>ops. ev \<noteq> Submitted ops) \<Longrightarrow>
    system_step n v0 \<sigma> \<lparr>sysStore = fst (relStore r), sysClients = (sysClients \<sigma>)[a := with_rel s r]\<rparr>"
| lost_reply: "s \<in> set (sysClients \<sigma>) \<Longrightarrow> Sending ops \<in> set (relDeliver (member_rel s)) \<Longrightarrow>
    system_step n v0 \<sigma> (\<sigma>\<lparr>sysStore := fst (mem_Append (sysStore \<sigma>) ops)\<rparr>)"
| fetch: "a < length (sysClients \<sigma>) \<Longrightarrow> s = facing (sysStore \<sigma>) (sysClients \<sigma> ! a) \<Longrightarrow> length (memOps (sysStore \<sigma>)) < fuel \<Longrightarrow>
    i < length (nbFetches (sworld s)) \<Longrightarrow> nb_fetch (Reliable (member_raw fuel n s)) (sworld s) i = Some nb \<Longrightarrow>
    system_step n v0 \<sigma> (\<sigma>\<lparr>sysClients := (sysClients \<sigma>)[a := s\<lparr>sworld := nb\<rparr>]\<rparr>)"

definition system_start :: system where
  "system_start = \<lparr>sysStore = MemStore [], sysClients = []\<rparr>"

abbreviation system_reaches :: "nat \<Rightarrow> val \<Rightarrow> system \<Rightarrow> bool" where
  "system_reaches n v0 \<equiv> (system_step n v0)\<^sup>*\<^sup>* system_start"

section \<open>What the layers hold\<close>

text \<open>The operations that the reliable store has taken and the store has not accepted.\<close>

definition waiting :: "'w reliable \<Rightarrow> op list" where
  "waiting r = unaccepted (tokens r) (relPending r) @ queued (relJobs r)"

definition rel_ok :: "'w reliable \<Rightarrow> bool" where
  "rel_ok r \<longleftrightarrow> rel_inv [Submitted (waiting r)] r"

lemma rel_ok_new: "rel_ok (newReliable w)" "waiting (newReliable w) = []"
  by (simp_all add: rel_ok_def rel_inv_def waiting_def newReliable_def tokens_def)

lemma rel_ok_store [simp]: "rel_ok (r\<lparr>relStore := w\<rparr>) = rel_ok r" "waiting (r\<lparr>relStore := w\<rparr>) = waiting r"
  by (simp_all add: rel_ok_def rel_inv_def waiting_def tokens_def)

lemma rel_ok_step:
  assumes "rel_step S r ev r'" "rel_ok r"
  shows "rel_ok r' \<and> waiting r @ submitted [ev] = accepted [ev] @ waiting r'"
proof -
  have "rel_inv ([Submitted (waiting r)] @ [ev]) r'" using assms(2) by (intro rel_step_inv [OF assms(1)]) (simp add: rel_ok_def)
  then show ?thesis by (simp add: rel_ok_def rel_inv_def waiting_def)
qed

lemma rel_ok_append:
  assumes "rel_ok r" "length (relJobs r) < 10000"
  shows "\<exists>r'. Reliable_Append r ops = (r', None) \<and> rel_ok r' \<and> waiting r' = waiting r @ ops \<and> relStore r' = relStore r"
proof -
  obtain r' where r': "reliable_Append r ops = Some r'" "relStore r' = relStore r"
    using assms(2) by (simp add: reliable_Append_def send_job_def)
  have "rel_step undefined r (Submitted ops) r'" by (rule rel_step.submit) (rule r')
  from rel_ok_step [OF this assms(1)] show ?thesis using r' by (simp add: Reliable_Append_def)
qed

text \<open>What the background does to the store below, when that is the in-memory store.\<close>

lemma rel_step_mem:
  assumes "rel_step (sync_Raw fuel n c mem_store) r ev r'" "relStore r = (m, ca)" "\<forall>ops. ev \<noteq> Submitted ops"
  shows "relStore r' = (mem_Append_loop m (accepted [ev]), ca)"
  using assms(1)
proof cases
  case (submit ops)
  then show ?thesis using assms(3) by simp
next
  case run
  then obtain j js where j: "relJobs r = j # js" "run_job (r\<lparr>relJobs := js\<rparr>) j = Some r'" by (auto simp: run_next_def split: list.splits)
  then show ?thesis using run(1) assms(2) by (cases j) (auto simp: start_delivery_def bind_Some_ex)
next
  case (report i k)
  then show ?thesis using assms(2) by (auto simp: report_done_def send_job_def give_up_def split: if_splits)
qed (use assms(2) in \<open>auto simp: attempt_def sync_Raw_def Transformed_def Transformed_Append_def mem_store_def mem_Append_def
  give_up_def reliable_Close_def split: if_splits\<close>)

lemma sending_waiting:
  assumes "rel_ok r" "Sending ops \<in> set (relDeliver r)"
  shows "\<exists>rest. waiting r = ops @ rest"
proof -
  obtain i where i: "i < length (relDeliver r)" "relDeliver r ! i = Sending ops" using assms(2) by (auto simp: in_set_conv_nth)
  have "tokens r = [Sending ops]" using one_token [OF _ i] assms(1) by (simp add: rel_ok_def rel_inv_def)
  then show ?thesis using assms(1) by (auto simp: rel_ok_def rel_inv_def waiting_def)
qed

text \<open>What a store that reads in the background has in its cache: transformed operations of the log.\<close>

definition nb_ok :: "nat \<Rightarrow> op list \<Rightarrow> 'w nonblocking \<Rightarrow> bool" where
  "nb_ok n rs nb \<longleftrightarrow> (\<forall>(v, l) \<in> set (nbFetches nb). 0 \<le> v \<and> 0 \<le> l)
     \<and> (\<forall>v ops. nbCache nb v = Some ops \<longrightarrow> (\<exists>m \<le> length rs. ops = map (xop n rs) [nat v..<m]))"

lemma nb_okD: "nb_ok n rs nb \<Longrightarrow> nbCache nb v = Some ops \<Longrightarrow> \<exists>m. m \<le> length rs \<and> ops = map (xop n rs) [nat v..<m]"
  by (simp add: nb_ok_def)

lemma nb_ok_append: "nb_ok n rs nb \<Longrightarrow> nb_ok n (rs @ ys) nb"
proof -
  assume ok: "nb_ok n rs nb"
  have "\<exists>m \<le> length (rs @ ys). ops = map (xop n (rs @ ys)) [nat v..<m]" if c: "nbCache nb v = Some ops" for v ops
  proof -
    obtain m where m: "m \<le> length rs" "ops = map (xop n rs) [nat v..<m]" using nb_okD [OF ok c] by blast
    then show ?thesis by (intro exI [of _ m]) (auto simp: xop_append)
  qed
  then show ?thesis using ok by (simp add: nb_ok_def)
qed

lemma nb_ok_new: "nb_ok n rs (NonBlocking w)"
  by (simp add: nb_ok_def NonBlocking_def)

lemma nb_ok_store [simp]: "nb_ok n rs (nb\<lparr>nbStore := w\<rparr>) = nb_ok n rs nb"
  by (simp add: nb_ok_def)

text \<open>A read from the store below the session, as it returns.\<close>

lemma reliable_read:
  assumes "mem_ok m" "sound_log n (memOps m) v0" "length (memOps m) < fuel" "AutoTransform c" "relStore r = (m, ca)"
    and "computed n (memOps m) (Session_Load ca)" "0 \<le> v" "0 \<le> l"
    and "st_GetSince (Reliable (sync_Raw fuel n c mem_store)) r v l = Some x"
  shows "\<exists>ca' k. x = Inr (r\<lparr>relStore := (m, ca')\<rparr>, map (xop n (memOps m)) [nat v..<k]) \<and> k \<le> length (memOps m)
    \<and> computed n (memOps m) (Session_Load ca')"
proof -
  let ?k = "min (length (memOps m)) (nat v + nat l)" and ?S = "Transformed fuel n session_cache_ops mem_store"
  have lo: "basis_ok (memOps m)" "\<And>j. j < length (memOps m) \<Longrightarrow> xspec n (memOps m) j \<noteq> None"
    using assms(2) by (auto simp: sound_log_def log_ok_def)
  obtain ca' where g: "st_GetSince ?S (m, ca) v l = ok ((m, ca'), map (xop n (memOps m)) [nat v..<?k])"
    "computed n (memOps m) (Session_Load ca')"
    using xf_mem.Transformed_get [OF assms(1) refl lo(1) _ assms(3) lo(2) assms(7,8)] assms(6) by (auto simp: session_cache_ops_def)
  have "x = Inr (r\<lparr>relStore := (m, ca')\<rparr>, map (xop n (memOps m)) [nat v..<?k])"
    using assms(9) g(1) assms(4,5)
    by (auto simp: Reliable_def Reliable_GetSince_def sync_Raw_def reliable_GetSince_def retry_Cons getsince_fn_def bind_Some_ex split: if_splits)
  then show ?thesis using g(2) by (intro exI [of _ ca'] exI [of _ ?k]) simp
qed


section \<open>The invariant\<close>

definition member_ok :: "nat \<Rightarrow> val \<Rightarrow> op list \<Rightarrow> member \<Rightarrow> bool" where
  "member_ok n v0 rs s \<longleftrightarrow> AutoTransform (cfg s) \<and> sout s = [] \<and> synced n rs v0 v0 s \<and> rel_ok (member_rel s)
     \<and> sending n v0 rs s (waiting (member_rel s)) \<and> computed n rs (Session_Load (snd (relStore (member_rel s)))) \<and> nb_ok n rs (sworld s)"

abbreviation pending_ids :: "member \<Rightarrow> key set" where
  "pending_ids s \<equiv> opID ` set (cfgPending (cfg s))"

definition apart :: "member list \<Rightarrow> bool" where
  "apart ss \<longleftrightarrow> (\<forall>a b. a < length ss \<longrightarrow> b < length ss \<longrightarrow> a \<noteq> b \<longrightarrow> pending_ids (ss ! a) \<inter> pending_ids (ss ! b) = {})"

definition system_ok :: "nat \<Rightarrow> val \<Rightarrow> system \<Rightarrow> bool" where
  "system_ok n v0 \<sigma> \<longleftrightarrow> mem_ok (sysStore \<sigma>) \<and> sound_log n (memOps (sysStore \<sigma>)) v0
     \<and> (\<forall>s \<in> set (sysClients \<sigma>). member_ok n v0 (memOps (sysStore \<sigma>)) s) \<and> apart (sysClients \<sigma>)"

lemma apart_update:
  assumes "apart ss" "a < length ss" "pending_ids s' \<subseteq> I \<union> pending_ids (ss ! a)" "\<And>t. t \<in> set ss \<Longrightarrow> I \<inter> pending_ids t = {}"
  shows "apart (ss[a := s'])"
proof -
  have other: "pending_ids s' \<inter> pending_ids (ss ! b) = {}" if "b < length ss" "b \<noteq> a" for b
  proof -
    have "pending_ids (ss ! a) \<inter> pending_ids (ss ! b) = {}" using assms(1,2) that by (simp add: apart_def)
    then show ?thesis using assms(3) assms(4) [OF nth_mem [OF that(1)]] by blast
  qed
  show ?thesis unfolding apart_def
  proof (intro allI impI)
    fix b c assume bc: "b < length (ss[a := s'])" "c < length (ss[a := s'])" "b \<noteq> c"
    consider "b = a" | "c = a" | "b \<noteq> a" "c \<noteq> a" by blast
    then show "pending_ids (ss[a := s'] ! b) \<inter> pending_ids (ss[a := s'] ! c) = {}"
    proof cases
      case 1
      then show ?thesis using other [of c] bc by simp
    next
      case 2
      then show ?thesis using other [of b] bc by (simp add: Int_commute)
    qed (use assms(1) bc in \<open>simp add: apart_def\<close>)
  qed
qed

lemma apart_shrink: "apart ss \<Longrightarrow> a < length ss \<Longrightarrow> pending_ids s' \<subseteq> pending_ids (ss ! a) \<Longrightarrow> apart (ss[a := s'])"
  by (rule apart_update [of _ _ _ "{}"]) simp_all

lemma apart_snoc: "apart ss \<Longrightarrow> cfgPending (cfg s) = [] \<Longrightarrow> apart (ss @ [s])"
  unfolding apart_def by (auto simp: nth_append less_Suc_eq)

lemma facing_parts [simp]: "cfg (facing m s) = cfg s" "sheap (facing m s) = sheap s" "sstream (facing m s) = sstream s" "sout (facing m s) = sout s"
  "relStore (member_rel (facing m s)) = (m, snd (relStore (member_rel s)))"
  by (simp_all add: facing_def with_rel_def)

lemma with_rel_parts [simp]: "cfg (with_rel s r) = cfg s" "sout (with_rel s r) = sout s" "member_rel (with_rel s r) = r"
  "synced n rs v0 root (with_rel s r) = synced n rs v0 root s" "sending n v0 rs (with_rel s r) out = sending n v0 rs s out"
  "nb_ok n rs (sworld (with_rel s r)) = nb_ok n rs (sworld s)"
  by (simp_all add: with_rel_def)

lemma member_ok_facing [simp]: "member_ok n v0 rs (facing m s) = member_ok n v0 rs s"
  by (simp add: member_ok_def facing_def)

lemma member_ok_append:
  assumes "basis_ok rs" "member_ok n v0 rs s" "opID ` set ys \<inter> pending_ids s = {}"
  shows "member_ok n v0 (rs @ ys) s"
proof -
  have "sending n v0 (rs @ ys) s (waiting (member_rel s))"
    by (rule sending_append [OF assms(1) _ assms(3)]) (use assms(2) in \<open>simp add: member_ok_def\<close>)
  then show ?thesis using assms(2) synced_append [of n rs v0 v0 s ys] computed_append [of n rs] nb_ok_append [of n rs "sworld s"]
    unfolding member_ok_def by simp
qed

lemma session_start:
  assumes "wf_val v0" "s = Session_Stream m NewSession \<or> s = NonBlockingStream m NewSession"
  shows "member_ok n v0 rs s \<and> cfgPending (cfg s) = []"
proof -
  have c: "cfgPending (cfg s) = []" "cfgMergeChain (cfg s) = []" "cfgVersion (cfg s) = - 1" "AutoTransform (cfg s)" "sout s = []" "sheap s = [empty_node]"
    "sstream s = 0" "sworld s = NonBlocking (newReliable (m, \<lparr>OpCache = [], MergeCache = []\<rparr>))"
    using assms(2) by (auto simp: Session_Stream_def NonBlockingStream_def sync_Stream_def New_def WithSession_def WithAutoTransform_def WithNonBlocking_def
      default_config_def NewSession_def)
  have "in_step v0 v0 s" using assms(1) c by (auto intro!: heap_okI simp: in_step_def chase.simps)
  moreover have "outbox rs (- 1) [] []" by (rule outboxI [of _ "[]" "[]" _ "[]"]) simp_all
  moreover have "member_rel s = newReliable (m, \<lparr>OpCache = [], MergeCache = []\<rparr>)" "nb_ok n rs (sworld s)"
    using c(8) nb_ok_new by (simp_all add: NonBlocking_def)
  moreover have "relStore (newReliable (m, ca)) = (m, ca)" for ca :: session_cache by (simp add: newReliable_def)
  ultimately show ?thesis
    using c(1-5) by (simp add: rel_ok_new member_ok_def synced_def sending_def made_ok_def tracking_def computed_def Session_Load_def)
qed

lemma member_ok_edit:
  assumes "member_ok n v0 rs s" "chase (sheap s) 0 v0 = Some (k, f)" "chase (sheap s) nd v = Some (k, f)" "wf_val v"
    and "Strict v c = Some u" "(if bw then sync_ReverseAppend n s nd c else sync_Append n s nd c) = Some (s', nd')"
  shows "member_ok n v0 rs s' \<and> cfg s' = cfg s"
proof -
  obtain h where h: "stream_apply n (sheap s) nd c bw = Some (h, nd')" "s' = s\<lparr>sheap := h\<rparr>"
    using assms(6) by (auto simp: sync_ReverseAppend_def sync_Append_def stream_Append_def stream_ReverseAppend_def bind_Some_ex split: if_splits)
  obtain w where w: "server n rs v0 (nat (cfgVersion (cfg s) + 1)) = Some w" "in_step v0 w s"
    using assms(1) by (auto simp: member_ok_def synced_def Let_def)
  have "heap_ok (sheap s)" using w(2) by (simp add: in_step_def)
  from stream_apply_spec [OF h(1) this assms(3-5)] have "in_step v0 w s'"
    using w(2) assms(2) unfolding in_step_def h(2) by fastforce
  then show ?thesis using assms(1) w(1) unfolding h(2) member_ok_def synced_def Let_def by simp
qed

section \<open>Push and pull\<close>

lemma session_push_flags: "session_push n S i s = Some (s', e) \<Longrightarrow> AutoTransform (cfg s') = AutoTransform (cfg s)"
  by (auto simp: session_push_def appendChange_def notify_def Let_def bind_Some_ex split: if_splits prod.splits sum.splits)

lemma pull_loop_flags:
  "pull_loop n s xs = Some (s', e) \<Longrightarrow> AutoTransform (cfg s') = AutoTransform (cfg s) \<and> set (cfgPending (cfg s')) \<subseteq> set (cfgPending (cfg s))"
proof (induction xs arbitrary: s)
  case (Cons x xs)
  have "AutoTransform (cfg s1) = AutoTransform (cfg s) \<and> set (cfgPending (cfg s1)) \<subseteq> set (cfgPending (cfg s))" if "pull_step n s x = Some s1" for s1
    using that by (auto simp: pull_step_def Let_def bind_Some_ex split: if_splits dest: list.set_sel(2))
  then show ?case using Cons by (fastforce simp: bind_Some_ex split: if_splits)
qed simp

lemma session_pull_flags:
  assumes "session_pull n S s = Some (s', e)"
  shows "AutoTransform (cfg s') = AutoTransform (cfg s) \<and> set (cfgPending (cfg s')) \<subseteq> set (cfgPending (cfg s))"
proof (cases "s' = s")
  case False
  obtain x where x: "st_GetSince S (sworld s) (cfgVersion (cfg s) + 1) 1000 = Some x"
    using assms by (auto simp: session_pull_def bind_Some_ex)
  then obtain w ops where "x = Inr (w, ops)" using assms False by (cases x) (auto simp: session_pull_def)
  then obtain s1 e1 where p: "pull_loop n (s\<lparr>sworld := w\<rparr>) ops = Some (s1, e1)" "s' = notify s1 \<or> s' = s1"
    using assms x by (auto simp: session_pull_def bind_Some_ex split: if_splits)
  show ?thesis using pull_loop_flags [OF p(1)] p(2) by (auto simp: notify_def)
qed simp

lemma member_ok_push:
  assumes "sound_log n rs v0" "member_ok n v0 rs s" "i \<notin> opID ` set rs" "i \<notin> pending_ids s" "length (relJobs (member_rel s)) < 10000"
    and "session_push n (member_store fuel n s) (Inr i) s = Some (s', e)"
  shows "member_ok n v0 rs s' \<and> pending_ids s' \<subseteq> {i} \<union> pending_ids s"
proof -
  let ?S = "member_store fuel n s" and ?r = "member_rel s"
  have ok: "AutoTransform (cfg s)" "sout s = []" "synced n rs v0 v0 s" "rel_ok ?r" "sending n v0 rs s (waiting ?r)"
    "computed n rs (Session_Load (snd (relStore ?r)))" "nb_ok n rs (sworld s)" using assms(2) by (simp_all add: member_ok_def)
  obtain xs where xs: "synced n rs v0 v0 s'" "sending n v0 rs s' (waiting ?r @ xs)" "opID ` set xs \<subseteq> {i}" "cfgPending (cfg s') = cfgPending (cfg s) @ xs"
    "if xs = [] then sworld s' = sworld s \<and> sout s' = []
     else sworld s' = fst (st_Append ?S (sworld s) xs) \<and> (snd (st_Append ?S (sworld s) xs) = None \<longrightarrow> sout s' = [])"
    using session_push_sending [OF assms(1) ok(3,5,2) assms(3,4,6)] by blast
  obtain r' where r': "Reliable_Append ?r xs = (r', None)" "rel_ok r'" "waiting r' = waiting ?r @ xs" "relStore r' = relStore ?r"
    using rel_ok_append [OF ok(4) assms(5)] by blast
  have ap: "st_Append ?S (sworld s) xs = ((sworld s)\<lparr>nbStore := r'\<rparr>, None)"
    using r'(1) by (simp add: sync_Store_def nb_Append_def Reliable_def Let_def)
  have "AutoTransform (cfg s')" using session_push_flags [OF assms(6)] ok(1) by simp
  then have "member_ok n v0 rs s'" using xs ok r' ap by (cases "xs = []") (simp_all add: member_ok_def)
  then show ?thesis using xs(3,4) by auto
qed

lemma member_ok_pull:
  assumes "mem_ok m" "sound_log n (memOps m) v0" "length (memOps m) < fuel" "member_ok n v0 (memOps m) s" "relStore (member_rel s) = (m, ca)"
    and "session_pull n (member_store fuel n s) s = Some (s', e)"
  shows "member_ok n v0 (memOps m) s'"
proof -
  let ?rs = "memOps m" and ?r = "member_rel s" and ?v = "cfgVersion (cfg s) + 1" and ?S = "member_store fuel n s"
  have ok: "AutoTransform (cfg s)" "sout s = []" "synced n ?rs v0 v0 s" "rel_ok ?r" "sending n v0 ?rs s (waiting ?r)"
    "computed n ?rs (Session_Load ca)" "nb_ok n ?rs (sworld s)" using assms(4,5) by (simp_all add: member_ok_def)
  have v: "0 \<le> ?v" "nat ?v \<le> length ?rs" using ok(5) by (simp_all add: sending_def Let_def)
  obtain x where x: "st_GetSince ?S (sworld s) ?v 1000 = Some x" using assms(6) by (auto simp: session_pull_def bind_Some_ex)
  have "\<exists>w k. x = Inr (w, map (xop n ?rs) [nat ?v..<k]) \<and> k \<le> length ?rs \<and> nb_ok n ?rs w \<and> rel_ok (nbStore w)
      \<and> waiting (nbStore w) = waiting ?r \<and> computed n ?rs (Session_Load (snd (relStore (nbStore w))))"
  proof (cases "NonBlockingFlag (cfg s)")
    case True
    then have "x = Inr (nb_GetSince (sworld s) ?v 1000)" using x by (simp add: sync_Store_def Let_def)
    moreover have "\<exists>k. snd (nb_GetSince (sworld s) ?v 1000) = map (xop n ?rs) [nat ?v..<k] \<and> k \<le> length ?rs"
    proof (cases "?v \<notin> nbProgress (sworld s) \<and> nbCache (sworld s) ?v \<noteq> None")
      case True
      then show ?thesis using nb_okD [OF ok(7), of ?v] by (auto simp: nb_GetSince_def)
    next
      case False
      then show ?thesis using v(2) by (intro exI [of _ "nat ?v"]) (auto simp: nb_GetSince_def)
    qed
    moreover have "nb_ok n ?rs (fst (nb_GetSince (sworld s) ?v 1000)) \<and> nbStore (fst (nb_GetSince (sworld s) ?v 1000)) = ?r"
      using ok(7) v(1) by (auto simp: nb_GetSince_def nb_ok_def split: option.splits)
    ultimately show ?thesis using ok(4,6) assms(5) by (metis prod.collapse snd_conv)
  next
    case False
    then obtain y where y: "st_GetSince (Reliable (member_raw fuel n s)) ?r ?v 1000 = Some y"
      "x = (case y of Inl e \<Rightarrow> Inl e | Inr (r, ops) \<Rightarrow> Inr ((sworld s)\<lparr>nbStore := r\<rparr>, ops))"
      using x by (auto simp: sync_Store_def Let_def andThen_def split: option.splits sum.splits)
    from reliable_read [OF assms(1-3) ok(1) assms(5) ok(6) v(1) _ y(1)] show ?thesis using y(2) ok(4,7) by auto
  qed
  then obtain w k where w: "x = Inr (w, map (xop n ?rs) [nat ?v..<k])" "k \<le> length ?rs" "nb_ok n ?rs w" "rel_ok (nbStore w)"
    "waiting (nbStore w) = waiting ?r" "computed n ?rs (Session_Load (snd (relStore (nbStore w))))" by blast
  from session_pull_sending [OF assms(2) ok(3,5) x [unfolded w(1)] w(2) assms(6)] session_pull_flags [OF assms(6)]
  show ?thesis using ok(1,2) w(3-6) by (simp add: member_ok_def)
qed

section \<open>The background\<close>

text \<open>A delivery, its reply lost or not: the log grows by pending operations of the client.\<close>

lemma member_ok_deliver:
  assumes "mem_ok m" "sound_log n (memOps m) v0" "member_ok n v0 (memOps m) s" "waiting (member_rel s) = ops @ rest" "m' = mem_Append_loop m ops"
    and "\<And>j. j < length (memOps m') \<Longrightarrow> xspec n (memOps m') j \<noteq> None"
  shows "mem_ok m' \<and> sound_log n (memOps m') v0 \<and> member_ok n v0 (memOps m') s \<and> sending n v0 (memOps m') s rest
    \<and> (\<exists>ys. memOps m' = memOps m @ ys \<and> opID ` set ys \<subseteq> pending_ids s)"
proof -
  have sd: "sending n v0 (memOps m) s ([] @ ops @ rest)" using assms(3,4) by (simp add: member_ok_def)
  from deliver_loop [OF assms(1,2) sd _ assms(5,6)] obtain ys where
    d: "sound_log n (memOps m') v0" "sending n v0 (memOps m') s (ops @ rest)" "memOps m' = memOps m @ ys" "opID ` set ys \<subseteq> pending_ids s" by auto
  have ids: "mem_ok m'" "opID ` set ops \<subseteq> opID ` set (memOps m')" using mem_Append_loop_ok [OF assms(1), of ops] assms(5) by auto
  have "sending n v0 (memOps m') s rest"
    using d(2) outbox_accept [OF _ ids(2)] by (auto simp: sending_def Let_def)
  moreover have "member_ok n v0 (memOps m') s"
    using assms(3,4) d(2) synced_append [of n "memOps m" v0 v0 s ys] computed_append [of n "memOps m"] nb_ok_append [of n "memOps m" "sworld s"]
    unfolding member_ok_def d(3) by simp
  ultimately show ?thesis using d ids(1) by blast
qed

lemma member_ok_background:
  assumes "mem_ok m" "sound_log n (memOps m) v0" "member_ok n v0 (memOps m) s" "relStore (member_rel s) = (m, ca)"
    and "rel_step (member_raw fuel n s) (member_rel s) ev r" "\<forall>ops. ev \<noteq> Submitted ops" "m' = fst (relStore r)"
    and "\<And>j. j < length (memOps m') \<Longrightarrow> xspec n (memOps m') j \<noteq> None"
  shows "mem_ok m' \<and> sound_log n (memOps m') v0 \<and> member_ok n v0 (memOps m') (with_rel s r)
    \<and> (\<exists>ys. memOps m' = memOps m @ ys \<and> opID ` set ys \<subseteq> pending_ids s)"
proof -
  have st: "relStore r = (m', ca)" "m' = mem_Append_loop m (accepted [ev])" using rel_step_mem [OF assms(5,4,6)] assms(7) by simp_all
  have w: "rel_ok r" "waiting (member_rel s) = accepted [ev] @ waiting r"
    using rel_ok_step [OF assms(5)] assms(3,6) by (cases ev; simp add: member_ok_def)+
  from member_ok_deliver [OF assms(1-3) w(2) st(2) assms(8)] show ?thesis using w(1) st(1) assms(4) by (auto simp: member_ok_def)
qed

lemma member_ok_fetch:
  assumes "mem_ok m" "sound_log n (memOps m) v0" "length (memOps m) < fuel" "member_ok n v0 (memOps m) s" "relStore (member_rel s) = (m, ca)"
    and "i < length (nbFetches (sworld s))" "nb_fetch (Reliable (member_raw fuel n s)) (sworld s) i = Some nb"
  shows "member_ok n v0 (memOps m) (s\<lparr>sworld := nb\<rparr>)"
proof -
  let ?rs = "memOps m" and ?nb = "sworld s"
  have ok: "AutoTransform (cfg s)" "sout s = []" "synced n ?rs v0 v0 s" "rel_ok (member_rel s)" "sending n v0 ?rs s (waiting (member_rel s))"
    "computed n ?rs (Session_Load ca)" "nb_ok n ?rs ?nb" using assms(4,5) by (simp_all add: member_ok_def)
  obtain v l where vl: "nbFetches ?nb ! i = (v, l)" by fastforce
  then have "(v, l) \<in> set (nbFetches ?nb)" using assms(6) by (metis nth_mem)
  then have pos: "0 \<le> v" "0 \<le> l" using ok(7) by (auto simp: nb_ok_def)
  obtain x where x: "st_GetSince (Reliable (member_raw fuel n s)) (member_rel s) v l = Some x"
    using assms(7) vl by (auto simp: nb_fetch_def bind_Some_ex)
  obtain ca' k where r: "x = Inr ((member_rel s)\<lparr>relStore := (m, ca')\<rparr>, map (xop n ?rs) [nat v..<k])" "k \<le> length ?rs"
    "computed n ?rs (Session_Load ca')"
    using reliable_read [OF assms(1-3) ok(1) assms(5) ok(6) pos x] by blast
  have nb: "nb = ?nb\<lparr>nbProgress := nbProgress ?nb - {v}, nbFetches := take i (nbFetches ?nb) @ drop (Suc i) (nbFetches ?nb),
      nbStore := (member_rel s)\<lparr>relStore := (m, ca')\<rparr>, nbCache := (nbCache ?nb)(v \<mapsto> map (xop n ?rs) [nat v..<k])\<rparr>"
    using assms(7) vl x r(1) by (simp add: nb_fetch_def Let_def)
  have "set (take i (nbFetches ?nb) @ drop (Suc i) (nbFetches ?nb)) \<subseteq> set (nbFetches ?nb)"
    using set_take_subset set_drop_subset by force
  then have "nb_ok n ?rs nb" using ok(7) r(2) unfolding nb nb_ok_def by auto
  then show ?thesis using ok r(3) by (simp add: member_ok_def nb)
qed

section \<open>Every step keeps the system sound\<close>

lemma system_ok_client:
  assumes "system_ok n v0 \<sigma>" "a < length (sysClients \<sigma>)" "s = sysClients \<sigma> ! a" "member_ok n v0 (memOps (sysStore \<sigma>)) s'"
    and "pending_ids s' \<subseteq> I \<union> pending_ids s" "\<And>t. t \<in> set (sysClients \<sigma>) \<Longrightarrow> I \<inter> pending_ids t = {}"
  shows "system_ok n v0 (\<sigma>\<lparr>sysClients := (sysClients \<sigma>)[a := s']\<rparr>)"
  using assms apart_update [of "sysClients \<sigma>" a s' I] by (auto simp: system_ok_def dest!: set_update_subset_insert [THEN subsetD])

text \<open>The store takes operations of one client: the others go on as before.\<close>

lemma system_ok_store:
  assumes "system_ok n v0 \<sigma>" "a < length (sysClients \<sigma>)" "mem_ok m" "sound_log n (memOps m) v0" "member_ok n v0 (memOps m) s"
    and "memOps m = memOps (sysStore \<sigma>) @ ys" "opID ` set ys \<subseteq> pending_ids (sysClients \<sigma> ! a)" "pending_ids s = pending_ids (sysClients \<sigma> ! a)"
  shows "system_ok n v0 \<lparr>sysStore = m, sysClients = (sysClients \<sigma>)[a := s]\<rparr>"
proof -
  let ?ss = "sysClients \<sigma>"
  have ok: "basis_ok (memOps (sysStore \<sigma>))" "apart ?ss" "\<And>t. t \<in> set ?ss \<Longrightarrow> member_ok n v0 (memOps (sysStore \<sigma>)) t"
    using assms(1) by (auto simp: system_ok_def sound_log_def log_ok_def)
  have "member_ok n v0 (memOps m) (?ss[a := s] ! b)" if "b < length ?ss" for b
  proof (cases "b = a")
    case False
    then have "pending_ids (?ss ! a) \<inter> pending_ids (?ss ! b) = {}" using ok(2) assms(2) that by (simp add: apart_def)
    then have "opID ` set ys \<inter> pending_ids (?ss ! b) = {}" using assms(7) by blast
    then show ?thesis using member_ok_append [OF ok(1) ok(3)] that False assms(6) by simp
  qed (use assms(2,5) in simp)
  then have "\<forall>t \<in> set (?ss[a := s]). member_ok n v0 (memOps m) t" by (auto simp: in_set_conv_nth)
  moreover have "apart (?ss[a := s])" using apart_shrink [OF ok(2) assms(2)] assms(8) by simp
  ultimately show ?thesis using assms(3,4) by (simp add: system_ok_def)
qed

text \<open>Every step keeps the system sound, as long as the transformer can merge what reaches the store.\<close>

lemma system_step_ok:
  assumes "system_step n v0 \<sigma> \<tau>" "system_ok n v0 \<sigma>"
    and "\<And>j. j < length (memOps (sysStore \<tau>)) \<Longrightarrow> xspec n (memOps (sysStore \<tau>)) j \<noteq> None"
  shows "system_ok n v0 \<tau>"
proof -
  let ?rs = "memOps (sysStore \<sigma>)"
  have ok: "mem_ok (sysStore \<sigma>)" "sound_log n ?rs v0" "\<And>s. s \<in> set (sysClients \<sigma>) \<Longrightarrow> member_ok n v0 ?rs s" "apart (sysClients \<sigma>)"
    using assms(2) by (auto simp: system_ok_def)
  have wf: "wf_val v0" using ok(2) by (simp add: sound_log_def)
  show ?thesis using assms(1)
  proof cases
    case (join nonblock)
    define s where "s = (if nonblock then NonBlockingStream (sysStore \<sigma>) NewSession else Session_Stream (sysStore \<sigma>) NewSession)"
    then have s: "s = Session_Stream (sysStore \<sigma>) NewSession \<or> s = NonBlockingStream (sysStore \<sigma>) NewSession"
      "\<tau> = \<sigma>\<lparr>sysClients := sysClients \<sigma> @ [s]\<rparr>" using join by simp_all
    have "member_ok n v0 ?rs s" "cfgPending (cfg s) = []" using session_start [OF wf s(1)] by auto
    then show ?thesis using ok apart_snoc [OF ok(4)] s(2) by (auto simp: system_ok_def)
  next
    case (edit a s k f nd v c bw s' nd')
    have "member_ok n v0 ?rs s" using ok(3) edit(2,3) by simp
    moreover obtain u where "Strict v c = Some u" using edit(7) by auto
    ultimately have "member_ok n v0 ?rs s' \<and> cfg s' = cfg s" using member_ok_edit edit(4-6,8) by blast
    then show ?thesis using system_ok_client [OF assms(2) edit(2,3), of s' "{}"] edit(1) by simp
  next
    case (push a s i fuel s' e)
    have s: "member_ok n v0 ?rs s" "pending_ids s = pending_ids (sysClients \<sigma> ! a)" using push(2,3) ok(3) by simp_all
    have "i \<notin> pending_ids s" using push(2,5) s(2) by simp
    from member_ok_push [OF ok(2) s(1) push(4) this push(6,7)] show ?thesis
      using system_ok_client [OF assms(2) push(2) refl, of s' "{i}"] push(1,5) s(2) by simp
  next
    case (pull a s fuel s' e)
    have s: "member_ok n v0 ?rs s" "cfg s = cfg (sysClients \<sigma> ! a)" "relStore (member_rel s) = (sysStore \<sigma>, snd (relStore (member_rel s)))"
      using pull(2,3) ok(3) by simp_all
    have "pending_ids s' \<subseteq> pending_ids (sysClients \<sigma> ! a)" using session_pull_flags [OF pull(5)] s(2) by auto
    then show ?thesis
      using system_ok_client [OF assms(2) pull(2) refl, of s' "{}"] member_ok_pull [OF ok(1,2) pull(4) s(1,3) pull(5)] pull(1) by simp
  next
    case (background a s fuel ev r)
    have s: "member_ok n v0 ?rs s" "cfg s = cfg (sysClients \<sigma> ! a)" "relStore (member_rel s) = (sysStore \<sigma>, snd (relStore (member_rel s)))"
      using background(2,3) ok(3) by simp_all
    from member_ok_background [OF ok(1,2) s(1,3) background(4,5) refl] assms(3) background(1)
    obtain ys where "mem_ok (sysStore \<tau>)" "sound_log n (memOps (sysStore \<tau>)) v0" "member_ok n v0 (memOps (sysStore \<tau>)) (with_rel s r)"
      "memOps (sysStore \<tau>) = ?rs @ ys" "opID ` set ys \<subseteq> pending_ids s" by auto
    then show ?thesis using system_ok_store [OF assms(2) background(2)] s(2) background(1) by simp
  next
    case (lost_reply s ops)
    obtain a where a: "a < length (sysClients \<sigma>)" "s = sysClients \<sigma> ! a" using lost_reply(2) by (auto simp: in_set_conv_nth)
    obtain rest where w: "waiting (member_rel s) = ops @ rest"
      using sending_waiting [OF _ lost_reply(3)] ok(3) [OF lost_reply(2)] by (auto simp: member_ok_def)
    have m: "sysStore \<tau> = mem_Append_loop (sysStore \<sigma>) ops" using lost_reply(1) by (simp add: mem_Append_def)
    from member_ok_deliver [OF ok(1,2) ok(3) [OF lost_reply(2)] w m assms(3)]
    obtain ys where "mem_ok (sysStore \<tau>)" "sound_log n (memOps (sysStore \<tau>)) v0" "member_ok n v0 (memOps (sysStore \<tau>)) s"
      "memOps (sysStore \<tau>) = ?rs @ ys" "opID ` set ys \<subseteq> pending_ids s" by auto
    then have "system_ok n v0 \<lparr>sysStore = sysStore \<tau>, sysClients = (sysClients \<sigma>)[a := s]\<rparr>"
      unfolding a(2) by (intro system_ok_store [OF assms(2) a(1)]) simp_all
    moreover have "sysClients \<tau> = (sysClients \<sigma>)[a := s]" using lost_reply(1) a by simp
    ultimately show ?thesis by (simp add: system_ok_def)
  next
    case (fetch a s fuel i nb)
    have s: "member_ok n v0 ?rs s" "cfg s = cfg (sysClients \<sigma> ! a)" "relStore (member_rel s) = (sysStore \<sigma>, snd (relStore (member_rel s)))"
      using fetch(2,3) ok(3) by simp_all
    show ?thesis
      using system_ok_client [OF assms(2) fetch(2) refl, of "s\<lparr>sworld := nb\<rparr>" "{}"] member_ok_fetch [OF ok(1,2) fetch(4) s(1,3) fetch(5,6)] s(2) fetch(1) by simp
  qed
qed

lemma system_step_grows:
  assumes "system_step n v0 \<sigma> \<tau>" "mem_ok (sysStore \<sigma>)"
  shows "mem_ok (sysStore \<tau>) \<and> (\<exists>ys. memOps (sysStore \<tau>) = memOps (sysStore \<sigma>) @ ys)"
  using assms(1)
proof cases
  case (background a s fuel ev r)
  have "relStore (member_rel s) = (sysStore \<sigma>, snd (relStore (member_rel s)))" using background(3) by simp
  from rel_step_mem [OF background(4) this background(5)] show ?thesis using mem_Append_loop_ok [OF assms(2)] background(1) by auto
next
  case (lost_reply s ops)
  then show ?thesis using mem_Append_loop_ok [OF assms(2), of ops] by (auto simp: mem_Append_def)
qed (use assms(2) in auto)

lemma system_reaches_ok:
  assumes "system_reaches n v0 \<sigma>" "wf_val v0"
  shows "mem_ok (sysStore \<sigma>) \<and> ((\<forall>j < length (memOps (sysStore \<sigma>)). xspec n (memOps (sysStore \<sigma>)) j \<noteq> None) \<longrightarrow> system_ok n v0 \<sigma>)"
  using assms(1)
proof (induction rule: rtranclp_induct)
  case base
  show ?case using assms(2)
    by (simp add: system_start_def system_ok_def apart_def MemStore_def mem_Append_def mem_ok_def sound_log_def log_ok_def basis_ok_def log_fits_def)
next
  case (step \<sigma> \<tau>)
  from system_step_grows [OF step(2)] step(3) obtain ys where
    g: "mem_ok (sysStore \<tau>)" "memOps (sysStore \<tau>) = memOps (sysStore \<sigma>) @ ys" by blast
  have "system_ok n v0 \<tau>" if x: "\<forall>j < length (memOps (sysStore \<tau>)). xspec n (memOps (sysStore \<tau>)) j \<noteq> None"
  proof -
    have "xspec n (memOps (sysStore \<sigma>)) j \<noteq> None" if "j < length (memOps (sysStore \<sigma>))" for j
      using x [rule_format, of j] that xspec_append [OF that, of n ys] by (simp add: g(2))
    then show ?thesis using system_step_ok [OF step(2)] step(3) x by blast
  qed
  then show ?case using g(1) by blast
qed

text \<open>A client that pulled the whole log, got all its operations back and did not edit since its last push.\<close>

definition caught_up :: "op list \<Rightarrow> member \<Rightarrow> bool" where
  "caught_up rs s \<longleftrightarrow> cfgVersion (cfg s) = int (length rs) - 1 \<and> cfgPending (cfg s) = [] \<and> stream_Next (sheap s) (sstream s) = None"

lemma member_end:
  assumes "member_ok n v0 rs s" "caught_up rs s"
  shows "\<exists>v k. server n rs v0 (length rs) = Some v \<and> chase (sheap s) 0 v0 = Some (k, v)"
proof -
  obtain v k f where v: "server n rs v0 (length rs) = Some v" "heap_ok (sheap s)" "chase (sheap s) (sstream s) v = Some (k, f)"
    "chase (sheap s) 0 v0 = Some (k, f)"
    using assms by (auto simp: member_ok_def caught_up_def synced_def Let_def in_step_def tracking_def)
  moreover have "f = v" using list.Next_end [OF v(2,3), of n] assms(2) by (simp add: plain_def caught_up_def)
  ultimately show ?thesis by blast
qed

section \<open>Steps as functions, to run examples\<close>

definition run_client :: "nat \<Rightarrow> (member \<Rightarrow> member option) \<Rightarrow> system \<Rightarrow> system option" where
  "run_client a f \<sigma> = (if a < length (sysClients \<sigma>)
     then do { s \<leftarrow> f (facing (sysStore \<sigma>) (sysClients \<sigma> ! a)); Some (\<sigma>\<lparr>sysClients := (sysClients \<sigma>)[a := s]\<rparr>) }
     else None)"

definition run_push :: "nat \<Rightarrow> nat \<Rightarrow> nat \<Rightarrow> key \<Rightarrow> system \<Rightarrow> system option" where
  "run_push n fuel a i \<sigma> = run_client a (\<lambda>s.
     if i \<notin> opID ` set (memOps (sysStore \<sigma>)) \<and> (\<forall>t \<in> set (sysClients \<sigma>). i \<notin> opID ` set (cfgPending (cfg t)))
       \<and> length (relJobs (member_rel s)) < 10000
     then map_option fst (session_push n (member_store fuel n s) (Inr i) s) else None) \<sigma>"

definition run_pull :: "nat \<Rightarrow> nat \<Rightarrow> nat \<Rightarrow> system \<Rightarrow> system option" where
  "run_pull n fuel a \<sigma> = run_client a (\<lambda>s. if length (memOps (sysStore \<sigma>)) < fuel
     then map_option fst (session_pull n (member_store fuel n s) s) else None) \<sigma>"

definition run_fetch :: "nat \<Rightarrow> nat \<Rightarrow> nat \<Rightarrow> system \<Rightarrow> system option" where
  "run_fetch n fuel a \<sigma> = run_client a (\<lambda>s. if length (memOps (sysStore \<sigma>)) < fuel \<and> 0 < length (nbFetches (sworld s))
     then map_option (\<lambda>nb. s\<lparr>sworld := nb\<rparr>) (nb_fetch (Reliable (member_raw fuel n s)) (sworld s) 0) else None) \<sigma>"

definition run_lost :: "nat \<Rightarrow> system \<Rightarrow> system option" where
  "run_lost a \<sigma> = (if a < length (sysClients \<sigma>) then (case relDeliver (member_rel (sysClients \<sigma> ! a)) of
     Sending ops # _ \<Rightarrow> Some (\<sigma>\<lparr>sysStore := fst (mem_Append (sysStore \<sigma>) ops)\<rparr>) | _ \<Rightarrow> None) else None)"

text \<open>The goroutines of a client: the next job, or else the first delivery.\<close>

definition rel_next :: "(mem \<times> session_cache) Store \<Rightarrow> member_reliable \<Rightarrow> member_reliable option" where
  "rel_next S r = (if relJobs r \<noteq> [] then run_next r
     else (case relDeliver r of [] \<Rightarrow> None
       | Sending ops # _ \<Rightarrow> (case attempt S r 0 of (r, e) \<Rightarrow> Some r)
       | Sent k # _ \<Rightarrow> report_done r 0 k))"

definition run_background :: "nat \<Rightarrow> nat \<Rightarrow> nat \<Rightarrow> system \<Rightarrow> system option" where
  "run_background n fuel a \<sigma> = (if a < length (sysClients \<sigma>) then
     (let s = facing (sysStore \<sigma>) (sysClients \<sigma> ! a) in
      map_option (\<lambda>r. \<lparr>sysStore = fst (relStore r), sysClients = (sysClients \<sigma>)[a := with_rel s r]\<rparr>) (rel_next (member_raw fuel n s) (member_rel s)))
     else None)"

lemma run_push_step: "run_push n fuel a i \<sigma> = Some \<tau> \<Longrightarrow> system_step n v0 \<sigma> \<tau>"
  by (auto simp: run_push_def run_client_def bind_Some_ex split: if_splits intro!: system_step.push [OF _ refl])

lemma run_pull_step: "run_pull n fuel a \<sigma> = Some \<tau> \<Longrightarrow> system_step n v0 \<sigma> \<tau>"
  by (auto simp: run_pull_def run_client_def bind_Some_ex split: if_splits intro: system_step.pull [OF _ refl])

lemma run_fetch_step: "run_fetch n fuel a \<sigma> = Some \<tau> \<Longrightarrow> system_step n v0 \<sigma> \<tau>"
  by (auto simp: run_fetch_def run_client_def bind_Some_ex split: if_splits intro: system_step.fetch [OF _ refl])

lemma run_lost_step: "run_lost a \<sigma> = Some \<tau> \<Longrightarrow> system_step n v0 \<sigma> \<tau>"
  by (auto simp: run_lost_def split: if_splits list.splits delivery.splits intro!: system_step.lost_reply [of "sysClients \<sigma> ! a"])

lemma rel_next_step: "rel_next S r = Some r' \<Longrightarrow> \<exists>ev. rel_step S r ev r' \<and> (\<forall>ops. ev \<noteq> Submitted ops)"
proof -
  assume n: "rel_next S r = Some r'"
  show ?thesis
  proof (cases "relJobs r")
    case (Cons j js)
    then have "rel_step S r Internal r'" using n by (intro rel_step.run) (simp add: rel_next_def)
    then show ?thesis by blast
  next
    case Nil
    then obtain d ds where d: "relDeliver r = d # ds" using n by (auto simp: rel_next_def split: list.splits)
    show ?thesis
    proof (cases d)
      case (Sending ops)
      then obtain e where e: "attempt S r 0 = (r', e)" using n Nil d by (auto simp: rel_next_def split: prod.splits)
      show ?thesis using rel_step.deliver [of 0 r ops S r'] rel_step.retry [of 0 r ops S r'] d Sending e by (cases e) auto
    next
      case (Sent k)
      then have "rel_step S r Internal r'" using n Nil d by (intro rel_step.report [of 0 _ k]) (simp_all add: rel_next_def)
      then show ?thesis by blast
    qed
  qed
qed

lemma run_background_step: "run_background n fuel a \<sigma> = Some \<tau> \<Longrightarrow> system_step n v0 \<sigma> \<tau>"
  by (auto simp: run_background_def Let_def split: if_splits dest!: rel_next_step intro: system_step.background [OF _ refl])

end
