(* ===== verification/Ops_Properties.thy ===== *)
theory Ops_Properties
  imports Dot_System Stream_Properties
begin

text \<open>
  What packages \<open>ops\<close> and \<open>ops/sync\<close> promise: the store drops what it has seen, the
  transformer turns the raw log into one that can be applied in sequence, and a session stays in
  step with the store through Push and Pull.
\<close>

section \<open>The in-memory store\<close>

lemma mem_Append_loop_seen: "opID ` set xs \<subseteq> memSeen m \<Longrightarrow> mem_Append_loop m xs = m"
  by (induction xs) auto

text \<open>
  C14. Append to the in-memory store keeps the log as it was and adds to it: every operation is
  numbered with its index, no ID occurs twice, an ID is in the log exactly when it was there before
  or is appended, and appending the same operations again changes nothing.
\<close>

theorem mem_append_once:
  assumes "mem_ok m" "mem_Append m xs = (m', e)"
  shows "e = None \<and> mem_ok m' \<and> mem_Append m' xs = (m', None)
    \<and> (\<exists>ys. memOps m' = memOps m @ ys \<and> opID ` set (memOps m') = opID ` set (memOps m) \<union> opID ` set xs)"
proof -
  have m': "m' = mem_Append_loop m xs" "e = None" using assms(2) by (auto simp: mem_Append_def)
  have 1: "mem_ok m'" "\<exists>ys. memOps m' = memOps m @ ys \<and> opID ` set (memOps m') = opID ` set (memOps m) \<union> opID ` set xs"
    using mem_Append_loop_ok [OF assms(1), of xs] m'(1) by auto
  then have "opID ` set xs \<subseteq> memSeen m'" by (auto simp: mem_ok_def)
  then show ?thesis using 1 m'(2) by (simp add: mem_Append_def mem_Append_loop_seen)
qed

definition op_a :: op where
  "op_a = \<lparr>opID = KStr ''a'', opParent = None, opVersion = 0, opBasis = - 1, opChange = ins8 0 ''a''\<rparr>"

definition op_b :: op where
  "op_b = \<lparr>opID = KStr ''b'', opParent = None, opVersion = 0, opBasis = - 1, opChange = ins8 0 ''b''\<rparr>"

definition op_c :: op where
  "op_c = \<lparr>opID = KStr ''c'', opParent = Some (KStr ''b''), opVersion = 0, opBasis = - 1, opChange = ins8 1 ''c''\<rparr>"

definition ex_mem :: mem where
  "ex_mem = MemStore [op_a, op_b, op_c]"

definition ops_log :: "op list" where
  "ops_log = [op_a, WithVersion op_b 1, WithVersion op_c 2]"

lemmas ex_ops = op_a_def op_b_def op_c_def WithVersion_def WithChanges_def

lemma ex_mem_ops: "memOps ex_mem = ops_log" "memSeen ex_mem = {KStr ''a'', KStr ''b'', KStr ''c''}"
  by (auto simp: ex_mem_def MemStore_def mem_Append_def ops_log_def ex_ops)

lemma ex_mem_ok: "mem_ok ex_mem"
  by (auto simp: mem_ok_def ex_mem_ops ops_log_def ex_ops less_Suc_eq nth_Cons split: nat.splits)

theorem mem_append_once_witness:
  "mem_ok ex_mem \<and> mem_Append ex_mem [op_a, op_b, op_c] = (ex_mem, None)"
proof -
  have "mem_ok \<lparr>memOps = [], memSeen = {}\<rparr>" by (simp add: mem_ok_def)
  moreover have "mem_Append \<lparr>memOps = [], memSeen = {}\<rparr> [op_a, op_b, op_c] = (ex_mem, None)"
    by (simp add: ex_mem_def MemStore_def mem_Append_def)
  ultimately show ?thesis using mem_append_once by blast
qed

section \<open>The transformer\<close>

lemma Session_cache_Load: "c_Load session_cache_ops c = Session_Load c"
  by (simp add: session_cache_ops_def)

text \<open>
  C11. The transformed store computes, through its cache and its recursion over the raw log, exactly
  the reference transformation of every operation that it returns: a lawful cache is still lawful
  after the call, and a nesting of calls one deeper than the log suffices.
\<close>

theorem transformer_refines:
  assumes "mem_ok m" "basis_ok (memOps m)" "\<forall>j < length (memOps m). xspec n (memOps m) j \<noteq> None"
    and "computed n (memOps m) (Session_Load c)"
    and "length (memOps m) < fuel" "0 \<le> v" "0 \<le> limit"
  shows "\<exists>c'. st_GetSince (Transformed fuel n session_cache_ops mem_store) (m, c) v limit
      = ok ((m, c'), map (xop n (memOps m)) [nat v..<min (length (memOps m)) (nat v + nat limit)])
    \<and> computed n (memOps m) (Session_Load c')"
  using xf_mem.Transformed_get [of m "memOps m" n c fuel v limit] assms unfolding Session_cache_Load by simp

lemma ops_log_xspec:
  "xspec 2 ops_log 0 = Some (op_a, [])"
  "xspec 2 ops_log (Suc 0) = Some (WithVersion (WithChanges op_b (ins8 1 ''b'')) 1, [op_a])"
  "xspec 2 ops_log 2 = Some (WithVersion (WithChanges op_c (ins8 2 ''c'')) 2, [op_a])"
  by code_simp+

lemma ops_log_facts: "basis_ok ops_log" "length ops_log = 3" "\<forall>j < 3. xspec 2 ops_log j \<noteq> None"
proof -
  show "\<forall>j < 3. xspec 2 ops_log j \<noteq> None" using ops_log_xspec by (auto simp: less_Suc_eq numeral_3_eq_3 numeral_2_eq_2)
qed (auto simp: basis_ok_def ops_log_def ex_ops less_Suc_eq nth_Cons split: nat.splits)

theorem transformer_refines_witness:
  "\<exists>c'. st_GetSince (Transformed 4 2 session_cache_ops mem_store) (ex_mem, \<lparr>OpCache = [], MergeCache = []\<rparr>) 1 1000
      = ok ((ex_mem, c'), [WithVersion (WithChanges op_b (ins8 1 ''b'')) 1, WithVersion (WithChanges op_c (ins8 2 ''c'')) 2])"
proof -
  have "[1..<3] = [Suc 0, 2]" by (simp add: upt_rec)
  then show ?thesis
    using transformer_refines [OF ex_mem_ok, of 2 "\<lparr>OpCache = [], MergeCache = []\<rparr>" 4 1 1000] ops_log_facts ops_log_xspec
    by (auto simp: ex_mem_ops computed_def Session_Load_def xop_def)
qed

lemma server_foldM:
  "(\<And>j. j < k \<Longrightarrow> xspec n rs j \<noteq> None) \<Longrightarrow>
     server n rs v0 k = foldM Strict v0 (map (\<lambda>j. opChange (xop n rs j)) [0..<k])"
proof (induction k)
  case (Suc k)
  obtain y m where "xspec n rs k = Some (y, m)" using Suc.prems [of k] by auto
  then show ?case using Suc by (simp add: foldM_append xop_def)
qed simp

text \<open>
  C13. When every raw operation fits the value its client had, the transformed operations apply one
  after the other; and the merge chain of each operation takes its client, from the value after its
  own operation, to the value of the store after that operation.
\<close>

theorem transformed_log_applies:
  assumes "log_fits n rs v0" "wf_val v0" "basis_ok rs" "\<forall>j < length rs. xspec n rs j \<noteq> None"
    and "k < length rs"
  shows "\<exists>w c. foldM Strict v0 (map (\<lambda>j. opChange (xop n rs j)) [0..<Suc k]) = Some w
    \<and> client n rs v0 k = Some c \<and> foldM Strict c (map opChange (snd (the (xspec n rs k)))) = Some w"
proof -
  obtain w c m y where "server n rs v0 (Suc k) = Some w" "client n rs v0 k = Some c" "xspec n rs k = Some (y, m)"
    "foldM Strict c (map opChange m) = Some w"
    using transformed_sequence [OF assms(1-3) _ assms(5)] assms(4) by blast
  moreover have "server n rs v0 (Suc k) = foldM Strict v0 (map (\<lambda>j. opChange (xop n rs j)) [0..<Suc k])"
    using assms(4,5) by (intro server_foldM) simp
  ultimately show ?thesis by (simp del: upt_Suc server.simps)
qed

lemma ops_log_client:
  "base_value 2 ops_log (VS8 '''') 0 = Some (VS8 '''')" "base_value 2 ops_log (VS8 '''') (Suc 0) = Some (VS8 '''')"
  "base_value 2 ops_log (VS8 '''') 2 = Some (VS8 ''b'')"
proof -
  have pi: "parent_index ops_log 0 = Some None" "parent_index ops_log (Suc 0) = Some None" "parent_index ops_log 2 = Some (Some (Suc 0))"
    by code_simp+
  have el: "opBasis (ops_log ! 0) = - 1" "opBasis (ops_log ! Suc 0) = - 1" "opChange (ops_log ! Suc 0) = ins8 0 ''b''"
    "opBasis (ops_log ! 2) = - 1"
    by (simp_all add: ops_log_def ex_ops)
  show "base_value 2 ops_log (VS8 '''') 0 = Some (VS8 '''')"
    and one: "base_value 2 ops_log (VS8 '''') (Suc 0) = Some (VS8 '''')"
    using pi el by (simp_all add: base_value.simps Let_def)
  show "base_value 2 ops_log (VS8 '''') 2 = Some (VS8 ''b'')"
    using one ops_log_xspec(2) pi el
    by (simp add: base_value.simps [of 2 ops_log _ 2] Let_def splice_evals op_a_def)
qed

lemma ops_log_fits: "log_fits 2 ops_log (VS8 '''')"
  using ops_log_client
  by (auto simp: log_fits_def ops_log_facts(2) less_Suc_eq numeral_3_eq_3 numeral_2_eq_2 ops_log_def ex_ops splice_evals)

theorem transformed_log_applies_witness:
  "\<exists>w c. foldM Strict (VS8 '''') [ins8 0 ''a'', ins8 1 ''b'', ins8 2 ''c''] = Some w
    \<and> client 2 ops_log (VS8 '''') 2 = Some c \<and> foldM Strict c [ins8 0 ''a''] = Some w"
proof -
  have "[0..<Suc 2] = [0, Suc 0, 2]" by (simp add: upt_rec)
  then have "map (\<lambda>j. opChange (xop 2 ops_log j)) [0..<Suc 2] = [ins8 0 ''a'', ins8 1 ''b'', ins8 2 ''c'']"
    using ops_log_xspec by (simp add: xop_def op_a_def)
  moreover have "map opChange (snd (the (xspec 2 ops_log 2))) = [ins8 0 ''a'']"
    using ops_log_xspec by (simp add: op_a_def)
  ultimately show ?thesis
    using transformed_log_applies [OF ops_log_fits _ ops_log_facts(1), of 2] ops_log_facts by (simp del: strict.simps)
qed

section \<open>Sessions\<close>

text \<open>
  C7. A session that is in step with the store is in step with it after a Pull: its merge chain
  leads from the value of the store at its new version to the value of its stream, and an own
  operation that comes back is the head of its merge chain, so that dropping it changes nothing.
  Pull reports no error and reaches the end of the log, or 1000 operations further.
\<close>

theorem pull_stays_in_step:
  assumes "mem_ok m" "sound_log n (memOps m) v0" "length (memOps m) < fuel"
    and "computed n (memOps m) (Session_Load c)"
    and "synced n (memOps m) v0 root s" "kept (memOps m) (cfgPending (cfg s))" "sworld s = (m, c)"
    and "session_pull n (Transformed fuel n session_cache_ops mem_store) s = Some (s', e)"
  shows "e = None \<and> synced n (memOps m) v0 root s' \<and> set (cfgPending (cfg s')) \<subseteq> set (cfgPending (cfg s))
    \<and> cfgVersion (cfg s') = max (cfgVersion (cfg s)) (min (int (length (memOps m)) - 1) (cfgVersion (cfg s) + 1000))"
  using xf_mem.pull_synced [OF assms(1-3) _ assms(5-8)] assms(4) unfolding Session_cache_Load by blast

definition ex_session :: "(mem \<times> session_cache) session" where
  "ex_session = \<lparr>cfg = default_config\<lparr>cfgPending := [op_b, op_c], cfgMergeChain := [op_b, op_c]\<rparr>,
     sheap = [\<lparr>nChange = ins8 0 ''b'', nNext = Some 1\<rparr>, \<lparr>nChange = ins8 1 ''c'', nNext = Some 2\<rparr>, empty_node],
     sstream = 2, sout = [], sworld = (ex_mem, \<lparr>OpCache = [], MergeCache = []\<rparr>), snotified = []\<rparr>"

lemma ops_log_sound: "sound_log 2 ops_log (VS8 '''')"
proof -
  have "distinct (map opID ops_log)" "\<forall>j < 3. opVersion (ops_log ! j) = int j"
    by (auto simp: ops_log_def ex_ops less_Suc_eq nth_Cons split: nat.splits)
  then show ?thesis using ops_log_facts ops_log_fits by (simp add: sound_log_def log_ok_def)
qed

lemma ex_session_synced: "synced 2 ops_log (VS8 '''') (VS8 '''') ex_session" "kept ops_log [op_b, op_c]"
proof -
  have "following 2 [] [op_b, op_c] [op_b, op_c]" by simp
  moreover have "origin 2 ops_log 0 op_b []" by (simp add: origin_def op_b_def)
  ultimately have "tracking 2 ops_log 0 [op_b, op_c] [op_b, op_c]"
    by (auto simp: tracking_def op_b_def op_c_def)
  moreover have "in_step (VS8 '''') (VS8 '''') ex_session"
    by (auto intro!: heap_okI simp: in_step_def ex_session_def op_b_def op_c_def chase.simps splice_evals less_Suc_eq nth_Cons split: nat.splits)
  ultimately show "synced 2 ops_log (VS8 '''') (VS8 '''') ex_session"
    by (simp add: synced_def ex_session_def default_config_def ops_log_facts)
  show "kept ops_log [op_b, op_c]"
    by (auto simp: kept_def ops_log_def ex_ops less_Suc_eq nth_Cons split: nat.splits)
qed

theorem pull_stays_in_step_witness:
  "\<exists>s'. session_pull 2 (Transformed 4 2 session_cache_ops mem_store) ex_session = Some (s', None)
    \<and> synced 2 ops_log (VS8 '''') (VS8 '''') s' \<and> cfgVersion (cfg s') = 2"
proof -
  have "session_pull 2 (Transformed 4 2 session_cache_ops mem_store) ex_session \<noteq> None" by code_simp
  then obtain s' e where p: "session_pull 2 (Transformed 4 2 session_cache_ops mem_store) ex_session = Some (s', e)" by auto
  have "cfgPending (cfg ex_session) = [op_b, op_c]" "cfgVersion (cfg ex_session) = - 1"
    "sworld ex_session = (ex_mem, \<lparr>OpCache = [], MergeCache = []\<rparr>)"
    by (simp_all add: ex_session_def default_config_def)
  then show ?thesis
    using pull_stays_in_step [OF ex_mem_ok _ _ _ _ _ _ p, of "VS8 ''''" "\<lparr>OpCache = [], MergeCache = []\<rparr>"] ops_log_sound ex_session_synced p ops_log_facts(2)
    by (simp add: ex_mem_ops computed_def Session_Load_def)
qed

text \<open>
  C8. Push keeps a session in step with the store: what happened on its stream since the last push
  becomes one pending operation, on top of the last pending one and based on the version pulled
  last. It is sent with everything that could not be sent before, and kept when sending fails.
\<close>

theorem push_stays_in_step:
  assumes "log_ok n rs" "synced n rs v0 root s" "session_push n S (Inr i) s = Some (s', e)"
  shows "synced n rs v0 root s' \<and> cfgVersion (cfg s') = cfgVersion (cfg s) \<and>
    (\<exists>t c. Latest (plain n) (sheap s) (sstream s) = Some (t, c)
      \<and> cfgPending (cfg s') = cfgPending (cfg s) @ (if c = None then [] else [push_op i s c])
      \<and> (let out = sout s @ (if c = None then [] else [push_op i s c]); r = st_Append S (sworld s) out in
          if out = [] then s' = s\<lparr>sstream := t\<rparr> \<and> e = None
          else sworld s' = fst r \<and> e = snd r \<and> sout s' = (if e = None then [] else out)))"
  by (rule session_push_op [OF assms])

definition ex_editing :: "mem session" where
  "ex_editing = \<lparr>cfg = default_config\<lparr>cfgPending := [op_b], cfgMergeChain := [op_b]\<rparr>,
     sheap = [\<lparr>nChange = ins8 0 ''b'', nNext = Some 1\<rparr>, \<lparr>nChange = ins8 1 ''c'', nNext = Some 2\<rparr>, empty_node],
     sstream = 1, sout = [], sworld = MemStore [], snotified = []\<rparr>"

lemma ex_editing_facts: "synced 2 [] (VS8 '''') (VS8 '''') ex_editing" "cfgPending (cfg ex_editing) = [op_b]"
  "Latest (plain 2) (sheap ex_editing) (sstream ex_editing) = Some (2, ins8 1 ''c'')"
proof -
  have "tracking 2 [] 0 [op_b] [op_b]" by (simp add: tracking_def op_b_def origin_def)
  moreover have "in_step (VS8 '''') (VS8 '''') ex_editing"
    by (auto intro!: heap_okI simp: in_step_def ex_editing_def op_b_def op_c_def chase.simps splice_evals less_Suc_eq nth_Cons split: nat.splits)
  ultimately show "synced 2 [] (VS8 '''') (VS8 '''') ex_editing"
    by (simp add: synced_def ex_editing_def default_config_def)
  show "Latest (plain 2) (sheap ex_editing) (sstream ex_editing) = Some (2, ins8 1 ''c'')" by code_simp
qed (simp add: ex_editing_def)

theorem push_stays_in_step_witness:
  "\<exists>s'. session_push 2 mem_store (Inr (KStr ''c'')) ex_editing = Some (s', None)
    \<and> synced 2 [] (VS8 '''') (VS8 '''') s' \<and> cfgPending (cfg s') = [op_b, op_c]"
proof -
  have "session_push 2 mem_store (Inr (KStr ''c'')) ex_editing \<noteq> None"
    using ex_editing_facts(3) by (simp add: session_push_def split: prod.splits)
  then obtain s' e where p: "session_push 2 mem_store (Inr (KStr ''c'')) ex_editing = Some (s', e)" by auto
  have "push_op (KStr ''c'') ex_editing (ins8 1 ''c'') = op_c"
    by (simp add: push_op_def ex_editing_def default_config_def op_b_def op_c_def)
  moreover have "sout ex_editing = []" by (simp add: ex_editing_def)
  moreover have "log_ok 2 []" by (simp add: log_ok_def basis_ok_def)
  ultimately show ?thesis
    using push_stays_in_step [OF _ ex_editing_facts(1) p] p ex_editing_facts(2,3)
    by (auto simp: mem_store_def mem_Append_def)
qed

section \<open>The system\<close>

text \<open>
  C6. Clients of one store converge. Clients join, wait for their reads or read in the background, edit
  their streams, push and pull, in any order. What is pushed goes through the reliable store: it is delivered in
  the background at any time later, again when a reply is lost, and not at all when the client was closed.
  All clients that pulled the whole log, got their own operations
  back and have nothing left to push have streams that lead to the same value: the one
  which the transformed operations of the store give when they are applied in sequence. IDs are new when they are pushed, the
  store is the in-memory one and the transformer is assumed to return for the log.
\<close>

theorem system_converges:
  assumes "system_reaches n v0 \<sigma>" "wf_val v0" "memOps (sysStore \<sigma>) = rs" "\<forall>j < length rs. xspec n rs j \<noteq> None"
    and "s \<in> set (sysClients \<sigma>)" "caught_up rs s" "t \<in> set (sysClients \<sigma>)" "caught_up rs t"
  shows "\<exists>v k l. foldM Strict v0 (map (\<lambda>j. opChange (xop n rs j)) [0..<length rs]) = Some v
    \<and> chase (sheap s) 0 v0 = Some (k, v) \<and> chase (sheap t) 0 v0 = Some (l, v)"
proof -
  have "system_ok n v0 \<sigma>" using system_reaches_ok [OF assms(1,2)] assms(3,4) by simp
  then have "member_ok n v0 rs s" "member_ok n v0 rs t" using assms(3,5,7) by (simp_all add: system_ok_def)
  from this [THEN member_end] assms(4,6,8) server_foldM [of "length rs" n rs v0] show ?thesis by auto
qed

definition ex_joined :: "bool \<Rightarrow> member" where
  "ex_joined nonblock = (if nonblock then NonBlockingStream (MemStore []) NewSession else Session_Stream (MemStore []) NewSession)"

definition ex_typed :: "bool \<Rightarrow> change option \<Rightarrow> member" where
  "ex_typed nonblock c = (ex_joined nonblock)\<lparr>sheap := [\<lparr>nChange = c, nNext = Some 1\<rparr>, empty_node]\<rparr>"

definition ex_typing :: system where
  "ex_typing = \<lparr>sysStore = MemStore [], sysClients = [ex_typed False (ins8 0 ''a''), ex_typed True (ins8 0 ''b'')]\<rparr>"

text \<open>
  Both clients push. The operation of the second reaches the store first, its reply is lost; then that of the first. The first
  client pulls; the second one starts a read, delivers once more, and pulls what was read.
\<close>

definition ex_run :: "system option" where
  "ex_run = do { \<sigma> \<leftarrow> run_push 2 4 0 (KStr ''a'') ex_typing; \<sigma> \<leftarrow> run_push 2 4 1 (KStr ''b'') \<sigma>;
     \<sigma> \<leftarrow> run_background 2 4 1 \<sigma>; \<sigma> \<leftarrow> run_lost 1 \<sigma>; \<sigma> \<leftarrow> run_background 2 4 0 \<sigma>; \<sigma> \<leftarrow> run_background 2 4 0 \<sigma>;
     \<sigma> \<leftarrow> run_pull 2 4 0 \<sigma>; \<sigma> \<leftarrow> run_pull 2 4 1 \<sigma>; \<sigma> \<leftarrow> run_background 2 4 1 \<sigma>; \<sigma> \<leftarrow> run_fetch 2 4 1 \<sigma>; run_pull 2 4 1 \<sigma> }"

lemma ex_typing_reached: "system_reaches 2 (VS8 '''') ex_typing"
proof -
  let ?\<sigma> = "\<lambda>ss. \<lparr>sysStore = MemStore [], sysClients = ss\<rparr>"
  have j: "system_step 2 (VS8 '''') (?\<sigma> ss) (?\<sigma> (ss @ [ex_joined nb]))" for ss nb
    using system_step.join [of 2 "VS8 ''''" "?\<sigma> ss" nb] by (cases nb) (simp_all add: ex_joined_def)
  have ed: "system_step 2 (VS8 '''') (?\<sigma> ss) (?\<sigma> (ss[a := ex_typed nb (ins8 0 x)]))" if "a < length ss" "ss ! a = ex_joined nb" for ss a nb x
  proof -
    have h: "sheap (ex_joined nb) = [empty_node]"
      by (simp add: ex_joined_def Session_Stream_def NonBlockingStream_def sync_Stream_def New_def Let_def)
    have "sync_Append 2 (ex_joined nb) 0 (ins8 0 x) = Some (ex_typed nb (ins8 0 x), 1)"
      by (simp add: sync_Append_def h stream_Append_def stream_apply_def New_def ex_typed_def)
    moreover have "Strict (VS8 '''') (ins8 0 x) \<noteq> None" by (simp add: splice_evals)
    ultimately show ?thesis
      using system_step.edit [of a "?\<sigma> ss" "ex_joined nb" "VS8 ''''" 0 "VS8 ''''" 0 "VS8 ''''" "ins8 0 x" False 2] that
      by (simp add: h chase.simps)
  qed
  have "(system_step 2 (VS8 ''''))\<^sup>*\<^sup>* (?\<sigma> []) (?\<sigma> [ex_joined False, ex_joined True])"
    using j [of "[]" False] j [of "[ex_joined False]" True] by (simp add: converse_rtranclp_into_rtranclp)
  moreover have "(system_step 2 (VS8 ''''))\<^sup>*\<^sup>* (?\<sigma> [ex_joined False, ex_joined True]) ex_typing"
    using ed [of 0 "[ex_joined False, ex_joined True]" False "''a''"] ed [of 1 "[ex_typed False (ins8 0 ''a''), ex_joined True]" True "''b''"]
    by (simp add: ex_typing_def converse_rtranclp_into_rtranclp)
  ultimately show ?thesis by (simp add: system_start_def)
qed

lemmas run_steps = run_push_step run_pull_step run_fetch_step run_lost_step run_background_step

lemma ex_run_reached: "ex_run = Some \<sigma> \<Longrightarrow> system_reaches 2 (VS8 '''') \<sigma>"
  using ex_typing_reached unfolding ex_run_def
  by (auto simp: bind_Some_ex dest!: run_steps [where n = 2 and ?v0.0 = "VS8 ''''"] intro: rtranclp.rtrancl_into_rtrancl)

lemma ex_run_check: "case ex_run of None \<Rightarrow> False | Some \<sigma> \<Rightarrow> (let rs = memOps (sysStore \<sigma>) in
    length rs = 2 \<and> list_all (\<lambda>j. xspec 2 rs j \<noteq> None) [0..<2] \<and> length (sysClients \<sigma>) = 2
    \<and> list_all (caught_up rs) (sysClients \<sigma>))"
  by code_simp

theorem system_converges_witness:
  "\<exists>\<sigma> s t v k l. ex_run = Some \<sigma> \<and> sysClients \<sigma> = [s, t] \<and> chase (sheap s) 0 (VS8 '''') = Some (k, v)
    \<and> chase (sheap t) 0 (VS8 '''') = Some (l, v)"
proof -
  obtain \<sigma> where \<sigma>: "ex_run = Some \<sigma>" using ex_run_check by (cases ex_run) auto
  let ?rs = "memOps (sysStore \<sigma>)"
  have f: "length ?rs = 2" "list_all (\<lambda>j. xspec 2 ?rs j \<noteq> None) [0..<2]" "length (sysClients \<sigma>) = 2" "list_all (caught_up ?rs) (sysClients \<sigma>)"
    using ex_run_check unfolding \<sigma> option.case Let_def by blast+
  from f(3) obtain s t where st: "sysClients \<sigma> = [s, t]" by (auto simp: numeral_2_eq_2 length_Suc_conv)
  have "\<forall>j < length ?rs. xspec 2 ?rs j \<noteq> None" using f(1,2) by (simp add: list_all_iff)
  from system_converges [OF ex_run_reached [OF \<sigma>] _ refl this, of s t] show ?thesis using \<sigma> st f(4) by auto
qed

text \<open>
  C38. A Push that cannot get an ID loses the change it was to send: the error is reported, but the
  session has moved to the end of its stream, and the next Push finds nothing to add.
\<close>

theorem push_without_id_loses_change:
  assumes "heap_ok (sheap s)" "chase (sheap s) (sstream s) u = Some (k, f)" "wf_val u"
    and "Latest (plain n) (sheap s) (sstream s) = Some (t, Some c)"
  shows "session_push n S (Inl noid) s = Some (s\<lparr>sstream := t\<rparr>, Some noid)
    \<and> Latest (plain n) (sheap s) t = Some (t, None)"
proof -
  obtain t' c' where "Latest (plain n) (sheap s) (sstream s) = Some (t', c')" "Next (plain n) (sheap s) t' = Some None"
    using list.Latest_value [OF assms(1-3), of n] by blast
  then have "Latest_loop (plain n) (sheap s) t [] = Some (t, [])" using assms(4) by (subst Latest_loop.simps) simp
  then have "Latest (plain n) (sheap s) t = Some (t, None)" by (simp add: Latest_def ChangeSet_Simplify_def)
  then show ?thesis using assms(4) by (simp add: session_push_def appendChange_def Let_def)
qed

theorem push_without_id_loses_change_witness:
  "session_push 2 mem_store (Inl ''no entropy'') ex_editing = Some (ex_editing\<lparr>sstream := 2\<rparr>, Some ''no entropy'')
    \<and> Latest (plain 2) (sheap ex_editing) 2 = Some (2, None)"
proof -
  have "heap_ok (sheap ex_editing)" "chase (sheap ex_editing) (sstream ex_editing) (VS8 ''b'') = Some (2, VS8 ''bc'')"
    by (auto intro!: heap_okI simp: ex_editing_def chase.simps splice_evals less_Suc_eq nth_Cons split: nat.splits)
  then show ?thesis using push_without_id_loses_change [OF _ _ _ ex_editing_facts(3)] by auto
qed

end
