(* ===== verification/Sync_Properties.thy ===== *)
theory Sync_Properties
  imports Ops_Properties Dot_Reliable Dot_Polling
begin

text \<open>
  What the stores of \<open>ops/sync\<close> and the poller of \<open>ops\<close> promise, for every
  interleaving of their goroutines.
\<close>

section \<open>The reliable store\<close>

text \<open>
  C9. The reliable store delivers everything exactly once and in order: what the store behind it
  accepted is at every moment a prefix of what was submitted, however often a delivery fails; and
  when nothing is queued and nothing is being delivered, all of it was accepted.
\<close>

theorem reliable_delivers_in_order:
  assumes "rel_run S (newReliable w) tr r"
  shows "(\<exists>rest. submitted tr = accepted tr @ rest)
    \<and> (relJobs r = [] \<and> relDeliver r = [] \<and> \<not> relClosed r \<longrightarrow> accepted tr = submitted tr)"
  using rel_run_inv [OF assms] by (auto simp: rel_inv_def tokens_def)

definition ex_rel_run :: "event list" where
  "ex_rel_run = [Submitted [op_a], Submitted [op_b], Internal, Accepted [op_a], Internal, Internal, Internal, Accepted [op_b], Internal, Internal]"

lemma ex_rel_run_ok: "\<exists>r. rel_run mem_store (newReliable (MemStore [])) ex_rel_run r \<and> relJobs r = [] \<and> relDeliver r = [] \<and> \<not> relClosed r"
proof -
  let ?m0 = "MemStore []" and ?m1 = "MemStore [op_a]" and ?m2 = "MemStore [op_a, op_b]"
  let ?r = "\<lambda>m p js ds. \<lparr>relStore = m, relPending = p, relJobs = js, relDeliver = ds, relClosed = False\<rparr>"
  have a: "mem_Append ?m0 [op_a] = (?m1, None)" "mem_Append ?m1 [op_b] = (?m2, None)"
    by (simp_all add: MemStore_def mem_Append_def op_a_def op_b_def)
  note defs = reliable_Append_def send_job_def run_next_def start_delivery_def goslice_def attempt_def mem_store_def a
    report_done_def give_up_def
  have steps: "rel_step mem_store (?r ?m0 [] [] []) (Submitted [op_a]) (?r ?m0 [] [AppendJob [op_a]] [])"
    "rel_step mem_store (?r ?m0 [] [AppendJob [op_a]] []) (Submitted [op_b]) (?r ?m0 [] [AppendJob [op_a], AppendJob [op_b]] [])"
    "rel_step mem_store (?r ?m0 [] [AppendJob [op_a], AppendJob [op_b]] []) Internal (?r ?m0 [op_a] [AppendJob [op_b]] [Sending [op_a]])"
    "rel_step mem_store (?r ?m0 [op_a] [AppendJob [op_b]] [Sending [op_a]]) (Accepted [op_a]) (?r ?m1 [op_a] [AppendJob [op_b]] [Sent 1])"
    "rel_step mem_store (?r ?m1 [op_a] [AppendJob [op_b]] [Sent 1]) Internal (?r ?m1 [op_a] [AppendJob [op_b], DoneJob 1] [])"
    "rel_step mem_store (?r ?m1 [op_a] [AppendJob [op_b], DoneJob 1] []) Internal (?r ?m1 [op_a, op_b] [DoneJob 1] [])"
    "rel_step mem_store (?r ?m1 [op_a, op_b] [DoneJob 1] []) Internal (?r ?m1 [op_b] [] [Sending [op_b]])"
    "rel_step mem_store (?r ?m1 [op_b] [] [Sending [op_b]]) (Accepted [op_b]) (?r ?m2 [op_b] [] [Sent 1])"
    "rel_step mem_store (?r ?m2 [op_b] [] [Sent 1]) Internal (?r ?m2 [op_b] [DoneJob 1] [])"
    "rel_step mem_store (?r ?m2 [op_b] [DoneJob 1] []) Internal (?r ?m2 [] [] [])"
    by (rule submit run deliver [of 0] report [of 0]; simp add: defs)+
  have "rel_run mem_store (?r ?m0 [] [] []) ([] @ [Submitted [op_a]] @ [Submitted [op_b]] @ [Internal] @ [Accepted [op_a]] @ [Internal] @ [Internal] @ [Internal] @ [Accepted [op_b]] @ [Internal] @ [Internal]) (?r ?m2 [] [] [])"
    unfolding append_assoc [symmetric] using steps by (blast intro: rel_run.intros)
  then show ?thesis by (auto simp: ex_rel_run_def newReliable_def)
qed

theorem reliable_delivers_in_order_witness:
  "\<exists>r. rel_run mem_store (newReliable (MemStore [])) ex_rel_run r \<and> accepted ex_rel_run = [op_a, op_b] \<and> submitted ex_rel_run = [op_a, op_b]"
  using ex_rel_run_ok reliable_delivers_in_order by (fastforce simp: ex_rel_run_def)

text \<open>
  C10. The reliable store never gets stuck and never panics: as long as something is queued or being
  delivered, and the store behind it accepts, a goroutine can take a step; and every such step
  brings the end closer, so deliveries are not retried or reported forever.
\<close>

theorem reliable_progress:
  assumes "rel_run S (newReliable w) tr r" "\<forall>w ops. snd (st_Append S w ops) = None"
  shows "(relJobs r \<noteq> [] \<or> relDeliver r \<noteq> [] \<longrightarrow> (\<exists>e r'. rel_step S r e r' \<and> (e = Internal \<or> (\<exists>ops. e = Accepted ops))))
    \<and> (\<forall>e r'. rel_step S r e r' \<and> (e = Internal \<or> (\<exists>ops. e = Accepted ops)) \<longrightarrow> work r' < work r)"
  using rel_progress [OF rel_run_inv [OF assms(1)]] rel_step_work [OF _ rel_run_inv [OF assms(1)]] assms(2) by blast

theorem reliable_progress_witness:
  "\<exists>r. rel_run mem_store (newReliable (MemStore [])) [Submitted [op_a]] r
    \<and> (\<exists>e r'. rel_step mem_store r e r' \<and> (e = Internal \<or> (\<exists>ops. e = Accepted ops)))"
proof -
  let ?r = "(newReliable (MemStore []))\<lparr>relJobs := [AppendJob [op_a]]\<rparr>"
  have "rel_step mem_store (newReliable (MemStore [])) (Submitted [op_a]) ?r"
    by (rule submit) (simp add: reliable_Append_def send_job_def newReliable_def)
  then have run: "rel_run mem_store (newReliable (MemStore [])) [Submitted [op_a]] ?r"
    using next_step [OF start] by fastforce
  have "\<forall>w ops. snd (st_Append mem_store w ops) = None" by (simp add: mem_store_def mem_Append_def)
  then show ?thesis using reliable_progress [OF run] run by auto
qed

text \<open>
  GetSince of the reliable store returns the first read that brings operations, after any number
  of failed or empty reads; without a cancelled context it never returns an empty result.
\<close>

theorem reliable_get_retries:
  assumes "\<forall>r \<in> set bad. fruitless r" "ops \<noteq> []"
  shows "reliable_GetSince (bad @ (Inr ops, now, wait) # rest) = Some (ops, now)
    \<and> (\<forall>rounds result. reliable_GetSince rounds = Some (result, None) \<longrightarrow> result \<noteq> [] \<and> Inr result \<in> fst ` set rounds)"
  using retry_first [OF assms, of "[]" now wait rest] retry_getsince [of "[]"]
  by (auto simp: reliable_GetSince_def bind_Some_ex)

theorem reliable_get_retries_witness:
  "reliable_GetSince [(Inr [], None, None), (Inl ''timeout'', None, None), (Inr [op_a], None, None)] = Some ([op_a], None)"
  using reliable_get_retries [of "[(Inr [], None, None), (Inl ''timeout'', None, None)]" "[op_a]" None None "[]"]
  by (simp add: fruitless_def)

section \<open>The non-blocking store\<close>

text \<open>
  C18. The non-blocking store hands out every background read exactly once, in order: per version,
  what was fetched is what was handed out and, at most, one read that waits in the cache. No version
  is fetched twice at a time, and a version that is being fetched has nothing in the cache.
\<close>

theorem nonblocking_hands_out_once:
  assumes "nb_run S (NonBlocking w) tr nb"
  shows "fetches_of v tr = hits_of v tr @ (case nbCache nb v of None \<Rightarrow> [] | Some ops \<Rightarrow> [ops])
    \<and> distinct (map fst (nbFetches nb)) \<and> (v \<in> nbProgress nb \<longleftrightarrow> v \<in> fst ` set (nbFetches nb))
    \<and> (v \<in> nbProgress nb \<longrightarrow> nbCache nb v = None)"
  using nb_run_inv [OF assms] unfolding nb_inv_def by blast

theorem nonblocking_hands_out_once_witness:
  "\<exists>nb. nb_run mem_store (NonBlocking (MemStore [op_a])) [Miss 0, Fetched 0 [op_a], Hit 0 [op_a]] nb
    \<and> fetches_of 0 [Miss 0, Fetched 0 [op_a], Hit 0 [op_a]] = hits_of 0 [Miss 0, Fetched 0 [op_a], Hit 0 [op_a]]
        @ (case nbCache nb 0 of None \<Rightarrow> [] | Some ops \<Rightarrow> [ops])"
proof -
  let ?m = "MemStore [op_a]" and ?tr = "[Miss 0, Fetched 0 [op_a], Hit 0 [op_a]]"
  let ?n = "\<lambda>c p f. \<lparr>nbStore = ?m, nbCache = c, nbProgress = p, nbFetches = f\<rparr>"
  have g: "st_GetSince mem_store ?m 0 10 = ok (?m, [op_a])" by code_simp
  have "nb_step mem_store (?n Map.empty {} []) (Miss 0) (?n Map.empty {0} [(0, 10)])"
    by (rule miss [where l = 10 and ops = "[]"]) (simp_all add: nb_GetSince_def)
  moreover have "nb_step mem_store (?n Map.empty {0} [(0, 10)]) (Fetched 0 [op_a]) (?n [0 \<mapsto> [op_a]] {} [])"
    by (rule fetched [of 0 _ 0 10 _ ?m]) (simp_all add: nb_fetch_def g)
  moreover have "nb_step mem_store (?n [0 \<mapsto> [op_a]] {} []) (Hit 0 [op_a]) (?n Map.empty {} [])"
    by (rule hit [where l = 10]) (simp_all add: nb_GetSince_def)
  ultimately have "nb_run mem_store (?n Map.empty {} []) ([] @ [Miss 0] @ [Fetched 0 [op_a]] @ [Hit 0 [op_a]]) (?n Map.empty {} [])"
    unfolding append_assoc [symmetric] by (blast intro: nb_run.intros)
  then have run: "nb_run mem_store (NonBlocking ?m) ?tr (?n Map.empty {} [])" by (simp add: NonBlocking_def)
  then show ?thesis using nonblocking_hands_out_once [OF run, of 0] by blast
qed

section \<open>The poller\<close>

text \<open>
  A successful Append to a polled store wakes every reader that waits, and leaves every channel
  with one value at most, so that Append itself never blocks.
\<close>

theorem poller_append_wakes:
  assumes "poller_inv p" "poller_Append S p ops = (p', None)" "ch \<in> poWaiters p"
  shows "poller_inv p' \<and> poWaiters p' = {}
    \<and> poller_GetSince S version limit deadline False p' (Waiting ch) = Some (p'\<lparr>poSent := poSent p' - {ch}\<rparr>, Woken ch False)"
proof -
  have "ch \<in> poSent p' \<and> poWaiters p' = {}"
    using assms(2,3) by (auto simp: poller_Append_def wake_all_def split: prod.splits option.splits)
  then show ?thesis using poller_inv_steps(2) [OF assms(1), of S ops] assms(2) by simp
qed

definition ex_poller :: "mem poller" where
  "ex_poller = fst (poll_register (Polled (MemStore [])))"

theorem poller_append_wakes_witness:
  "poWaiters ex_poller = {0} \<and> poWaiters (fst (poller_Append mem_store ex_poller [op_a])) = {}"
proof -
  have p: "poller_inv ex_poller" "0 \<in> poWaiters ex_poller" "poWaiters ex_poller = {0}"
    by (auto simp: ex_poller_def poll_register_def Polled_def poller_inv_def)
  obtain p' where "poller_Append mem_store ex_poller [op_a] = (p', None)"
    by (auto simp: poller_Append_def mem_store_def mem_Append_def)
  then show ?thesis using poller_append_wakes [OF p(1) _ p(2)] p(3) by auto
qed

text \<open>
  A reader of a polled store can miss an Append: it reads nothing, the Append finds no waiter,
  and the reader then registers and waits although the operation it asked for is in the store.
\<close>

theorem poller_misses_append:
  shows "\<exists>p1 p2 p3. poller_GetSince mem_store 0 10 True False (Polled (MemStore [])) Reading = Some (p1, Registering)
    \<and> poller_Append mem_store p1 [op_a] = (p2, None)
    \<and> poller_GetSince mem_store 0 10 True False p2 Registering = Some (p3, Waiting 0)
    \<and> poller_GetSince mem_store 0 10 True False p3 (Waiting 0) = None
    \<and> reads mem_store (poStore p3) 0 10 = ok [op_a]"
proof -
  let ?p = "\<lambda>m w f. \<lparr>poStore = m, poWaiters = w, poSent = {}, poFresh = f\<rparr>"
  have "poller_GetSince mem_store 0 10 True False (Polled (MemStore [])) Reading = Some (?p (MemStore []) {} 0, Registering)"
    by (simp add: Polled_def read_store_def mem_store_def mem_GetSince_def MemStore_def mem_Append_def)
  moreover have "poller_Append mem_store (?p (MemStore []) {} 0) [op_a] = (?p (MemStore [op_a]) {} 0, None)"
    by (simp add: poller_Append_def mem_store_def mem_Append_def MemStore_def wake_all_def)
  moreover have "poller_GetSince mem_store 0 10 True False (?p (MemStore [op_a]) {} 0) Registering = Some (?p (MemStore [op_a]) {0} 1, Waiting 0)"
    by (simp add: poll_register_def)
  moreover have "poller_GetSince mem_store 0 10 True False (?p (MemStore [op_a]) {0} 1) (Waiting 0) = None" by simp
  moreover have "reads mem_store (MemStore [op_a]) 0 10 = ok [op_a]"
    by (simp add: reads_def mem_store_def mem_GetSince_def MemStore_def mem_Append_def goslice_def WithVersion_def op_a_def)
  ultimately show ?thesis by fastforce
qed

end
