(* ===== verification/Dot_Ord.thy ===== *)
theory Dot_Ord
  imports Complex_Main Dot_Strings
begin

text \<open>
  Ordered keys (\<open>changes/crdt/ord.go\<close>): strings that stand for rational numbers, so that there
  is always a key before, after and between two keys. A key is written as the bit length of the
  denominator and the numerator in base 62; the reader takes the denominator to be the power of two
  of that length. \<open>big.Rat\<close> is the type of rational numbers, whose \<open>quotient_of\<close> gives the
  numerator and the denominator in lowest terms. A malformed key is \<open>None\<close>.
\<close>

section \<open>The code\<close>

fun BitLen :: "nat \<Rightarrow> nat" where
  "BitLen k = (if k = 0 then 0 else Suc (BitLen (k div 2)))"

declare BitLen.simps [simp del]

text \<open>\<open>big.Int.Quo\<close> rounds towards zero.\<close>

definition Quo :: "int \<Rightarrow> int \<Rightarrow> int" where
  "Quo a b = sgn a * sgn b * (\<bar>a\<bar> div \<bar>b\<bar>)"

type_synonym ordkey = rat

definition fromString :: "string \<Rightarrow> ordkey option" where
  "fromString s = (if s = '''' then Some 0
     else (case Split s (CHR '','') of
        logd # num # _ \<Rightarrow> do {
          num \<leftarrow> parse_int 62 num;
          logd \<leftarrow> Atoi logd;
          if logd \<le> 0 then None else Some (of_int num / 2 ^ nat (logd - 1)) }
      | _ \<Rightarrow> None))"

definition toString :: "ordkey \<Rightarrow> string" where
  "toString k = (case quotient_of k of (n, d) \<Rightarrow>
     if d = 1 \<and> n = 0 then '''' else Itoa (int (BitLen (nat d))) @ CHR '','' # text_int 62 n)"

definition ord_less :: "ordkey \<Rightarrow> ordkey \<Rightarrow> bool" where
  "ord_less k l \<longleftrightarrow> k < l"

definition ord_prev :: "ordkey \<Rightarrow> ordkey" where
  "ord_prev k = (case quotient_of k of (n, d) \<Rightarrow> of_int (Quo n d - 1))"

definition ord_next :: "ordkey \<Rightarrow> ordkey" where
  "ord_next k = (case quotient_of k of (n, d) \<Rightarrow> of_int (Quo n d + 1))"

fun between_loop :: "ordkey \<Rightarrow> ordkey \<Rightarrow> nat \<Rightarrow> string list" where
  "between_loop diff lst 0 = []"
| "between_loop diff lst (Suc count) = toString (lst + diff) # between_loop diff (lst + diff) count"

text \<open>A negative count makes \<open>big.NewRat\<close> panic at \<open>-1\<close> and returns nothing below.\<close>

definition ord_between :: "ordkey \<Rightarrow> ordkey \<Rightarrow> int \<Rightarrow> string list option" where
  "ord_between k l count =
     (if count = - 1 then None
      else Some (between_loop (\<bar>k - l\<bar> * (1 / of_int (count + 1))) k (nat count)))"

definition NextOrd :: "string \<Rightarrow> string option" where
  "NextOrd key = do { k \<leftarrow> fromString key; Some (toString (ord_next k)) }"

definition PrevOrd :: "string \<Rightarrow> string option" where
  "PrevOrd key = do { k \<leftarrow> fromString key; Some (toString (ord_prev k)) }"

definition LessOrd :: "string \<Rightarrow> string \<Rightarrow> bool option" where
  "LessOrd a b = do { k \<leftarrow> fromString a; l \<leftarrow> fromString b; Some (ord_less k l) }"

definition BetweenOrd :: "string \<Rightarrow> string \<Rightarrow> int \<Rightarrow> string list option" where
  "BetweenOrd a b count = do {
     ak \<leftarrow> fromString a; bk \<leftarrow> fromString b;
     if ord_less ak bk then ord_between ak bk count else ord_between bk ak count }"

section \<open>Reading and writing keys\<close>

text \<open>Keys with a power of two below the line.\<close>

definition dyadic :: "rat \<Rightarrow> bool" where
  "dyadic k \<longleftrightarrow> (\<exists>n e. k = of_int n / 2 ^ e)"

lemma BitLen_power: "BitLen (2 ^ e) = Suc e"
  by (induction e) (simp_all add: BitLen.simps)

lemma dvd_power_2: "d dvd (2::nat) ^ e \<Longrightarrow> \<exists>j. d = 2 ^ j"
proof (induction e arbitrary: d)
  case (Suc e)
  show ?case
  proof (cases "even d")
    case True
    then obtain c where c: "d = 2 * c" by (elim evenE)
    then have "c dvd 2 ^ e" using Suc.prems by simp
    then obtain j where "c = 2 ^ j" using Suc.IH by blast
    then have "d = 2 ^ Suc j" using c by simp
    then show ?thesis by blast
  next
    case False
    then have "d dvd 2 ^ e" using Suc.prems by (simp add: coprime_dvd_mult_right_iff)
    then show ?thesis by (rule Suc.IH)
  qed
qed (auto intro: exI [of _ 0])

lemma dyadic_denominator:
  assumes "dyadic k" "quotient_of k = (n, d)"
  shows "\<exists>e. d = 2 ^ e"
proof -
  obtain m e where k: "k = of_int m / 2 ^ e" using assms(1) by (auto simp: dyadic_def)
  have q: "k = of_int n / of_int d" "d > 0" "coprime n d"
    using quotient_of_div [OF assms(2)] quotient_of_denom_pos [OF assms(2)] quotient_of_coprime [OF assms(2)] by auto
  then have "(of_int (n * 2 ^ e) :: rat) = of_int (m * d)" using k by (simp add: field_simps)
  then have "n * 2 ^ e = m * d" by (simp only: of_int_eq_iff)
  then have "d dvd 2 ^ e" using q(3) by (metis coprime_commute coprime_dvd_mult_right_iff dvd_triv_right)
  then have "int (nat d) dvd int (2 ^ e)" using q(2) by simp
  then have "nat d dvd 2 ^ e" by (simp only: int_dvd_int_iff)
  then obtain j where "nat d = 2 ^ j" using dvd_power_2 by blast
  then have "d = 2 ^ j" using q(2) by (metis int_nat_eq less_imp_le nat_int of_nat_numeral of_nat_power)
  then show ?thesis by blast
qed

lemma fromString_dyadic: "fromString s = Some k \<Longrightarrow> dyadic k"
proof -
  have "dyadic 0" unfolding dyadic_def by (intro exI [of _ 0]) simp
  then show "fromString s = Some k \<Longrightarrow> dyadic k"
    by (auto simp: fromString_def dyadic_def bind_Some_ex split: if_splits list.splits)
qed

lemma fromString_toString:
  assumes "dyadic k"
  shows "fromString (toString k) = Some k"
proof -
  obtain n d where q: "quotient_of k = (n, d)" by (cases "quotient_of k")
  obtain e where d: "d = 2 ^ e" using dyadic_denominator [OF assms q] by blast
  have k: "k = of_int n / 2 ^ e" using quotient_of_div [OF q] d by simp
  show ?thesis
  proof (cases "d = 1 \<and> n = 0")
    case True
    then show ?thesis using q k by (simp add: toString_def fromString_def)
  next
    case False
    have "nat d = 2 ^ e" using d by (simp add: nat_power_eq)
    then have b: "BitLen (nat d) = Suc e" by (simp only: BitLen_power)
    have s: "toString k = Itoa (int (Suc e)) @ CHR '','' # text_int 62 n"
      unfolding toString_def q prod.case b using False by simp
    have c: "CHR '','' \<notin> set (Itoa (int (Suc e)))" "CHR '','' \<notin> set (text_int 62 n)"
      by (simp_all add: Itoa_def text_int_no_comma)
    then have "Split (toString k) (CHR '','') = [Itoa (int (Suc e)), text_int 62 n]"
      by (simp add: s Split_sep Split_last)
    then show ?thesis using s by (simp add: fromString_def Itoa_def Atoi_def parse_text_int k [symmetric])
  qed
qed

lemma dyadic_of_int [simp]: "dyadic (of_int i)"
  unfolding dyadic_def by (intro exI [of _ i] exI [of _ 0]) simp

lemma dyadic_add:
  assumes "dyadic x" "dyadic y"
  shows "dyadic (x + y)"
proof -
  obtain n d m e where xy: "x = of_int n / 2 ^ d" "y = of_int m / 2 ^ e" using assms by (auto simp: dyadic_def)
  have "x + y = of_int (n * 2 ^ e + m * 2 ^ d) / 2 ^ (d + e)" unfolding xy by (simp add: field_simps power_add)
  then show ?thesis unfolding dyadic_def by blast
qed

lemma dyadic_diff_scaled:
  assumes "dyadic x" "dyadic y"
  shows "dyadic (\<bar>x - y\<bar> * (1 / 2 ^ j))"
proof -
  obtain n d m e where xy: "x = of_int n / 2 ^ d" "y = of_int m / 2 ^ e" using assms by (auto simp: dyadic_def)
  have "x - y = of_int (n * 2 ^ e - m * 2 ^ d) / 2 ^ (d + e)" unfolding xy by (simp add: field_simps power_add)
  then have "\<bar>x - y\<bar> * (1 / 2 ^ j) = of_int \<bar>n * 2 ^ e - m * 2 ^ d\<bar> / 2 ^ (d + e + j)" by (simp add: power_add)
  then show ?thesis unfolding dyadic_def by blast
qed

section \<open>Order\<close>

lemma Quo_bounds:
  assumes "d > 0"
  shows "n < (Quo n d + 1) * d" "(Quo n d - 1) * d < n"
proof -
  obtain q r where qr: "\<bar>n\<bar> div d = q" "\<bar>n\<bar> = q * d + r" "0 \<le> r" "r < d"
    using div_mult_mod_eq [of "\<bar>n\<bar>" d] pos_mod_sign [OF assms, of "\<bar>n\<bar>"] pos_mod_bound [OF assms, of "\<bar>n\<bar>"] by metis
  have "Quo n d = (if n < 0 then - q else q)" using assms qr(1) by (cases "n = 0") (auto simp: Quo_def sgn_if)
  then show "n < (Quo n d + 1) * d" "(Quo n d - 1) * d < n" using qr(2-4) by (auto simp: left_diff_distrib distrib_right)
qed

lemma ord_next_prev: "k < ord_next k" "ord_prev k < k"
proof -
  obtain n d where q: "quotient_of k = (n, d)" by (cases "quotient_of k")
  have d: "d > 0" "k = of_int n / of_int d" using quotient_of_denom_pos [OF q] quotient_of_div [OF q] by auto
  have "(of_int n :: rat) < of_int ((Quo n d + 1) * d)" using Quo_bounds(1) [OF d(1)] by (simp only: of_int_less_iff)
  then have "k < of_int (Quo n d + 1)" unfolding d(2) using d(1) by (subst pos_divide_less_eq) simp_all
  then show "k < ord_next k" by (simp add: ord_next_def q)
  have "(of_int ((Quo n d - 1) * d) :: rat) < of_int n" using Quo_bounds(2) [OF d(1)] by (simp only: of_int_less_iff)
  then have "of_int (Quo n d - 1) < k" unfolding d(2) using d(1) by (subst pos_less_divide_eq) simp_all
  then show "ord_prev k < k" by (simp add: ord_prev_def q)
qed

lemma ord_next_prev_dyadic [simp]: "dyadic (ord_next k)" "dyadic (ord_prev k)"
  unfolding ord_next_def ord_prev_def by (cases "quotient_of k"; simp only: prod.case dyadic_of_int)+

text \<open>The keys between two keys, read back.\<close>

lemma between_loop_keys:
  "dyadic diff \<Longrightarrow> dyadic lst \<Longrightarrow>
     map fromString (between_loop diff lst count) = map (\<lambda>i. Some (lst + of_nat i * diff)) [1..<Suc count]"
proof (induction count arbitrary: lst)
  case (Suc count)
  have u: "[1..<Suc (Suc count)] = 1 # map Suc [1..<Suc count]" unfolding map_Suc_upt by (simp add: upt_conv_Cons)
  show ?case unfolding u using Suc.IH [of "lst + diff"] Suc.prems
    by (simp add: dyadic_add fromString_toString comp_def algebra_simps del: upt_Suc)
qed simp

end
