(* ===== verification/Dot_Crdt.thy ===== *)
theory Dot_Crdt
  imports Dot_Ord "HOL-Library.AList"
begin

text \<open>
  The CRDT values of \<open>changes/crdt\<close>: ranks (\<open>rank.go\<close>), containers (\<open>container.go\<close>),
  dictionaries (\<open>dict.go\<close>) and sequences (\<open>seq.go\<close>), with their changes and the wrapper
  (\<open>wrapper.go\<close>) that makes a list of them a change.

  A map of the source is an association list in the order in which a loop visits it. The values in a
  container and the changes to them can be anything; \<open>app\<close> and \<open>rvt\<close> stand for the Apply
  method of a value and the Revert method of a change. \<open>None\<close> is a panic.
\<close>

section \<open>Ranks\<close>

text \<open>A rank is always used through a pointer, so it has an address: two ranks are the same key when their pointers are.\<close>

record rank =
  rkAddr :: nat
  Epoch :: int
  Nonce :: "int list"

fun nonce_less :: "int list \<Rightarrow> int list \<Rightarrow> bool" where
  "nonce_less (v # vs) (w # ws) = (if v \<noteq> w then v < w else nonce_less vs ws)"
| "nonce_less _ _ = False"

definition Rank_Less :: "rank \<Rightarrow> rank \<Rightarrow> bool" where
  "Rank_Less r s = (if Epoch r \<noteq> Epoch s then Epoch r < Epoch s else nonce_less (Nonce r) (Nonce s))"

section \<open>The wrapper\<close>

definition wrapper_Merge :: "'x list \<Rightarrow> 'y \<Rightarrow> 'y \<times> 'x list" where
  "wrapper_Merge w x = (x, w)"

definition wrapper_ApplyTo :: "('x \<Rightarrow> 's \<Rightarrow> 's option) \<Rightarrow> 'x list \<Rightarrow> 's \<Rightarrow> 's option" where
  "wrapper_ApplyTo f w v = foldM (\<lambda>v cx. f cx v) v w"

definition wrapper_Revert :: "('x \<Rightarrow> 'x option) \<Rightarrow> 'x list \<Rightarrow> 'x list option" where
  "wrapper_Revert f w = map_option rev (those (map f w))"

section \<open>Containers\<close>

record 'v Container =
  cEntries :: "(rank \<times> 'v) list"
  cUndos :: "(rank \<times> int) list"
  cDeleted :: int

abbreviation empty_container :: "'v Container" where
  "empty_container \<equiv> \<lparr>cEntries = [], cUndos = [], cDeleted = 0\<rparr>"

datatype ('v, 'c) crdt_change =
    SetContainer rank 'v
  | UnsetContainer rank int
  | DelContainer int
  | UpdContainer "rank option" 'c

definition undo_count :: "(rank \<times> int) list \<Rightarrow> rank \<Rightarrow> int" where
  "undo_count us r = (case map_of us r of None \<Rightarrow> 0 | Some u \<Rightarrow> u)"

fun crdt_Revert :: "('c \<Rightarrow> 'c option) \<Rightarrow> ('v, 'c) crdt_change \<Rightarrow> ('v, 'c) crdt_change option" where
  "crdt_Revert rvt (SetContainer r v) = Some (UnsetContainer r 1)"
| "crdt_Revert rvt (UnsetContainer r u) = Some (UnsetContainer r (- 1))"
| "crdt_Revert rvt (DelContainer d) = Some (DelContainer (- 1))"
| "crdt_Revert rvt (UpdContainer r c) = map_option (UpdContainer r) (rvt c)"

fun crdt_ApplyTo :: "('v \<Rightarrow> 'c \<Rightarrow> 'v option) \<Rightarrow> ('v, 'c) crdt_change \<Rightarrow> 'v Container \<Rightarrow> 'v Container option" where
  "crdt_ApplyTo app (SetContainer r v) c = Some (c\<lparr>cEntries := AList.update r v (cEntries c)\<rparr>)"
| "crdt_ApplyTo app (UnsetContainer r u) c = Some (c\<lparr>cUndos := AList.update r (undo_count (cUndos c) r + u) (cUndos c)\<rparr>)"
| "crdt_ApplyTo app (DelContainer d) c = Some (c\<lparr>cDeleted := cDeleted c + d\<rparr>)"
| "crdt_ApplyTo app (UpdContainer r inner) c = do {
     r \<leftarrow> r; v \<leftarrow> map_of (cEntries c) r; v \<leftarrow> app v inner;
     Some (c\<lparr>cEntries := AList.update r v (cEntries c)\<rparr>) }"

abbreviation crdt_Apply :: "('v \<Rightarrow> 'c \<Rightarrow> 'v option) \<Rightarrow> 'v Container \<Rightarrow> ('v, 'c) crdt_change list \<Rightarrow> 'v Container option" where
  "crdt_Apply app c w \<equiv> wrapper_ApplyTo (crdt_ApplyTo app) w c"

fun get_loop :: "(rank \<times> int) list \<Rightarrow> (rank \<times> 'v) list \<Rightarrow> (rank \<times> 'v) option \<Rightarrow> (rank \<times> 'v) option" where
  "get_loop us [] best = best"
| "get_loop us ((r, v) # es) best =
     get_loop us es
       (if undo_count us r > 0 then best
        else (case best of
          None \<Rightarrow> Some (r, v)
        | Some (b, w) \<Rightarrow> if Rank_Less b r then Some (r, v) else best))"

definition Container_Get :: "'v Container \<Rightarrow> (rank \<times> 'v) option" where
  "Container_Get c = (if cDeleted c > 0 then None else get_loop (cUndos c) (cEntries c) None)"

text \<open>The operations return the change and the changed container.\<close>

definition Container_Set :: "('v \<Rightarrow> 'c \<Rightarrow> 'v option) \<Rightarrow> 'v Container \<Rightarrow> rank \<Rightarrow> 'v \<Rightarrow> (('v, 'c) crdt_change list \<times> 'v Container) option" where
  "Container_Set app c r v = (let cx = [SetContainer r v] in map_option (Pair cx) (crdt_Apply app c cx))"

definition Container_Delete :: "('v \<Rightarrow> 'c \<Rightarrow> 'v option) \<Rightarrow> 'v Container \<Rightarrow> (('v, 'c) crdt_change list \<times> 'v Container) option" where
  "Container_Delete app c = (let cx = [DelContainer 1] in map_option (Pair cx) (crdt_Apply app c cx))"

definition Container_Update :: "('v \<Rightarrow> 'c \<Rightarrow> 'v option) \<Rightarrow> 'v Container \<Rightarrow> 'c \<Rightarrow> (('v, 'c) crdt_change list \<times> 'v Container) option" where
  "Container_Update app c inner =
     (let cx = [UpdContainer (map_option fst (Container_Get c)) inner] in map_option (Pair cx) (crdt_Apply app c cx))"

section \<open>Dictionaries\<close>

record ('k, 'v) Dict =
  dEntries :: "('k \<times> 'v Container) list"

datatype ('k, 'v, 'c) dict_change = UpdateDict 'k "('v, 'c) crdt_change list"

definition dict_entry :: "('k, 'v) Dict \<Rightarrow> 'k \<Rightarrow> 'v Container" where
  "dict_entry d k = (case map_of (dEntries d) k of None \<Rightarrow> empty_container | Some c \<Rightarrow> c)"

fun dict_Revert :: "('c \<Rightarrow> 'c option) \<Rightarrow> ('k, 'v, 'c) dict_change \<Rightarrow> ('k, 'v, 'c) dict_change option" where
  "dict_Revert rvt (UpdateDict k w) = map_option (UpdateDict k) (wrapper_Revert (crdt_Revert rvt) w)"

fun dict_ApplyTo :: "('v \<Rightarrow> 'c \<Rightarrow> 'v option) \<Rightarrow> ('k, 'v, 'c) dict_change \<Rightarrow> ('k, 'v) Dict \<Rightarrow> ('k, 'v) Dict option" where
  "dict_ApplyTo app (UpdateDict k w) d = do {
     c \<leftarrow> crdt_Apply app (dict_entry d k) w;
     Some (d\<lparr>dEntries := AList.update k c (dEntries d)\<rparr>) }"

abbreviation Dict_Apply :: "('v \<Rightarrow> 'c \<Rightarrow> 'v option) \<Rightarrow> ('k, 'v) Dict \<Rightarrow> ('k, 'v, 'c) dict_change list \<Rightarrow> ('k, 'v) Dict option" where
  "Dict_Apply app d w \<equiv> wrapper_ApplyTo (dict_ApplyTo app) w d"

text \<open>The rank that \<open>Set\<close> makes up is an argument.\<close>

definition Dict_Set :: "('v \<Rightarrow> 'c \<Rightarrow> 'v option) \<Rightarrow> ('k, 'v) Dict \<Rightarrow> rank \<Rightarrow> 'k \<Rightarrow> 'v \<Rightarrow> (('k, 'v, 'c) dict_change list \<times> ('k, 'v) Dict) option" where
  "Dict_Set app d newRank k v = do {
     (inner, _) \<leftarrow> Container_Set app (dict_entry d k) newRank v;
     let c = [UpdateDict k inner]; map_option (Pair c) (Dict_Apply app d c) }"

definition Dict_Delete :: "('v \<Rightarrow> 'c \<Rightarrow> 'v option) \<Rightarrow> ('k, 'v) Dict \<Rightarrow> 'k \<Rightarrow> (('k, 'v, 'c) dict_change list \<times> ('k, 'v) Dict) option" where
  "Dict_Delete app d k = do {
     (inner, _) \<leftarrow> Container_Delete app (dict_entry d k);
     let c = [UpdateDict k inner]; map_option (Pair c) (Dict_Apply app d c) }"

definition Dict_Update :: "('v \<Rightarrow> 'c \<Rightarrow> 'v option) \<Rightarrow> ('k, 'v) Dict \<Rightarrow> 'k \<Rightarrow> 'c \<Rightarrow> (('k, 'v, 'c) dict_change list \<times> ('k, 'v) Dict) option" where
  "Dict_Update app d k inner = do {
     (c, _) \<leftarrow> Container_Update app (dict_entry d k) inner;
     let c = [UpdateDict k c]; map_option (Pair c) (Dict_Apply app d c) }"

definition Dict_Get :: "('k, 'v) Dict \<Rightarrow> 'k \<Rightarrow> (rank \<times> 'v) option" where
  "Dict_Get d k = Container_Get (dict_entry d k)"

section \<open>Sequences\<close>

record 'v Seq =
  sValues :: "(rank, 'v) Dict"
  sOrds :: "(rank, string) Dict"

datatype ('v, 'c) seq_change =
    UpdValueSeq "(rank, 'v, 'c) dict_change list"
  | UpdOrdSeq "(rank, string, 'c) dict_change list"

text \<open>An ordinal is a string and no value that a change could be applied to.\<close>

definition no_app :: "string \<Rightarrow> 'c \<Rightarrow> string option" where
  "no_app s c = None"

fun seq_Revert :: "('c \<Rightarrow> 'c option) \<Rightarrow> ('v, 'c) seq_change \<Rightarrow> ('v, 'c) seq_change option" where
  "seq_Revert rvt (UpdValueSeq w) = map_option UpdValueSeq (wrapper_Revert (dict_Revert rvt) w)"
| "seq_Revert rvt (UpdOrdSeq w) = map_option UpdOrdSeq (wrapper_Revert (dict_Revert rvt) w)"

fun seq_ApplyTo :: "('v \<Rightarrow> 'c \<Rightarrow> 'v option) \<Rightarrow> ('v, 'c) seq_change \<Rightarrow> 'v Seq \<Rightarrow> 'v Seq option" where
  "seq_ApplyTo app (UpdValueSeq w) s = do { d \<leftarrow> Dict_Apply app (sValues s) w; Some (s\<lparr>sValues := d\<rparr>) }"
| "seq_ApplyTo app (UpdOrdSeq w) s = do { d \<leftarrow> Dict_Apply no_app (sOrds s) w; Some (s\<lparr>sOrds := d\<rparr>) }"

abbreviation Seq_Apply :: "('v \<Rightarrow> 'c \<Rightarrow> 'v option) \<Rightarrow> 'v Seq \<Rightarrow> ('v, 'c) seq_change list \<Rightarrow> 'v Seq option" where
  "Seq_Apply app s w \<equiv> wrapper_ApplyTo (seq_ApplyTo app) w s"

text \<open>\<open>Seq.items\<close>: the loop over the map of ordinals, then sorting, then the keys by ordinal.\<close>

fun items_loop :: "(rank, 'v) Dict \<Rightarrow> (rank \<times> string Container) list \<Rightarrow> (string \<times> rank) list" where
  "items_loop vs [] = []"
| "items_loop vs ((key, container) # es) =
     (case Dict_Get vs key of
        None \<Rightarrow> items_loop vs es
      | Some _ \<Rightarrow> (case Container_Get container of
          None \<Rightarrow> items_loop vs es
        | Some (_, val) \<Rightarrow> (val, key) # items_loop vs es))"

text \<open>Sorting calls \<open>LessOrd\<close>, which panics on a malformed key, when there is anything to compare.\<close>

definition sort_ords :: "string list \<Rightarrow> string list option" where
  "sort_ords ords =
     (if length ords < 2 then Some ords
      else if list_all (\<lambda>x. fromString x \<noteq> None) ords then Some (sort_key (\<lambda>x. the (fromString x)) ords) else None)"

definition Seq_items :: "'v Seq \<Rightarrow> (string list \<times> rank list) option" where
  "Seq_items s = (let found = items_loop (sValues s) (dEntries (sOrds s)) in do {
     ords \<leftarrow> sort_ords (map fst found);
     Some (ords, map (\<lambda>x. the (map_of (rev found) x)) ords) })"

definition Seq_Items :: "'v Seq \<Rightarrow> 'v option list option" where
  "Seq_Items s = do { (_, keys) \<leftarrow> Seq_items s; Some (map (\<lambda>k. map_option snd (Dict_Get (sValues s) k)) keys) }"

text \<open>A list read at an integer index.\<close>

definition elem_at :: "'a list \<Rightarrow> int \<Rightarrow> 'a option" where
  "elem_at xs i = (if 0 \<le> i \<and> i < int (length xs) then Some (xs ! nat i) else None)"

definition Seq_between :: "string list \<Rightarrow> int \<Rightarrow> int \<Rightarrow> int \<Rightarrow> string list option" where
  "Seq_between ords offset remove count = do {
     start \<leftarrow> (if offset > 0 then elem_at ords (offset - 1)
              else if ords \<noteq> [] then PrevOrd (hd ords) else Some '''');
     stop \<leftarrow> (if offset + remove < int (length ords) then elem_at ords (offset + remove)
            else if ords \<noteq> [] then NextOrd (last ords) else NextOrd start);
     BetweenOrd start stop count }"

text \<open>The loops of Splice: removing, and inserting with three new ranks for each element.\<close>

fun splice_remove :: "('v \<Rightarrow> 'c \<Rightarrow> 'v option) \<Rightarrow> 'v Seq \<Rightarrow> rank list \<Rightarrow> int \<Rightarrow> nat \<Rightarrow> ('v, 'c) seq_change list option" where
  "splice_remove app s keys i 0 = Some []"
| "splice_remove app s keys i (Suc n) = do {
     key \<leftarrow> elem_at keys i;
     (v, _) \<leftarrow> Dict_Delete app (sValues s) key;
     (w, _) \<leftarrow> Dict_Delete no_app (sOrds s) key;
     rest \<leftarrow> splice_remove app s keys (i + 1) n;
     Some (UpdValueSeq v # UpdOrdSeq w # rest) }"

fun splice_insert :: "('v \<Rightarrow> 'c \<Rightarrow> 'v option) \<Rightarrow> 'v Seq \<Rightarrow> (nat \<Rightarrow> rank) \<Rightarrow> nat \<Rightarrow> string list \<Rightarrow> 'v list \<Rightarrow> ('v, 'c) seq_change list option" where
  "splice_insert app s newRank i [] vals = Some []"
| "splice_insert app s newRank i (ord # ords) vals = do {
     (w, _) \<leftarrow> Dict_Set no_app (sOrds s) (newRank (i + 1)) (newRank i) ord;
     (v, _) \<leftarrow> (case vals of [] \<Rightarrow> None | x # _ \<Rightarrow> Dict_Set app (sValues s) (newRank (i + 2)) (newRank i) x);
     rest \<leftarrow> splice_insert app s newRank (i + 3) ords (tl vals);
     Some (UpdOrdSeq w # UpdValueSeq v # rest) }"

definition Seq_Splice :: "('v \<Rightarrow> 'c \<Rightarrow> 'v option) \<Rightarrow> 'v Seq \<Rightarrow> (nat \<Rightarrow> rank) \<Rightarrow> int \<Rightarrow> int \<Rightarrow> 'v list
    \<Rightarrow> (('v, 'c) seq_change list \<times> 'v Seq) option" where
  "Seq_Splice app s newRank offset remove replacement = do {
     (ords, keys) \<leftarrow> Seq_items s;
     removed \<leftarrow> splice_remove app s keys offset (nat remove);
     newOrds \<leftarrow> Seq_between ords offset remove (int (length replacement));
     added \<leftarrow> splice_insert app s newRank 0 newOrds replacement;
     map_option (Pair (removed @ added)) (Seq_Apply app s (removed @ added)) }"

fun move_loop :: "'v Seq \<Rightarrow> (nat \<Rightarrow> rank) \<Rightarrow> rank list \<Rightarrow> string list \<Rightarrow> int \<Rightarrow> nat \<Rightarrow> nat \<Rightarrow> ('v, 'c) seq_change list option" where
  "move_loop s newRank keys ords offset kk 0 = Some []"
| "move_loop s newRank keys ords offset kk (Suc n) = do {
     key \<leftarrow> elem_at keys (offset + int kk);
     ord \<leftarrow> elem_at ords (int kk);
     (w, _) \<leftarrow> Dict_Set no_app (sOrds s) (newRank kk) key ord;
     rest \<leftarrow> move_loop s newRank keys ords offset (kk + 1) n;
     Some (UpdOrdSeq w # rest) }"

definition Seq_Move :: "('v \<Rightarrow> 'c \<Rightarrow> 'v option) \<Rightarrow> 'v Seq \<Rightarrow> (nat \<Rightarrow> rank) \<Rightarrow> int \<Rightarrow> int \<Rightarrow> int
    \<Rightarrow> (('v, 'c) seq_change list \<times> 'v Seq) option" where
  "Seq_Move app s newRank offset cnt distance = do {
     (ords, keys) \<leftarrow> Seq_items s;
     ords \<leftarrow> (if distance > 0 then Seq_between ords (offset + cnt + distance) 0 cnt
             else Seq_between ords (offset + distance) 0 cnt);
     w \<leftarrow> move_loop s newRank keys ords offset 0 (nat cnt);
     map_option (Pair w) (Seq_Apply app s w) }"

definition Seq_Update :: "('v \<Rightarrow> 'c \<Rightarrow> 'v option) \<Rightarrow> 'v Seq \<Rightarrow> int \<Rightarrow> 'c \<Rightarrow> (('v, 'c) seq_change list \<times> 'v Seq) option" where
  "Seq_Update app s idx inner = do {
     (_, keys) \<leftarrow> Seq_items s;
     key \<leftarrow> elem_at keys idx;
     (c, _) \<leftarrow> Dict_Update app (sValues s) key inner;
     let c = [UpdValueSeq c]; map_option (Pair c) (Seq_Apply app s c) }"

end
