(* ===== verification/Dot_Crdt_Laws.thy ===== *)
theory Dot_Crdt_Laws
  imports Dot_Crdt "HOL-Library.List_Lexorder"
begin

text \<open>
  Why the values of \<open>changes/crdt\<close> need no transformation: changes that do not touch the same
  entry commute, up to the order of entries in maps. The contract is stated once for any kind of
  change and holds for containers, dictionaries and sequences. Also: \<open>Get\<close> returns the largest
  rank that is not undone, whatever the order of the entries, and reverting a change hides it.
\<close>

section \<open>Commuting changes\<close>

locale crdt_family =
  fixes f :: "'x \<Rightarrow> 's \<Rightarrow> 's option" and same :: "'s \<Rightarrow> 's \<Rightarrow> bool" and indep :: "'x \<Rightarrow> 'x \<Rightarrow> bool"
  assumes same_refl: "same s s"
    and same_sym: "same s t \<Longrightarrow> same t s"
    and same_trans: "same s t \<Longrightarrow> same t u \<Longrightarrow> same s u"
    and respects: "f x s = Some s' \<Longrightarrow> same s t \<Longrightarrow> \<exists>t'. f x t = Some t' \<and> same s' t'"
    and diamond: "indep x y \<Longrightarrow> f x s = Some sx \<Longrightarrow> f y s = Some sy \<Longrightarrow>
      \<exists>t u. f y sx = Some t \<and> f x sy = Some u \<and> same t u"
begin

abbreviation run :: "'x list \<Rightarrow> 's \<Rightarrow> 's option" where
  "run w s \<equiv> wrapper_ApplyTo f w s"

lemma run_simps: "run [] s = Some s" "run (x # w) s = f x s \<bind> run w"
  by (simp_all add: wrapper_ApplyTo_def)

lemma run_respects: "run w s = Some s' \<Longrightarrow> same s t \<Longrightarrow> \<exists>t'. run w t = Some t' \<and> same s' t'"
proof (induction w arbitrary: s t)
  case (Cons x w)
  obtain s1 where s1: "f x s = Some s1" "run w s1 = Some s'" using Cons.prems(1) by (auto simp: run_simps bind_Some_ex)
  obtain t1 where t1: "f x t = Some t1" "same s1 t1" using respects [OF s1(1) Cons.prems(2)] by blast
  then show ?case using Cons.IH [OF s1(2) t1(2)] by (simp add: run_simps)
qed (simp add: run_simps)

lemma run_strip:
  "(\<And>y. y \<in> set w \<Longrightarrow> indep x y) \<Longrightarrow> f x s = Some sx \<Longrightarrow> run w s = Some sw \<Longrightarrow>
     \<exists>t u. run w sx = Some t \<and> f x sw = Some u \<and> same t u"
proof (induction w arbitrary: s sx)
  case (Cons y w)
  obtain sy where sy: "f y s = Some sy" "run w sy = Some sw" using Cons.prems(3) by (auto simp: run_simps bind_Some_ex)
  obtain t u where tu: "f y sx = Some t" "f x sy = Some u" "same t u"
    using diamond [OF _ Cons.prems(2) sy(1)] Cons.prems(1) by auto
  obtain t' u' where 1: "run w u = Some t'" "f x sw = Some u'" "same t' u'"
    using Cons.IH [OF Cons.prems(1) tu(2) sy(2)] by auto
  obtain t'' where 2: "run w t = Some t''" "same t' t''" using run_respects [OF 1(1) same_sym [OF tu(3)]] by blast
  have "same t'' u'" using same_trans [OF same_sym [OF 2(2)] 1(3)] .
  then show ?case using tu(1) 2(1) 1(2) by (simp add: run_simps)
qed (auto simp: run_simps same_refl)

lemma run_diamond:
  "(\<And>x y. x \<in> set w \<Longrightarrow> y \<in> set w' \<Longrightarrow> indep x y) \<Longrightarrow> run w s = Some s1 \<Longrightarrow> run w' s = Some s2 \<Longrightarrow>
     \<exists>t u. run w' s1 = Some t \<and> run w s2 = Some u \<and> same t u"
proof (induction w arbitrary: s s2)
  case (Cons x w)
  obtain sx where sx: "f x s = Some sx" "run w sx = Some s1" using Cons.prems(2) by (auto simp: run_simps bind_Some_ex)
  obtain t u where tu: "run w' sx = Some t" "f x s2 = Some u" "same t u"
    using run_strip [OF _ sx(1) Cons.prems(3)] Cons.prems(1) by auto
  obtain t' u' where 1: "run w' s1 = Some t'" "run w t = Some u'" "same t' u'"
    using Cons.IH [OF _ sx(2) tu(1)] Cons.prems(1) by auto
  obtain u'' where 2: "run w u = Some u''" "same u' u''" using run_respects [OF 1(2) tu(3)] by blast
  have "same t' u''" using same_trans [OF 1(3) 2(2)] .
  then show ?case using tu(2) 1(1) 2(1) by (simp add: run_simps)
qed (auto simp: run_simps same_refl)

end

section \<open>Containers\<close>

definition same_container :: "'v Container \<Rightarrow> 'v Container \<Rightarrow> bool" where
  "same_container c d \<longleftrightarrow> map_of (cEntries c) = map_of (cEntries d) \<and> undo_count (cUndos c) = undo_count (cUndos d)
     \<and> cDeleted c = cDeleted d"

fun touches :: "('v, 'c) crdt_change \<Rightarrow> rank set" where
  "touches (SetContainer r v) = {r}"
| "touches (UpdContainer (Some r) c) = {r}"
| "touches _ = {}"

definition indep_crdt :: "('v, 'c) crdt_change \<Rightarrow> ('v, 'c) crdt_change \<Rightarrow> bool" where
  "indep_crdt x y \<longleftrightarrow> touches x \<inter> touches y = {}"

lemma undo_count_update: "undo_count (AList.update r u us) = (undo_count us)(r := u)"
  by (auto simp: undo_count_def update_conv)

interpretation container_crdt: crdt_family "crdt_ApplyTo app" same_container indep_crdt for app :: "'v \<Rightarrow> 'c \<Rightarrow> 'v option"
proof unfold_locales
  fix s t u s' :: "'v Container" and x
  show "same_container s s" by (simp add: same_container_def)
  show "same_container s t \<Longrightarrow> same_container t s" by (simp add: same_container_def)
  show "same_container s t \<Longrightarrow> same_container t u \<Longrightarrow> same_container s u" by (simp add: same_container_def)
  show "crdt_ApplyTo app x s = Some s' \<Longrightarrow> same_container s t \<Longrightarrow> \<exists>t'. crdt_ApplyTo app x t = Some t' \<and> same_container s' t'"
    by (cases x) (auto simp: same_container_def update_conv' undo_count_update bind_Some_ex)
next
  fix x y :: "('v, 'c) crdt_change" and s sx sy
  assume "indep_crdt x y" "crdt_ApplyTo app x s = Some sx" "crdt_ApplyTo app y s = Some sy"
  then show "\<exists>t u. crdt_ApplyTo app y sx = Some t \<and> crdt_ApplyTo app x sy = Some u \<and> same_container t u"
    by (cases x; cases y) (auto simp: indep_crdt_def same_container_def update_conv' undo_count_update bind_Some_ex fun_upd_twist)
qed

section \<open>Dictionaries\<close>

definition same_dict :: "('k, 'v) Dict \<Rightarrow> ('k, 'v) Dict \<Rightarrow> bool" where
  "same_dict d e \<longleftrightarrow> (\<forall>k. same_container (dict_entry d k) (dict_entry e k))"

fun indep_dict :: "('k, 'v, 'c) dict_change \<Rightarrow> ('k, 'v, 'c) dict_change \<Rightarrow> bool" where
  "indep_dict (UpdateDict k w) (UpdateDict l u) \<longleftrightarrow> k \<noteq> l \<or> (\<forall>x \<in> set w. \<forall>y \<in> set u. indep_crdt x y)"

lemma dict_entry_update:
  "dict_entry (d\<lparr>dEntries := AList.update k c es\<rparr>) l = (if l = k then c else dict_entry (d\<lparr>dEntries := es\<rparr>) l)"
  by (simp add: dict_entry_def update_conv)

lemma dict_ApplyTo_Some:
  "dict_ApplyTo app (UpdateDict k w) d = Some e \<longleftrightarrow>
     (\<exists>c. crdt_Apply app (dict_entry d k) w = Some c \<and> e = d\<lparr>dEntries := AList.update k c (dEntries d)\<rparr>)"
  by (auto simp: bind_Some_ex)

declare dict_ApplyTo.simps [simp del]

interpretation dict_crdt: crdt_family "dict_ApplyTo app" same_dict indep_dict for app :: "'v \<Rightarrow> 'c \<Rightarrow> 'v option"
proof unfold_locales
  fix s t u s' :: "('d, 'v) Dict" and x
  show "same_dict s s" by (simp add: same_dict_def container_crdt.same_refl)
  show "same_dict s t \<Longrightarrow> same_dict t s" using container_crdt.same_sym unfolding same_dict_def by blast
  show "same_dict s t \<Longrightarrow> same_dict t u \<Longrightarrow> same_dict s u" using container_crdt.same_trans unfolding same_dict_def by blast
  assume x: "dict_ApplyTo app x s = Some s'" "same_dict s t"
  obtain k w where k: "x = UpdateDict k w" by (cases x)
  obtain c where c: "crdt_Apply app (dict_entry s k) w = Some c" "s' = s\<lparr>dEntries := AList.update k c (dEntries s)\<rparr>"
    using x(1) k by (auto simp: dict_ApplyTo_Some)
  obtain d where "crdt_Apply app (dict_entry t k) w = Some d" "same_container c d"
    using container_crdt.run_respects [OF c(1)] x(2) by (auto simp: same_dict_def)
  then show "\<exists>t'. dict_ApplyTo app x t = Some t' \<and> same_dict s' t'"
    using k c(2) x(2) by (auto simp: dict_ApplyTo_Some same_dict_def dict_entry_update)
next
  fix x y :: "('d, 'v, 'c) dict_change" and s sx sy
  assume xy: "indep_dict x y" "dict_ApplyTo app x s = Some sx" "dict_ApplyTo app y s = Some sy"
  obtain k w l u where kl: "x = UpdateDict k w" "y = UpdateDict l u" by (cases x; cases y)
  obtain c d where c: "crdt_Apply app (dict_entry s k) w = Some c" "sx = s\<lparr>dEntries := AList.update k c (dEntries s)\<rparr>"
    and d: "crdt_Apply app (dict_entry s l) u = Some d" "sy = s\<lparr>dEntries := AList.update l d (dEntries s)\<rparr>"
    using xy(2,3) kl by (auto simp: dict_ApplyTo_Some)
  show "\<exists>t u. dict_ApplyTo app y sx = Some t \<and> dict_ApplyTo app x sy = Some u \<and> same_dict t u"
  proof (cases "k = l")
    case False
    then show ?thesis using c d kl by (auto simp: dict_ApplyTo_Some dict_entry_update same_dict_def container_crdt.same_refl)
  next
    case True
    then obtain t v where "crdt_Apply app c u = Some t" "crdt_Apply app d w = Some v" "same_container t v"
      using container_crdt.run_diamond [OF _ c(1), of u d] d(1) xy(1) kl by auto
    then show ?thesis using c(2) d(2) kl True by (auto simp: dict_ApplyTo_Some dict_entry_update same_dict_def container_crdt.same_refl)
  qed
qed

section \<open>Sequences\<close>

definition same_seq :: "'v Seq \<Rightarrow> 'v Seq \<Rightarrow> bool" where
  "same_seq s t \<longleftrightarrow> same_dict (sValues s) (sValues t) \<and> same_dict (sOrds s) (sOrds t)"

fun indep_seq :: "('v, 'c) seq_change \<Rightarrow> ('v, 'c) seq_change \<Rightarrow> bool" where
  "indep_seq (UpdValueSeq w) (UpdValueSeq u) \<longleftrightarrow> (\<forall>x \<in> set w. \<forall>y \<in> set u. indep_dict x y)"
| "indep_seq (UpdOrdSeq w) (UpdOrdSeq u) \<longleftrightarrow> (\<forall>x \<in> set w. \<forall>y \<in> set u. indep_dict x y)"
| "indep_seq _ _ \<longleftrightarrow> True"

interpretation seq_crdt: crdt_family "seq_ApplyTo app" same_seq indep_seq for app :: "'v \<Rightarrow> 'c \<Rightarrow> 'v option"
proof unfold_locales
  fix s t u s' :: "'v Seq" and x
  show "same_seq s s" by (simp add: same_seq_def dict_crdt.same_refl)
  show "same_seq s t \<Longrightarrow> same_seq t s" using dict_crdt.same_sym [of "sValues s"] dict_crdt.same_sym [of "sOrds s"] unfolding same_seq_def by blast
  show "same_seq s t \<Longrightarrow> same_seq t u \<Longrightarrow> same_seq s u" using dict_crdt.same_trans [of "sValues s"] dict_crdt.same_trans [of "sOrds s"] unfolding same_seq_def by blast
  show "seq_ApplyTo app x s = Some s' \<Longrightarrow> same_seq s t \<Longrightarrow> \<exists>t'. seq_ApplyTo app x t = Some t' \<and> same_seq s' t'"
    by (cases x) (auto simp: same_seq_def bind_Some_ex dest: dict_crdt.run_respects)
next
  fix x y :: "('v, 'c) seq_change" and s sx sy
  assume xy: "indep_seq x y" "seq_ApplyTo app x s = Some sx" "seq_ApplyTo app y s = Some sy"
  show "\<exists>t u. seq_ApplyTo app y sx = Some t \<and> seq_ApplyTo app x sy = Some u \<and> same_seq t u"
  proof (cases x; cases y)
    fix w u assume k: "x = UpdValueSeq w" "y = UpdValueSeq u"
    then obtain c d where "Dict_Apply app (sValues s) w = Some c" "sx = s\<lparr>sValues := c\<rparr>" "Dict_Apply app (sValues s) u = Some d" "sy = s\<lparr>sValues := d\<rparr>"
      using xy(2,3) by (auto simp: bind_Some_ex)
    then show ?thesis using dict_crdt.run_diamond [of w u app "sValues s" c d] xy(1) k
      by (auto simp: same_seq_def dict_crdt.same_refl)
  next
    fix w u assume k: "x = UpdOrdSeq w" "y = UpdOrdSeq u"
    then obtain c d where "Dict_Apply no_app (sOrds s) w = Some c" "sx = s\<lparr>sOrds := c\<rparr>" "Dict_Apply no_app (sOrds s) u = Some d" "sy = s\<lparr>sOrds := d\<rparr>"
      using xy(2,3) by (auto simp: bind_Some_ex)
    then show ?thesis using dict_crdt.run_diamond [of w u no_app "sOrds s" c d] xy(1) k
      by (auto simp: same_seq_def dict_crdt.same_refl)
  qed (use xy in \<open>auto simp: bind_Some_ex same_seq_def dict_crdt.same_refl\<close>)
qed

section \<open>Get\<close>

definition rank_ok :: "rank \<Rightarrow> bool" where
  "rank_ok r \<longleftrightarrow> length (Nonce r) = 4"

definition rank_le :: "rank \<Rightarrow> rank \<Rightarrow> bool" where
  "rank_le r s \<longleftrightarrow> Epoch r < Epoch s \<or> Epoch r = Epoch s \<and> Nonce r \<le> Nonce s"

lemma nonce_less_iff: "length xs = length ys \<Longrightarrow> nonce_less xs ys \<longleftrightarrow> xs < ys"
  by (induction xs ys rule: list_induct2) auto

lemma Rank_Less_le: "rank_ok r \<Longrightarrow> rank_ok s \<Longrightarrow> Rank_Less r s \<longleftrightarrow> \<not> rank_le s r"
  by (auto simp: Rank_Less_def rank_le_def rank_ok_def nonce_less_iff)

lemma rank_le_total: "rank_le r s \<or> rank_le s r"
  by (auto simp: rank_le_def)

lemma rank_le_trans: "rank_le r s \<Longrightarrow> rank_le s t \<Longrightarrow> rank_le r t"
  by (auto simp: rank_le_def)

definition live :: "'v Container \<Rightarrow> (rank \<times> 'v) set" where
  "live c = {(r, v). map_of (cEntries c) r = Some v \<and> undo_count (cUndos c) r \<le> 0}"

text \<open>A proper container: each rank once, ranks with full nonces, and no two ranks of the same content.\<close>

definition container_ok :: "'v Container \<Rightarrow> bool" where
  "container_ok c \<longleftrightarrow> distinct (map fst (cEntries c)) \<and> (\<forall>r \<in> fst ` set (cEntries c). rank_ok r)
     \<and> (\<forall>r \<in> fst ` set (cEntries c). \<forall>s \<in> fst ` set (cEntries c). rank_le r s \<longrightarrow> rank_le s r \<longrightarrow> r = s)"

lemma get_loop_max:
  assumes "\<forall>(r, v) \<in> set es \<union> set_option best. rank_ok r"
  shows "case get_loop us es best of
      None \<Rightarrow> best = None \<and> (\<forall>(r, v) \<in> set es. undo_count us r > 0)
    | Some (r, v) \<Rightarrow> ((r, v) \<in> set es \<and> undo_count us r \<le> 0 \<or> best = Some (r, v))
        \<and> (\<forall>(s, w) \<in> set es \<union> set_option best. undo_count us s \<le> 0 \<or> best = Some (s, w) \<longrightarrow> rank_le s r)"
  using assms
proof (induction us es best rule: get_loop.induct)
  case (2 us r v es best)
  let ?best = "if undo_count us r > 0 then best
        else (case best of None \<Rightarrow> Some (r, v) | Some (b, w) \<Rightarrow> if Rank_Less b r then Some (r, v) else best)"
  have ok: "\<forall>(s, w) \<in> set es \<union> set_option ?best. rank_ok s" using 2(2) by (auto split: option.splits if_splits)
  show ?case
  proof (cases "undo_count us r > 0")
    case True
    then show ?thesis using 2(1) [OF ok] by (auto split: option.splits)
  next
    case False
    show ?thesis
    proof (cases best)
      case None
      then show ?thesis using 2(1) [OF ok] False by (auto split: option.splits)
    next
      case (Some bw)
      obtain b w where bw: "bw = (b, w)" by (cases bw)
      have "rank_ok b" "rank_ok r" using 2(2) Some bw by auto
      then have less: "Rank_Less b r \<longleftrightarrow> \<not> rank_le r b" by (rule Rank_Less_le)
      then have best: "?best = (if rank_le r b then Some (b, w) else Some (r, v))" using False Some bw by simp
      obtain x y where x: "get_loop us es ?best = Some (x, y)"
        using 2(1) [OF ok] best by (cases "get_loop us es ?best") (auto split: if_splits)
      have IH: "(x, y) \<in> set es \<and> undo_count us x \<le> 0 \<or> ?best = Some (x, y)"
        "\<And>s w. (s, w) \<in> set es \<Longrightarrow> undo_count us s \<le> 0 \<Longrightarrow> rank_le s x" "\<And>s w. ?best = Some (s, w) \<Longrightarrow> rank_le s x"
        using 2(1) [OF ok] unfolding x by auto
      have "rank_le b x" "rank_le r x"
        using IH(3) rank_le_total [of b r] rank_le_trans [of r b x] rank_le_trans [of b r x] unfolding best by (cases "rank_le r b"; simp)+
      moreover have g: "get_loop us ((r, v) # es) best = Some (x, y)" by (simp only: get_loop.simps x)
      moreover have "(x, y) \<in> set es \<and> undo_count us x \<le> 0 \<or> (x, y) = (b, w) \<or> (x, y) = (r, v)"
        using IH(1) unfolding best by (auto split: if_splits)
      ultimately show ?thesis unfolding g option.case prod.case using IH(2) False Some bw by auto
    qed
  qed
qed (auto split: option.splits simp: rank_le_def)


text \<open>
  Get returns the live entry with the largest rank. It depends on the maps only and not on the order
  of their entries.
\<close>

lemma Container_Get_iff:
  assumes "container_ok c"
  shows "Container_Get c = Some (r, v) \<longleftrightarrow>
    cDeleted c \<le> 0 \<and> (r, v) \<in> live c \<and> (\<forall>(s, w) \<in> live c. rank_le s r)"
proof -
  have mem: "(s, w) \<in> set (cEntries c) \<longleftrightarrow> map_of (cEntries c) s = Some w" for s w
    using assms by (simp add: container_ok_def)
  have ok: "\<forall>(s, w) \<in> set (cEntries c) \<union> set_option None. rank_ok s" using assms by (auto simp: container_ok_def)
  note max = get_loop_max [OF ok, of "cUndos c"]
  show ?thesis
  proof (cases "get_loop (cUndos c) (cEntries c) None")
    case None
    then have "live c = {}" using max by (fastforce simp: live_def mem [symmetric])
    then show ?thesis using None by (auto simp: Container_Get_def)
  next
    case (Some xy)
    obtain x y where xy: "xy = (x, y)" by (cases xy)
    have x: "(x, y) \<in> live c" "\<And>s w. (s, w) \<in> live c \<Longrightarrow> rank_le s x"
      using max Some xy by (auto simp: live_def mem [symmetric])
    have uniq: "s = x" if "(s, w) \<in> live c" "rank_le x s" for s w
    proof -
      have "s \<in> fst ` set (cEntries c)" "x \<in> fst ` set (cEntries c)"
        using that(1) x(1) by (force simp: live_def mem [symmetric])+
      then show ?thesis using assms that(2) x(2) [OF that(1)] unfolding container_ok_def by blast
    qed
    have "(r, v) = (x, y)" if "(r, v) \<in> live c" "\<forall>(s, w) \<in> live c. rank_le s r"
    proof -
      have "r = x" using uniq [OF that(1)] that(2) x(1) by auto
      then show ?thesis using that(1) x(1) by (simp add: live_def)
    qed
    then show ?thesis using Some xy x by (auto simp: Container_Get_def)
  qed
qed

lemma same_container_live: "same_container c d \<Longrightarrow> live c = live d"
  by (simp add: same_container_def live_def)

lemma same_container_Get:
  assumes "same_container c d" "container_ok c" "container_ok d"
  shows "Container_Get c = Container_Get d"
proof -
  have "Container_Get c = Some (r, v) \<longleftrightarrow> Container_Get d = Some (r, v)" for r v
    using assms same_container_live [OF assms(1)] by (simp add: Container_Get_iff same_container_def)
  then show ?thesis by (metis option.exhaust surj_pair)
qed

section \<open>Reverting\<close>

lemma live_cong: "map_of (cEntries c) = map_of (cEntries d) \<Longrightarrow> undo_count (cUndos c) = undo_count (cUndos d) \<Longrightarrow> live c = live d"
  by (simp add: live_def)

text \<open>Setting a value with a new rank and reverting leaves the rank with an undo count, so it is not live.\<close>

lemma update_new: "r \<notin> fst ` set es \<Longrightarrow> AList.update r v es = es @ [(r, v)]"
  by (induction es) auto

lemma set_revert_live:
  assumes "map_of (cEntries c) r = None" "undo_count (cUndos c) r = 0"
    and "crdt_Apply app c [SetContainer r v] = Some c1" "crdt_Apply app c1 [UnsetContainer r 1] = Some c2"
  shows "live c2 = live c \<and> cDeleted c2 = cDeleted c \<and> cEntries c2 = cEntries c @ [(r, v)]"
proof -
  have "r \<notin> fst ` set (cEntries c)" using assms(1) by (simp add: map_of_eq_None_iff)
  then have "cEntries c1 = cEntries c @ [(r, v)]" "cUndos c1 = cUndos c" "cDeleted c1 = cDeleted c"
    using assms(3) by (auto simp: wrapper_ApplyTo_def update_new)
  moreover have "cEntries c2 = cEntries c1" "undo_count (cUndos c2) = (undo_count (cUndos c1))(r := undo_count (cUndos c1) r + 1)"
    "cDeleted c2 = cDeleted c1"
    using assms(4) by (auto simp: wrapper_ApplyTo_def undo_count_update)
  ultimately show ?thesis using assms(1,2) by (auto simp: live_def map_add_def split: option.splits if_splits)
qed

end
