(* ===== verification/Crdt_Properties.thy ===== *)
theory Crdt_Properties
  imports Dot_Crdt_Laws Stream_Properties
begin

text \<open>What package \<open>changes/crdt\<close> promises, and where it does not keep it.\<close>

section \<open>Convergence\<close>

text \<open>
  C19. Changes to a dictionary that do not touch the same entry converge without transformation, as
  the Merge of their wrapper assumes: both orders of application succeed, leave the same entries,
  and Get returns the same for every key.
\<close>

theorem dict_converges:
  assumes "\<forall>x \<in> set w. \<forall>y \<in> set w'. indep_dict x y" "Dict_Apply app d w = Some d1" "Dict_Apply app d w' = Some d2"
    and "wrapper_Merge w w' = (otherx, cx)"
  shows "\<exists>t u. Dict_Apply app d1 otherx = Some t \<and> Dict_Apply app d2 cx = Some u \<and> same_dict t u
    \<and> (\<forall>k. container_ok (dict_entry t k) \<and> container_ok (dict_entry u k) \<longrightarrow> Dict_Get t k = Dict_Get u k)"
proof -
  have m: "otherx = w'" "cx = w" using assms(4) by (simp_all add: wrapper_Merge_def)
  obtain t u where "Dict_Apply app d1 w' = Some t" "Dict_Apply app d2 w = Some u" "same_dict t u"
    using dict_crdt.run_diamond [OF _ assms(2,3)] assms(1) by blast
  then show ?thesis using m same_container_Get by (auto simp: same_dict_def Dict_Get_def)
qed

definition rk :: "nat \<Rightarrow> rank" where
  "rk k = \<lparr>rkAddr = k, Epoch = int k, Nonce = [0, 0, 0, 0]\<rparr>"

abbreviation app_val :: "val \<Rightarrow> change option \<Rightarrow> val option" where
  "app_val \<equiv> Apply"

definition ex_set_a :: "(string, val, change option) dict_change list" where
  "ex_set_a = [UpdateDict ''title'' [SetContainer (rk 1) (VS8 ''a'')]]"

definition ex_set_b :: "(string, val, change option) dict_change list" where
  "ex_set_b = [UpdateDict ''title'' [SetContainer (rk 2) (VS8 ''b'')]]"

theorem dict_converges_witness:
  "\<exists>d1 d2 t u. Dict_Apply app_val \<lparr>dEntries = []\<rparr> ex_set_a = Some d1 \<and> Dict_Apply app_val \<lparr>dEntries = []\<rparr> ex_set_b = Some d2
    \<and> Dict_Apply app_val d1 ex_set_b = Some t \<and> Dict_Apply app_val d2 ex_set_a = Some u \<and> same_dict t u"
proof -
  have "Dict_Apply app_val \<lparr>dEntries = []\<rparr> ex_set_a \<noteq> None" "Dict_Apply app_val \<lparr>dEntries = []\<rparr> ex_set_b \<noteq> None"
    by (simp_all add: wrapper_ApplyTo_def ex_set_a_def ex_set_b_def dict_ApplyTo.simps)
  then obtain d1 d2 where d: "Dict_Apply app_val \<lparr>dEntries = []\<rparr> ex_set_a = Some d1" "Dict_Apply app_val \<lparr>dEntries = []\<rparr> ex_set_b = Some d2"
    by auto
  have "\<forall>x \<in> set ex_set_a. \<forall>y \<in> set ex_set_b. indep_dict x y"
    by (simp add: ex_set_a_def ex_set_b_def indep_crdt_def rk_def)
  then show ?thesis using dict_converges [OF _ d, of ex_set_b ex_set_a] d by (auto simp: wrapper_Merge_def)
qed

text \<open>
  C20. Get of a container returns the value with the largest rank among those that are not undone, and
  nothing when the container is deleted; the order in which the map is visited does not matter.
\<close>

theorem container_get_largest:
  assumes "container_ok c"
  shows "Container_Get c = Some (r, v) \<longleftrightarrow>
    cDeleted c \<le> 0 \<and> map_of (cEntries c) r = Some v \<and> undo_count (cUndos c) r \<le> 0
    \<and> (\<forall>s w. map_of (cEntries c) s = Some w \<and> undo_count (cUndos c) s \<le> 0 \<longrightarrow> s = r \<or> Rank_Less s r)"
proof -
  have ok: "rank_ok s" "s \<in> fst ` set (cEntries c)" if "map_of (cEntries c) s = Some w" for s w
    using assms map_of_SomeD [OF that] by (force simp: container_ok_def)+
  have le: "rank_le s r \<longleftrightarrow> s = r \<or> Rank_Less s r"
    if "map_of (cEntries c) s = Some w" "map_of (cEntries c) r = Some v" for s w
  proof -
    have "rank_le r s \<Longrightarrow> rank_le s r \<Longrightarrow> r = s"
      using assms ok(2) [OF that(1)] ok(2) [OF that(2)] unfolding container_ok_def by meson
    moreover have "Rank_Less s r \<longleftrightarrow> \<not> rank_le r s" using Rank_Less_le [OF ok(1) [OF that(1)] ok(1) [OF that(2)]] .
    ultimately show ?thesis using rank_le_total [of r s] by blast
  qed
  show ?thesis unfolding Container_Get_iff [OF assms] by (auto simp: live_def le)
qed

definition ex_container :: "string Container" where
  "ex_container = \<lparr>cEntries = [(rk 3, ''c''), (rk 1, ''a''), (rk 2, ''b'')], cUndos = [(rk 3, 1)], cDeleted = 0\<rparr>"

lemma ex_container_ok: "container_ok ex_container"
  by (auto simp: container_ok_def ex_container_def rk_def rank_ok_def rank_le_def)

theorem container_get_largest_witness: "Container_Get ex_container = Some (rk 2, ''b'')"
  using container_get_largest [OF ex_container_ok, of "rk 2" "''b''"]
  by (auto simp: ex_container_def undo_count_def rk_def Rank_Less_def split: if_splits)

section \<open>Reverting\<close>

text \<open>
  C21. Reverting a Set with a new rank restores what Get returns, and reverting the revert brings the
  new value's count back to zero, so the value is live again.
\<close>

theorem container_set_revert:
  assumes "Container_Set app c r v = Some (cx, c1)" "wrapper_Revert (crdt_Revert rvt) cx = Some rx"
    and "crdt_Apply app c1 rx = Some c2" "wrapper_Revert (crdt_Revert rvt) rx = Some rrx" "crdt_Apply app c2 rrx = Some c3"
    and "container_ok c1" "map_of (cEntries c) r = None" "undo_count (cUndos c) r = 0"
  shows "Container_Get c2 = Container_Get c \<and> same_container c3 c1"
proof -
  have cx: "cx = [SetContainer r v]" "crdt_Apply app c [SetContainer r v] = Some c1"
    using assms(1) by (auto simp: Container_Set_def Let_def)
  then have rx: "rx = [UnsetContainer r 1]" "rrx = [UnsetContainer r (- 1)]"
    using assms(2,4) by (auto simp: wrapper_Revert_def)
  have live: "live c2 = live c" "cDeleted c2 = cDeleted c" "cEntries c2 = cEntries c @ [(r, v)]"
    using set_revert_live [OF assms(7,8) cx(2)] assms(3) rx(1) by auto
  have e1: "cEntries c1 = cEntries c @ [(r, v)]"
    using cx(2) assms(7) by (auto simp: wrapper_ApplyTo_def update_new map_of_eq_None_iff)
  have ok2: "container_ok c2" and ok: "container_ok c"
    using assms(6) live(3) e1 by (simp_all add: container_ok_def)
  have "Container_Get c2 = Some (s, w) \<longleftrightarrow> Container_Get c = Some (s, w)" for s w
    using live(1,2) by (simp add: Container_Get_iff [OF ok2] Container_Get_iff [OF ok])
  then have "Container_Get c2 = Container_Get c" by (metis option.exhaust surj_pair)
  moreover have "same_container c3 c1"
    using assms(3,5) rx by (auto simp: wrapper_ApplyTo_def same_container_def undo_count_update)
  ultimately show ?thesis by simp
qed

theorem container_set_revert_witness:
  "\<exists>c1 c2. Container_Set app_val empty_container (rk 1) (VS8 ''a'') = Some ([SetContainer (rk 1) (VS8 ''a'')], c1)
    \<and> crdt_Apply app_val c1 [UnsetContainer (rk 1) 1] = Some c2 \<and> Container_Get c2 = None"
proof -
  let ?c1 = "\<lparr>cEntries = [(rk 1, VS8 ''a'')], cUndos = [], cDeleted = 0\<rparr>"
  let ?c2 = "?c1\<lparr>cUndos := [(rk 1, 1)]\<rparr>"
  have s: "Container_Set app_val empty_container (rk 1) (VS8 ''a'') = Some ([SetContainer (rk 1) (VS8 ''a'')], ?c1)"
    by (simp add: Container_Set_def wrapper_ApplyTo_def)
  have u: "crdt_Apply app_val ?c1 [UnsetContainer (rk 1) 1] = Some ?c2"
    "crdt_Apply app_val ?c2 [UnsetContainer (rk 1) (- 1)] = Some (?c1\<lparr>cUndos := [(rk 1, 0)]\<rparr>)"
    by (simp_all add: wrapper_ApplyTo_def undo_count_def)
  have "container_ok ?c1" by (auto simp: container_ok_def rank_ok_def rk_def)
  then have "Container_Get ?c2 = Container_Get empty_container"
    using container_set_revert [OF s, of Some "[UnsetContainer (rk 1) 1]" ?c2 "[UnsetContainer (rk 1) (- 1)]"] u
    by (simp add: wrapper_Revert_def undo_count_def)
  then show ?thesis using s u by (auto simp: Container_Get_def)
qed

text \<open>
  Reverting the revert of a Delete does not delete again: after Delete, undo and redo the value is
  still there, because the revert of every such change decrements the count. And a Set after a Delete
  has no visible effect: the container stays deleted.
\<close>

theorem delete_redo_keeps_value:
  assumes "Container_Delete app c = Some (cx, c1)" "wrapper_Revert (crdt_Revert rvt) cx = Some undo"
    and "crdt_Apply app c1 undo = Some c2" "wrapper_Revert (crdt_Revert rvt) undo = Some redo" "crdt_Apply app c2 redo = Some c3"
    and "cDeleted c = 0"
  shows "Container_Get c1 = None \<and> Container_Get c2 = Container_Get c \<and> Container_Get c3 = Container_Get c
    \<and> (\<forall>r v c4. crdt_Apply app c1 [SetContainer r v] = Some c4 \<longrightarrow> Container_Get c4 = None)"
proof -
  have cx: "cx = [DelContainer 1]" "c1 = c\<lparr>cDeleted := 1\<rparr>"
    using assms(1,6) by (auto simp: Container_Delete_def Let_def wrapper_ApplyTo_def)
  then have "undo = [DelContainer (- 1)]" "redo = [DelContainer (- 1)]" using assms(2,4) by (auto simp: wrapper_Revert_def)
  then have "c2 = c\<lparr>cDeleted := 0\<rparr>" "c3 = c\<lparr>cDeleted := - 1\<rparr>" using assms(3,5) cx(2) by (auto simp: wrapper_ApplyTo_def)
  then show ?thesis using cx(2) assms(6) by (auto simp: Container_Get_def wrapper_ApplyTo_def)
qed

theorem delete_redo_keeps_value_witness:
  "Container_Get (ex_container\<lparr>cDeleted := 1\<rparr>) = None \<and> Container_Get (ex_container\<lparr>cDeleted := - 1\<rparr>) = Container_Get ex_container"
proof -
  have d: "Container_Delete (\<lambda>v c. None) ex_container = Some ([DelContainer 1 :: (string, unit) crdt_change], ex_container\<lparr>cDeleted := 1\<rparr>)"
    by (simp add: Container_Delete_def wrapper_ApplyTo_def ex_container_def)
  show ?thesis
    using delete_redo_keeps_value [OF d, of Some "[DelContainer (- 1)]" "ex_container\<lparr>cDeleted := 0\<rparr>" "[DelContainer (- 1)]" "ex_container\<lparr>cDeleted := - 1\<rparr>"]
    by (simp add: wrapper_Revert_def wrapper_ApplyTo_def ex_container_def)
qed

section \<open>Ordered keys\<close>

text \<open>
  C23. Writing and reading ordered keys is a round trip for every key that can be read: the key that
  is written for the value of a readable key reads back as the same value.
\<close>

theorem ord_round_trip:
  assumes "fromString s = Some k"
  shows "fromString (toString k) = Some k"
  by (rule fromString_toString [OF fromString_dyadic [OF assms]])

lemma ex_ord: "fromString ''3,5'' = Some (5 / 4)"
  by code_simp

theorem ord_round_trip_witness: "fromString (toString (5 / 4)) = Some (5 / 4)"
  by (rule ord_round_trip [OF ex_ord])

text \<open>
  C24. NextOrd and PrevOrd of a readable key are readable and are after and before it; and when the
  number of keys asked for is one less than a power of two, BetweenOrd returns that many keys, in
  ascending order and strictly between the two.
\<close>

theorem ord_order:
  assumes "fromString a = Some ak" "fromString b = Some bk" "ak < bk" "count + 1 = 2 ^ e"
  shows "\<exists>nxt prv keys. NextOrd a = Some nxt \<and> LessOrd a nxt = Some True \<and> PrevOrd a = Some prv \<and> LessOrd prv a = Some True
    \<and> BetweenOrd a b (int count) = Some keys \<and> length keys = count
    \<and> (\<forall>i < count. LessOrd a (keys ! i) = Some True \<and> LessOrd (keys ! i) b = Some True)
    \<and> (\<forall>i. Suc i < count \<longrightarrow> LessOrd (keys ! i) (keys ! Suc i) = Some True)"
proof -
  have dy: "dyadic ak" "dyadic bk" using fromString_dyadic assms(1,2) by auto
  have nx: "LessOrd a (toString (ord_next ak)) = Some True" "LessOrd (toString (ord_prev ak)) a = Some True"
    using ord_next_prev [of ak] by (simp_all add: LessOrd_def assms(1) fromString_toString ord_less_def)
  define diff where "diff = \<bar>ak - bk\<bar> * (1 / 2 ^ e)"
  define keys where "keys = between_loop diff ak count"
  have "(of_nat (count + 1) :: rat) = 2 ^ e" using assms(4) by (simp only: of_nat_power of_nat_numeral)
  then have c1: "(1 + of_nat count :: rat) = 2 ^ e" by simp
  have bt: "BetweenOrd a b (int count) = Some keys"
    using assms(1-3) c1 by (simp add: BetweenOrd_def ord_less_def ord_between_def keys_def diff_def algebra_simps)
  have dd: "dyadic diff" unfolding diff_def by (rule dyadic_diff_scaled [OF dy])
  have len: "length keys = count" unfolding keys_def by (induction count arbitrary: ak) auto
  have val: "fromString (keys ! i) = Some (ak + of_nat (Suc i) * diff)" if "i < count" for i
  proof -
    have "map fromString keys ! i = map (\<lambda>i. Some (ak + of_nat i * diff)) [1..<Suc count] ! i"
      using between_loop_keys [OF dd dy(1), of count] unfolding keys_def by simp
    then show ?thesis using that len by (simp del: upt_Suc)
  qed
  have pos: "0 < diff" "of_nat (count + 1) * diff = bk - ak" using assms(3) c1 by (simp_all add: diff_def)
  have lt: "of_nat i * diff < of_nat j * diff" if "i < j" for i j :: nat using that pos(1) by simp
  have "0 < of_nat (Suc i) * diff" "of_nat (Suc i) * diff < bk - ak" if "i < count" for i
    using lt [of 0 "Suc i"] lt [of "Suc i" "count + 1"] pos(2) that by simp_all
  then have ends: "LessOrd a (keys ! i) = Some True" "LessOrd (keys ! i) b = Some True" if "i < count" for i
    using that val assms(1,2) by (fastforce simp: LessOrd_def ord_less_def)+
  have "LessOrd (keys ! i) (keys ! Suc i) = Some True" if "Suc i < count" for i
    using that val [of i] val [of "Suc i"] lt [of "Suc i" "Suc (Suc i)"] by (simp add: LessOrd_def ord_less_def)
  then show ?thesis using nx bt len ends by (auto simp: NextOrd_def PrevOrd_def assms(1))
qed

theorem ord_order_witness:
  "\<exists>keys. BetweenOrd '''' ''1,1'' 3 = Some keys \<and> length keys = 3
    \<and> LessOrd (keys ! 0) (keys ! 1) = Some True \<and> LessOrd (keys ! 1) (keys ! 2) = Some True"
proof -
  have k: "fromString '''' = Some 0" "fromString ''1,1'' = Some 1" by code_simp+
  show ?thesis using ord_order [OF k, of 3 2] by (auto simp: numeral_2_eq_2 numeral_3_eq_3)
qed

text \<open>
  With any other number of keys BetweenOrd can go wrong: of the two keys it returns between 0 and
  1, the second is not before 1, since a denominator of three is read as a two.
\<close>

theorem between_two_not_between:
  "BetweenOrd '''' ''1,1'' 2 = Some [''2,1'', ''2,2''] \<and> LessOrd ''2,2'' ''1,1'' = Some False"
  by (rule conjI; code_simp)

section \<open>Sequences\<close>

definition seq0 :: "val Seq" where
  "seq0 = \<lparr>sValues = \<lparr>dEntries = []\<rparr>, sOrds = \<lparr>dEntries = []\<rparr>\<rparr>"

text \<open>
  Two elements that are inserted concurrently at the same place get the same ordinal, and Items
  then shows one of them twice and the other not at all: keys are looked up by ordinal.
\<close>

theorem seq_concurrent_inserts_lost:
  "\<exists>w1 s1 w2 s2 s12. Seq_Splice app_val seq0 rk 0 0 [VS8 ''a''] = Some (w1, s1)
    \<and> Seq_Splice app_val seq0 (\<lambda>i. rk (i + 10)) 0 0 [VS8 ''b''] = Some (w2, s2)
    \<and> Seq_Items s1 = Some [Some (VS8 ''a'')] \<and> Seq_Items s2 = Some [Some (VS8 ''b'')]
    \<and> Seq_Apply app_val s1 w2 = Some s12 \<and> Seq_Items s12 = Some [Some (VS8 ''b''), Some (VS8 ''b'')]"
proof -
  have b: "Seq_between [] 0 0 1 = Some [''2,1'']" by code_simp
  have s: "sort_ords [''2,1'', ''2,1''] = Some [''2,1'', ''2,1'']" "sort_ords [''2,1''] = Some [''2,1'']" "sort_ords [] = Some []" by code_simp+
  note defs = Seq_Splice_def b seq0_def Dict_Set_def Container_Set_def wrapper_ApplyTo_def dict_entry_def dict_ApplyTo.simps
    Seq_Items_def Seq_items_def Dict_Get_def Container_Get_def undo_count_def rk_def s
  show ?thesis by (simp add: defs)
qed

end
