(* ===== verification/Dot_Sjson.thy ===== *)
theory Dot_Sjson
  imports Dot_Strings "HOL-Library.Sublist"
begin

text \<open>
  Package \<open>ops/sjson\<close>: the typed, JSON-like codec that stores and network messages use.
  Go types as seen through \<open>reflect\<close> are the datatype \<open>rtype\<close>, values are
  \<open>gval\<close>. Names of types (\<open>typename.go\<close>), registration and decoding
  (\<open>decoder.go\<close>) and encoding (\<open>encoder.go\<close>) follow the source.

  Text is a list of runes up to U+00FF, the tables of \<open>unicode.IsSpace\<close> and
  \<open>unicode.IsNumber\<close> are those for that range. A float is the text that
  \<open>strconv.FormatFloat\<close> gives for it, a time is the text of \<open>time.Format\<close>, which has whole
  seconds, and its nanoseconds; parsing them is part of the parameter \<open>golib\<close>. Types that
  contain themselves are left out. A panic with an error becomes the error that \<open>catch\<close> returns; the outer
  \<open>None\<close> is a panic with another value, which \<open>catch\<close> lets through, or the end of the
  fuel that bounds the nesting of calls.
\<close>

section \<open>Results\<close>

datatype sjson_error = Errors string | NumError | TimeError | IoError | RuntimeError

type_synonym 'a sres = "(sjson_error + 'a) option"

abbreviation sret :: "'a \<Rightarrow> 'a sres" where "sret x \<equiv> Some (Inr x)"

abbreviation panic :: "sjson_error \<Rightarrow> 'a sres" where "panic e \<equiv> Some (Inl e)"

definition sbind :: "'a sres \<Rightarrow> ('a \<Rightarrow> 'b sres) \<Rightarrow> 'b sres" where
  "sbind r f = (case r of None \<Rightarrow> None | Some (Inl e) \<Rightarrow> Some (Inl e) | Some (Inr x) \<Rightarrow> f x)"

lemma sbind_simps [simp]: "sbind None f = None" "sbind (panic e) f = panic e" "sbind (sret x) f = f x"
  by (simp_all add: sbind_def)

lemma sbind_cong [fundef_cong]: "r = r' \<Longrightarrow> (\<And>x. r' = sret x \<Longrightarrow> f x = g x) \<Longrightarrow> sbind r f = sbind r' g"
  by (auto simp: sbind_def split: option.splits sum.splits)

section \<open>Types and their names\<close>

datatype ikind = IntK | Int8K | Int16K | Int32K | Int64K

datatype fkind = Float32K | Float64K

datatype ukind = UintK | Uint8K | Uint16K | Uint32K | Uint64K

text \<open>
  A struct lists its fields with whether they are exported. \<open>TOther\<close> is any kind the codec
  does not know. \<open>TNamed\<close> has the package path, the name and the underlying type.
\<close>

datatype rtype = TBool | TInt ikind | TUint ukind | TFloat fkind | TString | TTime | TPtr rtype | TSlice rtype | TArray nat rtype
  | TMap rtype rtype | TStruct "(bool \<times> rtype) list" | TInterface | TOther string | TNamed string string rtype

fun underlying :: "rtype \<Rightarrow> rtype" where
  "underlying (TNamed p n t) = underlying t"
| "underlying t = t"

definition ibits :: "ikind \<Rightarrow> nat" where
  "ibits k = (case k of IntK \<Rightarrow> 64 | Int8K \<Rightarrow> 8 | Int16K \<Rightarrow> 16 | Int32K \<Rightarrow> 32 | Int64K \<Rightarrow> 64)"

definition ubits :: "ukind \<Rightarrow> nat" where
  "ubits k = (case k of UintK \<Rightarrow> 64 | Uint8K \<Rightarrow> 8 | Uint16K \<Rightarrow> 16 | Uint32K \<Rightarrow> 32 | Uint64K \<Rightarrow> 64)"

definition fbits :: "fkind \<Rightarrow> nat" where
  "fbits k = (case k of Float32K \<Rightarrow> 32 | Float64K \<Rightarrow> 64)"

text \<open>\<open>Kind().String()\<close>.\<close>

definition ikind_name :: "ikind \<Rightarrow> string" where
  "ikind_name k = (case k of IntK \<Rightarrow> ''int'' | Int8K \<Rightarrow> ''int8'' | Int16K \<Rightarrow> ''int16'' | Int32K \<Rightarrow> ''int32'' | Int64K \<Rightarrow> ''int64'')"

definition ukind_name :: "ukind \<Rightarrow> string" where
  "ukind_name k = (case k of UintK \<Rightarrow> ''uint'' | Uint8K \<Rightarrow> ''uint8'' | Uint16K \<Rightarrow> ''uint16'' | Uint32K \<Rightarrow> ''uint32'' | Uint64K \<Rightarrow> ''uint64'')"

definition fkind_name :: "fkind \<Rightarrow> string" where
  "fkind_name k = (case k of Float32K \<Rightarrow> ''float32'' | Float64K \<Rightarrow> ''float64'')"

definition TrimPrefix :: "string \<Rightarrow> string \<Rightarrow> string" where
  "TrimPrefix s pre = (if prefix pre s then drop (length pre) s else s)"

fun typeName :: "rtype \<Rightarrow> string" where
  "typeName (TNamed path name t) =
     (if path \<noteq> [] \<and> name \<noteq> []
      then TrimPrefix (TrimPrefix path ''github.com/dotchain/dot/'') ''github.com/'' @ ''.'' @ name
      else typeName t)"
| "typeName (TPtr t) = ''*'' @ typeName t"
| "typeName (TSlice t) = ''[]'' @ typeName t"
| "typeName (TArray n t) = ''['' @ Itoa (int n) @ '']'' @ typeName t"
| "typeName (TMap k t) = ''map['' @ typeName k @ '']'' @ typeName t"
| "typeName TBool = ''bool''"
| "typeName (TInt k) = ikind_name k"
| "typeName (TUint k) = ukind_name k"
| "typeName (TFloat k) = fkind_name k"
| "typeName TString = ''string''"
| "typeName TTime = ''time.Time''"
| "typeName (TStruct fs) = ''struct''"
| "typeName TInterface = ''interface''"
| "typeName (TOther kind) = kind"

definition typesDefault :: "string \<Rightarrow> rtype option" where
  "typesDefault = map_of
     [(''bool'', TBool), (''int'', TInt IntK), (''int8'', TInt Int8K), (''int16'', TInt Int16K), (''int32'', TInt Int32K),
      (''int64'', TInt Int64K), (''uint'', TUint UintK), (''uint8'', TUint Uint8K), (''uint16'', TUint Uint16K),
      (''uint32'', TUint Uint32K), (''uint64'', TUint Uint64K), (''string'', TString),
      (''float32'', TFloat Float32K), (''float64'', TFloat Float64K), (''time.Time'', TTime)]"

text \<open>\<open>strconv.ParseInt\<close> and \<open>ParseUint\<close> with base 10.\<close>

definition ParseInt :: "string \<Rightarrow> nat \<Rightarrow> int sres" where
  "ParseInt s bits = (case parse_int 10 s of
     None \<Rightarrow> panic NumError
   | Some i \<Rightarrow> if - (2 ^ (bits - 1)) \<le> i \<and> i < 2 ^ (bits - 1) then sret i else panic NumError)"

definition ParseUint :: "string \<Rightarrow> nat \<Rightarrow> nat sres" where
  "ParseUint s bits = (if s = [] then panic NumError else (case parse_nat 10 0 s of
     None \<Rightarrow> panic NumError
   | Some i \<Rightarrow> if i < 2 ^ bits then sret i else panic NumError))"

text \<open>What \<open>reflect.MapOf\<close> accepts as a key type.\<close>

fun comparable :: "rtype \<Rightarrow> bool" where
  "comparable (TNamed p n t) = comparable t"
| "comparable (TArray n t) = comparable t"
| "comparable (TStruct fs) = list_all (\<lambda>(_, t). comparable t) fs"
| "comparable (TSlice t) = False"
| "comparable (TMap k t) = False"
| "comparable (TOther kind) = (kind \<noteq> ''func'')"
| "comparable t = True"

text \<open>The loop of \<open>typeFromMap\<close>: the key ends at the first bracket that closes more than was opened.\<close>

fun map_split :: "int \<Rightarrow> string \<Rightarrow> (string \<times> string) option" where
  "map_split count [] = None"
| "map_split count (rn # name) =
     (let count = (if rn = CHR ''['' then count + 1 else if rn = CHR '']'' then count - 1 else count) in
      if count < 0 then Some ([], name) else map_option (\<lambda>(k, e). (rn # k, e)) (map_split count name))"

lemma map_split_length: "map_split c name = Some (k, e) \<Longrightarrow> length k < length name \<and> length e < length name"
  by (induction c name arbitrary: k e rule: map_split.induct) (fastforce simp: Let_def split: if_splits)+

text \<open>The loop over the size of an array type.\<close>

definition array_split :: "string \<Rightarrow> (string \<times> string) option" where
  "array_split name = (if prefix ''['' name \<and> CHR '']'' \<in> set (tl name)
     then Some (takeWhile (\<lambda>c. c \<noteq> CHR '']'') (tl name), tl (dropWhile (\<lambda>c. c \<noteq> CHR '']'') (tl name)))
     else None)"

lemma array_split_length: "array_split name = Some (n, e) \<Longrightarrow> length e < length name"
proof -
  assume "array_split name = Some (n, e)"
  then have "name \<noteq> []" "e = tl (dropWhile (\<lambda>c. c \<noteq> CHR '']'') (tl name))" by (auto simp: array_split_def split: if_splits)
  then show ?thesis using length_dropWhile_le [of "\<lambda>c. c \<noteq> CHR '']''" "tl name"] by (cases name) auto
qed

function typeFromName :: "(string \<Rightarrow> rtype option) \<Rightarrow> string \<Rightarrow> rtype sres" where
  "typeFromName types name = (case types name of Some v \<Rightarrow> sret v | None \<Rightarrow>
     (case typesDefault name of Some v \<Rightarrow> sret v | None \<Rightarrow>
      if prefix ''*'' name then sbind (typeFromName types (drop 1 name)) (\<lambda>t. sret (TPtr t))
      else if prefix ''[]'' name then sbind (typeFromName types (drop 2 name)) (\<lambda>t. sret (TSlice t))
      else (case array_split name of
        Some (len, e) \<Rightarrow> sbind (ParseInt len 32) (\<lambda>count. sbind (typeFromName types e) (\<lambda>elem.
          if count < 0 then None else sret (TArray (nat count) elem)))
      | None \<Rightarrow>
        if prefix ''map'' name then
          (if length name < 4 then panic RuntimeError
           else (case map_split 0 (drop 4 name) of
             None \<Rightarrow> panic (Errors (''invalid type name: '' @ name))
           | Some (k, e) \<Rightarrow> sbind (typeFromName types k) (\<lambda>key. sbind (typeFromName types e) (\<lambda>elem.
               if comparable key then sret (TMap key elem) else None))))
        else panic (Errors (''unknown type '' @ name)))))"
  by pat_completeness auto
termination
  by (relation "measure (\<lambda>(types, name). length name)")
    (auto simp: prefix_def dest!: array_split_length map_split_length)

declare typeFromName.simps [simp del]

text \<open>\<open>Decoder.register\<close>: a type and everything in it.\<close>

fun reg_parts :: "(string \<Rightarrow> rtype option) \<Rightarrow> rtype \<Rightarrow> (string \<Rightarrow> rtype option)"
  and reg_fields :: "(string \<Rightarrow> rtype option) \<Rightarrow> (bool \<times> rtype) list \<Rightarrow> (string \<Rightarrow> rtype option)" where
  "reg_parts types (TNamed p n t) = reg_parts types t"
| "reg_parts types (TSlice e) = reg_parts (types(typeName e \<mapsto> e)) e"
| "reg_parts types (TArray n e) = reg_parts (types(typeName e \<mapsto> e)) e"
| "reg_parts types (TPtr e) = reg_parts (types(typeName e \<mapsto> e)) e"
| "reg_parts types (TMap k e) =
     (let types = reg_parts (types(typeName k \<mapsto> k)) k in reg_parts (types(typeName e \<mapsto> e)) e)"
| "reg_parts types (TStruct fs) = reg_fields types fs"
| "reg_parts types t = types"
| "reg_fields types [] = types"
| "reg_fields types ((exported, t) # fs) =
     reg_fields (if exported then reg_parts (types(typeName t \<mapsto> t)) t else types) fs"

definition register :: "(string \<Rightarrow> rtype option) \<Rightarrow> rtype \<Rightarrow> (string \<Rightarrow> rtype option)" where
  "register types typ = reg_parts (types(typeName typ \<mapsto> typ)) typ"

section \<open>Values\<close>

text \<open>
  A map has its entries in the order in which \<open>MapKeys\<close> gives them. A non-nil interface has the
  dynamic type and value.
\<close>

datatype gval = GBool bool | GInt int | GUint nat | GFloat string | GString string | GTime nat string | GPtr "gval option" | GSlice "gval list option"
  | GArray "gval list" | GMap "(gval \<times> gval) list option" | GStruct "gval list" | GIface "(rtype \<times> gval) option" | GOther

fun zero :: "rtype \<Rightarrow> gval" where
  "zero (TNamed p n t) = zero t"
| "zero TBool = GBool False"
| "zero (TInt k) = GInt 0"
| "zero (TUint k) = GUint 0"
| "zero (TFloat k) = GFloat ''0''"
| "zero TString = GString []"
| "zero TTime = GTime 0 ''0001-01-01T00:00:00Z''"
| "zero (TPtr t) = GPtr None"
| "zero (TSlice t) = GSlice None"
| "zero (TArray n t) = GArray (replicate n (zero t))"
| "zero (TMap k t) = GMap None"
| "zero (TStruct fs) = GStruct (map (\<lambda>(_, t). zero t) fs)"
| "zero TInterface = GIface None"
| "zero (TOther kind) = GOther"

text \<open>
  What the language and its library decide: whether a type implements an interface, what a text
  means as a float of some width or as a time, and when two times are equal.
\<close>

record golib =
  Implements :: "rtype \<Rightarrow> rtype \<Rightarrow> bool"
  ParseFloat :: "string \<Rightarrow> nat \<Rightarrow> string option"
  ParseTime :: "string \<Rightarrow> (nat \<times> string) option"
  EqTime :: "nat \<times> string \<Rightarrow> nat \<times> string \<Rightarrow> bool"

text \<open>Keys of a map that is decoded: a new pointer equals no other, and NaN does not equal itself.\<close>

fun go_eq :: "golib \<Rightarrow> gval \<Rightarrow> gval \<Rightarrow> bool" where
  "go_eq L (GPtr a) y = (a = None \<and> y = GPtr None)"
| "go_eq L (GArray xs) y = (case y of GArray ys \<Rightarrow> list_all2 (go_eq L) xs ys | _ \<Rightarrow> False)"
| "go_eq L (GStruct xs) y = (case y of GStruct ys \<Rightarrow> list_all2 (go_eq L) xs ys | _ \<Rightarrow> False)"
| "go_eq L (GIface None) y = (y = GIface None)"
| "go_eq L (GIface (Some (t, x))) y = (case y of GIface (Some (u, y)) \<Rightarrow> t = u \<and> go_eq L x y | _ \<Rightarrow> False)"
| "go_eq L (GFloat x) y = (y = GFloat x \<and> x \<noteq> ''NaN'')"
| "go_eq L (GTime m x) y = (case y of GTime n z \<Rightarrow> EqTime L (m, x) (n, z) | _ \<Rightarrow> False)"
| "go_eq L x y = (x = y)"

fun hashable :: "gval \<Rightarrow> bool" where
  "hashable (GSlice xs) = False"
| "hashable (GMap m) = False"
| "hashable (GArray xs) = list_all hashable xs"
| "hashable (GStruct xs) = list_all hashable xs"
| "hashable (GIface (Some (t, x))) = hashable x"
| "hashable x = True"

fun SetMapIndex :: "golib \<Rightarrow> gval \<Rightarrow> gval \<Rightarrow> (gval \<times> gval) list \<Rightarrow> (gval \<times> gval) list" where
  "SetMapIndex L k v [] = [(k, v)]"
| "SetMapIndex L k v ((k', v') # m) = (if go_eq L k k' then (k', v) # m else (k', v') # SetMapIndex L k v m)"


section \<open>Encoding\<close>

text \<open>Element, key and field types of a composite type.\<close>

fun elem_type :: "rtype \<Rightarrow> rtype" where
  "elem_type (TNamed p n t) = elem_type t"
| "elem_type (TPtr e) = e"
| "elem_type (TSlice e) = e"
| "elem_type (TArray n e) = e"
| "elem_type (TMap k e) = e"
| "elem_type t = t"

fun key_type :: "rtype \<Rightarrow> rtype" where
  "key_type (TNamed p n t) = key_type t"
| "key_type (TMap k e) = k"
| "key_type t = t"

fun field_types :: "rtype \<Rightarrow> (bool \<times> rtype) list" where
  "field_types (TNamed p n t) = field_types t"
| "field_types (TStruct fs) = fs"
| "field_types t = []"

definition encodeBoolValue :: "bool \<Rightarrow> string" where
  "encodeBoolValue b = (if b then ''true'' else ''false'')"

definition encodeIntValue :: "int \<Rightarrow> string" where
  "encodeIntValue i = text_int 10 i"

definition encodeUintValue :: "nat \<Rightarrow> string" where
  "encodeUintValue ui = text_nat 10 ui"

fun escape_runes :: "string \<Rightarrow> string" where
  "escape_runes [] = []"
| "escape_runes (rn # s) = (if rn = CHR 34 then [CHR 92] else []) @ [rn] @ escape_runes s"

definition encodeStringValue :: "string \<Rightarrow> string" where
  "encodeStringValue s = [CHR 34] @ escape_runes s @ [CHR 34]"

text \<open>The elements of an array, a struct or a map, separated by commas.\<close>

fun commas :: "string list \<Rightarrow> string" where
  "commas [] = []"
| "commas [s] = s"
| "commas (s # ss) = s @ '','' @ commas ss"

definition brackets :: "string list \<Rightarrow> string" where
  "brackets ss = ''['' @ commas ss @ '']''"

text \<open>\<open>Encoder.encode\<close> of a value with a type, around what \<open>encodeValue\<close> writes.\<close>

definition typed :: "rtype \<Rightarrow> string sres \<Rightarrow> string sres" where
  "typed t r = sbind r (\<lambda>s. sret (''{'' @ [CHR 34] @ typeName t @ [CHR 34] @ '': '' @ s @ ''}''))"

text \<open>
  \<open>Encoder.encodeValue\<close> and the loops of \<open>encodeArrayValue\<close>, \<open>encodeMapValue\<close> and
  \<open>encodeStructValue\<close>, which skips the fields that are not exported.
\<close>

function (sequential) encodeValue :: "rtype \<Rightarrow> gval \<Rightarrow> string sres"
  and encode_elems :: "rtype \<Rightarrow> gval list \<Rightarrow> string list sres"
  and encode_pairs :: "rtype \<Rightarrow> (gval \<times> gval) list \<Rightarrow> string list sres"
  and encode_fields :: "(bool \<times> rtype) list \<Rightarrow> gval list \<Rightarrow> string list sres" where
  "encodeValue t (GBool b) = sret (encodeBoolValue b)"
| "encodeValue t (GInt i) = sret (encodeIntValue i)"
| "encodeValue t (GUint ui) = sret (encodeUintValue ui)"
| "encodeValue t (GFloat f) = sret ([CHR 34] @ f @ [CHR 34])"
| "encodeValue t (GTime ns s) = sret (encodeStringValue s)"
| "encodeValue t (GString s) = sret (encodeStringValue s)"
| "encodeValue t (GPtr None) = sret ''null''"
| "encodeValue t (GPtr (Some v)) = encodeValue (elem_type t) v"
| "encodeValue t (GSlice None) = sret ''null''"
| "encodeValue t (GSlice (Some vs)) = sbind (encode_elems (elem_type t) vs) (\<lambda>ss. sret (brackets ss))"
| "encodeValue t (GArray vs) = sbind (encode_elems (elem_type t) vs) (\<lambda>ss. sret (brackets ss))"
| "encodeValue t (GMap None) = sret ''null''"
| "encodeValue t (GMap (Some m)) = sbind (encode_pairs t m) (\<lambda>ss. sret (brackets ss))"
| "encodeValue t (GStruct vs) = sbind (encode_fields (field_types t) vs) (\<lambda>ss. sret (brackets ss))"
| "encodeValue t (GIface None) = sret ''null''"
| "encodeValue t (GIface (Some (u, v))) = typed u (encodeValue u v)"
| "encodeValue t GOther = panic (Errors (''not yet implemented: '' @ typeName (underlying t)))"
| "encode_elems e [] = sret []"
| "encode_elems e (v # vs) = sbind (encodeValue e v) (\<lambda>s. sbind (encode_elems e vs) (\<lambda>ss. sret (s # ss)))"
| "encode_pairs t [] = sret []"
| "encode_pairs t ((k, v) # m) = sbind (encodeValue (key_type t) k) (\<lambda>s. sbind (encodeValue (elem_type t) v) (\<lambda>s'.
     sbind (encode_pairs t m) (\<lambda>ss. sret (s # s' # ss))))"
| "encode_fields ((exported, t) # fs) (v # vs) =
     (if exported then sbind (encodeValue t v) (\<lambda>s. sbind (encode_fields fs vs) (\<lambda>ss. sret (s # ss))) else encode_fields fs vs)"
| "encode_fields _ _ = sret []"
  by pat_completeness auto
termination
  by (relation "measure (case_sum (case_sum (\<lambda>(t, v). size v) (\<lambda>(t, vs). size_list size vs))
      (case_sum (\<lambda>(t, m). size_list (size_prod size size) m) (\<lambda>(fs, vs). size_list size vs)))") auto

text \<open>\<open>Encode\<close> of a Go value, which is nil or has a type; the writer takes everything.\<close>

definition Encode :: "(rtype \<times> gval) option \<Rightarrow> string sres" where
  "Encode x = (case x of None \<Rightarrow> sret ''null'' | Some (t, v) \<Rightarrow> typed t (encodeValue t v))"

section \<open>Reading\<close>

definition isSpace :: "char \<Rightarrow> bool" where
  "isSpace c = (of_char c \<in> {9, 10, 11, 12, 13, 32, 133, 160 :: nat})"

definition isNumber :: "char \<Rightarrow> bool" where
  "isNumber c = (let k = of_char c :: nat in 48 \<le> k \<and> k < 58 \<or> k \<in> {178, 179, 185, 188, 189, 190})"

text \<open>At the end of the input there is no rune to unread.\<close>

definition skipSpace :: "string \<Rightarrow> string sres" where
  "skipSpace r = (case dropWhile isSpace r of [] \<Rightarrow> panic IoError | c # cs \<Rightarrow> sret (c # cs))"

definition check :: "string \<Rightarrow> string \<Rightarrow> (bool \<times> string) sres" where
  "check s r = sbind (skipSpace r) (\<lambda>r. sret (if prefix s r then (True, drop (length s) r) else (False, r)))"

text \<open>\<open>if !d.check(s, r) { panic(errors.New(msg)) }\<close>.\<close>

definition need :: "string \<Rightarrow> string \<Rightarrow> string \<Rightarrow> string sres" where
  "need s msg r = sbind (check s r) (\<lambda>(found, r). if found then sret r else panic (Errors msg))"

fun read_runes :: "bool \<Rightarrow> string \<Rightarrow> (string \<times> string) option" where
  "read_runes escape [] = None"
| "read_runes escape (rn # r) =
     (if \<not> escape \<and> rn = CHR 34 then Some ([], r)
      else map_option (\<lambda>(runes, r). (if escape \<or> rn \<noteq> CHR 92 then rn # runes else runes, r))
        (read_runes (\<not> escape \<and> rn = CHR 92) r))"

definition readStringValue :: "string \<Rightarrow> (string \<times> string) sres" where
  "readStringValue r = sbind (need [CHR 34] (''missing '' @ [CHR 34]) r) (\<lambda>r.
     case read_runes False r of None \<Rightarrow> panic IoError | Some x \<Rightarrow> sret x)"

definition read_number :: "string \<Rightarrow> (string \<times> string) sres" where
  "read_number r = sbind (skipSpace r) (\<lambda>r.
     let num = (\<lambda>c. c = CHR ''-'' \<or> isNumber c) in
     if dropWhile num r = [] then panic IoError else sret (takeWhile num r, dropWhile num r))"

definition readIntValue :: "nat \<Rightarrow> string \<Rightarrow> (int \<times> string) sres" where
  "readIntValue bitSize r = sbind (read_number r) (\<lambda>(b, r). sbind (ParseInt b bitSize) (\<lambda>i. sret (i, r)))"

definition readUintValue :: "nat \<Rightarrow> string \<Rightarrow> (nat \<times> string) sres" where
  "readUintValue bitSize r = sbind (read_number r) (\<lambda>(b, r). sbind (ParseUint b bitSize) (\<lambda>i. sret (i, r)))"

definition decodeBoolValue :: "string \<Rightarrow> (gval \<times> string) sres" where
  "decodeBoolValue r = sbind (check ''true'' r) (\<lambda>(found, r). if found then sret (GBool True, r)
     else sbind (check ''false'' r) (\<lambda>(found, r). if found then sret (GBool False, r)
     else panic (Errors ''unexpected bool value'')))"

section \<open>Decoding\<close>

text \<open>
  Converting what was decoded to an interface type: a value of interface type gives up what it
  holds.
\<close>

definition to_iface :: "rtype \<times> gval \<Rightarrow> (rtype \<times> gval) option" where
  "to_iface x = (if underlying (fst x) = TInterface then (case snd x of GIface y \<Rightarrow> y | _ \<Rightarrow> None) else Some x)"

function decode :: "nat \<Rightarrow> golib \<Rightarrow> (string \<Rightarrow> rtype option) \<Rightarrow> string \<Rightarrow> ((rtype \<times> gval) option \<times> string) sres"
  and decodeType :: "nat \<Rightarrow> golib \<Rightarrow> (string \<Rightarrow> rtype option) \<Rightarrow> rtype \<Rightarrow> string \<Rightarrow> (gval \<times> string) sres"
  and decode_elems :: "nat \<Rightarrow> golib \<Rightarrow> (string \<Rightarrow> rtype option) \<Rightarrow> rtype \<Rightarrow> string \<Rightarrow> (gval list \<times> string) sres"
  and decode_array :: "nat \<Rightarrow> golib \<Rightarrow> (string \<Rightarrow> rtype option) \<Rightarrow> rtype \<Rightarrow> nat \<Rightarrow> bool \<Rightarrow> string
    \<Rightarrow> (gval list \<times> string) sres"
  and decode_pairs :: "nat \<Rightarrow> golib \<Rightarrow> (string \<Rightarrow> rtype option) \<Rightarrow> rtype \<Rightarrow> rtype \<Rightarrow> (gval \<times> gval) list \<Rightarrow> string
    \<Rightarrow> ((gval \<times> gval) list \<times> string) sres"
  and decode_fields :: "nat \<Rightarrow> golib \<Rightarrow> (string \<Rightarrow> rtype option) \<Rightarrow> (bool \<times> rtype) list \<Rightarrow> bool \<Rightarrow> string
    \<Rightarrow> (gval list \<times> string) sres" where
  "decode 0 L types r = None"
| "decode (Suc n) L types r = sbind (check ''null'' r) (\<lambda>(found, r). if found then sret (None, r)
     else sbind (need ''{'' ''missing {'' r) (\<lambda>r. sbind (readStringValue r) (\<lambda>(key, r).
       sbind (need '':'' ''misssing :'' r) (\<lambda>r. sbind (typeFromName types key) (\<lambda>t.
       sbind (decodeType n L types t r) (\<lambda>(v, r). sbind (need ''}'' ''missing }'' r) (\<lambda>r. sret (Some (t, v), r))))))))"
| "decodeType 0 L types t r = None"
| "decodeType (Suc n) L types t r = (case underlying t of
     TBool \<Rightarrow> decodeBoolValue r
   | TInt k \<Rightarrow> sbind (readIntValue (ibits k) r) (\<lambda>(i, r). sret (GInt i, r))
   | TUint k \<Rightarrow> sbind (readUintValue (ubits k) r) (\<lambda>(i, r). sret (GUint i, r))
   | TString \<Rightarrow> sbind (readStringValue r) (\<lambda>(s, r). sret (GString s, r))
   | TFloat k \<Rightarrow> sbind (readStringValue r) (\<lambda>(s, r).
       case ParseFloat L s (fbits k) of None \<Rightarrow> panic NumError | Some f \<Rightarrow> sret (GFloat f, r))
   | TTime \<Rightarrow> sbind (readStringValue r) (\<lambda>(s, r).
       case ParseTime L s of None \<Rightarrow> panic TimeError | Some (ns, x) \<Rightarrow> sret (GTime ns x, r))
   | TPtr e \<Rightarrow> sbind (check ''null'' r) (\<lambda>(found, r). if found then sret (GPtr None, r)
       else sbind (decodeType n L types e r) (\<lambda>(v, r). sret (GPtr (Some v), r)))
   | TSlice e \<Rightarrow> sbind (check ''null'' r) (\<lambda>(found, r). if found then sret (GSlice None, r)
       else sbind (need ''['' ''missing ['' r) (\<lambda>r. sbind (check '']'' r) (\<lambda>(finished, r).
         if finished then sret (GSlice (Some []), r)
         else sbind (decode_elems n L types e r) (\<lambda>(vs, r). sret (GSlice (Some vs), r)))))
   | TArray len e \<Rightarrow> sbind (need ''['' ''missing ['' r) (\<lambda>r. sbind (decode_array n L types e len True r) (\<lambda>(vs, r).
       sbind (need '']'' ''missing ]'' r) (\<lambda>r. sret (GArray vs, r))))
   | TMap k e \<Rightarrow> sbind (check ''null'' r) (\<lambda>(found, r). if found then sret (GMap None, r)
       else sbind (need ''['' ''missing ['' r) (\<lambda>r. sbind (decode_pairs n L types k e [] r) (\<lambda>(m, r). sret (GMap (Some m), r))))
   | TStruct fs \<Rightarrow> sbind (need ''['' ''missing ['' r) (\<lambda>r. sbind (decode_fields n L types fs True r) (\<lambda>(vs, r).
       sbind (need '']'' ''missing }'' r) (\<lambda>r. sret (GStruct vs, r))))
   | TInterface \<Rightarrow> sbind (decode n L types r) (\<lambda>(x, r). sret (GIface (case x of
         None \<Rightarrow> None
       | Some (u, v) \<Rightarrow> if Implements L u t then to_iface (u, v) else None), r))
   | _ \<Rightarrow> panic (Errors (''unknown type '' @ typeName t)))"
| "decode_elems 0 L types e r = None"
| "decode_elems (Suc n) L types e r = sbind (decodeType n L types e r) (\<lambda>(v, r).
     sbind (check '','' r) (\<lambda>(comma, r).
       if comma then sbind (decode_elems n L types e r) (\<lambda>(vs, r). sret (v # vs, r))
       else sbind (need '']'' ''missing , or ]'' r) (\<lambda>r. sret ([v], r))))"
| "decode_array 0 L types e len first r = None"
| "decode_array (Suc n) L types e len first r = (case len of
     0 \<Rightarrow> sret ([], r)
   | Suc len \<Rightarrow> sbind (if first then sret r else need '','' ''missing ,'' r) (\<lambda>r.
       sbind (decodeType n L types e r) (\<lambda>(v, r).
       sbind (decode_array n L types e len False r) (\<lambda>(vs, r). sret (v # vs, r)))))"
| "decode_pairs 0 L types k e m r = None"
| "decode_pairs (Suc n) L types k e m r = sbind (decodeType n L types k r) (\<lambda>(key, r).
     sbind (need '','' ''missing ,'' r) (\<lambda>r. sbind (decodeType n L types e r) (\<lambda>(v, r).
       if \<not> hashable key then panic RuntimeError
       else (let m = SetMapIndex L key v m in sbind (check '','' r) (\<lambda>(comma, r).
         if comma then decode_pairs n L types k e m r
         else sbind (need '']'' ''missing , or ]'' r) (\<lambda>r. sret (m, r)))))))"
| "decode_fields 0 L types fs first r = None"
| "decode_fields (Suc n) L types fs first r = (case fs of
     [] \<Rightarrow> sret ([], r)
   | (exported, t) # fs \<Rightarrow>
       if \<not> exported then sbind (decode_fields n L types fs first r) (\<lambda>(vs, r). sret (zero t # vs, r))
       else sbind (if first then sret r else need '','' ''missing ,'' r) (\<lambda>r.
         sbind (decodeType n L types t r) (\<lambda>(v, r).
         sbind (decode_fields n L types fs False r) (\<lambda>(vs, r). sret (v # vs, r)))))"
  by pat_completeness auto
termination
  by (relation "measure (case_sum (case_sum fst (case_sum fst fst)) (case_sum fst (case_sum fst fst)))") auto

text \<open>\<open>Decode\<close> into a variable of type \<open>interface{}\<close>.\<close>

definition Decode :: "nat \<Rightarrow> golib \<Rightarrow> (string \<Rightarrow> rtype option) \<Rightarrow> string \<Rightarrow> (rtype \<times> gval) option sres" where
  "Decode n L types s = sbind (decode n L types s) (\<lambda>(x, r). sret (case x of None \<Rightarrow> None | Some x \<Rightarrow> to_iface x))"

end
