(* ===== verification/Dot_Sjson_Laws.thy ===== *)
theory Dot_Sjson_Laws
  imports Dot_Sjson
begin

text \<open>
  What the codec reads is what it wrote: names of types lead back to the types, and the value that
  was encoded is decoded again, for the values for which this holds. Those are described by
  \<open>portable\<close>; each of its restrictions is a value that the codec does not return as it was.
\<close>

section \<open>Names of types\<close>

definition clean :: "string \<Rightarrow> bool" where
  "clean s = list_all (\<lambda>c. c \<noteq> CHR ''['' \<and> c \<noteq> CHR '']'' \<and> c \<noteq> CHR 34 \<and> c \<noteq> CHR 92) s"

text \<open>A name is not registered for another type.\<close>

definition unshadowed :: "(string \<Rightarrow> rtype option) \<Rightarrow> rtype \<Rightarrow> bool" where
  "unshadowed types t = (case types (typeName t) of None \<Rightarrow> True | Some u \<Rightarrow> u = t)"

definition registered :: "(string \<Rightarrow> rtype option) \<Rightarrow> rtype \<Rightarrow> bool" where
  "registered types t = (types (typeName t) = Some t \<and> clean (typeName t))"

fun resolves :: "(string \<Rightarrow> rtype option) \<Rightarrow> rtype \<Rightarrow> bool" where
  "resolves types (TNamed p n t) = registered types (TNamed p n t)"
| "resolves types (TPtr t) = (unshadowed types (TPtr t) \<and> resolves types t)"
| "resolves types (TSlice t) = (unshadowed types (TSlice t) \<and> resolves types t)"
| "resolves types (TArray n t) = (unshadowed types (TArray n t) \<and> n < 2 ^ 31 \<and> resolves types t)"
| "resolves types (TMap k t) = (unshadowed types (TMap k t) \<and> comparable k \<and> resolves types k \<and> resolves types t)"
| "resolves types (TStruct fs) = registered types (TStruct fs)"
| "resolves types TInterface = registered types TInterface"
| "resolves types (TOther kind) = registered types (TOther kind)"
| "resolves types t = unshadowed types t"

lemma text_nat_digits:
  assumes "2 \<le> b"
  shows "c \<in> set (text_nat b k) \<Longrightarrow> \<exists>d < b. c = digit d"
proof (induction k rule: less_induct)
  case (less k)
  show ?case
  proof (cases "k < b")
    case True
    then show ?thesis using less.prems by (auto simp: text_nat.simps [of b k])
  next
    case False
    have d: "k div b < k" using assms False by (intro div_less_dividend) auto
    have "c \<in> set (text_nat b (k div b)) \<or> c = digit (k mod b)"
      using less.prems assms False by (auto simp: text_nat.simps [of b k] not_less)
    moreover have "k mod b < b" using assms by simp
    ultimately show ?thesis using less.IH [OF d] by blast
  qed
qed

lemma digit_facts:
  assumes "d < 10"
  shows "isNumber (digit d)" "\<not> isSpace (digit d)" "digit d \<noteq> CHR '']''" "digit d \<noteq> CHR ''[''" "digit d \<noteq> CHR 34" "digit d \<noteq> CHR 92"
    "digit d \<noteq> CHR ''n''"
proof -
  have k: "of_char (digit d) = (48 + d :: nat)" using assms by (simp add: digit_def of_char_of)
  then show "isNumber (digit d)" "\<not> isSpace (digit d)" using assms by (auto simp: isNumber_def isSpace_def)
  show "digit d \<noteq> CHR '']''" "digit d \<noteq> CHR ''[''" "digit d \<noteq> CHR 34" "digit d \<noteq> CHR 92" "digit d \<noteq> CHR ''n''"
    using k assms by (auto dest!: arg_cong [where f = "of_char :: char \<Rightarrow> nat"])
qed

lemma text_nat_facts:
  assumes "c \<in> set (text_nat 10 k)"
  shows "isNumber c" "\<not> isSpace c" "c \<noteq> CHR '']''" "c \<noteq> CHR ''[''" "c \<noteq> CHR 34" "c \<noteq> CHR 92" "c \<noteq> CHR ''n''"
  using text_nat_digits [OF _ assms] digit_facts by auto

lemma Itoa_clean: "clean (Itoa (int n))"
  using text_nat_facts by (auto simp: clean_def Itoa_def text_int_def list_all_iff)

lemma map_split_clean: "clean s \<Longrightarrow> 0 \<le> count \<Longrightarrow> map_split count r = Some (k, e) \<Longrightarrow> map_split count (s @ r) = Some (s @ k, e)"
  by (induction s) (auto simp: clean_def)

lemma ikind_name_clean: "clean (ikind_name k)" by (cases k) (simp_all add: clean_def ikind_name_def)

lemma fkind_name_clean: "clean (fkind_name k)" by (cases k) (simp_all add: clean_def fkind_name_def)

lemma ukind_name_clean: "clean (ukind_name k)" by (cases k) (simp_all add: clean_def ukind_name_def)

lemma map_split_name:
  "resolves types t \<Longrightarrow> 0 \<le> count \<Longrightarrow> map_split count r = Some (k, e) \<Longrightarrow> map_split count (typeName t @ r) = Some (typeName t @ k, e)"
proof (induction t arbitrary: count r k)
  case (TMap u t)
  then have "map_split count (typeName t @ r) = Some (typeName t @ k, e)" by simp
  then have "map_split (count + 1) (CHR '']'' # typeName t @ r) = Some (CHR '']'' # typeName t @ k, e)" using TMap.prems(2) by simp
  then have "map_split (count + 1) (typeName u @ CHR '']'' # typeName t @ r) = Some (typeName u @ CHR '']'' # typeName t @ k, e)"
    using TMap.IH(1) TMap.prems by simp
  then show ?case using TMap.prems(2) by simp
next
  case (TArray n t)
  then have "map_split count (typeName t @ r) = Some (typeName t @ k, e)" by simp
  then have "map_split (count + 1) (CHR '']'' # typeName t @ r) = Some (CHR '']'' # typeName t @ k, e)" using TArray.prems(2) by simp
  then have "map_split (count + 1) (Itoa (int n) @ CHR '']'' # typeName t @ r) = Some (Itoa (int n) @ CHR '']'' # typeName t @ k, e)"
    using map_split_clean [OF Itoa_clean] TArray.prems(2) by simp
  then show ?case using TArray.prems(2) by simp
next
  case (TNamed p n t)
  then show ?case using map_split_clean by (metis registered_def resolves.simps(1))
next
  case (TInt i)
  then show ?case using map_split_clean [OF ikind_name_clean] by simp
next
  case (TUint i)
  then show ?case using map_split_clean [OF ukind_name_clean] by simp
next
  case (TFloat i)
  then show ?case using map_split_clean [OF fkind_name_clean] by simp
qed (auto simp: registered_def intro!: map_split_clean)

lemma default_ikind: "typesDefault (ikind_name k) = Some (TInt k)"
  by (cases k) (simp_all add: typesDefault_def ikind_name_def)

lemma default_ukind: "typesDefault (ukind_name k) = Some (TUint k)"
  by (cases k) (simp_all add: typesDefault_def ukind_name_def)

lemma default_fkind: "typesDefault (fkind_name k) = Some (TFloat k)"
  by (cases k) (simp_all add: typesDefault_def fkind_name_def)

lemma default_none:
  "typesDefault (CHR ''*'' # s) = None" "typesDefault (CHR ''['' # s) = None" "typesDefault (CHR ''m'' # s) = None"
  by (simp_all add: typesDefault_def)

lemma ParseInt_Itoa: "n < 2 ^ 31 \<Longrightarrow> ParseInt (Itoa (int n)) 32 = sret (int n)"
  using parse_text_int [of 10 "int n"] by (simp add: ParseInt_def Itoa_def)

lemma array_split_name: "array_split (typeName (TArray n t)) = Some (Itoa (int n), typeName t)"
proof -
  have "c \<noteq> CHR '']''" if "c \<in> set (Itoa (int n))" for c using Itoa_clean [of n] that by (auto simp: clean_def list_all_iff)
  then show ?thesis by (auto simp: array_split_def)
qed

lemma typeFromName_typeName: "resolves types t \<Longrightarrow> typeFromName types (typeName t) = sret t"
proof (induction t)
  case (TArray n t)
  obtain c cs where c: "Itoa (int n) = c # cs" by (cases "Itoa (int n)") (auto simp: Itoa_def text_int_def)
  then have "c \<noteq> CHR '']''" using Itoa_clean [of n] by (auto simp: clean_def)
  then have "\<not> prefix ''[]'' (typeName (TArray n t))" "\<not> prefix ''*'' (typeName (TArray n t))" using c by auto
  moreover have "typesDefault (typeName (TArray n t)) = None" by (simp add: default_none)
  ultimately show ?case using TArray ParseInt_Itoa array_split_name [of n t]
    by (subst typeFromName.simps) (auto simp: unshadowed_def simp del: typeName.simps split: option.splits)
next
  case (TMap k t)
  have "map_split 0 (typeName k @ CHR '']'' # typeName t) = Some (typeName k, typeName t)"
    using map_split_name [of types k 0 "CHR '']'' # typeName t"] TMap.prems by simp
  then show ?case using TMap
    by (subst typeFromName.simps) (auto simp: unshadowed_def default_none array_split_def split: option.splits)
next
  case (TInt k)
  then show ?case by (subst typeFromName.simps) (auto simp: unshadowed_def default_ikind split: option.splits)
next
  case (TUint k)
  then show ?case by (subst typeFromName.simps) (auto simp: unshadowed_def default_ukind split: option.splits)
next
  case (TFloat k)
  then show ?case by (subst typeFromName.simps) (auto simp: unshadowed_def default_fkind split: option.splits)
next
  case TTime
  then show ?case by (subst typeFromName.simps) (auto simp: unshadowed_def typesDefault_def split: option.splits)
next
  case TBool
  then show ?case by (subst typeFromName.simps) (auto simp: unshadowed_def typesDefault_def split: option.splits)
next
  case TString
  then show ?case by (subst typeFromName.simps) (auto simp: unshadowed_def typesDefault_def split: option.splits)
next
  case (TPtr t)
  then show ?case by (subst typeFromName.simps) (auto simp: unshadowed_def default_none split: option.splits)
next
  case (TSlice t)
  then show ?case by (subst typeFromName.simps) (auto simp: unshadowed_def default_none split: option.splits)
qed (subst typeFromName.simps, simp add: registered_def)+

lemma clean_plain: "clean s \<Longrightarrow> CHR 34 \<notin> set s \<and> CHR 92 \<notin> set s"
  by (auto simp: clean_def list_all_iff)

lemma typeName_plain: "resolves types t \<Longrightarrow> CHR 34 \<notin> set (typeName t) \<and> CHR 92 \<notin> set (typeName t)"
proof (induction t)
  case (TInt k)
  then show ?case using clean_plain [OF ikind_name_clean] by simp
next
  case (TUint k)
  then show ?case using clean_plain [OF ukind_name_clean] by simp
next
  case (TFloat k)
  then show ?case using clean_plain [OF fkind_name_clean] by simp
next
  case (TArray n t)
  then show ?case using clean_plain [OF Itoa_clean] by auto
next
  case (TNamed p n t)
  then show ?case using clean_plain by (metis registered_def resolves.simps(1))
next
  case (TOther k)
  then show ?case using clean_plain by (metis registered_def resolves.simps(8))
qed auto

section \<open>Reading tokens\<close>

lemma skipSpace_at: "\<not> isSpace c \<Longrightarrow> skipSpace (c # r) = sret (c # r)"
  by (simp add: skipSpace_def)

lemma check_at: "\<not> isSpace c \<Longrightarrow> check s (c # r) = sret (if prefix s (c # r) then (True, drop (length s) (c # r)) else (False, c # r))"
  by (simp add: check_def skipSpace_at)

lemma need_at: "\<not> isSpace c \<Longrightarrow> prefix s (c # r) \<Longrightarrow> need s msg (c # r) = sret (drop (length s) (c # r))"
  by (simp add: need_def check_at)

lemma space_facts [simp]:
  "\<not> isSpace (CHR ''['')" "\<not> isSpace (CHR '']'')" "\<not> isSpace (CHR ''{'')" "\<not> isSpace (CHR ''}'')" "\<not> isSpace (CHR '','')"
  "\<not> isSpace (CHR '':'')" "\<not> isSpace (CHR 34)" "\<not> isSpace (CHR ''t'')" "\<not> isSpace (CHR ''f'')" "\<not> isSpace (CHR ''n'')" "\<not> isSpace (CHR ''-'')"
  "isSpace (CHR '' '')"
  by (simp_all add: isSpace_def)

text \<open>What follows a value: a comma or a closing bracket.\<close>

definition follow :: "string \<Rightarrow> bool" where
  "follow r = (case r of [] \<Rightarrow> False | c # _ \<Rightarrow> c = CHR '','' \<or> c = CHR '']'' \<or> c = CHR ''}'')"

lemma follow_simps [simp]: "follow (CHR '','' # r)" "follow (CHR '']'' # r)" "follow (CHR ''}'' # r)" "\<not> follow []"
  by (simp_all add: follow_def)

lemma read_runes_plain: "CHR 34 \<notin> set s \<Longrightarrow> CHR 92 \<notin> set s \<Longrightarrow> read_runes False (s @ CHR 34 # r) = Some (s, r)"
  by (induction s) auto

lemma read_runes_escape: "CHR 92 \<notin> set s \<Longrightarrow> read_runes False (escape_runes s @ CHR 34 # r) = Some (s, r)"
  by (induction s) auto

lemma readStringValue_at: "read_runes False r = Some (s, r') \<Longrightarrow> readStringValue (CHR 34 # r) = sret (s, r')"
  by (simp add: readStringValue_def need_at)

lemma number_end: "follow r \<Longrightarrow> \<exists>c cs. r = c # cs \<and> c \<noteq> CHR ''-'' \<and> \<not> isNumber c"
  by (auto simp: follow_def isNumber_def split: list.splits)

lemma read_number_at:
  assumes "s \<noteq> []" "\<And>c. c \<in> set s \<Longrightarrow> c = CHR ''-'' \<or> isNumber c" "\<not> isSpace (hd s)" "follow r"
  shows "read_number (s @ r) = sret (s, r)"
proof -
  obtain c cs d ds where s: "s = c # cs" "r = d # ds" "d \<noteq> CHR ''-''" "\<not> isNumber d"
    using assms(1) number_end [OF assms(4)] by (cases s) auto
  let ?num = "\<lambda>c. c = CHR ''-'' \<or> isNumber c"
  have "takeWhile ?num (s @ r) = s" "dropWhile ?num (s @ r) = r" using assms(2) s(2-4) by (simp_all add: takeWhile_append2 dropWhile_append2)
  moreover have "skipSpace (s @ r) = sret (s @ r)" using s(1) assms(3) by (simp add: skipSpace_at)
  ultimately show ?thesis using s(2) by (simp add: read_number_def Let_def del: dropWhile_eq_Nil_conv)
qed

lemma encodeUintValue_chars: "c \<in> set (encodeUintValue k) \<Longrightarrow> isNumber c \<and> \<not> isSpace c \<and> c \<noteq> CHR '']'' \<and> c \<noteq> CHR ''n''"
  using text_nat_facts unfolding encodeUintValue_def by blast

lemma encodeIntValue_chars: "c \<in> set (encodeIntValue i) \<Longrightarrow> (c = CHR ''-'' \<or> isNumber c) \<and> \<not> isSpace c \<and> c \<noteq> CHR '']'' \<and> c \<noteq> CHR ''n''"
proof -
  assume "c \<in> set (encodeIntValue i)"
  then consider "c = CHR ''-''" | k where "c \<in> set (text_nat 10 k)" by (auto simp: encodeIntValue_def text_int_def split: if_splits)
  then show ?thesis
  proof cases
    case (2 k)
    from text_nat_facts [OF this] show ?thesis by blast
  qed simp
qed

lemma encode_number_Nil [simp]: "encodeIntValue i \<noteq> []" "encodeUintValue k \<noteq> []"
  by (simp_all add: encodeIntValue_def text_int_def encodeUintValue_def)

lemma readIntValue_at:
  assumes "- (2 ^ (bits - 1)) \<le> i" "i < 2 ^ (bits - 1)" "follow r"
  shows "readIntValue bits (encodeIntValue i @ r) = sret (i, r)"
proof -
  have "read_number (encodeIntValue i @ r) = sret (encodeIntValue i, r)"
    using encodeIntValue_chars encodeIntValue_chars [OF hd_in_set] assms(3) by (intro read_number_at) auto
  moreover have "ParseInt (encodeIntValue i) bits = sret i"
    using parse_text_int [of 10 i] assms(1,2) by (simp add: ParseInt_def encodeIntValue_def)
  ultimately show ?thesis by (simp add: readIntValue_def)
qed

lemma readUintValue_at:
  assumes "k < 2 ^ bits" "follow r"
  shows "readUintValue bits (encodeUintValue k @ r) = sret (k, r)"
proof -
  have "read_number (encodeUintValue k @ r) = sret (encodeUintValue k, r)"
    using encodeUintValue_chars encodeUintValue_chars [OF hd_in_set] assms(2) by (intro read_number_at) auto
  moreover have "ParseUint (encodeUintValue k) bits = sret k"
    using parse_text_nat [of 10 k] assms(1) by (simp add: ParseUint_def encodeUintValue_def)
  ultimately show ?thesis by (simp add: readUintValue_def)
qed

section \<open>Values that come back\<close>

fun is_nil :: "gval \<Rightarrow> bool" where
  "is_nil (GPtr x) = (x = None)"
| "is_nil (GSlice x) = (x = None)"
| "is_nil (GMap x) = (x = None)"
| "is_nil (GIface x) = (x = None)"
| "is_nil v = False"

fun apart :: "golib \<Rightarrow> gval list \<Rightarrow> bool" where
  "apart L [] = True"
| "apart L (k # ks) = (list_all (\<lambda>k'. \<not> go_eq L k' k) ks \<and> apart L ks)"

text \<open>
  A value of the type, with numbers in range, floats and times that the library reads as it writes them
  (a time has no fraction of a second then), no backslash in a string, no pointer to something that
  is written as null, no empty map, keys that differ, the zero value in fields that are not
  exported, and in an interface only types that implement it and can be found by name.
\<close>

function (sequential) portable :: "golib \<Rightarrow> (string \<Rightarrow> rtype option) \<Rightarrow> rtype \<Rightarrow> gval \<Rightarrow> bool"
  and portable_elems :: "golib \<Rightarrow> (string \<Rightarrow> rtype option) \<Rightarrow> rtype \<Rightarrow> gval list \<Rightarrow> bool"
  and portable_pairs :: "golib \<Rightarrow> (string \<Rightarrow> rtype option) \<Rightarrow> rtype \<Rightarrow> rtype \<Rightarrow> (gval \<times> gval) list \<Rightarrow> bool"
  and portable_fields :: "golib \<Rightarrow> (string \<Rightarrow> rtype option) \<Rightarrow> (bool \<times> rtype) list \<Rightarrow> gval list \<Rightarrow> bool" where
  "portable L types t (GBool b) = (underlying t = TBool)"
| "portable L types t (GInt i) = (case underlying t of TInt k \<Rightarrow> - (2 ^ (ibits k - 1)) \<le> i \<and> i < 2 ^ (ibits k - 1) | _ \<Rightarrow> False)"
| "portable L types t (GUint i) = (case underlying t of TUint k \<Rightarrow> i < 2 ^ ubits k | _ \<Rightarrow> False)"
| "portable L types t (GFloat f) = (case underlying t of
     TFloat k \<Rightarrow> ParseFloat L f (fbits k) = Some f \<and> CHR 34 \<notin> set f \<and> CHR 92 \<notin> set f | _ \<Rightarrow> False)"
| "portable L types t (GTime ns s) = (underlying t = TTime \<and> ParseTime L s = Some (ns, s) \<and> CHR 92 \<notin> set s)"
| "portable L types t (GString s) = (underlying t = TString \<and> CHR 92 \<notin> set s)"
| "portable L types t (GPtr None) = (case underlying t of TPtr e \<Rightarrow> True | _ \<Rightarrow> False)"
| "portable L types t (GPtr (Some v)) = (case underlying t of TPtr e \<Rightarrow> \<not> is_nil v \<and> portable L types e v | _ \<Rightarrow> False)"
| "portable L types t (GSlice None) = (case underlying t of TSlice e \<Rightarrow> True | _ \<Rightarrow> False)"
| "portable L types t (GSlice (Some vs)) = (case underlying t of TSlice e \<Rightarrow> portable_elems L types e vs | _ \<Rightarrow> False)"
| "portable L types t (GArray vs) = (case underlying t of TArray n e \<Rightarrow> n = length vs \<and> portable_elems L types e vs | _ \<Rightarrow> False)"
| "portable L types t (GMap None) = (case underlying t of TMap k e \<Rightarrow> True | _ \<Rightarrow> False)"
| "portable L types t (GMap (Some m)) = (case underlying t of
     TMap k e \<Rightarrow> m \<noteq> [] \<and> apart L (map fst m) \<and> portable_pairs L types k e m | _ \<Rightarrow> False)"
| "portable L types t (GStruct vs) = (case underlying t of TStruct fs \<Rightarrow> portable_fields L types fs vs | _ \<Rightarrow> False)"
| "portable L types t (GIface None) = (underlying t = TInterface)"
| "portable L types t (GIface (Some (u, v))) =
     (underlying t = TInterface \<and> Implements L u t \<and> underlying u \<noteq> TInterface \<and> resolves types u \<and> portable L types u v)"
| "portable L types t GOther = False"
| "portable_elems L types e [] = True"
| "portable_elems L types e (v # vs) = (portable L types e v \<and> portable_elems L types e vs)"
| "portable_pairs L types k e [] = True"
| "portable_pairs L types k e ((a, b) # m) =
     (hashable a \<and> portable L types k a \<and> portable L types e b \<and> portable_pairs L types k e m)"
| "portable_fields L types [] vs = (vs = [])"
| "portable_fields L types (f # fs) [] = False"
| "portable_fields L types ((exported, t) # fs) (v # vs) =
     ((if exported then portable L types t v else v = zero t) \<and> portable_fields L types fs vs)"
  by pat_completeness auto
termination
  by (relation "measure (case_sum (case_sum (\<lambda>(_, _, t, v). size v) (\<lambda>(_, _, t, vs). size_list size vs))
      (case_sum (\<lambda>(_, _, k, e, m). size_list (size_prod size size) m) (\<lambda>(_, _, fs, vs). size_list size vs)))") auto

lemma underlying_types:
  "underlying t = TPtr e \<Longrightarrow> elem_type t = e" "underlying t = TSlice e \<Longrightarrow> elem_type t = e" "underlying t = TArray n e \<Longrightarrow> elem_type t = e"
  "underlying t = TMap k e \<Longrightarrow> elem_type t = e \<and> key_type t = k" "underlying t = TStruct fs \<Longrightarrow> field_types t = fs"
  by (induction t; simp)+

section \<open>With enough fuel\<close>

definition ev :: "(nat \<Rightarrow> bool) \<Rightarrow> bool" where
  "ev P = (\<exists>k. \<forall>n \<ge> k. P n)"

lemma ev_now: "(\<And>n. P (Suc n)) \<Longrightarrow> ev P"
  unfolding ev_def by (metis Suc_le_D)

lemma ev_one: "ev P \<Longrightarrow> (\<And>n. P n \<Longrightarrow> R (Suc n)) \<Longrightarrow> ev R"
  unfolding ev_def by (metis Suc_le_D Suc_le_mono)

lemma ev_conj: "ev P \<Longrightarrow> ev Q \<Longrightarrow> ev (\<lambda>n. P n \<and> Q n)"
  unfolding ev_def by (metis le_trans linorder_le_cases)

lemma ev_two: "ev P \<Longrightarrow> ev Q \<Longrightarrow> (\<And>n. P n \<Longrightarrow> Q n \<Longrightarrow> R (Suc n)) \<Longrightarrow> ev R"
  using ev_one [OF ev_conj] by blast

section \<open>What is decoded from the text of a value\<close>

definition good :: "golib \<Rightarrow> (string \<Rightarrow> rtype option) \<Rightarrow> rtype \<Rightarrow> gval \<Rightarrow> string \<Rightarrow> bool" where
  "good L types t v s \<longleftrightarrow> s \<noteq> [] \<and> \<not> isSpace (hd s) \<and> hd s \<noteq> CHR '']'' \<and> (hd s = CHR ''n'' \<longrightarrow> is_nil v)
     \<and> (\<forall>r. follow r \<longrightarrow> ev (\<lambda>n. decodeType n L types t (s @ r) = sret (v, r)))"

lemma goodD: "good L types t v s \<Longrightarrow> follow r \<Longrightarrow> ev (\<lambda>n. decodeType n L types t (s @ r) = sret (v, r))"
  by (simp add: good_def)

lemma commas_Cons: "commas (s # ss) = s @ (if ss = [] then [] else CHR '','' # commas ss)"
  by (cases ss) simp_all

lemmas token_simps = need_def check_at

lemma decode_elems_back:
  "list_all2 (good L types e) vs ss \<Longrightarrow> vs \<noteq> [] \<Longrightarrow> ev (\<lambda>n. decode_elems n L types e (commas ss @ CHR '']'' # r) = sret (vs, r))"
proof (induction rule: list_all2_induct)
  case (Cons v vs s ss)
  show ?case
  proof (cases vs)
    case Nil
    then have "ss = []" using Cons(2) by simp
    then show ?thesis using Nil by (intro ev_one [OF goodD [OF Cons(1), of "CHR '']'' # r"]]) (simp_all add: token_simps)
  next
    case (Cons w ws)
    then have "ss \<noteq> []" using \<open>list_all2 (good L types e) vs ss\<close> by auto
    have "ev (\<lambda>n. decodeType n L types e (s @ CHR '','' # commas ss @ CHR '']'' # r) = sret (v, CHR '','' # commas ss @ CHR '']'' # r))"
      by (rule goodD [OF \<open>good L types e v s\<close>]) simp
    moreover have "ev (\<lambda>n. decode_elems n L types e (commas ss @ CHR '']'' # r) = sret (vs, r))" using Cons.IH Cons by simp
    ultimately show ?thesis by (rule ev_two) (use \<open>ss \<noteq> []\<close> in \<open>simp add: token_simps commas_Cons\<close>)
  qed
qed simp

definition comma_if :: "bool \<Rightarrow> string list \<Rightarrow> string" where
  "comma_if first ss = (if first \<or> ss = [] then commas ss else CHR '','' # commas ss)"

lemma comma_if_Cons: "comma_if first (s # ss) = (if first then s else CHR '','' # s) @ comma_if False ss"
  by (simp add: comma_if_def commas_Cons)

lemma follow_comma_if: "follow r \<Longrightarrow> follow (comma_if False ss @ r)"
  by (simp add: comma_if_def)

lemma decode_array_back:
  "list_all2 (good L types e) vs ss \<Longrightarrow> follow r \<Longrightarrow>
     ev (\<lambda>n. decode_array n L types e (length vs) first (comma_if first ss @ r) = sret (vs, r))"
proof (induction arbitrary: first rule: list_all2_induct)
  case Nil
  then show ?case by (intro ev_now) (simp add: comma_if_def)
next
  case (Cons v vs s ss)
  have "ev (\<lambda>n. decodeType n L types e (s @ comma_if False ss @ r) = sret (v, comma_if False ss @ r))"
    by (rule goodD [OF Cons(1) follow_comma_if [OF Cons.prems]])
  moreover have "ev (\<lambda>n. decode_array n L types e (length vs) False (comma_if False ss @ r) = sret (vs, r))"
    using Cons.IH Cons.prems by simp
  ultimately show ?case by (rule ev_two) (cases first, simp_all add: token_simps comma_if_Cons)
qed

fun good_pairs :: "golib \<Rightarrow> (string \<Rightarrow> rtype option) \<Rightarrow> rtype \<Rightarrow> rtype \<Rightarrow> (gval \<times> gval) list \<Rightarrow> string list \<Rightarrow> bool" where
  "good_pairs L types k e ((a, b) # m) (s # s' # ss) =
     (hashable a \<and> good L types k a s \<and> good L types e b s' \<and> good_pairs L types k e m ss)"
| "good_pairs L types k e [] ss = (ss = [])"
| "good_pairs L types k e m ss = False"

lemma SetMapIndex_new: "list_all (\<lambda>k'. \<not> go_eq L k k') (map fst m) \<Longrightarrow> SetMapIndex L k v m = m @ [(k, v)]"
  by (induction m) auto

lemma decode_pairs_back:
  "good_pairs L types k e m ss \<Longrightarrow> m \<noteq> [] \<Longrightarrow> apart L (map fst (m0 @ m)) \<Longrightarrow>
     ev (\<lambda>n. decode_pairs n L types k e m0 (commas ss @ CHR '']'' # r) = sret (m0 @ m, r))"
proof (induction L types k e m ss arbitrary: m0 rule: good_pairs.induct)
  case (1 L types k e a b m s s' ss)
  have g: "hashable a" "good L types k a s" "good L types e b s'" "good_pairs L types k e m ss" using 1(2) by auto
  have apart_front: "apart L (ks @ x # ys) \<Longrightarrow> list_all (\<lambda>k'. \<not> go_eq L x k') ks" for ks x ys by (induction ks) auto
  then have set: "SetMapIndex L a b m0 = m0 @ [(a, b)]" using 1(4) by (intro SetMapIndex_new) simp
  have k: "ev (\<lambda>n. decodeType n L types k (s @ CHR '','' # z) = sret (a, CHR '','' # z))" for z by (rule goodD [OF g(2)]) simp
  show ?case
  proof (cases "m = []")
    case True
    then have "ss = []" using g(4) by (cases ss) auto
    have v: "ev (\<lambda>n. decodeType n L types e (s' @ CHR '']'' # r) = sret (b, CHR '']'' # r))" by (rule goodD [OF g(3)]) simp
    show ?thesis by (rule ev_two [OF k [of "s' @ CHR '']'' # r"] v]) (use \<open>ss = []\<close> True g(1) set in \<open>simp add: token_simps\<close>)
  next
    case False
    then have "ss \<noteq> []" using g(4) by (cases m) auto
    have v: "ev (\<lambda>n. decodeType n L types e (s' @ CHR '','' # commas ss @ CHR '']'' # r) = sret (b, CHR '','' # commas ss @ CHR '']'' # r))"
      by (rule goodD [OF g(3)]) simp
    have m: "ev (\<lambda>n. decode_pairs n L types k e (m0 @ [(a, b)]) (commas ss @ CHR '']'' # r) = sret ((m0 @ [(a, b)]) @ m, r))"
      using 1(1) [OF g(4) False, of "m0 @ [(a, b)]"] 1(4) by simp
    show ?thesis
      by (rule ev_two [OF ev_conj [OF k [of "s' @ CHR '','' # commas ss @ CHR '']'' # r"] v] m])
        (use \<open>ss \<noteq> []\<close> g(1) set in \<open>simp add: token_simps commas_Cons\<close>)
  qed
qed auto

fun good_fields :: "golib \<Rightarrow> (string \<Rightarrow> rtype option) \<Rightarrow> (bool \<times> rtype) list \<Rightarrow> gval list \<Rightarrow> string list \<Rightarrow> bool" where
  "good_fields L types [] vs ss = (vs = [] \<and> ss = [])"
| "good_fields L types ((exported, t) # fs) vs ss = (case vs of [] \<Rightarrow> False | v # vs \<Rightarrow>
     if exported then (case ss of [] \<Rightarrow> False | s # ss \<Rightarrow> good L types t v s \<and> good_fields L types fs vs ss)
     else v = zero t \<and> good_fields L types fs vs ss)"

lemma decode_fields_back:
  "good_fields L types fs vs ss \<Longrightarrow> follow r \<Longrightarrow>
     ev (\<lambda>n. decode_fields n L types fs first (comma_if first ss @ r) = sret (vs, r))"
proof (induction L types fs vs ss arbitrary: first rule: good_fields.induct)
  case (1 L types vs ss)
  then show ?case by (intro ev_now) (simp add: comma_if_def)
next
  case (2 L types exported t fs vs ss)
  obtain w ws where v: "vs = w # ws" using 2(3) by (cases vs) auto
  show ?case
  proof (cases exported)
    case True
    then obtain s zs where s: "ss = s # zs" "good L types t w s" "good_fields L types fs ws zs" using 2(3) v by (cases ss) auto
    have "ev (\<lambda>n. decodeType n L types t (s @ comma_if False zs @ r) = sret (w, comma_if False zs @ r))"
      by (rule goodD [OF s(2) follow_comma_if [OF 2(4)]])
    moreover have "ev (\<lambda>n. decode_fields n L types fs False (comma_if False zs @ r) = sret (ws, r))"
      using 2(1) [OF v True s(1)] s(3) 2(4) by simp
    ultimately show ?thesis by (rule ev_two) (use True v s(1) in \<open>cases first, simp_all add: token_simps comma_if_Cons\<close>)
  next
    case False
    then have "ev (\<lambda>n. decode_fields n L types fs first (comma_if first ss @ r) = sret (ws, r))" using 2(2) [OF v False] 2(3,4) v by simp
    then show ?thesis by (rule ev_one) (use False v 2(3) in simp)
  qed
qed

section \<open>Every kind of value\<close>

lemma goodI:
  "s = c # cs \<Longrightarrow> \<not> isSpace c \<Longrightarrow> c \<noteq> CHR '']'' \<Longrightarrow> (c = CHR ''n'' \<Longrightarrow> is_nil v) \<Longrightarrow>
     (\<And>r. follow r \<Longrightarrow> ev (\<lambda>n. decodeType n L types t (s @ r) = sret (v, r))) \<Longrightarrow> good L types t v s"
  by (simp add: good_def)

lemma goodE:
  assumes "good L types t v s"
  obtains c cs where "s = c # cs" "\<not> isSpace c" "c \<noteq> CHR '']''" "c = CHR ''n'' \<longrightarrow> is_nil v"
  using assms by (cases s) (auto simp: good_def)

lemma good_bool: "underlying t = TBool \<Longrightarrow> good L types t (GBool b) (encodeBoolValue b)"
  by (rule goodI [of _ "if b then CHR ''t'' else CHR ''f''" "if b then ''rue'' else ''alse''"])
    (auto intro!: ev_now simp: encodeBoolValue_def decodeBoolValue_def token_simps split: if_splits)

lemma good_int:
  assumes "underlying t = TInt k" "- (2 ^ (ibits k - 1)) \<le> i" "i < 2 ^ (ibits k - 1)"
  shows "good L types t (GInt i) (encodeIntValue i)"
  using encodeIntValue_chars [OF hd_in_set, of i] assms(1) readIntValue_at [OF assms(2,3)]
  by (auto simp: good_def intro!: ev_now)

lemma good_uint:
  assumes "underlying t = TUint k" "i < 2 ^ ubits k"
  shows "good L types t (GUint i) (encodeUintValue i)"
  using encodeUintValue_chars [OF hd_in_set, of i] assms(1) readUintValue_at [OF assms(2)]
  by (auto simp: good_def intro!: ev_now)

lemma good_string: "underlying t = TString \<Longrightarrow> CHR 92 \<notin> set s \<Longrightarrow> good L types t (GString s) (encodeStringValue s)"
  by (rule goodI [of _ "CHR 34" "escape_runes s @ [CHR 34]"])
    (auto intro!: ev_now simp: encodeStringValue_def readStringValue_at read_runes_escape)

lemma good_float:
  assumes "underlying t = TFloat k" "ParseFloat L f (fbits k) = Some f" "CHR 34 \<notin> set f" "CHR 92 \<notin> set f"
  shows "good L types t (GFloat f) ([CHR 34] @ f @ [CHR 34])"
  using assms(1,2) read_runes_plain [OF assms(3,4)]
  by (intro goodI [of _ "CHR 34" "f @ [CHR 34]"] ev_now) (simp_all add: readStringValue_at)

lemma good_time:
  assumes "underlying t = TTime" "ParseTime L s = Some (ns, s)" "CHR 92 \<notin> set s"
  shows "good L types t (GTime ns s) (encodeStringValue s)"
  using assms(1,2) read_runes_escape [OF assms(3)]
  by (intro goodI [of _ "CHR 34" "escape_runes s @ [CHR 34]"] ev_now) (simp_all add: readStringValue_at encodeStringValue_def)

lemma good_null:
  "underlying t = TPtr e \<Longrightarrow> good L types t (GPtr None) ''null''"
  "underlying t = TSlice e \<Longrightarrow> good L types t (GSlice None) ''null''"
  "underlying t = TMap k e \<Longrightarrow> good L types t (GMap None) ''null''"
  by (auto intro!: goodI [of _ "CHR ''n''" "''ull''"] ev_now simp: check_at)

lemma good_ptr:
  assumes "underlying t = TPtr e" "good L types e v s" "\<not> is_nil v"
  shows "good L types t (GPtr (Some v)) s"
proof -
  obtain c cs where c: "s = c # cs" "\<not> isSpace c" "c \<noteq> CHR '']''" "c \<noteq> CHR ''n''" using goodE [OF assms(2)] assms(3) by metis
  show ?thesis
  proof (rule goodI [OF c(1-3)])
    fix r assume "follow r"
    from goodD [OF assms(2) this] show "ev (\<lambda>n. decodeType n L types t (s @ r) = sret (GPtr (Some v), r))"
      by (rule ev_one) (use assms(1) c in \<open>simp add: check_at\<close>)
  qed (use c(4) in simp)
qed

lemma good_slice:
  assumes "underlying t = TSlice e" "list_all2 (good L types e) vs ss"
  shows "good L types t (GSlice (Some vs)) (brackets ss)"
proof (rule goodI [of _ "CHR ''[''" "commas ss @ '']''"])
  fix r assume "follow r"
  show "ev (\<lambda>n. decodeType n L types t (brackets ss @ r) = sret (GSlice (Some vs), r))"
  proof (cases vs)
    case Nil
    then show ?thesis using assms by (intro ev_now) (simp add: brackets_def token_simps)
  next
    case (Cons v ws)
    then obtain s zs where s: "ss = s # zs" "good L types e v s" using assms(2) by (cases ss) auto
    obtain c cs where c: "s = c # cs" "\<not> isSpace c" "c \<noteq> CHR '']''" using goodE [OF s(2)] by metis
    have "ev (\<lambda>n. decode_elems n L types e (commas ss @ CHR '']'' # r) = sret (vs, r))" using decode_elems_back [OF assms(2)] Cons by simp
    then show ?thesis by (rule ev_one) (use assms(1) s c in \<open>simp add: brackets_def token_simps commas_Cons\<close>)
  qed
qed (simp_all add: brackets_def)

lemma good_array:
  assumes "underlying t = TArray (length vs) e" "list_all2 (good L types e) vs ss"
  shows "good L types t (GArray vs) (brackets ss)"
proof (rule goodI [of _ "CHR ''[''" "commas ss @ '']''"])
  fix r assume "follow r"
  have "ev (\<lambda>n. decode_array n L types e (length vs) True (comma_if True ss @ CHR '']'' # r) = sret (vs, CHR '']'' # r))"
    by (rule decode_array_back [OF assms(2)]) simp
  then show "ev (\<lambda>n. decodeType n L types t (brackets ss @ r) = sret (GArray vs, r))"
    by (rule ev_one) (use assms(1) in \<open>simp add: brackets_def token_simps comma_if_def\<close>)
qed (simp_all add: brackets_def)

lemma good_map:
  assumes "underlying t = TMap k e" "good_pairs L types k e m ss" "m \<noteq> []" "apart L (map fst m)"
  shows "good L types t (GMap (Some m)) (brackets ss)"
proof (rule goodI [of _ "CHR ''[''" "commas ss @ '']''"])
  fix r assume "follow r"
  have "ev (\<lambda>n. decode_pairs n L types k e [] (commas ss @ CHR '']'' # r) = sret ([] @ m, r))"
    by (rule decode_pairs_back [OF assms(2,3)]) (use assms(4) in simp)
  then show "ev (\<lambda>n. decodeType n L types t (brackets ss @ r) = sret (GMap (Some m), r))"
    by (rule ev_one) (use assms(1) in \<open>simp add: brackets_def token_simps\<close>)
qed (simp_all add: brackets_def)

lemma good_struct:
  assumes "underlying t = TStruct fs" "good_fields L types fs vs ss"
  shows "good L types t (GStruct vs) (brackets ss)"
proof (rule goodI [of _ "CHR ''[''" "commas ss @ '']''"])
  fix r assume "follow r"
  have "ev (\<lambda>n. decode_fields n L types fs True (comma_if True ss @ CHR '']'' # r) = sret (vs, CHR '']'' # r))"
    by (rule decode_fields_back [OF assms(2)]) simp
  then show "ev (\<lambda>n. decodeType n L types t (brackets ss @ r) = sret (GStruct vs, r))"
    by (rule ev_one) (use assms(1) in \<open>simp add: brackets_def token_simps comma_if_def\<close>)
qed (simp_all add: brackets_def)

text \<open>Spaces before a value are skipped.\<close>

lemma skipSpace_space: "isSpace c \<Longrightarrow> skipSpace (c # r) = skipSpace r" by (simp add: skipSpace_def)

lemma read_space:
  "isSpace c \<Longrightarrow> check s (c # r) = check s r" "isSpace c \<Longrightarrow> need s msg (c # r) = need s msg r"
  "isSpace c \<Longrightarrow> readStringValue (c # r) = readStringValue r" "isSpace c \<Longrightarrow> read_number (c # r) = read_number r"
  "isSpace c \<Longrightarrow> decodeBoolValue (c # r) = decodeBoolValue r"
  by (simp_all add: check_def need_def readStringValue_def read_number_def decodeBoolValue_def skipSpace_space)

lemma decode_space: "isSpace c \<Longrightarrow> decode n L types (c # r) = decode n L types r"
  by (cases n) (simp_all add: read_space)

lemma decodeType_space: "isSpace c \<Longrightarrow> decodeType n L types t (c # r) = decodeType n L types t r"
  by (cases n; cases "underlying t") (simp_all add: read_space decode_space readIntValue_def readUintValue_def)

definition typed_text :: "rtype \<Rightarrow> string \<Rightarrow> string" where
  "typed_text t s = ''{'' @ [CHR 34] @ typeName t @ [CHR 34] @ '': '' @ s @ ''}''"

lemma decode_typed:
  assumes "good L types t v s" "resolves types t"
  shows "ev (\<lambda>n. decode n L types (typed_text t s @ r) = sret (Some (t, v), r))"
proof -
  have "ev (\<lambda>n. decodeType n L types t (s @ CHR ''}'' # r) = sret (v, CHR ''}'' # r))" by (rule goodD [OF assms(1)]) simp
  moreover have "readStringValue (CHR 34 # typeName t @ CHR 34 # z) = sret (typeName t, z)" for z
    using typeName_plain [OF assms(2)] by (intro readStringValue_at read_runes_plain) auto
  ultimately show ?thesis
    by (elim ev_one) (simp add: typed_text_def token_simps typeFromName_typeName [OF assms(2)] decodeType_space)
qed

lemma good_iface:
  assumes "underlying t = TInterface" "Implements L u t" "underlying u \<noteq> TInterface" "resolves types u" "good L types u v s"
  shows "good L types t (GIface (Some (u, v))) (typed_text u s)"
proof (rule goodI [of _ "CHR ''{''" "tl (typed_text u s)"])
  fix r assume "follow r"
  show "ev (\<lambda>n. decodeType n L types t (typed_text u s @ r) = sret (GIface (Some (u, v)), r))"
    by (rule ev_one [OF decode_typed [OF assms(5,4), of r]]) (use assms(1-3) in \<open>simp add: to_iface_def\<close>)
qed (simp_all add: typed_text_def)

lemma good_iface_nil: "underlying t = TInterface \<Longrightarrow> good L types t (GIface None) ''null''"
proof (rule goodI [of _ "CHR ''n''" "''ull''"])
  fix r assume "underlying t = TInterface"
  moreover have "ev (\<lambda>n. decode n L types (''null'' @ r) = sret (None, r))" by (intro ev_now) (simp add: check_at)
  ultimately show "ev (\<lambda>n. decodeType n L types t (''null'' @ r) = sret (GIface None, r))" by (elim ev_one) simp
qed simp_all

lemma typed_sret: "typed t (sret s) = sret (typed_text t s)" by (simp add: typed_def typed_text_def)

lemma portable_good:
  "portable L types t v \<Longrightarrow> \<exists>s. encodeValue t v = sret s \<and> good L types t v s"
  "portable_elems L types e vs \<Longrightarrow> \<exists>ss. encode_elems e vs = sret ss \<and> list_all2 (good L types e) vs ss"
  "portable_pairs L types k e m \<Longrightarrow> elem_type u = e \<Longrightarrow> key_type u = k \<Longrightarrow> \<exists>ss. encode_pairs u m = sret ss \<and> good_pairs L types k e m ss"
  "portable_fields L types fs vs \<Longrightarrow> \<exists>ss. encode_fields fs vs = sret ss \<and> good_fields L types fs vs ss"
proof (induction L types t v and L types e vs and L types k e m and L types fs vs arbitrary: and and u and
    rule: portable_portable_elems_portable_pairs_portable_fields.induct)
  case (8 L types t v)
  then show ?case using good_ptr underlying_types(1) by (fastforce split: rtype.splits)
next
  case (10 L types t vs)
  then show ?case using good_slice underlying_types(2) by (fastforce split: rtype.splits)
next
  case (11 L types t vs)
  then show ?case using good_array underlying_types(3) by (fastforce split: rtype.splits)
next
  case (13 L types t m)
  then obtain k e where u: "underlying t = TMap k e" "m \<noteq> []" "apart L (map fst m)" "portable_pairs L types k e m"
    by (auto split: rtype.splits)
  then obtain ss where "encode_pairs t m = sret ss" "good_pairs L types k e m ss" using 13 underlying_types(4) by metis
  then show ?case using good_map [OF u(1) _ u(2,3)] by auto
next
  case (14 L types t vs)
  then show ?case using good_struct underlying_types(5) by (fastforce split: rtype.splits)
next
  case (16 L types t u v)
  then show ?case using good_iface by (auto simp: typed_sret)
next
  case (21 L types k e a b m)
  have p: "hashable a" "portable L types k a" "portable L types e b" "portable_pairs L types k e m" using 21(4) by auto
  obtain ss where "encode_pairs u m = sret ss" "good_pairs L types k e m ss" using 21(3) [OF p(4) 21(5,6)] by blast
  moreover obtain s s' where "encodeValue k a = sret s" "good L types k a s" "encodeValue e b = sret s'" "good L types e b s'"
    using 21(1) [OF p(2)] 21(2) [OF p(3)] by blast
  ultimately show ?case using 21(5,6) p(1) by auto
next
  case (24 L types exported t fs v vs)
  then show ?case by (cases exported) auto
qed (auto simp: good_bool good_int good_uint good_float good_time good_string good_null good_iface_nil simp del: append_Cons split: rtype.splits)

lemma Decode_Encode:
  assumes "resolves types t" "portable L types t v" "underlying t \<noteq> TInterface"
  shows "\<exists>s. Encode (Some (t, v)) = sret s \<and> ev (\<lambda>n. Decode n L types s = sret (Some (t, v)))"
proof -
  obtain s where s: "encodeValue t v = sret s" "good L types t v s" using portable_good(1) [OF assms(2)] by blast
  have "ev (\<lambda>n. decode n L types (typed_text t s) = sret (Some (t, v), []))" using decode_typed [OF s(2) assms(1), of "[]"] by simp
  then have "ev (\<lambda>n. Decode n L types (typed_text t s) = sret (Some (t, v)))"
    unfolding ev_def by (rule ex_forward) (use assms(3) in \<open>simp add: Decode_def to_iface_def\<close>)
  then show ?thesis using s(1) by (auto simp: Encode_def typed_sret)
qed

end
