(* ===== verification/Sjson_Properties.thy ===== *)
theory Sjson_Properties
  imports Dot_Sjson_Laws
begin

text \<open>
  What package \<open>ops/sjson\<close> promises: a value that is encoded can be decoded again; and the
  values for which this fails.
\<close>









text \<open>
  Values that the codec changes or cannot read back. A backslash is not escaped, so that it is
  dropped when it is read. An empty map is written as an empty list, in which the decoder looks for a
  key. A pointer to a nil pointer comes back as a nil pointer. A type name with a slice as
  map key makes \<open>reflect.MapOf\<close> panic with a string, which \<open>catch\<close> does not turn into an error.
\<close>

theorem sjson_lossy:
  "Encode (Some (TString, GString [CHR 92, CHR ''n''])) = sret (typed_text TString [CHR 34, CHR 92, CHR ''n'', CHR 34])
    \<and> Decode 4 L (\<lambda>_. None) (typed_text TString [CHR 34, CHR 92, CHR ''n'', CHR 34]) = sret (Some (TString, GString ''n''))
    \<and> Encode (Some (TMap TString TString, GMap (Some []))) = sret (typed_text (TMap TString TString) ''[]'')
    \<and> Decode 4 L (\<lambda>_. None) (typed_text (TMap TString TString) ''[]'') = panic (Errors (''missing '' @ [CHR 34]))
    \<and> Encode (Some (TPtr (TPtr TBool), GPtr (Some (GPtr None)))) = sret (typed_text (TPtr (TPtr TBool)) ''null'')
    \<and> Decode 4 L (\<lambda>_. None) (typed_text (TPtr (TPtr TBool)) ''null'') = sret (Some (TPtr (TPtr TBool), GPtr None))
    \<and> typeFromName (\<lambda>_. None) ''map[[]int]int'' = None"
  by code_simp

end
