(* ===== verification/Dot_Fold.thy ===== *)
theory Dot_Fold
  imports Dot_Undo
begin

text \<open>
  Package \<open>x/fold\<close>: a stream with a folded change, one that is held back from the stream
  below. Changes made on top of the fold are moved below it and sent on, changes that arrive from
  below are moved above it.

  \<open>Append\<close> and \<open>New\<close> return a struct, \<open>Next\<close> a pointer to one; the field
  \<open>fptr\<close> records which, since \<open>Unfold\<close> accepts the struct only.
\<close>

section \<open>The model\<close>

record 's fold_stream =
  fptr :: bool
  ffold :: "change option"
  fbase :: 's

definition fold_New :: "change option \<Rightarrow> 's \<Rightarrow> 's fold_stream" where
  "fold_New c base = \<lparr>fptr = False, ffold = c, fbase = base\<rparr>"

text \<open>Both \<open>c.Merge\<close> calls panic on a nil change.\<close>

definition fold_swap :: "nat \<Rightarrow> change option \<Rightarrow> change option \<Rightarrow> change_pair option" where
  "fold_swap n held c = (case held of
     None \<Rightarrow> Some (None, c)
   | Some f \<Rightarrow> (case c of None \<Rightarrow> None | Some d \<Rightarrow> do {
       (held, c) \<leftarrow> cMerge n d (Revert f);
       Some (Revert_opt held, c) }))"

definition fold_Append ::
  "nat \<Rightarrow> ('w, 's) Stream \<Rightarrow> 'w \<Rightarrow> 's fold_stream \<Rightarrow> change option \<Rightarrow> ('w \<times> 's fold_stream) option" where
  "fold_Append n S w s c = do {
     (fold, c) \<leftarrow> fold_swap n (ffold s) c;
     (if c = None then Some (w, \<lparr>fptr = False, ffold = fold, fbase = fbase s\<rparr>)
      else do {
        (w, base) \<leftarrow> Append S w (fbase s) c;
        Some (w, \<lparr>fptr = False, ffold = fold, fbase = base\<rparr>) }) }"

definition fold_ReverseAppend :: "'w \<Rightarrow> 's fold_stream \<Rightarrow> change option \<Rightarrow> ('w \<times> 's fold_stream) option" where
  "fold_ReverseAppend w s c = None"

definition fold_Next ::
  "nat \<Rightarrow> ('w, 's) Stream \<Rightarrow> 'w \<Rightarrow> 's fold_stream \<Rightarrow> ('s fold_stream \<times> change option) option option" where
  "fold_Next n S w s = do {
     r \<leftarrow> Next S w (fbase s);
     (case r of
        None \<Rightarrow> Some None
      | Some (base, c) \<Rightarrow> (case c of None \<Rightarrow> None | Some c \<Rightarrow> do {
          (fold, cx) \<leftarrow> cMerge n c (ffold s);
          Some (Some (\<lparr>fptr = True, ffold = fold, fbase = base\<rparr>, cx)) })) }"

definition Unfold :: "'s fold_stream \<Rightarrow> (change option \<times> 's) option" where
  "Unfold s = (if fptr s then None else Some (ffold s, fbase s))"

text \<open>The remaining methods are those of the stream below.\<close>

definition fold_stream_of :: "nat \<Rightarrow> ('w, 's) Stream \<Rightarrow> ('w, 's fold_stream) Stream" where
  "fold_stream_of n S = \<lparr>Append = fold_Append n S, ReverseAppend = fold_ReverseAppend, Next = fold_Next n S,
     Push = (\<lambda>w s. Push S w (fbase s)), Pull = (\<lambda>w s. Pull S w (fbase s)),
     Undo = (\<lambda>w s. Undo S w (fbase s)), Redo = (\<lambda>w s. Redo S w (fbase s))\<rparr>"

section \<open>Counters\<close>

text \<open>
  A change that fits a value and whose Revert has no counter splice has none itself.
\<close>

lemma non_nil_counter: "list_all no_counter (map Some (non_nil cs)) = list_all no_counter cs"
  by (induction cs) (auto simp: non_nil_def)

lemma pack_counter: "no_counter (pack cs) = list_all no_counter (map Some cs)"
  by (cases cs rule: pack.cases) (auto simp: list_all_iff)

lemma join_path_counter: "no_counter (Some (join_path p c)) = no_counter (Some c)"
  by (cases "(p, c)" rule: join_path.cases) auto

lemma Simplify_counter: "no_counter (Simplify c) = no_counter c"
proof (induction c rule: Simplify.induct)
  case (2 cs)
  then show ?case by (simp add: pack_counter non_nil_counter) (simp add: list_all_iff)
next
  case (3 p c)
  then show ?case by (cases "Simplify c") (auto simp: join_path_counter)
qed simp_all

lemma foldM_member: "foldM f v cs = Some w \<Longrightarrow> c \<in> set cs \<Longrightarrow> \<exists>x y. f x c = Some y"
  by (induction cs arbitrary: v) (auto simp: bind_Some_ex)

lemma path_strict_member: "path_strict f p v = Some w \<Longrightarrow> \<exists>x y. f x = Some y"
  by (induction p arbitrary: v w) (auto simp: bind_Some_ex)

lemma Revert_counter: "strict c v = Some w \<Longrightarrow> no_counter (Revert c) \<Longrightarrow> no_counter (Some c)"
proof (induction c arbitrary: v w rule: Revert.induct)
  case (2 s)
  from 2(1) show ?case
    by (cases rule: strict_Splice_cases) (use 2 in \<open>auto simp: Splice_Revert_def split: coll.splits if_splits\<close>)
next
  case (4 cs)
  let ?r = "\<lambda>c. case c of None \<Rightarrow> None | Some c \<Rightarrow> Revert c"
  have "list_all no_counter (map ?r (rev cs))"
    using 4(3) by (simp add: ChangeSet_Simplify_def pack_counter non_nil_counter) (simp add: list_all_iff Simplify_counter)
  then have r: "no_counter (?r c)" if "c \<in> set cs" for c using that by (auto simp: list_all_iff)
  have "no_counter c" if c: "c \<in> set cs" for c
  proof (cases c)
    case (Some d)
    obtain x y where "strict d x = Some y" using foldM_member [OF _ c, of Strict v w] 4(2) Some by auto
    then show ?thesis using 4(1) [of c d x y] c r [OF c] Some by simp
  qed simp
  then show ?case by (simp add: list_all_iff)
next
  case (5 p c)
  show ?case
  proof (cases c)
    case (Some d)
    obtain x y where "strict d x = Some y" using path_strict_member [of "\<lambda>v. Strict v c" p v w] 5(2) Some by auto
    then show ?thesis using 5(1) [OF Some] 5(3) Some by simp
  qed simp
next
  case (6 d c)
  then show ?case by (cases c) auto
qed simp_all

lemma Revert_opt_redo:
  assumes "Strict v c = Some w" "wf_val v" "no_counter (Revert_opt c)"
  shows "Strict w (Revert_opt c) = Some v"
  using assms Revert_undoes Revert_counter by (cases c) (auto simp: Revert_opt_def)

section \<open>Moving a change below the fold\<close>

lemma cMerge_Merge: "cMerge n c d = Merge n (Some c) d"
  by (simp add: Merge_def Merge_nil_def)

lemma fold_swap_correct:
  assumes "fold_swap n held c = Some (held', c')" "wf_val v" "Strict v held = Some x" "Strict x c = Some y"
    and "no_counter held" "no_counter held'"
  shows "\<exists>u. Strict v c' = Some u \<and> Strict u held' = Some y"
proof (cases held)
  case None
  then show ?thesis using assms by (simp add: fold_swap_def)
next
  case (Some f)
  then obtain d r where d: "c = Some d" "Merge n c (Revert f) = Some (r, c')" "held' = Revert_opt r"
    using assms(1) by (auto simp: fold_swap_def cMerge_Merge bind_Some_ex split: option.splits)
  have x: "wf_val x" "Strict x (Revert f) = Some v"
    using Strict_wf [OF assms(3,2)] Revert_undoes assms(2,3,5) Some by auto
  obtain u where u: "Strict y r = Some u" "Strict v c' = Some u"
    using Merge_converge [OF d(2) x(1) assms(4) x(2)] by (auto simp: converge_def)
  then show ?thesis using Revert_opt_redo [OF u(1)] Strict_wf [OF assms(4) x(1)] assms(6) d(3) by auto
qed

lemma fold_Next_Some:
  assumes "fold_Next n S w s = Some (Some (t, c))"
  shows "\<exists>d. Next S w (fbase s) = Some (Some (fbase t, Some d)) \<and> Merge n (Some d) (ffold s) = Some (ffold t, c) \<and> fptr t"
proof -
  consider (panic) "Next S w (fbase s) = None" | (stop) "Next S w (fbase s) = Some None"
    | (nil) b where "Next S w (fbase s) = Some (Some (b, None))" | (step) b d where "Next S w (fbase s) = Some (Some (b, Some d))"
    by (metis not_Some_eq surj_pair)
  then show ?thesis using assms by cases (auto simp: fold_Next_def bind_Some_ex cMerge_Merge)
qed

text \<open>
  The contract over any stream that keeps its own: a folded stream stands at the value that the
  folded change makes of the value below.
\<close>

context stream_family
begin

definition folded :: "'w \<Rightarrow> 's fold_stream \<Rightarrow> val \<Rightarrow> 'k \<times> val \<Rightarrow> bool" where
  "folded w s x kf \<longleftrightarrow> good w \<and> (\<exists>v. wf_val v \<and> Strict v (ffold s) = Some x \<and> walk w (fbase s) v = Some kf)"

lemma fold_Append_folded:
  assumes "fold_Append n S w s c = Some (w', t)" "good w" "wf_val v" "Strict v (ffold s) = Some x" "walk w (fbase s) v = Some (k, f)" "Strict x c = Some y"
    and "no_counter (ffold s)" "no_counter (ffold t)"
  shows "\<exists>c' u k' f'. fold_swap n (ffold s) c = Some (ffold t, c') \<and> Strict v c' = Some u \<and> Strict u (ffold t) = Some y
    \<and> (if c' = None then w' = w \<and> fbase t = fbase s else Append S w (fbase s) c' = Some (w', fbase t))
    \<and> good w' \<and> walk w' (fbase t) u = Some (k', f') \<and> (\<forall>r z. walk w r z = Some (k, f) \<longrightarrow> walk w' r z = Some (k', f'))"
proof -
  obtain c' where sw: "fold_swap n (ffold s) c = Some (ffold t, c')"
    and t: "if c' = None then w' = w \<and> fbase t = fbase s else Append S w (fbase s) c' = Some (w', fbase t)"
    using assms(1) by (fastforce simp: fold_Append_def bind_Some_ex split: if_splits)
  obtain u where u: "Strict v c' = Some u" "Strict u (ffold t) = Some y"
    using fold_swap_correct [OF sw assms(3,4,6-8)] by blast
  have "good w' \<and> (\<exists>k' f'. walk w' (fbase t) u = Some (k', f') \<and> (\<forall>r z. walk w r z = Some (k, f) \<longrightarrow> walk w' r z = Some (k', f')))"
  proof (cases "c' = None")
    case True
    then show ?thesis using assms(2,5) u(1) t by auto
  next
    case False
    then have "(if False then ReverseAppend S else Append S) w (fbase s) c' = Some (w', fbase t)" using t by simp
    from Append_law [OF assms(2,5,3) u(1) this] show ?thesis by blast
  qed
  then show ?thesis using sw t u by blast
qed

lemma fold_Next_folded:
  assumes "fold_Next n S w s = Some (Some (t, c))" "folded w s x kf"
  shows "\<exists>y. Strict x c = Some y \<and> folded w t y kf \<and> len w (fbase t) < len w (fbase s)"
proof -
  obtain v where v: "good w" "wf_val v" "Strict v (ffold s) = Some x" "walk w (fbase s) v = Some (fst kf, snd kf)"
    using assms(2) by (auto simp: folded_def)
  obtain d where d: "Next S w (fbase s) = Some (Some (fbase t, Some d))" "Merge n (Some d) (ffold s) = Some (ffold t, c)"
    using fold_Next_Some [OF assms(1)] by blast
  obtain u where u: "Strict v (Some d) = Some u" "walk w (fbase t) u = Some kf" "len w (fbase t) < len w (fbase s)"
    using Next_step [OF v(1,4) d(1)] by auto
  then show ?thesis using Merge_converge [OF d(2) v(2) u(1) v(3)] Strict_wf [OF u(1) v(2)] v(1)
    by (auto simp: converge_def folded_def)
qed

end

text \<open>\<open>Unfold\<close> gets back what \<open>New\<close> and \<open>Append\<close> hold, and panics on a stream that \<open>Next\<close> returned.\<close>

lemma Unfold_New: "Unfold (fold_New c base) = Some (c, base)"
  by (simp add: Unfold_def fold_New_def)

lemma Unfold_Append: "fold_Append n S w s c = Some (w', t) \<Longrightarrow> Unfold t = Some (ffold t, fbase t)"
  by (auto simp: fold_Append_def Unfold_def bind_Some_ex split: if_splits)

lemma Unfold_Next: "fold_Next n S w s = Some (Some (t, c)) \<Longrightarrow> Unfold t = None"
  by (auto simp: Unfold_def dest: fold_Next_Some)

end
