(* ===== verification/Dot_Runes.thy ===== *)
theory Dot_Runes
  imports Dot_Values
begin

text \<open>
  Strings with UTF-16 offsets, further: the runes of a string that is valid UTF-8, where an offset
  points, and a string as the list of its UTF-16 units, for the texts of
  \<open>changes/diff\<close> and \<open>x/rich\<close>.
\<close>

section \<open>Runes of valid strings\<close>

definition valid_utf8 :: "string \<Rightarrow> bool" where
  "valid_utf8 s \<longleftrightarrow> rune_error \<notin> set (runes s)"

lemma valid_Nil [simp]: "valid_utf8 []" by (simp add: valid_utf8_def)

lemma decode2_append: "decode2 b cs \<noteq> rune_error \<Longrightarrow> decode2 b (cs @ t) = decode2 b cs"
  by (cases cs) (simp_all only: decode2_def list.case append_Cons append_Nil HOL.simp_thms)

lemma decode3_append: "decode3 b cs \<noteq> rune_error \<Longrightarrow> decode3 b (cs @ t) = decode3 b cs"
  by (cases cs; cases "tl cs") (simp_all only: decode3_def list.case list.sel append_Cons append_Nil HOL.simp_thms)

lemma decode4_append: "decode4 b cs \<noteq> rune_error \<Longrightarrow> decode4 b (cs @ t) = decode4 b cs"
  by (cases cs; cases "tl cs"; cases "tl (tl cs)") (simp_all only: decode4_def list.case list.sel append_Cons append_Nil HOL.simp_thms)

lemmas decode_append = decode2_append decode3_append decode4_append

lemma decode_rune_append: "s \<noteq> [] \<Longrightarrow> decode_rune s \<noteq> rune_error \<Longrightarrow> decode_rune (s @ t) = decode_rune s"
  by (cases s) (simp_all add: Let_def decode_append split: if_splits)

text \<open>A rune depends on its own bytes only.\<close>

lemma decode2_take: "decode2 b cs \<noteq> rune_error \<Longrightarrow> snd (decode2 b cs) = 2 \<and> decode2 b (take 1 cs) = decode2 b cs"
  by (cases cs) (simp_all add: decode2_def rune_error_def split: if_splits)

lemma decode3_take: "decode3 b cs \<noteq> rune_error \<Longrightarrow> snd (decode3 b cs) = 3 \<and> decode3 b (take 2 cs) = decode3 b cs"
  by (cases cs; cases "tl cs") (simp_all add: decode3_def rune_error_def split: if_splits)

lemma decode4_take: "decode4 b cs \<noteq> rune_error \<Longrightarrow> snd (decode4 b cs) = 4 \<and> decode4 b (take 3 cs) = decode4 b cs"
  by (cases cs; cases "tl cs"; cases "tl (tl cs)") (simp_all add: decode4_def rune_error_def split: if_splits)

lemma decode_rune_take:
  assumes "s \<noteq> []" "decode_rune s \<noteq> rune_error"
  shows "decode_rune (take (snd (decode_rune s)) s) = decode_rune s"
proof -
  obtain c cs where s: "s = c # cs" using assms(1) by (cases s) auto
  let ?b = "of_char c :: nat"
  consider "?b < 128" "decode_rune s = (?b, 1)" | "\<not> ?b < 128" "\<not> ?b < 194" "\<not> 244 < ?b" "?b < 224" "decode_rune s = decode2 ?b cs"
    | "\<not> ?b < 128" "\<not> ?b < 194" "\<not> 244 < ?b" "\<not> ?b < 224" "?b < 240" "decode_rune s = decode3 ?b cs"
    | "\<not> ?b < 128" "\<not> ?b < 194" "\<not> 244 < ?b" "\<not> ?b < 224" "\<not> ?b < 240" "decode_rune s = decode4 ?b cs"
    using assms(2) s by (auto simp: Let_def split: if_splits)
  then show ?thesis
  proof cases
    case 1
    then show ?thesis using s by simp
  next
    case 2
    then show ?thesis using decode2_take [of ?b cs] assms(2) s by (simp add: take_Cons' Let_def)
  next
    case 3
    then show ?thesis using decode3_take [of ?b cs] assms(2) s by (simp add: take_Cons' Let_def)
  next
    case 4
    then show ?thesis using decode4_take [of ?b cs] assms(2) s by (simp add: take_Cons' Let_def)
  qed
qed

lemma runes_append: "valid_utf8 s \<Longrightarrow> runes (s @ t) = runes s @ runes t"
proof (induction s rule: runes.induct)
  case (1 s)
  show ?case
  proof (cases "s = []")
    case False
    then have d: "decode_rune (s @ t) = decode_rune s" and v: "valid_utf8 (drop (snd (decode_rune s)) s)"
      using 1(2) decode_rune_append by (auto simp: valid_utf8_def runes.simps [of s])
    have "runes (s @ t) = decode_rune s # runes (drop (snd (decode_rune s)) s @ t)"
      using False d decode_rune_width_le [of s] by (simp add: runes.simps [of "s @ t"])
    then show ?thesis using 1(1) [OF False v] False by (simp add: runes.simps [of s])
  qed simp
qed

lemma valid_append: "valid_utf8 s \<Longrightarrow> valid_utf8 t \<Longrightarrow> valid_utf8 (s @ t)"
  by (simp add: valid_utf8_def [of "s @ t"] runes_append) (simp add: valid_utf8_def)

definition units :: "(nat \<times> nat) list \<Rightarrow> int" where
  "units rs = (\<Sum>r\<leftarrow>rs. utf16Count (fst r))"

lemma units_nonneg: "0 \<le> units rs"
  unfolding units_def by (rule sum_list_nonneg) (auto simp: utf16Count_def)

lemma FromUTF16_loop_at:
  "FromUTF16_loop (seen + units rs) (rs @ ts) kk seen = Some (kk + int (sum_list (map snd rs)))"
proof (induction rs arbitrary: kk seen)
  case Nil
  show ?case by (cases ts) (auto simp: units_def)
next
  case (Cons p rs)
  obtain r w where p: "p = (r, w)" by (cases p)
  have "0 < utf16Count r" by (simp add: utf16Count_def)
  then have "seen + units (p # rs) \<noteq> seen" using units_nonneg [of rs] p by (simp add: units_def)
  then show ?case using Cons [of "seen + utf16Count r" "kk + int w"] p by (simp add: units_def add.assoc)
qed

lemma Count_S16: "Count (CS16 s) = units (runes s)"
  by (simp add: S16_Count_total units_def o_def)

lemma FromUTF16_at: "valid_utf8 s \<Longrightarrow> FromUTF16 (s @ t) (Count (CS16 s)) = Some (int (length s))"
  using FromUTF16_loop_at [of 0 "runes s" "runes t" 0] by (simp add: FromUTF16_def runes_append Count_S16 runes_width_sum del: Count.simps)

section \<open>Units\<close>

text \<open>
  A string as the list of its UTF-16 units: the bytes of a rune stand at its first unit, a second
  one is empty.
\<close>

function ulist :: "string \<Rightarrow> string option list" where
  "ulist s = (if s = [] then [] else
     (Some (take (snd (decode_rune s)) s) # (if utf16Count (fst (decode_rune s)) = 2 then [None] else []))
       @ ulist (drop (snd (decode_rune s)) s))"
  by pat_completeness auto
termination
  by (relation "measure length") (auto simp: decode_rune_width)

declare ulist.simps [simp del]

lemma ulist_Nil [simp]: "ulist [] = []" by (simp add: ulist.simps)

lemma ulist_append: "valid_utf8 s \<Longrightarrow> ulist (s @ t) = ulist s @ ulist t"
proof (induction s rule: runes.induct)
  case (1 s)
  show ?case
  proof (cases "s = []")
    case False
    then have d: "decode_rune (s @ t) = decode_rune s" and v: "valid_utf8 (drop (snd (decode_rune s)) s)"
      using 1(2) decode_rune_append by (auto simp: valid_utf8_def runes.simps [of s])
    have "ulist (s @ t) = (Some (take (snd (decode_rune s)) s) # (if utf16Count (fst (decode_rune s)) = 2 then [None] else []))
       @ ulist (drop (snd (decode_rune s)) s @ t)"
      using False d decode_rune_width_le [of s] by (simp add: ulist.simps [of "s @ t"])
    then show ?thesis using 1(1) [OF False v] False by (simp add: ulist.simps [of s])
  qed simp
qed

lemma utf16Count_cases: "utf16Count r = 1 \<or> utf16Count r = 2" by (simp add: utf16Count_def)

lemma ulist_length: "int (length (ulist s)) = Count (CS16 s)"
proof (induction s rule: runes.induct)
  case (1 s)
  show ?case
  proof (cases "s = []")
    case False
    then show ?thesis using 1 utf16Count_cases [of "fst (decode_rune s)"]
      by (auto simp: Count_S16 units_def ulist.simps [of s] runes.simps [of s] simp del: Count.simps)
  qed (simp add: S16_Count_total)
qed

lemma ulist_bytes: "concat (map (\<lambda>u. case u of None \<Rightarrow> [] | Some b \<Rightarrow> b) (ulist s)) = s"
proof (induction s rule: runes.induct)
  case (1 s)
  then show ?case by (cases "s = []") (simp_all add: ulist.simps [of s])
qed

text \<open>An offset that is accepted splits the string between runes.\<close>

lemma FromUTF16_loop_split:
  "FromUTF16_loop idx rs kk seen = Some k \<Longrightarrow> \<exists>xs ys. rs = xs @ ys \<and> idx = seen + units xs \<and> k = kk + int (sum_list (map snd xs))"
proof (induction idx rs kk seen rule: FromUTF16_loop.induct)
  case (1 idx kk seen)
  then show ?case by (auto simp: units_def split: if_splits)
next
  case (2 idx r w rs kk seen)
  show ?case
  proof (cases "idx = seen")
    case True
    then show ?thesis using 2(2) by (intro exI [of _ "[]"] exI [of _ "(r, w) # rs"]) (simp add: units_def)
  next
    case False
    then obtain xs ys where "rs = xs @ ys" "idx = seen + utf16Count r + units xs" "k = kk + int w + int (sum_list (map snd xs))"
      using 2 by auto
    then show ?thesis by (intro exI [of _ "(r, w) # xs"] exI [of _ ys]) (simp add: units_def)
  qed
qed

lemma runes_split: "runes s = xs @ ys \<Longrightarrow> \<exists>a b. s = a @ b \<and> length a = sum_list (map snd xs) \<and> (valid_utf8 s \<longrightarrow> runes a = xs \<and> runes b = ys)"
proof (induction xs arbitrary: s)
  case Nil
  then show ?case by (intro exI [of _ "[]"] exI [of _ s]) simp
next
  case (Cons p xs)
  then have s: "s \<noteq> []" "p = decode_rune s" "runes (drop (snd p) s) = xs @ ys" by (auto simp: runes.simps [of s] split: if_splits)
  obtain a b where ab: "drop (snd p) s = a @ b" "length a = sum_list (map snd xs)"
    "valid_utf8 (drop (snd p) s) \<longrightarrow> runes a = xs \<and> runes b = ys" using Cons.IH [OF s(3)] by blast
  have len: "snd p \<le> length s" using s(2) decode_rune_width_le by simp
  have "s = (take (snd p) s @ a) @ b" using ab(1) by (metis append.assoc append_take_drop_id)
  moreover have "runes (take (snd p) s @ a) = p # xs \<and> runes b = ys" if v: "valid_utf8 s"
  proof -
    have v': "valid_utf8 (drop (snd p) s)" "p \<noteq> rune_error" using v s by (auto simp: valid_utf8_def runes.simps [of s])
    have "decode_rune (take (snd p) s @ a) = p"
      using decode_rune_take [OF s(1)] decode_rune_append [of "take (snd p) s" a] v'(2) s(1,2) decode_rune_width [OF s(1)] by simp
    then show ?thesis using ab(3) v' len s decode_rune_width [OF s(1)]
      by (simp add: runes.simps [of "take (snd (decode_rune s)) s @ a"])
  qed
  ultimately show ?case using ab(2) len by (intro exI [of _ "take (snd p) s @ a"] exI [of _ b]) auto
qed

lemma FromUTF16_split:
  assumes "FromUTF16 s i = Some k" "valid_utf8 s"
  shows "\<exists>a b. s = a @ b \<and> int (length a) = k \<and> valid_utf8 a \<and> valid_utf8 b \<and> int (length (ulist a)) = i"
proof -
  obtain xs ys where rs: "runes s = xs @ ys" "i = units xs" "k = int (sum_list (map snd xs))"
    using FromUTF16_loop_split [of i "runes s" 0 0 k] assms(1) by (auto simp: FromUTF16_def)
  obtain a b where ab: "s = a @ b" "length a = sum_list (map snd xs)" "runes a = xs" "runes b = ys"
    using runes_split [OF rs(1)] assms(2) by blast
  then have "valid_utf8 a" "valid_utf8 b" using assms(2) rs(1) by (auto simp: valid_utf8_def)
  moreover have "int (length (ulist a)) = i" using rs(2) ab(3) by (simp add: ulist_length Count_S16 del: Count.simps)
  ultimately show ?thesis using ab(1,2) rs(3) by auto
qed

lemma S16_Slice_units:
  assumes "S16_Slice s off n = Some r" "valid_utf8 s" "0 \<le> n"
  shows "valid_utf8 r \<and> ulist r = take (nat n) (drop (nat off) (ulist s)) \<and> 0 \<le> off \<and> off + n \<le> int (length (ulist s))"
proof -
  obtain i j where ij: "FromUTF16 s off = Some i" "FromUTF16 s (off + n) = Some j" "goslice s i j = Some r"
    using assms(1) by (auto simp: S16_Slice_def bind_Some_ex)
  obtain a b where a: "s = a @ b" "int (length a) = i" "valid_utf8 a" "int (length (ulist a)) = off"
    using FromUTF16_split [OF ij(1) assms(2)] by blast
  obtain c d where c: "s = c @ d" "int (length c) = j" "valid_utf8 c" "int (length (ulist c)) = off + n"
    using FromUTF16_split [OF ij(2) assms(2)] by blast
  have le: "length a \<le> length c" and r: "r = take (length c - length a) (drop (length a) s)"
    using ij(3) a(2) c(2) by (auto simp: goslice_Some_iff nat_diff_distrib)
  have "c = take (length a + (length c - length a)) s" using le c(1) by simp
  then have m: "c = a @ r" using r a(1) by (simp add: take_add)
  then have "valid_utf8 r" using c(3) runes_append [OF a(3), of r] by (simp add: valid_utf8_def)
  moreover have u: "ulist c = ulist a @ ulist r" "ulist s = ulist c @ ulist d"
    using m ulist_append [OF a(3), of r] ulist_append [OF c(3), of d] c(1) by simp_all
  ultimately show ?thesis using a(4) c(4) by (auto simp: nat_add_distrib)
qed

text \<open>Where every rune is one unit, every slice within the string exists.\<close>

definition single_units :: "string \<Rightarrow> bool" where
  "single_units s \<longleftrightarrow> valid_utf8 s \<and> (\<forall>p \<in> set (runes s). utf16Count (fst p) = 1)"

lemma units_single: "\<forall>p \<in> set rs. utf16Count (fst p) = 1 \<Longrightarrow> units rs = int (length rs)"
  by (induction rs) (auto simp: units_def)

lemma FromUTF16_single:
  assumes "single_units s" "0 \<le> i" "i \<le> int (length (ulist s))"
  shows "\<exists>k. FromUTF16 s i = Some k \<and> 0 \<le> k \<and> k \<le> int (length s)
    \<and> (\<forall>j k'. i \<le> j \<longrightarrow> j \<le> int (length (ulist s)) \<longrightarrow> FromUTF16 s j = Some k' \<longrightarrow> k \<le> k')"
proof -
  let ?x = "\<lambda>i. take (nat i) (runes s)" and ?w = "\<lambda>i. int (sum_list (map snd (take (nat i) (runes s))))"
  have len: "int (length (runes s)) = int (length (ulist s))"
    using assms(1) units_single [of "runes s"] by (simp add: single_units_def ulist_length Count_S16 del: Count.simps)
  have at: "FromUTF16 s j = Some (?w j)" if "0 \<le> j" "j \<le> int (length (ulist s))" for j
  proof -
    have "units (?x j) = j" using that len assms(1) units_single [of "?x j"] by (auto simp: single_units_def dest: in_set_takeD)
    then show ?thesis using FromUTF16_loop_at [of 0 "?x j" "drop (nat j) (runes s)" 0] by (simp add: FromUTF16_def)
  qed
  have mono: "?w i \<le> ?w j" if "i \<le> j" for i j
  proof -
    have "take (nat j) (runes s) = take (nat i) (runes s) @ take (nat j - nat i) (drop (nat i) (runes s))"
      using that by (metis le_add_diff_inverse nat_mono take_add)
    then show ?thesis by simp
  qed
  have "?w i \<le> ?w (int (length (ulist s)))" using mono [OF assms(3)] .
  also have "\<dots> = int (length s)" using len runes_width_sum [of s] by simp
  finally show ?thesis using at assms(2,3) mono by (intro exI [of _ "?w i"]) auto
qed

lemma S16_Slice_single:
  assumes "single_units s" "0 \<le> off" "0 \<le> n" "off + n \<le> int (length (ulist s))"
  shows "\<exists>r. S16_Slice s off n = Some r"
proof -
  obtain i where i: "FromUTF16 s off = Some i" "0 \<le> i"
    "\<And>j k'. off \<le> j \<Longrightarrow> j \<le> int (length (ulist s)) \<Longrightarrow> FromUTF16 s j = Some k' \<Longrightarrow> i \<le> k'"
    using FromUTF16_single [OF assms(1,2)] assms(3,4) by auto
  obtain j where j: "FromUTF16 s (off + n) = Some j" "j \<le> int (length s)"
    using FromUTF16_single [OF assms(1), of "off + n"] assms(2-4) by auto
  have "i \<le> j" using i(3) [OF _ assms(4) j(1)] assms(3) by simp
  then show ?thesis using i(1,2) j by (simp add: S16_Slice_def goslice_def)
qed

end
