(* ===== verification/Dot_Diff.thy ===== *)
theory Dot_Diff
  imports Dot_Runes Dot_Dispatch Dot_Sequences
begin

text \<open>
  Package \<open>changes/diff\<close>: the change that leads from one value to another. Strings are
  compared by the package \<open>diffmatchpatch\<close>, which is the parameter \<open>D\<close> here; what the
  code relies on is that the texts of its result put the two strings together again. The package works on
  runes and replaces bytes that are not valid UTF-8, so this holds of valid strings only.
\<close>

section \<open>The model\<close>

datatype diff_type = DiffDelete | DiffInsert | DiffEqual

type_synonym differ = "string \<Rightarrow> string \<Rightarrow> (diff_type \<times> string) list"

text \<open>The loop that \<open>S8\<close> and \<open>S16\<close> share, with the conversion \<open>mk\<close> to the string type.\<close>

fun diff_loop :: "(string \<Rightarrow> coll) \<Rightarrow> int \<Rightarrow> (diff_type \<times> string) list \<Rightarrow> change option list" where
  "diff_loop mk offset [] = []"
| "diff_loop mk offset ((DiffDelete, text) # ds) =
     Some (Splice \<lparr>sOffset = offset, sBefore = mk text, sAfter = mk []\<rparr>) # diff_loop mk offset ds"
| "diff_loop mk offset ((DiffInsert, text) # ds) =
     Some (Splice \<lparr>sOffset = offset, sBefore = mk [], sAfter = mk text\<rparr>) # diff_loop mk (offset + Count (mk text)) ds"
| "diff_loop mk offset ((DiffEqual, text) # ds) = diff_loop mk (offset + Count (mk text)) ds"

definition diff_result :: "change option list \<Rightarrow> change option" where
  "diff_result result = (if result = [] then None else Some (ChangeSet result))"

definition diff_S8 :: "differ \<Rightarrow> string \<Rightarrow> string \<Rightarrow> change option" where
  "diff_S8 D old new = diff_result (diff_loop CS8 0 (D old new))"

definition diff_S16 :: "differ \<Rightarrow> string \<Rightarrow> string \<Rightarrow> change option" where
  "diff_S16 D old new = diff_result (diff_loop CS16 0 (D old new))"

definition Std_Diff :: "differ \<Rightarrow> val \<Rightarrow> val \<Rightarrow> change option" where
  "Std_Diff D old new = (case (old, new) of
     (VColl (CS8 a), VColl (CS8 b)) \<Rightarrow> diff_S8 D a b
   | (VColl (CS16 a), VColl (CS16 b)) \<Rightarrow> diff_S16 D a b
   | _ \<Rightarrow> Some (Replace \<lparr>rBefore = old, rAfter = new\<rparr>))"

section \<open>Splicing texts\<close>

text \<open>
  What the loop needs of a string type: counts add up, and a splice behind a piece of text replaces
  what follows.
\<close>

locale text_type =
  fixes mk :: "string \<Rightarrow> coll" and ok :: "string \<Rightarrow> bool"
  assumes ok_append: "ok s \<Longrightarrow> ok t \<Longrightarrow> ok (s @ t)" and ok_Nil: "ok []"
    and Count_append: "ok s \<Longrightarrow> ok t \<Longrightarrow> Count (mk (s @ t)) = Count (mk s) + Count (mk t)"
    and Count_Nil: "Count (mk []) = 0"
    and splice_behind: "ok s \<Longrightarrow>
      coll_splice (mk (s @ b @ r)) \<lparr>sOffset = Count (mk s), sBefore = mk b, sAfter = mk a\<rparr> = Some (mk (s @ a @ r))"
begin

lemma diff_loop_applies:
  assumes "ok s" "\<forall>d \<in> set ds. ok (snd d)"
  shows "foldM Apply (VColl (mk (s @ concat (map snd (filter (\<lambda>d. fst d \<noteq> DiffInsert) ds))))) (diff_loop mk (Count (mk s)) ds)
    = Some (VColl (mk (s @ concat (map snd (filter (\<lambda>d. fst d \<noteq> DiffDelete) ds)))))"
  using assms
proof (induction ds arbitrary: s)
  case (Cons d ds)
  obtain op t where d: "d = (op, t)" by (cases d)
  let ?old = "concat (map snd (filter (\<lambda>d. fst d \<noteq> DiffInsert) ds))"
  have t: "ok t" "ok (s @ t)" "Count (mk s) + Count (mk t) = Count (mk (s @ t))"
    using Cons.prems d ok_append Count_append by auto
  note IH = Cons.IH [OF t(2)] Cons.IH [OF Cons.prems(1)]
  show ?case
    using IH Cons.prems(2) d t(3) splice_behind [OF Cons.prems(1), of t ?old "[]"] splice_behind [OF Cons.prems(1), of "[]" ?old t]
    by (cases op) auto
qed simp

lemma diff_applies:
  assumes "\<forall>d \<in> set ds. ok (snd d)"
    and "concat (map snd (filter (\<lambda>d. fst d \<noteq> DiffInsert) ds)) = old" "concat (map snd (filter (\<lambda>d. fst d \<noteq> DiffDelete) ds)) = new"
  shows "Apply (VColl (mk old)) (diff_result (diff_loop mk 0 ds)) = Some (VColl (mk new))"
  using diff_loop_applies [OF ok_Nil assms(1)] assms(2,3) Count_Nil by (auto simp: diff_result_def)

end

interpretation s8_text: text_type CS8 "\<lambda>s. True"
proof unfold_locales
  show "coll_splice (CS8 (s @ b @ r)) \<lparr>sOffset = Count (CS8 s), sBefore = CS8 b, sAfter = CS8 a\<rparr> = Some (CS8 (s @ a @ r))" for s b r a
    by (simp add: S8_splice_def S8_Count_def goslice_def)
qed (simp_all add: S8_Count_def)

interpretation s16_text: text_type CS16 valid_utf8
proof unfold_locales
  show "coll_splice (CS16 (s @ b @ r)) \<lparr>sOffset = Count (CS16 s), sBefore = CS16 b, sAfter = CS16 a\<rparr> = Some (CS16 (s @ a @ r))"
    if "valid_utf8 s" for s b r a
    using FromUTF16_at [OF that, of "b @ r"] by (simp add: S16_splice_def goslice_def del: Count.simps)
qed (simp_all add: valid_append Count_S16 runes_append units_def del: Count.simps)

text \<open>What \<open>diffmatchpatch\<close> documents of \<open>DiffMain\<close>, for valid UTF-8.\<close>

definition diff_main :: "differ \<Rightarrow> bool" where
  "diff_main D \<longleftrightarrow> (\<forall>old new. valid_utf8 old \<and> valid_utf8 new \<longrightarrow>
     concat (map snd (filter (\<lambda>d. fst d \<noteq> DiffInsert) (D old new))) = old
     \<and> concat (map snd (filter (\<lambda>d. fst d \<noteq> DiffDelete) (D old new))) = new \<and> (\<forall>d \<in> set (D old new). valid_utf8 (snd d)))"

fun valid_text :: "val \<Rightarrow> bool" where
  "valid_text (VColl (CS8 s)) = valid_utf8 s"
| "valid_text (VColl (CS16 s)) = valid_utf8 s"
| "valid_text _ = True"

lemma Replace_applies: "old \<noteq> VNil \<or> new \<noteq> VNil \<Longrightarrow> Apply old (Some (Replace \<lparr>rBefore = old, rAfter = new\<rparr>)) = Some new"
  by (cases old) (auto simp: apply_Replace.simps IsCreate_def IsDelete_def)

lemma Std_Diff_applies:
  assumes "diff_main D" "valid_text old" "valid_text new" "old \<noteq> VNil \<or> new \<noteq> VNil"
  shows "Apply old (Std_Diff D old new) = Some new"
proof -
  have "Std_Diff D old new = Some (Replace \<lparr>rBefore = old, rAfter = new\<rparr>)"
    if "\<nexists>a b. old = VS8 a \<and> new = VS8 b" "\<nexists>a b. old = VS16 a \<and> new = VS16 b"
    using that by (simp add: Std_Diff_def split: val.split coll.split) blast
  then consider (s8) a b where "old = VS8 a" "new = VS8 b" | (s16) a b where "old = VS16 a" "new = VS16 b"
    | (other) "Std_Diff D old new = Some (Replace \<lparr>rBefore = old, rAfter = new\<rparr>)"
    by blast
  then show ?thesis
  proof cases
    case s8
    then show ?thesis using s8_text.diff_applies [of "D a b" a b] assms(1-3) by (simp add: Std_Diff_def diff_S8_def diff_main_def)
  next
    case s16
    then show ?thesis using s16_text.diff_applies [of "D a b" a b] assms(1-3) by (simp add: Std_Diff_def diff_S16_def diff_main_def)
  next
    case other
    then show ?thesis using Replace_applies assms(4) by simp
  qed
qed

end
