(* ===== verification/Tools_Properties.thy ===== *)
theory Tools_Properties
  imports Dot_Fold Dot_Diff Stream_Properties
begin

text \<open>
  Folded streams and diffs: a fold keeps its value while changes pass through it, and the diff of
  two values leads from one to the other.
\<close>

section \<open>Folds\<close>

text \<open>
  C39. A change made on top of a folded stream reaches the stream below. With the stream below at a
  value \<open>v\<close> and the fold at \<open>x\<close>, a change from \<open>x\<close> to \<open>y\<close> is merged with the reverse of the fold;
  the merged change \<open>c'\<close> fits \<open>v\<close> and is appended to the stream below, unless it is nil, and the reverse of the other result
  is the new fold, which takes the value below after \<open>c'\<close> to \<open>y\<close>. All streams of the family below converge, and Unfold
  returns the new fold and the new stream below. Folds that change counters, whose Revert does nothing, are left out.
\<close>

theorem fold_append_converges:
  assumes "fold_Append n (plain n) h s c = Some (h', t)" "heap_ok h" "wf_val v"
    and "Strict v (ffold s) = Some x" "chase h (fbase s) v = Some (k, f)" "Strict x c = Some y"
    and "no_counter (ffold s)" "no_counter (ffold t)"
  shows "Unfold t = Some (ffold t, fbase t) \<and> (\<exists>c' u k' f'.
    (case ffold s of None \<Rightarrow> c' = c \<and> ffold t = None | Some g \<Rightarrow> (\<exists>r. Merge n c (Revert g) = Some (r, c') \<and> ffold t = Revert_opt r))
    \<and> Apply v c' = Some u \<and> Apply u (ffold t) = Some y
    \<and> (if c' = None then h' = h \<and> fbase t = fbase s else stream_Append n h (fbase s) c' = Some (h', fbase t))
    \<and> chase h' (fbase t) u = Some (k', f') \<and> (\<forall>r z. chase h r z = Some (k, f) \<longrightarrow> chase h' r z = Some (k', f')))"
proof -
  obtain c' u k' f' where *: "fold_swap n (ffold s) c = Some (ffold t, c')" "Strict v c' = Some u" "Strict u (ffold t) = Some y"
    "if c' = None then h' = h \<and> fbase t = fbase s else Append (plain n) h (fbase s) c' = Some (h', fbase t)"
    "chase h' (fbase t) u = Some (k', f')" "\<forall>r z. chase h r z = Some (k, f) \<longrightarrow> chase h' r z = Some (k', f')"
    using list.fold_Append_folded [OF assms] by blast
  have "case ffold s of None \<Rightarrow> c' = c \<and> ffold t = None | Some g \<Rightarrow> (\<exists>r. Merge n c (Revert g) = Some (r, c') \<and> ffold t = Revert_opt r)"
    using *(1) by (auto simp: fold_swap_def cMerge_Merge bind_Some_ex split: option.splits)
  moreover have "if c' = None then h' = h \<and> fbase t = fbase s else stream_Append n h (fbase s) c' = Some (h', fbase t)"
    using *(4) by (simp add: plain_def split: if_splits)
  moreover have "Apply v c' = Some u" "Apply u (ffold t) = Some y" using *(2,3) Strict_Apply by blast+
  ultimately show ?thesis
    using Unfold_Append [OF assms(1)] *(5,6) by blast
qed

definition ex_fold :: "nat fold_stream" where
  "ex_fold = fold_New (ins8 0 ''abc'') 0"

definition ex_below :: heap where
  "ex_below = [\<lparr>nChange = ins8 1 ''z'', nNext = Some 1\<rparr>, empty_node]"

definition ex_folded :: "nat fold_stream" where
  "ex_folded = \<lparr>fptr = False, ffold = ins8 0 ''abc'', fbase = 2\<rparr>"

definition ex_below2 :: heap where
  "ex_below2 = [\<lparr>nChange = ins8 1 ''z'', nNext = Some 1\<rparr>, \<lparr>nChange = ins8 3 ''!'', nNext = Some 3\<rparr>,
     \<lparr>nChange = ins8 1 ''z'', nNext = Some 3\<rparr>, empty_node]"

lemma ex_fold_Append: "fold_Append 1 (plain 1) ex_below ex_fold (ins8 5 ''!'') = Some (ex_below2, ex_folded)"
  by code_simp

lemma ex_below_chase: "heap_ok ex_below" "chase ex_below 0 (VS8 ''xy'') = Some (1, VS8 ''xzy'')"
  by (auto simp: heap_ok_def ex_below_def less_Suc_eq chase.simps splice_evals)

lemma ex_fold_Strict: "Strict (VS8 ''xy'') (ffold ex_fold) = Some (VS8 ''abcxy'')"
  "Strict (VS8 ''abcxy'') (ins8 5 ''!'') = Some (VS8 ''abcxy!'')"
  by (simp_all add: ex_fold_def fold_New_def splice_evals)

theorem fold_append_converges_witness:
  "\<exists>c' u k' f'. Merge 1 (ins8 5 ''!'') (del8 0 ''abc'') = Some (del8 0 ''abc'', c') \<and> stream_Append 1 ex_below 0 c' = Some (ex_below2, 2)
    \<and> Apply (VS8 ''xy'') c' = Some u \<and> Apply u (ins8 0 ''abc'') = Some (VS8 ''abcxy!'')
    \<and> chase ex_below2 2 u = Some (k', f') \<and> chase ex_below2 0 (VS8 ''xy'') = Some (k', f')"
proof -
  have b: "chase ex_below (fbase ex_fold) (VS8 ''xy'') = Some (1, VS8 ''xzy'')"
    using ex_below_chase(2) by (simp add: ex_fold_def fold_New_def)
  have e: "ffold ex_fold = ins8 0 ''abc''" "fbase ex_fold = 0" "ffold ex_folded = ins8 0 ''abc''" "fbase ex_folded = 2"
    by (simp_all add: ex_fold_def fold_New_def ex_folded_def)
  have m: "Merge 1 (ins8 5 ''!'') (del8 0 ''abc'') = Some (del8 0 ''abc'', ins8 2 ''!'')" by code_simp
  have v: "Revert (Splice \<lparr>sOffset = 0, sBefore = CS8 [], sAfter = CS8 ''abc''\<rparr>) = del8 0 ''abc''" by (simp add: Splice_Revert_def)
  from fold_append_converges [OF ex_fold_Append ex_below_chase(1) _ ex_fold_Strict(1) b ex_fold_Strict(2)]
  obtain c' u k' f' where *: "\<exists>r. Merge 1 (ins8 5 ''!'') (del8 0 ''abc'') = Some (r, c')" "Apply (VS8 ''xy'') c' = Some u" "Apply u (ins8 0 ''abc'') = Some (VS8 ''abcxy!'')"
    "if c' = None then ex_below2 = ex_below \<and> 2 = (0 :: nat) else stream_Append 1 ex_below 0 c' = Some (ex_below2, 2)"
    "chase ex_below2 2 u = Some (k', f')" "\<forall>r z. chase ex_below r z = Some (1, VS8 ''xzy'') \<longrightarrow> chase ex_below2 r z = Some (k', f')"
    unfolding e option.case v by auto
  have "c' = ins8 2 ''!''" using *(1) m by simp
  then show ?thesis using *(2-6) m ex_below_chase(2) by (intro exI [of _ c'] exI [of _ u] exI [of _ k'] exI [of _ f'] conjI) simp_all
qed

text \<open>
  A change that arrives from below is moved above the fold: the next change of a folded stream
  fits the value the fold stands at, and the next folded stream stands at the result, with the
  stream below at its next value.
\<close>

theorem fold_next_follows:
  assumes "fold_Next n (plain n) h s = Some (Some (t, c))" "heap_ok h" "wf_val v"
    and "Strict v (ffold s) = Some x" "chase h (fbase s) v = Some (k, f)"
  shows "\<exists>y u. Apply x c = Some y \<and> Apply u (ffold t) = Some y \<and> chase h (fbase t) u = Some (k, f)"
proof -
  have "list.folded h s x (k, f)" using assms(2-5) by (auto simp: list.folded_def)
  from list.fold_Next_folded [OF assms(1) this] show ?thesis
    using Strict_Apply by (fastforce simp: list.folded_def)
qed

lemma ex_fold_Next: "fold_Next 1 (plain 1) ex_below ex_fold
    = Some (Some (\<lparr>fptr = True, ffold = ins8 0 ''abc'', fbase = 1\<rparr>, ins8 4 ''z''))"
  by code_simp

theorem fold_next_follows_witness:
  "\<exists>y u. Apply (VS8 ''abcxy'') (ins8 4 ''z'') = Some y \<and> Apply u (ins8 0 ''abc'') = Some y
    \<and> chase ex_below 1 u = Some (1, VS8 ''xzy'')"
proof -
  have "chase ex_below (fbase ex_fold) (VS8 ''xy'') = Some (1, VS8 ''xzy'')"
    using ex_below_chase(2) by (simp add: ex_fold_def fold_New_def)
  from fold_next_follows [OF ex_fold_Next ex_below_chase(1) _ ex_fold_Strict(1) this] show ?thesis by simp
qed

text \<open>
  \<open>Unfold\<close> panics on every stream that \<open>Next\<close> returned, although it is derived from \<open>New\<close>.
\<close>

theorem unfold_after_next:
  assumes "fold_Next n S w s = Some (Some (t, c))"
  shows "Unfold t = None"
  by (rule Unfold_Next [OF assms])

section \<open>Diffs\<close>

text \<open>
  C40. The change that Diff returns leads from the old value to the new one, whatever their types,
  unless both are nil or one is a string that is not valid UTF-8: strings of one type by splices whose offsets count bytes or UTF-16 units,
  everything else by a Replace. The string comparison only has to put two valid strings together again, from valid pieces.
\<close>

theorem diff_leads_to_new:
  assumes "diff_main D" "valid_text old" "valid_text new" "old \<noteq> VNil \<or> new \<noteq> VNil"
  shows "Apply old (Std_Diff D old new) = Some new"
  by (rule Std_Diff_applies [OF assms])

definition ex_differ :: differ where
  "ex_differ old new = (if old \<noteq> [] \<and> new \<noteq> [] \<and> hd old = hd new \<and> of_char (hd old) < (128 :: nat)
     then [(DiffEqual, [hd old]), (DiffDelete, tl old), (DiffInsert, tl new)]
     else [(DiffDelete, old), (DiffInsert, new)])"

lemma ex_differ_main: "diff_main ex_differ"
proof -
  have "valid_utf8 [c] \<and> valid_utf8 s" if "valid_utf8 (c # s)" "of_char c < (128 :: nat)" for c s
    using that by (auto simp: valid_utf8_def runes.simps [of "c # s"] runes.simps [of "[c]"] rune_error_def)
  then show ?thesis by (auto simp: diff_main_def ex_differ_def neq_Nil_conv)
qed

theorem diff_leads_to_new_witness:
  "Apply (VS16 ''abc'') (Std_Diff ex_differ (VS16 ''abc'') (VS16 ''axyz'')) = Some (VS16 ''axyz'')"
  by (rule diff_leads_to_new [OF ex_differ_main]) (simp_all add: valid_utf8_def runes.simps rune_error_def)

end
