(* ===== verification/Dot_Bolt.thy ===== *)
theory Dot_Bolt
  imports Dot_Ops Dot_Strings
begin

text \<open>
  Package \<open>ops/bolt\<close>: a store in one bucket of a Bolt file. The bucket has two kinds of keys, the
  encoded ID of every operation and the hexadecimal version of every operation, and its
  sequence counts the operations.

  The library \<open>bbolt\<close> is the record \<open>bolt_db\<close> and a codec the record \<open>bolt_codec\<close>; both are parameters.
  \<open>bolt_laws\<close> and \<open>codec_laws\<close> state what the store relies on, \<open>storable\<close> what it needs of an operation. With these
  the store is the in-memory store: \<open>bolt_abs\<close> maps one to the other. An operation whose encoded ID is longer than a key of
  the library makes Append panic.
\<close>

type_synonym bytes = string

section \<open>The library and the codec\<close>

text \<open>
  The operations on the bucket of the store within a transaction, and the two kinds of
  transactions. \<open>db_Update\<close> takes the function to run, which may panic, change the
  bucket, and return an error.
\<close>

record 'd bolt_db =
  b_exists :: "'d \<Rightarrow> bool"
  b_create :: "'d \<Rightarrow> string + 'd"
  b_Get :: "'d \<Rightarrow> bytes \<Rightarrow> bytes option"
  b_Put :: "'d \<Rightarrow> bytes \<Rightarrow> bytes \<Rightarrow> string + 'd"
  b_Sequence :: "'d \<Rightarrow> nat"
  b_NextSequence :: "'d \<Rightarrow> string + 'd \<times> nat"
  db_Update :: "'d \<Rightarrow> ('d \<Rightarrow> ('d \<times> string option) option) \<Rightarrow> ('d \<times> string option) option"
  db_View :: "'d \<Rightarrow> ('d \<Rightarrow> bytes list) \<Rightarrow> string + bytes list"

record bolt_codec =
  encOp :: "op \<Rightarrow> string + bytes"
  encID :: "key \<Rightarrow> string + bytes"
  decOp :: "bytes \<Rightarrow> string + op"

section \<open>The store\<close>

definition bolt_encode :: "bolt_codec \<Rightarrow> op \<Rightarrow> string + bytes \<times> bytes" where
  "bolt_encode C x = (case encOp C x of Inl e \<Rightarrow> Inl e | Inr data \<Rightarrow>
     (case encID C (opID x) of Inl e \<Rightarrow> Inl e | Inr i \<Rightarrow> Inr (i, data)))"

text \<open>The first loop of \<open>Append\<close>: encode, dropping operations with an ID that came before.\<close>

fun encode_loop :: "bolt_codec \<Rightarrow> key set \<Rightarrow> op list \<Rightarrow> string + (bytes \<times> bytes) list" where
  "encode_loop C seen [] = Inr []"
| "encode_loop C seen (x # ops) =
     (if opID x \<notin> seen then (case bolt_encode C x of Inl e \<Rightarrow> Inl e | Inr p \<Rightarrow>
        (case encode_loop C ({opID x} \<union> seen) ops of Inl e \<Rightarrow> Inl e | Inr ps \<Rightarrow> Inr (p # ps)))
      else encode_loop C seen ops)"

text \<open>The second loop, within the transaction; \<open>must\<close> panics.\<close>

definition b_must :: "string + 'a \<Rightarrow> 'a option" where
  "b_must r = (case r of Inl e \<Rightarrow> None | Inr x \<Rightarrow> Some x)"

fun put_loop :: "'d bolt_db \<Rightarrow> 'd \<Rightarrow> (bytes \<times> bytes) list \<Rightarrow> 'd option" where
  "put_loop B root [] = Some root"
| "put_loop B root ((i, data) # ps) =
     (if b_Get B root i \<noteq> None then put_loop B root ps
      else do {
        (root, seq) \<leftarrow> b_must (b_NextSequence B root);
        root \<leftarrow> b_must (b_Put B root i [CHR 0x00]);
        root \<leftarrow> b_must (b_Put B root (text_nat 16 (seq - 1)) data);
        put_loop B root ps })"

definition append_tx :: "'d bolt_db \<Rightarrow> (bytes \<times> bytes) list \<Rightarrow> 'd \<Rightarrow> ('d \<times> string option) option" where
  "append_tx B ps tx = (case b_create B tx of
     Inl e \<Rightarrow> Some (tx, Some e)
   | Inr root \<Rightarrow> do { root \<leftarrow> put_loop B root ps; Some (root, None) })"

definition bolt_Append :: "'d bolt_db \<Rightarrow> bolt_codec \<Rightarrow> 'd \<Rightarrow> op list \<Rightarrow> ('d \<times> string option) option" where
  "bolt_Append B C d ops =
     (if ops = [] then Some (d, None)
      else (case encode_loop C {} ops of
        Inl e \<Rightarrow> Some (d, Some e)
      | Inr ps \<Rightarrow> db_Update B d (append_tx B ps)))"

text \<open>The conversion \<open>uint64(x)\<close> of an \<open>int\<close>.\<close>

definition uint64 :: "int \<Rightarrow> nat" where
  "uint64 x = nat (if x < 0 then x + 2 ^ 64 else x)"

definition since_tx :: "'d bolt_db \<Rightarrow> int \<Rightarrow> int \<Rightarrow> 'd \<Rightarrow> bytes list" where
  "since_tx B version limit root =
     (if \<not> b_exists B root then []
      else (let cnt = min (b_Sequence B root) (uint64 (version + limit)) in
        map (\<lambda>kk. case b_Get B root (text_nat 16 kk) of None \<Rightarrow> [] | Some d \<Rightarrow> d) [uint64 version..<cnt]))"

fun decode_loop :: "bolt_codec \<Rightarrow> int \<Rightarrow> bytes list \<Rightarrow> string + op list" where
  "decode_loop C version [] = Inr []"
| "decode_loop C version (d # datas) = (case decOp C d of Inl e \<Rightarrow> Inl e | Inr x \<Rightarrow>
     (case decode_loop C (version + 1) datas of Inl e \<Rightarrow> Inl e | Inr xs \<Rightarrow> Inr (WithVersion x version # xs)))"

definition bolt_GetSince :: "'d bolt_db \<Rightarrow> bolt_codec \<Rightarrow> 'd \<Rightarrow> int \<Rightarrow> int \<Rightarrow> string + op list" where
  "bolt_GetSince B C d version limit = (case db_View B d (since_tx B version limit) of
     Inl e \<Rightarrow> Inl e
   | Inr datas \<Rightarrow> decode_loop C version datas)"

section \<open>What the store relies on\<close>

text \<open>
  \<open>bbolt\<close>, for an open file: a bucket is a map with a counter; keys are not empty and have at most 32768 bytes, values have less than
  \<open>2 ^ 31 - 1\<close> bytes, and Put returns an error for a longer key; a new bucket is empty; an update transaction is committed as a whole or rolled back, and
  passes on an error or a panic of the function it runs.
\<close>

definition create_ok :: "'d bolt_db \<Rightarrow> 'd \<Rightarrow> bool" where
  "create_ok B d \<longleftrightarrow> (\<forall>d'. b_create B d = Inr d' \<longrightarrow> b_exists B d' \<and>
     (\<forall>k. b_Get B d' k = (if b_exists B d then b_Get B d k else None)) \<and> b_Sequence B d' = (if b_exists B d then b_Sequence B d else 0))"

definition put_ok :: "'d bolt_db \<Rightarrow> 'd \<Rightarrow> bytes \<Rightarrow> bytes \<Rightarrow> bool" where
  "put_ok B d k v \<longleftrightarrow> (\<exists>d'. b_Put B d k v = Inr d' \<and> b_exists B d' \<and>
     (\<forall>j. b_Get B d' j = (if j = k then Some v else b_Get B d j)) \<and> b_Sequence B d' = b_Sequence B d)"

definition next_ok :: "'d bolt_db \<Rightarrow> 'd \<Rightarrow> bool" where
  "next_ok B d \<longleftrightarrow> (\<exists>d'. b_NextSequence B d = Inr (d', Suc (b_Sequence B d)) \<and> b_exists B d' \<and>
     b_Get B d' = b_Get B d \<and> b_Sequence B d' = Suc (b_Sequence B d))"

definition update_ok :: "'d bolt_db \<Rightarrow> 'd \<Rightarrow> ('d \<Rightarrow> ('d \<times> string option) option) \<Rightarrow> 'd \<Rightarrow> bool" where
  "update_ok B d f d' \<longleftrightarrow> db_Update B d f = Some (d', None) \<or> (\<exists>e. db_Update B d f = Some (d, Some e))"

definition bolt_laws :: "'d bolt_db \<Rightarrow> bool" where
  "bolt_laws B \<longleftrightarrow> (\<forall>d. create_ok B d) \<and>
     (\<forall>d k v. b_exists B d \<longrightarrow> k \<noteq> [] \<longrightarrow> length k \<le> 32768 \<longrightarrow> int (length v) \<le> 2 ^ 31 - 2 \<longrightarrow> put_ok B d k v) \<and>
     (\<forall>d k v. 32768 < length k \<longrightarrow> (\<exists>e. b_Put B d k v = Inl e)) \<and>
     (\<forall>d. b_exists B d \<longrightarrow> Suc (b_Sequence B d) < 2 ^ 64 \<longrightarrow> next_ok B d) \<and>
     (\<forall>d f d'. f d = Some (d', None) \<longrightarrow> update_ok B d f d') \<and>
     (\<forall>d f d' e. f d = Some (d', Some e) \<longrightarrow> (\<exists>e'. db_Update B d f = Some (d, Some e'))) \<and>
     (\<forall>d f. f d = None \<longrightarrow> db_Update B d f = None) \<and> (\<forall>d f. db_View B d f = Inr (f d))"

text \<open>
  The codec: IDs have different encodings, which are neither empty nor the text of a hexadecimal number.
\<close>

definition codec_laws :: "bolt_codec \<Rightarrow> bool" where
  "codec_laws C \<longleftrightarrow>
     (\<forall>i j k. encID C i = Inr k \<longrightarrow> encID C j = Inr k \<longrightarrow> i = j) \<and>
     (\<forall>i k. encID C i = Inr k \<longrightarrow> k \<noteq> [] \<and> (\<forall>n. k \<noteq> text_nat 16 n))"

text \<open>An operation that the store can keep: if it can be encoded, it comes back, and key and value are not too long.\<close>

definition storable :: "bolt_codec \<Rightarrow> op \<Rightarrow> bool" where
  "storable C x \<longleftrightarrow> (\<forall>data. encOp C x = Inr data \<longrightarrow> decOp C data = Inr x \<and> int (length data) \<le> 2 ^ 31 - 2) \<and>
     (\<forall>k. encID C (opID x) = Inr k \<longrightarrow> length k \<le> 32768)"

section \<open>Abstraction\<close>

definition bolt_count :: "'d bolt_db \<Rightarrow> 'd \<Rightarrow> nat" where
  "bolt_count B d = (if b_exists B d then b_Sequence B d else 0)"

definition bolt_ops :: "'d bolt_db \<Rightarrow> bolt_codec \<Rightarrow> 'd \<Rightarrow> op list" where
  "bolt_ops B C d = map (\<lambda>i. WithVersion (projr (decOp C (the (b_Get B d (text_nat 16 i))))) (int i)) [0..<bolt_count B d]"

definition bolt_abs :: "'d bolt_db \<Rightarrow> bolt_codec \<Rightarrow> 'd \<Rightarrow> mem" where
  "bolt_abs B C d = \<lparr>memOps = bolt_ops B C d, memSeen = opID ` set (bolt_ops B C d)\<rparr>"

text \<open>
  Every version below the sequence has the data of an operation, whose ID is in the bucket, and there
  are no other IDs.
\<close>

definition bolt_ok :: "'d bolt_db \<Rightarrow> bolt_codec \<Rightarrow> 'd \<Rightarrow> bool" where
  "bolt_ok B C d \<longleftrightarrow>
     (\<forall>i < bolt_count B d. \<exists>data x. b_Get B d (text_nat 16 i) = Some data \<and> decOp C data = Inr x) \<and>
     (b_exists B d \<longrightarrow> (\<forall>i k. encID C i = Inr k \<longrightarrow> (b_Get B d k \<noteq> None \<longleftrightarrow> i \<in> opID ` set (bolt_ops B C d))))"

lemma bolt_lawsD:
  assumes "bolt_laws B"
  shows create_law: "create_ok B d" and put_law: "b_exists B d \<Longrightarrow> k \<noteq> [] \<Longrightarrow> length k \<le> 32768 \<Longrightarrow> int (length v) \<le> 2 ^ 31 - 2 \<Longrightarrow> put_ok B d k v"
    and long_law: "32768 < length k \<Longrightarrow> \<exists>e. b_Put B d k v = Inl e"
    and next_law: "b_exists B d \<Longrightarrow> Suc (b_Sequence B d) < 2 ^ 64 \<Longrightarrow> next_ok B d"
    and update_law: "f d = Some (d', None) \<Longrightarrow> update_ok B d f d'" and error_law: "f d = Some (d', Some e) \<Longrightarrow> \<exists>e'. db_Update B d f = Some (d, Some e')"
    and panic_law: "f d = None \<Longrightarrow> db_Update B d f = None" and view_law: "db_View B d g = Inr (g d)"
proof -
  note l2 = assms [unfolded bolt_laws_def, THEN conjunct2]
  note l3 = l2 [THEN conjunct2]
  note l4 = l3 [THEN conjunct2]
  note l5 = l4 [THEN conjunct2]
  note l6 = l5 [THEN conjunct2]
  note l7 = l6 [THEN conjunct2]
  note l = assms [unfolded bolt_laws_def, THEN conjunct1] l2 [THEN conjunct1] l3 [THEN conjunct1] l4 [THEN conjunct1] l5 [THEN conjunct1]
    l6 [THEN conjunct1] l7 [THEN conjunct1] l7 [THEN conjunct2]
  show "create_ok B d" by (rule l(1) [rule_format])
  show "b_exists B d \<Longrightarrow> k \<noteq> [] \<Longrightarrow> length k \<le> 32768 \<Longrightarrow> int (length v) \<le> 2 ^ 31 - 2 \<Longrightarrow> put_ok B d k v" by (rule l(2) [rule_format])
  show "32768 < length k \<Longrightarrow> \<exists>e. b_Put B d k v = Inl e" by (rule l(3) [rule_format])
  show "b_exists B d \<Longrightarrow> Suc (b_Sequence B d) < 2 ^ 64 \<Longrightarrow> next_ok B d" by (rule l(4) [rule_format])
  show "f d = Some (d', None) \<Longrightarrow> update_ok B d f d'" by (rule l(5) [rule_format])
  show "f d = Some (d', Some e) \<Longrightarrow> \<exists>e'. db_Update B d f = Some (d, Some e')" by (rule l(6) [rule_format])
  show "f d = None \<Longrightarrow> db_Update B d f = None" by (rule l(7) [rule_format])
  show "db_View B d g = Inr (g d)" by (rule l(8) [rule_format])
qed

lemma codec_lawsD:
  assumes "codec_laws C"
  shows id_law: "encID C i = Inr k \<Longrightarrow> encID C j = Inr k \<Longrightarrow> i = j"
    and id_key: "encID C i = Inr k \<Longrightarrow> k \<noteq> [] \<and> k \<noteq> text_nat 16 n"
  using assms unfolding codec_laws_def by blast+

lemma text_nat_inj: "text_nat 16 i = text_nat 16 j \<Longrightarrow> i = j"
proof -
  assume t: "text_nat 16 i = text_nat 16 j"
  have r: "parse_nat 16 0 (text_nat 16 k) = Some k" for k by (rule parse_text_nat) simp_all
  show "i = j" using r [of i] r [of j] unfolding t by (metis option.inject)
qed

lemma text_nat_length: "n < 16 ^ Suc k \<Longrightarrow> length (text_nat 16 n) \<le> Suc k"
proof (induction k arbitrary: n)
  case (Suc k)
  have "n div 16 < 16 ^ Suc k" using Suc.prems by (simp add: less_mult_imp_div_less)
  then show ?case using Suc.IH [of "n div 16"] by (simp add: text_nat.simps [of 16 n])
qed (simp add: text_nat.simps)

lemma hex_key: "n < 2 ^ 64 \<Longrightarrow> text_nat 16 n \<noteq> [] \<and> length (text_nat 16 n) \<le> 32768"
proof -
  assume n: "n < 2 ^ 64"
  have "(2 :: nat) ^ 64 = 16 ^ Suc 15" by (simp del: power_Suc)
  then have "length (text_nat 16 n) \<le> Suc 15" using text_nat_length [of n 15] n by argo
  then show ?thesis using text_nat_Nil by simp
qed

text \<open>One operation is added.\<close>

lemma put_one:
  assumes laws: "bolt_laws B" "codec_laws C" and root: "bolt_ok B C root" "b_exists B root" "Suc (b_Sequence B root) < 2 ^ 64"
    and enc: "bolt_encode C x = Inr (i, data)" "storable C x" and new: "b_Get B root i = None"
  shows "\<exists>root'. put_loop B root ((i, data) # ps) = put_loop B root' ps \<and> bolt_ok B C root' \<and> b_exists B root'
    \<and> b_Sequence B root' = Suc (b_Sequence B root)
    \<and> bolt_ops B C root' = bolt_ops B C root @ [WithVersion x (int (b_Sequence B root))]"
proof -
  let ?n = "b_Sequence B root" and ?h = "text_nat 16 (b_Sequence B root)"
  have x: "encOp C x = Inr data" "encID C (opID x) = Inr i" using enc(1) by (auto simp: bolt_encode_def split: sum.splits)
  have st: "decOp C data = Inr x" "int (length data) \<le> 2 ^ 31 - 2" "length i \<le> 32768" using enc(2) x unfolding storable_def by blast+
  obtain r1 where r1: "b_NextSequence B root = Inr (r1, Suc ?n)" "b_exists B r1" "b_Get B r1 = b_Get B root" "b_Sequence B r1 = Suc ?n"
    using next_law [OF laws(1) root(2,3)] unfolding next_ok_def by blast
  obtain r2 where r2: "b_Put B r1 i [CHR 0x00] = Inr r2" "b_exists B r2" "\<And>j. b_Get B r2 j = (if j = i then Some [CHR 0x00] else b_Get B r1 j)"
    "b_Sequence B r2 = Suc ?n"
    using put_law [OF laws(1) r1(2), of i "[CHR 0x00]"] id_key [OF laws(2) x(2)] st(3) unfolding put_ok_def r1(4) by auto
  obtain r3 where r3: "b_Put B r2 ?h data = Inr r3" "b_exists B r3" "\<And>j. b_Get B r3 j = (if j = ?h then Some data else b_Get B r2 j)"
    "b_Sequence B r3 = Suc ?n"
    using put_law [OF laws(1) r2(2), of ?h data] hex_key [of ?n] Suc_lessD [OF root(3)] st(2) unfolding put_ok_def r2(4) by blast
  have get: "b_Get B r3 j = (if j = ?h then Some data else if j = i then Some [CHR 0x00] else b_Get B root j)" for j
    using r3(3) r2(3) r1(3) by simp
  have old: "b_Get B r3 (text_nat 16 k) = b_Get B root (text_nat 16 k)" if "k < ?n" for k
    using that get id_key [OF laws(2) x(2)] text_nat_inj [of k ?n] by auto
  note dec = st(1)
  have ops: "bolt_ops B C r3 = bolt_ops B C root @ [WithVersion x (int ?n)]"
    using old get dec r3(2,4) root(2) by (simp add: bolt_ops_def bolt_count_def)
  have "bolt_ok B C r3"
    unfolding bolt_ok_def
  proof (intro conjI impI allI)
    fix k assume "k < bolt_count B r3"
    then consider "k < ?n" | "k = ?n" using r3(2,4) by (fastforce simp: bolt_count_def)
    then show "\<exists>data x. b_Get B r3 (text_nat 16 k) = Some data \<and> decOp C data = Inr x"
      using old get dec root(1,2) by cases (auto simp: bolt_ok_def bolt_count_def)
  next
    fix j k assume j: "encID C j = Inr k"
    have "k \<noteq> ?h" using id_key [OF laws(2) j] by simp
    moreover have "k = i \<longleftrightarrow> j = opID x" 
      using id_law [OF laws(2) j, of "opID x"] j x(2) by (metis sum.inject(2))
    ultimately have "(b_Get B r3 k \<noteq> None) = (j = opID x \<or> b_Get B root k \<noteq> None)" by (simp add: get)
    moreover have "(b_Get B root k \<noteq> None) = (j \<in> opID ` set (bolt_ops B C root))"
      using root(1,2) j by (simp add: bolt_ok_def)
    ultimately show "(b_Get B r3 k \<noteq> None) = (j \<in> opID ` set (bolt_ops B C r3))" unfolding ops by simp
  qed
  moreover have "put_loop B root ((i, data) # ps) = put_loop B r3 ps"
    using new r1(1) r2(1) r3(1) by (simp add: b_must_def)
  ultimately show ?thesis using ops r3(2,4) by blast
qed

lemma put_loop_refines:
  assumes laws: "bolt_laws B" "codec_laws C"
  shows "bolt_ok B C root \<Longrightarrow> b_exists B root \<Longrightarrow> b_Sequence B root + length xs < 2 ^ 64 \<Longrightarrow>
    encode_loop C seen xs = Inr ps \<Longrightarrow> seen \<subseteq> memSeen (bolt_abs B C root) \<Longrightarrow> \<forall>x \<in> set xs. storable C x \<Longrightarrow>
    \<exists>root'. put_loop B root ps = Some root' \<and> bolt_ok B C root' \<and> bolt_abs B C root' = mem_Append_loop (bolt_abs B C root) xs"
proof (induction xs arbitrary: seen ps root)
  case (Cons x xs)
  let ?m = "bolt_abs B C root"
  show ?case
  proof (cases "opID x \<in> seen")
    case True
    then show ?thesis using Cons.IH [of root seen ps] Cons.prems by auto
  next
    case False
    obtain i data qs where e: "bolt_encode C x = Inr (i, data)" "encode_loop C ({opID x} \<union> seen) xs = Inr qs" "ps = (i, data) # qs"
      using Cons.prems(4) False by (auto split: sum.splits)
    have i: "encID C (opID x) = Inr i" using e(1) by (auto simp: bolt_encode_def split: sum.splits)
    have has: "b_Get B root i \<noteq> None \<longleftrightarrow> opID x \<in> memSeen ?m"
      using Cons.prems(1,2) i by (simp add: bolt_ok_def bolt_abs_def)
    show ?thesis
    proof (cases "b_Get B root i")
      case None
      obtain root' where r: "put_loop B root ps = put_loop B root' qs" "bolt_ok B C root'" "b_exists B root'"
        "b_Sequence B root' = Suc (b_Sequence B root)" "bolt_ops B C root' = bolt_ops B C root @ [WithVersion x (int (b_Sequence B root))]"
        using put_one [OF laws Cons.prems(1,2) _ e(1) _ None, of qs] Cons.prems(3,6) e(3) by auto
      have len: "length (memOps ?m) = b_Sequence B root" using Cons.prems(2) by (simp add: bolt_abs_def bolt_ops_def bolt_count_def)
      have m: "bolt_abs B C root' = \<lparr>memOps = memOps ?m @ [WithVersion x (int (length (memOps ?m)))], memSeen = {opID x} \<union> memSeen ?m\<rparr>"
        using r(5) len by (simp add: bolt_abs_def)
      then have "{opID x} \<union> seen \<subseteq> memSeen (bolt_abs B C root')" using Cons.prems(5) by auto
      then show ?thesis using Cons.IH [OF r(2,3) _ e(2)] Cons.prems(3,6) r(1,4) has None m by simp
    next
      case (Some d)
      then have "{opID x} \<union> seen \<subseteq> memSeen ?m" using has Cons.prems(5) by simp
      then show ?thesis using Cons.IH [OF Cons.prems(1,2) _ e(2)] Cons.prems(3,6) has Some e(3) by simp
    qed
  qed
qed simp

lemma create_abs:
  assumes "bolt_laws B" "bolt_ok B C d" "b_create B d = Inr root"
  shows "bolt_ok B C root \<and> b_exists B root \<and> b_Sequence B root = bolt_count B d \<and> bolt_abs B C root = bolt_abs B C d"
proof -
  have r: "b_create B d = Inr root" "b_exists B root" "b_Sequence B root = bolt_count B d"
    "\<And>k. b_Get B root k = (if b_exists B d then b_Get B d k else None)"
    using create_law [OF assms(1), of d] assms(3) unfolding create_ok_def bolt_count_def by auto
  have ops: "bolt_ops B C root = bolt_ops B C d" using r(2-4) by (simp add: bolt_ops_def bolt_count_def)
  then have "bolt_ok B C root" using assms(2) r(2-4) by (auto simp: bolt_ok_def bolt_count_def bolt_ops_def)
  then show ?thesis using r ops by (simp add: bolt_abs_def)
qed

lemma bolt_Append_refines:
  assumes "bolt_laws B" "codec_laws C" "bolt_ok B C d" "bolt_count B d + length xs < 2 ^ 64" "\<forall>x \<in> set xs. storable C x"
  shows "\<exists>d' e. bolt_Append B C d xs = Some (d', e) \<and> bolt_ok B C d' \<and>
    (if e = None then bolt_abs B C d' = fst (mem_Append (bolt_abs B C d) xs) else d' = d)"
proof (cases "xs = []")
  case True
  then show ?thesis using assms(3) by (simp add: bolt_Append_def mem_Append_def)
next
  case False
  show ?thesis
  proof (cases "encode_loop C {} xs")
    case (Inl e)
    then show ?thesis using False assms(3) by (simp add: bolt_Append_def)
  next
    case ps: (Inr ps)
    show ?thesis
    proof (cases "b_create B d")
      case (Inl e)
      then have "append_tx B ps d = Some (d, Some e)" by (simp add: append_tx_def)
      from error_law [where f = "append_tx B ps", OF assms(1) this] show ?thesis using False ps assms(3) by (auto simp: bolt_Append_def)
    next
      case (Inr root)
      have r: "bolt_ok B C root" "b_exists B root" "b_Sequence B root = bolt_count B d" "bolt_abs B C root = bolt_abs B C d"
        using create_abs [OF assms(1,3) Inr] by blast+
      obtain root' where p: "put_loop B root ps = Some root'" "bolt_ok B C root'" "bolt_abs B C root' = mem_Append_loop (bolt_abs B C d) xs"
        using put_loop_refines [OF assms(1,2) r(1,2) _ ps] assms(4,5) r(3,4) by auto
      have "append_tx B ps d = Some (root', None)" using Inr p(1) by (simp add: append_tx_def)
      from update_law [where f = "append_tx B ps", OF assms(1) this] show ?thesis
        using False ps p(2,3) assms(3) by (auto simp: update_ok_def bolt_Append_def mem_Append_def)
    qed
  qed
qed

text \<open>An operation with a new ID whose encoding is too long for a key: the transaction panics.\<close>

lemma bolt_Append_long_id:
  assumes "bolt_laws B" "bolt_encode C x = Inr (i, data)" "32768 < length i" "b_create B d = Inr root" "b_Get B root i = None"
  shows "bolt_Append B C d [x] = None"
proof -
  have "put_loop B root [(i, data)] = None"
  proof (cases "b_NextSequence B root")
    case (Inr r)
    obtain e where "b_Put B (fst r) i [CHR 0x00] = Inl e" using long_law [OF assms(1,3)] by blast
    then show ?thesis using Inr assms(5) by (cases r) (simp add: b_must_def)
  qed (use assms(5) in \<open>simp add: b_must_def\<close>)
  then have "append_tx B [(i, data)] d = None" using assms(4) by (simp add: append_tx_def)
  from panic_law [where f = "append_tx B [(i, data)]", OF assms(1) this] show ?thesis using assms(2) by (simp add: bolt_Append_def)
qed

lemma decode_loop_ok:
  "(\<And>i. i < length ds \<Longrightarrow> \<exists>x. decOp C (ds ! i) = Inr x) \<Longrightarrow>
    decode_loop C v ds = Inr (map (\<lambda>i. WithVersion (projr (decOp C (ds ! i))) (v + int i)) [0..<length ds])"
proof (induction ds arbitrary: v)
  case (Cons d ds)
  obtain x where x: "decOp C d = Inr x" using Cons.prems [of 0] by auto
  have "decode_loop C (v + 1) ds = Inr (map (\<lambda>i. WithVersion (projr (decOp C (ds ! i))) (v + 1 + int i)) [0..<length ds])"
    using Cons.IH Cons.prems [of "Suc _"] by simp
  then show ?case using x by (simp add: upt_conv_Cons map_Suc_upt [symmetric] algebra_simps del: upt_Suc)
qed simp

lemma bolt_GetSince_refines:
  assumes "bolt_laws B" "bolt_ok B C d" "0 \<le> v" "0 \<le> limit"
  shows "bolt_GetSince B C d v limit = Inr (take (nat limit) (drop (nat v) (memOps (bolt_abs B C d))))"
proof -
  let ?ds = "since_tx B v limit d" and ?m = "min (bolt_count B d) (nat (v + limit))"
  have ds: "?ds = map (\<lambda>kk. case b_Get B d (text_nat 16 kk) of None \<Rightarrow> [] | Some x \<Rightarrow> x) [nat v..<?m]"
    using assms(3,4) by (simp add: since_tx_def uint64_def bolt_count_def Let_def)
  have get: "\<exists>x data. b_Get B d (text_nat 16 k) = Some data \<and> decOp C data = Inr x" if "k < ?m" for k
    using assms(2) that by (auto simp: bolt_ok_def)
  have "\<exists>x. decOp C (?ds ! i) = Inr x" if "i < length ?ds" for i
  proof -
    have k: "nat v + i < ?m" using that unfolding ds by auto
    then show ?thesis using get [OF k] that unfolding ds by (auto simp: nth_upt simp del: min_less_iff_conj)
  qed
  then have "bolt_GetSince B C d v limit = Inr (map (\<lambda>i. WithVersion (projr (decOp C (?ds ! i))) (v + int i)) [0..<length ?ds])"
    using decode_loop_ok by (simp add: bolt_GetSince_def view_law [OF assms(1)])
  also have "map (\<lambda>i. WithVersion (projr (decOp C (?ds ! i))) (v + int i)) [0..<length ?ds] = take (nat limit) (drop (nat v) (bolt_ops B C d))"
  proof (rule nth_equalityI)
    show "length (map (\<lambda>i. WithVersion (projr (decOp C (?ds ! i))) (v + int i)) [0..<length ?ds]) = length (take (nat limit) (drop (nat v) (bolt_ops B C d)))"
      using assms(3,4) unfolding ds by (auto simp: bolt_ops_def min_def nat_add_distrib)
  next
    fix i assume "i < length (map (\<lambda>i. WithVersion (projr (decOp C (?ds ! i))) (v + int i)) [0..<length ?ds])"
    then have i: "i < length ?ds" by simp
    then have k: "nat v + i < ?m" unfolding ds by auto
    then show "map (\<lambda>i. WithVersion (projr (decOp C (?ds ! i))) (v + int i)) [0..<length ?ds] ! i = take (nat limit) (drop (nat v) (bolt_ops B C d)) ! i"
      using i get [OF k] assms(3,4) unfolding ds by (auto simp: bolt_ops_def)
  qed
  finally show ?thesis by (simp add: bolt_abs_def)
qed

end
