(* ===== verification/Dot_Network.thy ===== *)
theory Dot_Network
  imports Dot_Ops Dot_Strings
begin

text \<open>
  Package \<open>ops/nw\<close>: a store on a server that is called over HTTP. The handler decodes a request, calls
  the store and encodes the response; the client does the reverse. Codecs are parameters, and so
  is what the network does with one call: it delivers it, loses the request, or loses the reply
  after the server has acted. Deadlines are left out with the context.
\<close>

type_synonym octets = string

section \<open>Requests, responses and codecs\<close>

record nw_request =
  rqName :: string
  rqOps :: "op list"
  rqVersion :: int
  rqLimit :: int

record nw_response =
  rsOps :: "op list"
  rsError :: "string option"

record nw_codec =
  encReq :: "nw_request \<Rightarrow> string + octets"
  decReq :: "octets \<Rightarrow> string + nw_request"
  encRes :: "nw_response \<Rightarrow> string + octets"
  decRes :: "octets \<Rightarrow> string + nw_response"

type_synonym codecs = "string \<Rightarrow> nw_codec option"

section \<open>The handler\<close>

datatype http_reply = HttpError nat string | HttpOk string octets

record 'w Handler =
  hStore :: "'w Store"
  hCodecs :: "codecs option"

text \<open>The switch on the name of the request; a panic of the store is \<open>None\<close>.\<close>

definition serve_request :: "'w Store \<Rightarrow> 'w \<Rightarrow> nw_request \<Rightarrow> ('w \<times> nw_response) option" where
  "serve_request S w req =
     (if rqName req = ''Append'' then (let (w, e) = st_Append S w (rqOps req) in Some (w, \<lparr>rsOps = [], rsError = e\<rparr>))
      else if rqName req = ''GetSince'' then (case st_GetSince S w (rqVersion req) (rqLimit req) of
        None \<Rightarrow> None
      | Some (Inl e) \<Rightarrow> Some (w, \<lparr>rsOps = [], rsError = Some e\<rparr>)
      | Some (Inr (w, ops)) \<Rightarrow> Some (w, \<lparr>rsOps = ops, rsError = None\<rparr>))
      else Some (w, \<lparr>rsOps = [], rsError = Some ''unknown error''\<rparr>))"

definition ServeHTTP :: "codecs \<Rightarrow> 'w Handler \<Rightarrow> 'w \<Rightarrow> string \<Rightarrow> octets \<Rightarrow> ('w \<times> http_reply) option" where
  "ServeHTTP DefaultCodecs h w ct body =
     (case (case hCodecs h of None \<Rightarrow> DefaultCodecs | Some cs \<Rightarrow> cs) ct of
        None \<Rightarrow> Some (w, HttpError 400 ''Invalid content-type'')
      | Some codec \<Rightarrow> (case decReq codec body of
          Inl e \<Rightarrow> Some (w, HttpError 400 e)
        | Inr req \<Rightarrow> do {
            (w, res) \<leftarrow> serve_request (hStore h) w req;
            (case encRes codec res of
               Inl e \<Rightarrow> Some (w, HttpError 400 e)
             | Inr buf \<Rightarrow> Some (w, HttpOk ct buf)) }))"

section \<open>The client\<close>

text \<open>\<open>cFatalReturns\<close>: whether the \<open>Fatal\<close> method of the logger returns, the default one ends the process.\<close>

record Client =
  cContentType :: string
  cCodecs :: "codecs option"
  cFatalReturns :: bool

datatype net = Delivered | RequestLost string | ReplyLost string

text \<open>\<open>Client.call\<close> through the network to a handler; a handler that panics closes the connection.\<close>

definition client_call :: "codecs \<Rightarrow> 'w Handler \<Rightarrow> net \<Rightarrow> 'w \<Rightarrow> string \<Rightarrow> octets \<Rightarrow> 'w \<times> (string + octets)" where
  "client_call DC h net w ct body = (case net of
     RequestLost e \<Rightarrow> (w, Inl e)
   | ReplyLost e \<Rightarrow> (case ServeHTTP DC h w ct body of None \<Rightarrow> (w, Inl e) | Some (w, _) \<Rightarrow> (w, Inl e))
   | Delivered \<Rightarrow> (case ServeHTTP DC h w ct body of
       None \<Rightarrow> (w, Inl ''EOF'')
     | Some (w, HttpOk ct buf) \<Rightarrow> (w, Inr buf)
     | Some (w, HttpError status msg) \<Rightarrow> (w, Inl (''unexpected http status '' @ Itoa (int status)))))"

definition codecError :: "Client \<Rightarrow> 'w \<Rightarrow> string \<Rightarrow> ('w \<times> op list \<times> string option) option" where
  "codecError c w e = (if cFatalReturns c then Some (w, [], Some e) else None)"

text \<open>\<open>Client.request\<close>; \<open>None\<close> is a panic on an unknown codec or the end of the process.\<close>

definition content_type :: "Client \<Rightarrow> string" where
  "content_type c = (if cContentType c = [] then ''application/x-gob'' else cContentType c)"

definition client_request ::
  "codecs \<Rightarrow> 'w Handler \<Rightarrow> Client \<Rightarrow> net \<Rightarrow> 'w \<Rightarrow> nw_request \<Rightarrow> ('w \<times> op list \<times> string option) option" where
  "client_request DC h c net w r = do {
     codec \<leftarrow> (case cCodecs c of None \<Rightarrow> DC | Some cs \<Rightarrow> cs) (content_type c);
     (case encReq codec r of
        Inl e \<Rightarrow> codecError c w e
      | Inr buf \<Rightarrow> (case client_call DC h net w (content_type c) buf of
          (w, Inl e) \<Rightarrow> Some (w, [], Some e)
        | (w, Inr body) \<Rightarrow> (case decRes codec body of
            Inl e \<Rightarrow> codecError c w e
          | Inr res \<Rightarrow> Some (w, rsOps res, rsError res)))) }"

definition client_Append ::
  "codecs \<Rightarrow> 'w Handler \<Rightarrow> Client \<Rightarrow> net \<Rightarrow> 'w \<Rightarrow> op list \<Rightarrow> ('w \<times> string option) option" where
  "client_Append DC h c net w ops = do {
     (w, _, e) \<leftarrow> client_request DC h c net w \<lparr>rqName = ''Append'', rqOps = ops, rqVersion = -1, rqLimit = -1\<rparr>;
     Some (w, e) }"

definition client_GetSince ::
  "codecs \<Rightarrow> 'w Handler \<Rightarrow> Client \<Rightarrow> net \<Rightarrow> 'w \<Rightarrow> int \<Rightarrow> int \<Rightarrow> ('w \<times> op list \<times> string option) option" where
  "client_GetSince DC h c net w version limit =
     client_request DC h c net w \<lparr>rqName = ''GetSince'', rqOps = [], rqVersion = version, rqLimit = limit\<rparr>"

section \<open>What arrives\<close>

text \<open>
  Client and handler agree on a codec that decodes what it encodes.
\<close>

definition agree :: "codecs \<Rightarrow> 'w Handler \<Rightarrow> Client \<Rightarrow> nw_codec \<Rightarrow> bool" where
  "agree DC h c codec \<longleftrightarrow>
     (case cCodecs c of None \<Rightarrow> DC | Some cs \<Rightarrow> cs) (content_type c) = Some codec \<and>
     (case hCodecs h of None \<Rightarrow> DC | Some cs \<Rightarrow> cs) (content_type c) = Some codec \<and>
     (\<forall>r b. encReq codec r = Inr b \<longrightarrow> decReq codec b = Inr r) \<and> (\<forall>r b. encRes codec r = Inr b \<longrightarrow> decRes codec b = Inr r)"

lemma ServeHTTP_agree:
  assumes "agree DC h c codec" "encReq codec r = Inr b"
  shows "ServeHTTP DC h w (content_type c) b = do {
     (w, res) \<leftarrow> serve_request (hStore h) w r;
     (case encRes codec res of Inl e \<Rightarrow> Some (w, HttpError 400 e) | Inr buf \<Rightarrow> Some (w, HttpOk (content_type c) buf)) }"
  using assms by (auto simp: ServeHTTP_def agree_def split: option.splits)

text \<open>What one call can do to the world of the store, and what a reply without an error means.\<close>

lemma client_request_world:
  assumes "agree DC h c codec" "client_request DC h c net w r = Some (w', ops, e)"
  shows "w' = w \<or> (\<exists>res. serve_request (hStore h) w r = Some (w', res))"
    and "e = None \<Longrightarrow> \<exists>res. serve_request (hStore h) w r = Some (w', res) \<and> rsOps res = ops \<and> rsError res = None"
proof -
  have codec: "(case cCodecs c of None \<Rightarrow> DC | Some cs \<Rightarrow> cs) (content_type c) = Some codec" using assms(1) by (simp add: agree_def)
  have dec: "decRes codec b = Inr q" if "encRes codec q = Inr b" for q b using assms(1) that by (simp add: agree_def)
  have "(w' = w \<or> (\<exists>res. serve_request (hStore h) w r = Some (w', res)))
    \<and> (e = None \<longrightarrow> (\<exists>res. serve_request (hStore h) w r = Some (w', res) \<and> rsOps res = ops \<and> rsError res = None))"
  proof (cases "encReq codec r")
    case (Inl x)
    then show ?thesis using assms(2) codec by (auto simp: client_request_def codecError_def split: if_splits)
  next
    case (Inr b)
    note serve = ServeHTTP_agree [OF assms(1) Inr, of w]
    show ?thesis
    proof (cases "serve_request (hStore h) w r")
      case None
      then show ?thesis using assms(2) codec Inr serve
        by (cases net) (auto simp: client_request_def client_call_def)
    next
      case (Some p)
      obtain w1 res where p: "p = (w1, res)" by (cases p)
      show ?thesis
      proof (cases "encRes codec res")
        case (Inl x)
        then show ?thesis using assms(2) codec Inr serve Some p
          by (cases net) (auto simp: client_request_def client_call_def)
      next
        case buf: (Inr buf)
        then show ?thesis using assms(2) codec Inr serve Some p dec [OF buf]
          by (cases net) (auto simp: client_request_def client_call_def)
      qed
    qed
  qed
  then show "w' = w \<or> (\<exists>res. serve_request (hStore h) w r = Some (w', res))"
    and "e = None \<Longrightarrow> \<exists>res. serve_request (hStore h) w r = Some (w', res) \<and> rsOps res = ops \<and> rsError res = None" by blast+
qed

text \<open>A call that is delivered, and whose messages can be encoded, is a call of the store.\<close>

lemma client_request_delivered:
  assumes "agree DC h c codec" "encReq codec r = Inr b" "serve_request (hStore h) w r = Some (w', res)" "encRes codec res = Inr buf"
  shows "client_request DC h c Delivered w r = Some (w', rsOps res, rsError res)"
proof -
  have "(case cCodecs c of None \<Rightarrow> DC | Some cs \<Rightarrow> cs) (content_type c) = Some codec" "decRes codec buf = Inr res"
    using assms(1,4) by (simp_all add: agree_def)
  then show ?thesis using assms(2-4) ServeHTTP_agree [OF assms(1,2), of w] by (simp add: client_request_def client_call_def)
qed

lemma client_Append_world:
  assumes "agree DC h c codec" "client_Append DC h c net w xs = Some (w', e)"
  shows "(e = None \<longrightarrow> st_Append (hStore h) w xs = (w', None)) \<and> (w' = w \<or> w' = fst (st_Append (hStore h) w xs))"
proof -
  let ?r = "\<lparr>rqName = ''Append'', rqOps = xs, rqVersion = -1, rqLimit = -1\<rparr>"
  obtain ops where r: "client_request DC h c net w ?r = Some (w', ops, e)"
    using assms(2) by (auto simp: client_Append_def bind_Some_ex)
  have s: "serve_request (hStore h) w ?r = Some (w1, res) \<longleftrightarrow>
      w1 = fst (st_Append (hStore h) w xs) \<and> res = \<lparr>rsOps = [], rsError = snd (st_Append (hStore h) w xs)\<rparr>" for w1 res
    by (auto simp: serve_request_def split: prod.splits)
  show ?thesis using client_request_world [OF assms(1) r] s by (metis nw_response.select_convs(2) prod.collapse)
qed

text \<open>Repeated attempts to append the same operations to an in-memory store on a server.\<close>

definition attempts :: "codecs \<Rightarrow> mem Handler \<Rightarrow> Client \<Rightarrow> op list \<Rightarrow> mem \<Rightarrow> net list \<Rightarrow> mem option" where
  "attempts DC h c xs = foldM (\<lambda>m net. map_option fst (client_Append DC h c net m xs))"

lemma mem_Append_loop_again: "mem_Append_loop (mem_Append_loop m xs) xs = mem_Append_loop m xs"
proof -
  have grow: "memSeen m \<union> opID ` set xs \<subseteq> memSeen (mem_Append_loop m xs)" for m xs
    by (induction m xs rule: mem_Append_loop.induct) auto
  have skip: "opID ` set ys \<subseteq> memSeen m \<Longrightarrow> mem_Append_loop m ys = m" for m ys by (induction ys) auto
  show ?thesis using grow [of m xs] by (intro skip) auto
qed

lemma attempts_result:
  assumes "agree DC h c codec" "hStore h = mem_store" "attempts DC h c xs m nets = Some m'"
  shows "m' = m \<or> m' = fst (mem_Append m xs)"
  using assms(3)
proof (induction nets arbitrary: m)
  case (Cons net nets)
  obtain m1 e where m1: "client_Append DC h c net m xs = Some (m1, e)" "attempts DC h c xs m1 nets = Some m'"
    using Cons.prems by (auto simp: attempts_def bind_Some_ex)
  have "m1 = m \<or> m1 = fst (mem_Append m xs)"
    using client_Append_world [OF assms(1) m1(1)] assms(2) by (simp add: mem_store_def)
  then show ?case using Cons.IH [OF m1(2)] by (auto simp: mem_Append_def mem_Append_loop_again)
qed (simp add: attempts_def)

end
