(* ===== verification/Store_Properties.thy ===== *)
theory Store_Properties
  imports Dot_Bolt Dot_Network
begin

text \<open>
  Stores that live elsewhere: in a Bolt file, and on a server behind HTTP. Both are the store that they
  stand for, given what their libraries and codecs promise.
\<close>

section \<open>The store in a file\<close>

text \<open>
  C15. The Bolt store refines the in-memory store, for operations that the codec encodes in a way that it can decode, whose encoded IDs have at most
  32768 bytes and whose data has less than \<open>2 ^ 31 - 1\<close>. Append of these does not panic; when it reports success,
  the file holds what the in-memory store would hold, with versions, order and the treatment
  of repeated IDs; when it reports an error, the file is as it was. GetSince returns the same
  operations as the in-memory store. The codec must not encode an ID as a hexadecimal number,
  since IDs and versions share their keys. With a longer ID Append panics (\<open>bolt_long_id_panics\<close> below).
\<close>

theorem bolt_refines_memory:
  assumes "bolt_laws B" "codec_laws C" "bolt_ok B C d" "bolt_count B d + length xs < 2 ^ 64" "\<forall>x \<in> set xs. storable C x" "0 \<le> v" "0 \<le> limit"
  shows "\<exists>d' e. bolt_Append B C d xs = Some (d', e) \<and> bolt_ok B C d'
    \<and> (if e = None then bolt_abs B C d' = fst (mem_Append (bolt_abs B C d) xs) else d' = d)
    \<and> bolt_GetSince B C d' v limit = Inr (take (nat limit) (drop (nat v) (memOps (bolt_abs B C d'))))"
  using bolt_Append_refines [OF assms(1-5)] bolt_GetSince_refines [OF assms(1) _ assms(6,7)] by blast

type_synonym ex_bucket = "(bytes \<rightharpoonup> bytes) \<times> nat"

definition ex_db :: "ex_bucket option bolt_db" where
  "ex_db = \<lparr>b_exists = (\<lambda>d. d \<noteq> None), b_create = (\<lambda>d. Inr (case d of None \<Rightarrow> Some (Map.empty, 0) | Some x \<Rightarrow> Some x)),
     b_Get = (\<lambda>d k. case d of None \<Rightarrow> None | Some (m, n) \<Rightarrow> m k),
     b_Put = (\<lambda>d k v. case d of None \<Rightarrow> Inl ''no bucket''
       | Some (m, n) \<Rightarrow> if length k \<le> 32768 then Inr (Some (m(k \<mapsto> v), n)) else Inl ''key too large''),
     b_Sequence = (\<lambda>d. case d of None \<Rightarrow> 0 | Some (m, n) \<Rightarrow> n),
     b_NextSequence = (\<lambda>d. case d of None \<Rightarrow> Inl ''no bucket'' | Some (m, n) \<Rightarrow> Inr (Some (m, Suc n), Suc n)),
     db_Update = (\<lambda>d f. case f d of None \<Rightarrow> None | Some (d', None) \<Rightarrow> Some (d', None) | Some (d', Some e) \<Rightarrow> Some (d, Some e)),
     db_View = (\<lambda>d f. Inr (f d))\<rparr>"

definition ex_stored :: "int \<Rightarrow> op" where
  "ex_stored i = \<lparr>opID = KInt i, opParent = None, opVersion = 0, opBasis = -1, opChange = None\<rparr>"

definition ex_codec :: bolt_codec where
  "ex_codec = \<lparr>encOp = (\<lambda>x. if x = ex_stored 1 then Inr ''1'' else if x = ex_stored 2 then Inr ''2'' else Inl ''unknown''),
     encID = (\<lambda>k. if k = KInt 1 then Inr ''-1'' else if k = KInt 2 then Inr ''-2'' else Inl ''unknown''),
     decOp = (\<lambda>d. if d = ''1'' then Inr (ex_stored 1) else if d = ''2'' then Inr (ex_stored 2) else Inl ''unknown'')\<rparr>"

lemma ex_db_laws: "bolt_laws ex_db"
  by (auto simp: bolt_laws_def create_ok_def put_ok_def next_ok_def update_ok_def ex_db_def split: option.splits)

lemma hex_no_sign: "CHR ''-'' \<notin> set (text_nat 16 n)"
  using text_nat_chars [of 16 _ n] by auto

lemma ex_codec_laws: "codec_laws ex_codec"
proof -
  have "text_nat 16 n \<noteq> ''-1''" "text_nat 16 n \<noteq> ''-2''" for n using hex_no_sign [of n] by auto
  then show ?thesis by (auto simp: codec_laws_def ex_codec_def ex_stored_def split: if_splits dest: sym)
qed

theorem bolt_refines_memory_witness:
  "\<exists>d' e. bolt_Append ex_db ex_codec None [ex_stored 1, ex_stored 2, ex_stored 1] = Some (d', e) \<and> bolt_ok ex_db ex_codec d'
    \<and> (if e = None then bolt_abs ex_db ex_codec d' = fst (mem_Append (bolt_abs ex_db ex_codec None) [ex_stored 1, ex_stored 2, ex_stored 1]) else d' = None)
    \<and> bolt_GetSince ex_db ex_codec d' 1 5 = Inr (take 5 (drop 1 (memOps (bolt_abs ex_db ex_codec d'))))"
proof -
  have n: "bolt_count ex_db None = 0" by (simp add: bolt_count_def ex_db_def)
  have "bolt_ok ex_db ex_codec None" by (simp add: bolt_ok_def n) (simp add: ex_db_def)
  from bolt_refines_memory [OF ex_db_laws ex_codec_laws this, of "[ex_stored 1, ex_stored 2, ex_stored 1]" 1 5] show ?thesis
    by (simp add: n storable_def ex_codec_def ex_stored_def)
qed

text \<open>
  An operation from a client with a new ID that encodes to more than 32768 bytes makes Append panic: \<open>must\<close> turns the error
  of \<open>Put\<close> into a panic, within the transaction.
\<close>

theorem bolt_long_id_panics:
  assumes "bolt_laws B" "bolt_encode C x = Inr (i, data)" "32768 < length i" "b_create B d = Inr root" "b_Get B root i = None"
  shows "bolt_Append B C d [x] = None"
  by (rule bolt_Append_long_id [OF assms])

section \<open>The store behind HTTP\<close>

text \<open>
  C16. A call over HTTP that is delivered is a call of the store on the server: when request and response
  can be encoded, the client's Append returns what the Append of the store returns, errors included,
  and GetSince returns what the store returns; a failure of the store arrives as its text.
\<close>

theorem network_is_transparent:
  assumes "agree DC h c codec"
    and "encReq codec \<lparr>rqName = ''Append'', rqOps = xs, rqVersion = -1, rqLimit = -1\<rparr> = Inr b1"
    and "encRes codec \<lparr>rsOps = [], rsError = snd (st_Append (hStore h) w xs)\<rparr> = Inr b2"
    and "encReq codec \<lparr>rqName = ''GetSince'', rqOps = [], rqVersion = v, rqLimit = limit\<rparr> = Inr b3"
    and "encRes codec \<lparr>rsOps = ops, rsError = e\<rparr> = Inr b4"
    and "st_GetSince (hStore h) w v limit = (case e of None \<Rightarrow> ok (w', ops) | Some t \<Rightarrow> err t)" "e \<noteq> None \<longrightarrow> w' = w \<and> ops = []"
  shows "client_Append DC h c Delivered w xs = Some (st_Append (hStore h) w xs)
    \<and> client_GetSince DC h c Delivered w v limit = Some (w', ops, e)"
proof -
  have "serve_request (hStore h) w \<lparr>rqName = ''Append'', rqOps = xs, rqVersion = -1, rqLimit = -1\<rparr>
      = Some (fst (st_Append (hStore h) w xs), \<lparr>rsOps = [], rsError = snd (st_Append (hStore h) w xs)\<rparr>)"
    by (simp add: serve_request_def split: prod.splits)
  moreover have "serve_request (hStore h) w \<lparr>rqName = ''GetSince'', rqOps = [], rqVersion = v, rqLimit = limit\<rparr>
      = Some (w', \<lparr>rsOps = ops, rsError = e\<rparr>)"
    using assms(6,7) by (auto simp: serve_request_def split: option.splits)
  ultimately show ?thesis
    using client_request_delivered [OF assms(1,2) _ assms(3)] client_request_delivered [OF assms(1,4) _ assms(5)]
    by (simp add: client_Append_def client_GetSince_def)
qed

definition ex_nw_codec :: nw_codec where
  "ex_nw_codec = \<lparr>encReq = (\<lambda>r. if r = \<lparr>rqName = ''Append'', rqOps = [ex_stored 1], rqVersion = -1, rqLimit = -1\<rparr> then Inr ''A''
       else if r = \<lparr>rqName = ''GetSince'', rqOps = [], rqVersion = 0, rqLimit = 10\<rparr> then Inr ''G'' else Inl ''unknown''),
     decReq = (\<lambda>b. if b = ''A'' then Inr \<lparr>rqName = ''Append'', rqOps = [ex_stored 1], rqVersion = -1, rqLimit = -1\<rparr>
       else if b = ''G'' then Inr \<lparr>rqName = ''GetSince'', rqOps = [], rqVersion = 0, rqLimit = 10\<rparr> else Inl ''unknown''),
     encRes = (\<lambda>r. if r = \<lparr>rsOps = [], rsError = None\<rparr> then Inr ''E'' else Inl ''unknown''),
     decRes = (\<lambda>b. if b = ''E'' then Inr \<lparr>rsOps = [], rsError = None\<rparr> else Inl ''unknown'')\<rparr>"

definition ex_codecs :: codecs where
  "ex_codecs ct = (if ct = ''application/x-gob'' then Some ex_nw_codec else None)"

definition ex_handler :: "mem Handler" where
  "ex_handler = \<lparr>hStore = mem_store, hCodecs = None\<rparr>"

definition ex_client :: Client where
  "ex_client = \<lparr>cContentType = [], cCodecs = None, cFatalReturns = False\<rparr>"

lemma ex_agree: "agree ex_codecs ex_handler ex_client ex_nw_codec"
  by (simp add: agree_def ex_codecs_def ex_handler_def ex_client_def content_type_def) (auto simp: ex_nw_codec_def split: if_splits)

theorem network_is_transparent_witness:
  "client_Append ex_codecs ex_handler ex_client Delivered (MemStore []) [ex_stored 1] = Some (mem_Append (MemStore []) [ex_stored 1])
    \<and> client_GetSince ex_codecs ex_handler ex_client Delivered (MemStore []) 0 10 = Some (MemStore [], [], None)"
  using network_is_transparent [OF ex_agree, of "[ex_stored 1]" _ "MemStore []" _ 0 10 _ "[]" None _ "MemStore []"]
  by (simp add: ex_nw_codec_def ex_handler_def mem_store_def mem_Append_def MemStore_def mem_GetSince_def)

text \<open>
  C17. Trying again is safe: when the same operations are appended any number of times over a network that loses
  requests and replies, the store on the server holds them not at all or once, and it holds them
  when the last attempt reported success.
\<close>

theorem network_retries_once:
  assumes "agree DC h c codec" "hStore h = mem_store"
    and "attempts DC h c xs m nets = Some m1" "client_Append DC h c net m1 xs = Some (m2, e)"
  shows "(m2 = m \<or> m2 = fst (mem_Append m xs)) \<and> (e = None \<longrightarrow> m2 = fst (mem_Append m xs))"
proof -
  have "m1 = m \<or> m1 = fst (mem_Append m xs)" by (rule attempts_result [OF assms(1-3)])
  then show ?thesis using client_Append_world [OF assms(1,4)] assms(2)
    by (auto simp: mem_store_def mem_Append_def mem_Append_loop_again)
qed

lemma ex_attempts:
  "attempts ex_codecs ex_handler ex_client [ex_stored 1] (MemStore []) [RequestLost ''timeout'', ReplyLost ''timeout''] = Some (MemStore [ex_stored 1])"
  "client_Append ex_codecs ex_handler ex_client Delivered (MemStore [ex_stored 1]) [ex_stored 1] = Some (MemStore [ex_stored 1], None)"
  by code_simp+

theorem network_retries_once_witness:
  "client_Append ex_codecs ex_handler ex_client Delivered (MemStore [ex_stored 1]) [ex_stored 1] = Some (fst (mem_Append (MemStore []) [ex_stored 1]), None)"
  using network_retries_once [OF ex_agree _ ex_attempts] ex_attempts(2) by (simp add: ex_handler_def)

end
