(* ===== verification/Dot_Rich.thy ===== *)
theory Dot_Rich
  imports Dot_Runes Dot_Prelude "HOL-Library.Finite_Map"
begin

text \<open>
  Package \<open>x/rich\<close>: text with attributes, stored as runs of equal attributes, and the change that sets
  an attribute on a range.

  An attribute value is of any type \<open>'a\<close>; \<open>None\<close> is the nil value, which stands for a missing attribute.
  Offsets count UTF-16 units, a string that is cut inside a rune panics.
\<close>

section \<open>Attributes and runs of values\<close>

type_synonym 'a attrs = "(string, 'a) fmap"

definition attrs_get :: "'a attrs \<Rightarrow> string \<Rightarrow> 'a option" where
  "attrs_get a k = fmlookup a k"

definition attrs_set :: "'a attrs \<Rightarrow> string \<Rightarrow> 'a option \<Rightarrow> 'a attrs" where
  "attrs_set a k v = (let clone = fmdrop k a in case v of None \<Rightarrow> clone | Some x \<Rightarrow> fmupd k x clone)"

type_synonym 'a vals = "('a option \<times> int) list"

definition vals_count :: "'a vals \<Rightarrow> int" where
  "vals_count a = (\<Sum>x\<leftarrow>a. snd x)"

fun vals_slice_loop :: "int \<Rightarrow> int \<Rightarrow> int \<Rightarrow> 'a vals \<Rightarrow> 'a vals" where
  "vals_slice_loop offset cnt seen [] = []"
| "vals_slice_loop offset cnt seen ((v, sz) # a) =
     (let start = max seen offset; stop = min (seen + sz) (offset + cnt); rest = vals_slice_loop offset cnt (seen + sz) a in
      if start < stop then (v, stop - start) # rest else rest)"

definition vals_slice :: "'a vals \<Rightarrow> int \<Rightarrow> int \<Rightarrow> 'a vals" where
  "vals_slice a offset cnt = vals_slice_loop offset cnt 0 a"

section \<open>Text\<close>

record 'a attrText =
  tText :: string
  tAttrs :: "'a attrs"
  tSize :: int

type_synonym 'a rich_text = "'a attrText list"

definition NewText :: "string \<Rightarrow> (string \<times> 'a) list \<Rightarrow> 'a rich_text" where
  "NewText s attr = [\<lparr>tText = s, tAttrs = foldl (\<lambda>attrs (k, v). fmupd k v attrs) fmempty attr, tSize = Count (CS16 s)\<rparr>]"

definition text_Count :: "'a rich_text \<Rightarrow> int" where
  "text_Count t = (\<Sum>x\<leftarrow>t. tSize x)"

definition PlainText :: "'a rich_text \<Rightarrow> string" where
  "PlainText t = concat (map tText t)"

fun text_Slice_loop :: "int \<Rightarrow> int \<Rightarrow> int \<Rightarrow> 'a rich_text \<Rightarrow> 'a rich_text option" where
  "text_Slice_loop offset cnt seen [] = Some []"
| "text_Slice_loop offset cnt seen (x # t) =
     (let start = max seen offset; stop = min (seen + tSize x) (offset + cnt); diff = stop - start in
      if diff > 0 then do {
        text \<leftarrow> S16_Slice (tText x) (start - seen) diff;
        rest \<leftarrow> text_Slice_loop offset cnt (seen + tSize x) t;
        Some (\<lparr>tText = text, tAttrs = tAttrs x, tSize = diff\<rparr> # rest) }
      else text_Slice_loop offset cnt (seen + tSize x) t)"

definition text_Slice :: "'a rich_text \<Rightarrow> int \<Rightarrow> int \<Rightarrow> 'a rich_text option" where
  "text_Slice t offset cnt = text_Slice_loop offset cnt 0 t"

definition text_push :: "'a rich_text \<Rightarrow> string \<Rightarrow> 'a attrs \<Rightarrow> int \<Rightarrow> 'a rich_text" where
  "text_push t text attrs sz =
     (if t \<noteq> [] \<and> tAttrs (last t) = attrs
      then butlast t @ [(last t)\<lparr>tText := tText (last t) @ text, tSize := tSize (last t) + sz\<rparr>]
      else t @ [\<lparr>tText = text, tAttrs = attrs, tSize = sz\<rparr>])"

definition text_concat :: "'a rich_text \<Rightarrow> 'a rich_text \<Rightarrow> 'a rich_text" where
  "text_concat t q =
     (if t \<noteq> [] \<and> q \<noteq> [] \<and> tAttrs (last t) = tAttrs (hd q)
      then butlast t @ [(last t)\<lparr>tText := tText (last t) @ tText (hd q), tSize := tSize (last t) + tSize (hd q)\<rparr>] @ tl q
      else t @ q)"

definition text_splice :: "'a rich_text \<Rightarrow> int \<Rightarrow> int \<Rightarrow> 'a rich_text \<Rightarrow> 'a rich_text option" where
  "text_splice t offset remove replacement = do {
     left \<leftarrow> text_Slice t 0 offset;
     right \<leftarrow> text_Slice t (offset + remove) (text_Count t - offset - remove);
     Some (text_concat (text_concat left replacement) right) }"

fun text_get_loop :: "int \<Rightarrow> int \<Rightarrow> 'a rich_text \<Rightarrow> 'a attrs option" where
  "text_get_loop idx seen [] = None"
| "text_get_loop idx seen (x # t) =
     (if seen \<le> idx \<and> idx < seen + tSize x then Some (tAttrs x) else text_get_loop idx (seen + tSize x) t)"

definition text_get :: "'a rich_text \<Rightarrow> int \<Rightarrow> 'a attrs option" where
  "text_get t idx = text_get_loop idx 0 t"

definition text_set :: "'a rich_text \<Rightarrow> int \<Rightarrow> 'a attrs \<Rightarrow> 'a rich_text option" where
  "text_set t idx v = do {
     mid \<leftarrow> text_Slice t idx 1;
     (case mid of [] \<Rightarrow> None | m # ms \<Rightarrow> text_splice t idx 1 (m\<lparr>tAttrs := v\<rparr> # ms)) }"

text \<open>\<open>Text.Concat\<close> applies a splice at the end.\<close>

definition text_Concat :: "'a rich_text \<Rightarrow> 'a rich_text \<Rightarrow> 'a rich_text option" where
  "text_Concat t q = text_splice t (text_Count t) (text_Count []) q"

section \<open>Setting attributes\<close>

record 'a setattr =
  aOffset :: int
  aName :: string
  aBefore :: "'a vals"
  aAfter :: "'a vals"

definition setattr_Revert :: "'a setattr \<Rightarrow> 'a setattr" where
  "setattr_Revert s = s\<lparr>aBefore := aAfter s, aAfter := aBefore s\<rparr>"

text \<open>\<open>Text.sliceAttr\<close>; the loop does not move \<open>seen\<close>, which is 0 throughout.\<close>

fun sliceAttr_loop :: "int \<Rightarrow> int \<Rightarrow> string \<Rightarrow> 'a vals \<Rightarrow> 'a rich_text \<Rightarrow> 'a vals" where
  "sliceAttr_loop offset cnt name s [] = s"
| "sliceAttr_loop offset cnt name s (x # t) =
     (let start = max 0 offset; stop = min (0 + tSize x) (offset + cnt) in
      sliceAttr_loop offset cnt name
        (if start < stop then
           (let v = fmlookup (tAttrs x) name in
            if s \<noteq> [] \<and> fst (last s) = v then butlast s @ [(v, snd (last s) + (stop - start))] else s @ [(v, stop - start)])
         else s) t)"

definition sliceAttr :: "'a rich_text \<Rightarrow> int \<Rightarrow> int \<Rightarrow> string \<Rightarrow> 'a vals" where
  "sliceAttr t offset cnt name = sliceAttr_loop offset cnt name [] t"

definition SetAttribute :: "'a rich_text \<Rightarrow> int \<Rightarrow> int \<Rightarrow> string \<times> 'a \<Rightarrow> 'a setattr" where
  "SetAttribute t offset cnt attr =
     \<lparr>aOffset = offset, aName = fst attr, aBefore = sliceAttr t offset cnt (fst attr), aAfter = [(Some (snd attr), cnt)]\<rparr>"

definition RemoveAttribute :: "'a rich_text \<Rightarrow> int \<Rightarrow> int \<Rightarrow> string \<Rightarrow> 'a setattr" where
  "RemoveAttribute t offset cnt name =
     \<lparr>aOffset = offset, aName = name, aBefore = sliceAttr t offset cnt name, aAfter = [(None, cnt)]\<rparr>"

definition splitString :: "string \<Rightarrow> int \<Rightarrow> int \<Rightarrow> (string \<times> string) option" where
  "splitString s offset fullSize = do {
     l \<leftarrow> S16_Slice s 0 offset;
     r \<leftarrow> S16_Slice s offset (fullSize - offset);
     Some (l, r) }"

text \<open>
  The inner loop of \<open>applySetAttr\<close>: the runs of \<open>after\<close> that fall on the rest of one piece of text,
  with what is left of the piece and of \<open>after\<close>. The measure is the number of runs.
\<close>

fun apply_runs :: "string \<Rightarrow> 'a attrs \<Rightarrow> string \<Rightarrow> int \<Rightarrow> 'a vals \<Rightarrow> 'a rich_text
    \<Rightarrow> (string \<times> int \<times> 'a vals \<times> 'a rich_text) option" where
  "apply_runs name attrs text sz [] result = Some (text, sz, [], result)"
| "apply_runs name attrs text sz ((v, n) # after) result =
     (if sz > 0 then
        (let updated = attrs_set attrs name v in
         if n > sz then Some (text, 0, (v, n - sz) # after, text_push result text updated sz)
         else do {
           (l, r) \<leftarrow> splitString text n sz;
           apply_runs name attrs r (sz - n) after (text_push result l updated n) })
      else Some (text, sz, (v, n) # after, result))"

fun applySetAttr_loop :: "string \<Rightarrow> int \<Rightarrow> 'a vals \<Rightarrow> 'a rich_text \<Rightarrow> 'a rich_text \<Rightarrow> 'a rich_text option" where
  "applySetAttr_loop name offset after result [] = Some result"
| "applySetAttr_loop name offset after result (x # t) = do {
     (text, sz, offset, result) \<leftarrow>
       (if 0 < offset \<and> offset < tSize x then do {
          (l, text) \<leftarrow> splitString (tText x) offset (tSize x);
          Some (text, tSize x - offset, 0, text_push result l (tAttrs x) offset) }
        else Some (tText x, tSize x, offset, result));
     (text, sz, after, result) \<leftarrow>
       (if offset \<le> 0 then apply_runs name (tAttrs x) text sz after result else Some (text, sz, after, result));
     (if sz > 0 then applySetAttr_loop name (offset - sz) after (text_push result text (tAttrs x) sz) t
      else applySetAttr_loop name offset after result t) }"

definition applySetAttr :: "'a setattr \<Rightarrow> 'a rich_text \<Rightarrow> 'a rich_text option" where
  "applySetAttr c t = applySetAttr_loop (aName c) (aOffset c) (aAfter c) [] t"

end
