(* ===== verification/Dot_Setattr.thy ===== *)
theory Dot_Setattr
  imports Dot_Rich
begin

text \<open>
  The changes of a rich text and how a \<open>setattr\<close> merges with them (file \<open>x/rich/setattr.go\<close>). A change is
  a \<open>setattr\<close>, a splice of text, a move or a \<open>ChangeSet\<close>; \<open>None\<close> is the nil change.

  The merges call each other through \<open>Merge\<close> and \<open>ReverseMerge\<close> of the interface, so they take fuel, one for
  each nested call; \<open>None\<close> as a result is a panic of the code or fuel that ran out.
\<close>

section \<open>Changes\<close>

datatype 'a rchange =
    RSetAttr "'a setattr"
  | RSplice int "'a rich_text" "'a rich_text"
  | RMove move
  | RSet "'a rchange option list"

definition text_move :: "'a rich_text \<Rightarrow> move \<Rightarrow> 'a rich_text option" where
  "text_move t m = (let c = Normalize m in do {
     slice \<leftarrow> text_Slice t (mOffset c) (mCount c);
     empty \<leftarrow> text_Slice t 0 0;
     q \<leftarrow> text_splice t (mOffset c) (mCount c) empty;
     text_splice q (mOffset c + mDistance c) (text_Count empty) slice })"

text \<open>\<open>Text.Apply\<close>; a \<open>ChangeSet\<close> applies its changes in turn.\<close>

fun rich_Apply :: "'a rchange \<Rightarrow> 'a rich_text \<Rightarrow> 'a rich_text option"
  and rich_ApplyAll :: "'a rchange option list \<Rightarrow> 'a rich_text \<Rightarrow> 'a rich_text option" where
  "rich_Apply (RSetAttr s) t = applySetAttr s t"
| "rich_Apply (RSplice off before after) t = text_splice t off (text_Count before) after"
| "rich_Apply (RMove m) t = text_move t m"
| "rich_Apply (RSet cs) t = rich_ApplyAll cs t"
| "rich_ApplyAll [] t = Some t"
| "rich_ApplyAll (None # cs) t = rich_ApplyAll cs t"
| "rich_ApplyAll (Some c # cs) t = Option.bind (rich_Apply c t) (rich_ApplyAll cs)"

text \<open>\<open>ChangeSet.Simplify\<close>.\<close>

definition rset :: "'a rchange list \<Rightarrow> 'a rchange option" where
  "rset cs = (case cs of [] \<Rightarrow> None | [c] \<Rightarrow> Some c | _ \<Rightarrow> Some (RSet (map Some cs)))"

fun rSimplify :: "'a rchange \<Rightarrow> 'a rchange option"
  and rSimplifyAll :: "'a rchange option list \<Rightarrow> 'a rchange list" where
  "rSimplify (RSet cs) = rset (rSimplifyAll cs)"
| "rSimplify c = Some c"
| "rSimplifyAll [] = []"
| "rSimplifyAll (None # cs) = rSimplifyAll cs"
| "rSimplifyAll (Some c # cs) = (case rSimplify c of None \<Rightarrow> rSimplifyAll cs | Some d \<Rightarrow> d # rSimplifyAll cs)"

section \<open>Parts of a setattr\<close>

definition setattr_slice :: "'a setattr \<Rightarrow> int \<Rightarrow> int \<Rightarrow> 'a setattr option" where
  "setattr_slice s offset cnt =
     (if cnt \<le> 0 then None
      else Some \<lparr>aOffset = aOffset s + offset, aName = aName s,
                 aBefore = vals_slice (aBefore s) offset cnt, aAfter = vals_slice (aAfter s) offset cnt\<rparr>)"

definition setattr_split :: "'a setattr \<Rightarrow> int \<Rightarrow> int \<Rightarrow> 'a rchange option \<times> 'a setattr option" where
  "setattr_split s start0 end0 =
     (let send = aOffset s + vals_count (aBefore s);
          start = (if aOffset s > start0 then aOffset s else start0);
          stop = (if send < end0 then send else end0) in
      if start \<ge> stop then (Some (RSetAttr s), None)
      else
        (let left = setattr_slice s 0 (start - aOffset s);
             mid = setattr_slice s (start - aOffset s) (stop - start);
             right = setattr_slice s (stop - aOffset s) (send - stop) in
         (rSimplify (RSet [map_option RSetAttr left, map_option RSetAttr right]), mid)))"

section \<open>Merging with another setattr\<close>

type_synonym 'a rmerged = "('a rchange option \<times> 'a rchange option) option"

definition mergeSetAttr :: "'a setattr \<Rightarrow> 'a setattr \<Rightarrow> bool \<Rightarrow> 'a rmerged" where
  "mergeSetAttr s o1 rev1 =
     (if aName s \<noteq> aName o1 then Some (Some (RSetAttr o1), Some (RSetAttr s))
      else
        (let (left, lx) = setattr_split s (aOffset o1) (aOffset o1 + vals_count (aBefore o1));
             (right, rx) = setattr_split o1 (aOffset s) (aOffset s + vals_count (aBefore s)) in
         case (lx, rx) of
           (None, None) \<Rightarrow> Some (Some (RSetAttr o1), Some (RSetAttr s))
         | (Some l, Some r) \<Rightarrow>
             (if rev1 then Some (right, rSimplify (RSet [Some (RSetAttr (l\<lparr>aBefore := aAfter r\<rparr>)), left]))
              else Some (rSimplify (RSet [Some (RSetAttr (r\<lparr>aBefore := aAfter l\<rparr>)), right]), left))
         | _ \<Rightarrow> None))"

section \<open>Merging with a move\<close>

text \<open>\<open>out.(setattr)\<close> panics on any other kind of change.\<close>

definition shift_out :: "int \<Rightarrow> 'a rchange option \<Rightarrow> 'a rchange option option" where
  "shift_out d out = (case out of
     None \<Rightarrow> Some None
   | Some (RSetAttr s) \<Rightarrow> Some (Some (RSetAttr (s\<lparr>aOffset := aOffset s + d\<rparr>)))
   | _ \<Rightarrow> None)"

fun mergeMove :: "nat \<Rightarrow> 'a setattr \<Rightarrow> move \<Rightarrow> 'a rmerged" where
  "mergeMove 0 s m = None"
| "mergeMove (Suc n) s m =
     (let start = (if mDistance m < 0 then mOffset m + mDistance m else mOffset m);
          stop = (if mDistance m < 0 then mOffset m + mCount m else mOffset m + mCount m + mDistance m);
          (non, overlap) = setattr_split s start stop in
      case overlap of
        None \<Rightarrow> Some (Some (RMove m), Some (RSetAttr s))
      | Some x \<Rightarrow>
          (if non \<noteq> None then do {
             (ox, overlapx) \<leftarrow> mergeMove n x m;
             Some (ox, Some (RSet [non, overlapx])) }
           else
             (let (out, within) = setattr_split s (mOffset m) (mOffset m + mCount m);
                  withinx = map_option (\<lambda>w. RSetAttr (w\<lparr>aOffset := aOffset w + mDistance m\<rparr>)) within in do {
              outx \<leftarrow> shift_out (if mDistance m > 0 then - mCount m else mCount m) out;
              Some (Some (RMove m), rSimplify (RSet [withinx, outx])) })))"

section \<open>Merging with a splice, and the dispatch on the kind of change\<close>

definition mergeSpliceWithin :: "'a setattr \<Rightarrow> 'a setattr \<Rightarrow> 'a rchange option \<Rightarrow> int \<Rightarrow> 'a rich_text \<Rightarrow> 'a rich_text \<Rightarrow> 'a rmerged" where
  "mergeSpliceWithin s x non off before after =
     (let v = fst (hd (aAfter x));
          sx = \<lparr>aOffset = off, aName = aName s, aBefore = sliceAttr after 0 (text_Count after) (aName s), aAfter = [(v, text_Count after)]\<rparr> in do {
      beforex \<leftarrow> applySetAttr \<lparr>aOffset = 0, aName = aName s, aBefore = sliceAttr before 0 (text_Count before) (aName s),
        aAfter = [(v, text_Count before)]\<rparr> before;
      afterx \<leftarrow> applySetAttr \<lparr>aOffset = 0, aName = aName s, aBefore = aBefore sx, aAfter = aAfter sx\<rparr> after;
      Some (Some (RSplice off beforex afterx), rSimplify (RSet [non, Some (RSetAttr sx)])) })"

text \<open>
  The merge handlers take \<open>changes.Merge\<close> as the argument \<open>M\<close>, which \<open>rMerge\<close> below ties, one unit of fuel
  for each nested call. \<open>rset_Merge\<close> and \<open>rset_ReverseMerge\<close> are the loops of \<open>ChangeSet\<close>, with the results so far.
\<close>

type_synonym 'a rmerge_fun = "'a rchange option \<Rightarrow> 'a rchange option \<Rightarrow> 'a rmerged"

definition mergeSplice :: "'a rmerge_fun \<Rightarrow> 'a setattr \<Rightarrow> int \<Rightarrow> 'a rich_text \<Rightarrow> 'a rich_text \<Rightarrow> 'a rmerged" where
  "mergeSplice M s off before after =
     (let (non, overlap) = setattr_split s off (off + text_Count before) in
      case overlap of
        None \<Rightarrow> Some (Some (RSplice off before after),
          Some (RSetAttr (if aOffset s \<ge> off then s\<lparr>aOffset := aOffset s + (text_Count after - text_Count before)\<rparr> else s)))
      | Some x \<Rightarrow> do {
          (nonx, _) \<leftarrow> M (Some (RSplice off before after)) non;
          (if vals_count (aBefore x) = text_Count before \<and> length (aAfter x) = 1
           then mergeSpliceWithin s x nonx off before after
           else Some (Some (RSet [Some (RSetAttr (setattr_Revert x)), Some (RSplice off before after)]), nonx)) })"

fun rset_Merge :: "'a rmerge_fun \<Rightarrow> 'a rchange option list \<Rightarrow> 'a rchange option \<Rightarrow> 'a rchange option list \<Rightarrow> 'a rmerged" where
  "rset_Merge M [] c results = Some (c, rSimplify (RSet results))"
| "rset_Merge M (elt # cs) c results = do {
     (c, eltx) \<leftarrow> M elt c;
     rset_Merge M cs c (results @ [eltx]) }"

fun rset_ReverseMerge :: "'a rmerge_fun \<Rightarrow> 'a rchange option list \<Rightarrow> 'a rchange option \<Rightarrow> 'a rchange option list \<Rightarrow> 'a rmerged" where
  "rset_ReverseMerge M [] c results = Some (c, rSimplify (RSet results))"
| "rset_ReverseMerge M (elt # cs) c results = do {
     (eltx, c) \<leftarrow> M c elt;
     rset_ReverseMerge M cs c (results @ [eltx]) }"

text \<open>\<open>mergeMove\<close> calls itself once, on the part of the \<open>setattr\<close> that the move touches.\<close>

text \<open>
  \<open>setattr.merge\<close> for the changes that the model has: nil, another \<open>setattr\<close>, a splice, a move and a change set, which is
  a custom change. The cases of Replace and of PathChange are left out.
\<close>

definition setattr_merge :: "'a rmerge_fun \<Rightarrow> 'a setattr \<Rightarrow> 'a rchange option \<Rightarrow> bool \<Rightarrow> 'a rmerged" where
  "setattr_merge M s c r = (case c of
     None \<Rightarrow> Some (None, Some (RSetAttr s))
   | Some (RSetAttr o1) \<Rightarrow> mergeSetAttr s o1 r
   | Some (RSplice off before after) \<Rightarrow> mergeSplice M s off before after
   | Some (RMove m) \<Rightarrow> mergeMove 2 s m
   | Some (RSet cs) \<Rightarrow>
       (if r then map_option prod.swap (rset_Merge M cs (Some (RSetAttr s)) [])
        else map_option prod.swap (rset_ReverseMerge M cs (Some (RSetAttr s)) [])))"

text \<open>
  \<open>changes.Merge\<close>. Two changes that are both of package \<open>changes\<close> are merged there and not here: one side of
  a merge that begins at a \<open>setattr\<close> only ever holds \<open>setattr\<close>.
\<close>

fun rMerge :: "nat \<Rightarrow> 'a rmerge_fun" where
  "rMerge 0 c1 c2 = None"
| "rMerge (Suc n) c1 c2 = (case c1 of
     None \<Rightarrow> Some (c2, None)
   | Some (RSetAttr s) \<Rightarrow> setattr_merge (rMerge n) s c2 False
   | Some (RSet cs) \<Rightarrow> rset_Merge (rMerge n) cs c2 []
   | Some _ \<Rightarrow> (case c2 of
       None \<Rightarrow> Some (None, c1)
     | Some (RSetAttr s) \<Rightarrow> map_option prod.swap (setattr_merge (rMerge n) s c1 True)
     | Some (RSet cs) \<Rightarrow> map_option prod.swap (rset_ReverseMerge (rMerge n) cs c1 [])
     | Some _ \<Rightarrow> None))"

end
