(* ===== verification/Dot_Rich_Laws.thy ===== *)
theory Dot_Rich_Laws
  imports Dot_Rich
begin

text \<open>
  What the operations of \<open>x/rich\<close> do to the list of cells of a text, one for each UTF-16 unit, with the
  attributes it has.
\<close>

section \<open>Cells\<close>

type_synonym 'a cell = "string option \<times> 'a attrs"

definition paint_all :: "'a attrs \<Rightarrow> string \<Rightarrow> 'a cell list" where
  "paint_all a s = map (\<lambda>u. (u, a)) (ulist s)"

definition cells :: "'a rich_text \<Rightarrow> 'a cell list" where
  "cells t = concat (map (\<lambda>x. paint_all (tAttrs x) (tText x)) t)"

definition piece_ok :: "string \<Rightarrow> int \<Rightarrow> bool" where
  "piece_ok s n \<longleftrightarrow> valid_utf8 s \<and> n = int (length (ulist s))"

definition wf_text :: "'a rich_text \<Rightarrow> bool" where
  "wf_text t \<longleftrightarrow> (\<forall>x \<in> set t. piece_ok (tText x) (tSize x))"

lemma cells_simps [simp]:
  "cells [] = []" "cells (x # t) = paint_all (tAttrs x) (tText x) @ cells t" "cells (t @ q) = cells t @ cells q"
  by (simp_all add: cells_def)

lemma wf_text_simps [simp]:
  "wf_text []" "wf_text (x # t) \<longleftrightarrow> piece_ok (tText x) (tSize x) \<and> wf_text t" "wf_text (t @ q) \<longleftrightarrow> wf_text t \<and> wf_text q"
  by (auto simp: wf_text_def)

lemma paint_all_append: "valid_utf8 s \<Longrightarrow> paint_all a (s @ r) = paint_all a s @ paint_all a r"
  by (simp add: paint_all_def ulist_append)

lemma paint_all_Nil [simp]: "paint_all a [] = []" by (simp add: paint_all_def)

lemma paint_all_length [simp]: "length (paint_all a s) = length (ulist s)" by (simp add: paint_all_def)

lemma piece_append: "piece_ok s m \<Longrightarrow> piece_ok r n \<Longrightarrow> piece_ok (s @ r) (m + n)"
  by (simp add: piece_ok_def valid_append ulist_append)

lemma text_Count_cells: "wf_text t \<Longrightarrow> text_Count t = int (length (cells t))"
  by (induction t) (simp_all add: text_Count_def piece_ok_def)

lemma PlainText_cells: "PlainText t = concat (map (\<lambda>c. case fst c of None \<Rightarrow> [] | Some b \<Rightarrow> b) (cells t))"
proof (induction t)
  case (Cons x t)
  then show ?case using ulist_bytes [of "tText x"] by (simp add: PlainText_def paint_all_def o_def)
qed (simp add: PlainText_def)

lemma last_split: "t \<noteq> [] \<Longrightarrow> \<exists>q x. t = q @ [x]" by (metis append_butlast_last_id)

lemma text_push_cells:
  assumes "wf_text t" "piece_ok s n"
  shows "wf_text (text_push t s a n) \<and> cells (text_push t s a n) = cells t @ paint_all a s"
proof (cases "t \<noteq> [] \<and> tAttrs (last t) = a")
  case True
  then obtain q x where t: "t = q @ [x]" "tAttrs x = a" using last_split [of t] by auto
  then show ?thesis using True assms piece_append [of "tText x" "tSize x" s n]
    by (simp add: text_push_def paint_all_append piece_ok_def)
next
  case False
  then show ?thesis using assms by (auto simp: text_push_def)
qed

lemma text_concat_cells:
  assumes "wf_text t" "wf_text q"
  shows "wf_text (text_concat t q) \<and> cells (text_concat t q) = cells t @ cells q"
proof (cases "t \<noteq> [] \<and> q \<noteq> [] \<and> tAttrs (last t) = tAttrs (hd q)")
  case True
  obtain r x where t: "t = r @ [x]" using True last_split [of t] by auto
  obtain y z where q: "q = y # z" using True by (cases q) auto
  show ?thesis using True assms piece_append [of "tText x" "tSize x" "tText y" "tSize y"] unfolding t q
    by (simp add: text_concat_def paint_all_append piece_ok_def)
next
  case False
  then show ?thesis using assms by (auto simp: text_concat_def)
qed

lemma splitString_cells:
  assumes "splitString s off n = Some (l, r)" "piece_ok s n" "0 \<le> off"
  shows "piece_ok l off \<and> piece_ok r (n - off) \<and> off \<le> n \<and> paint_all a s = paint_all a l @ paint_all a r"
proof -
  have l: "S16_Slice s 0 off = Some l" and r: "S16_Slice s off (n - off) = Some r"
    using assms(1) by (auto simp: splitString_def bind_Some_ex)
  have v: "valid_utf8 s" "n = int (length (ulist s))" using assms(2) by (simp_all add: piece_ok_def)
  have L: "valid_utf8 l" "ulist l = take (nat off) (ulist s)" "off \<le> n" using S16_Slice_units [OF l v(1) assms(3)] v(2) by auto
  have R: "valid_utf8 r" "ulist r = take (nat (n - off)) (drop (nat off) (ulist s))" using S16_Slice_units [OF r v(1)] L(3) by auto
  then have "ulist r = drop (nat off) (ulist s)" using v(2) by simp
  then have u: "ulist s = ulist l @ ulist r" using L(2) by simp
  have "length (ulist l) = nat off" using L(2,3) v(2) by simp
  then show ?thesis using L(1,3) R(1) v(2) assms(3) unfolding piece_ok_def paint_all_def u by simp
qed

section \<open>Slices and splices\<close>

lemma take_same: "min a (length xs) = min b (length xs) \<Longrightarrow> take a xs = take b xs"
proof -
  have "take k xs = take (min k (length xs)) xs" for k using take_take [of k "length xs" xs] by simp
  then show "min a (length xs) = min b (length xs) \<Longrightarrow> take a xs = take b xs" by metis
qed

lemma slice_step:
  fixes off n seen :: int
  assumes "0 \<le> n"
  shows "take (nat (off + n - max seen off)) (drop (nat (off - seen)) (xs @ ys)) =
    take (nat (min (seen + int (length xs)) (off + n) - max seen off)) (drop (nat (max seen off - seen)) xs)
    @ take (nat (off + n - max (seen + int (length xs)) off)) (drop (nat (off - (seen + int (length xs)))) ys)"
proof -
  let ?k = "nat (off - seen)" and ?N = "nat (off + n - max seen off)"
  have k: "nat (max seen off - seen) = ?k" by (simp add: max_def)
  have "min ?N (length xs - ?k) = min (nat (min (seen + int (length xs)) (off + n) - max seen off)) (length xs - ?k)"
    using assms by (cases "seen + int (length xs) \<le> off + n"; cases "seen \<le> off") (auto simp: min_def max_def)
  then have "take ?N (drop ?k xs) = take (nat (min (seen + int (length xs)) (off + n) - max seen off)) (drop (nat (max seen off - seen)) xs)"
    unfolding k by (intro take_same) (simp only: length_drop)
  moreover have "?N - (length xs - ?k) = nat (off + n - max (seen + int (length xs)) off)" "?k - length xs = nat (off - (seen + int (length xs)))"
    using assms by (auto simp: max_def split: if_splits)
  ultimately show ?thesis by simp
qed

lemma text_Slice_loop_cells:
  assumes "text_Slice_loop off n seen t = Some r" "wf_text t" "0 \<le> n"
  shows "wf_text r \<and> cells r = take (nat (off + n - max seen off)) (drop (nat (off - seen)) (cells t))"
  using assms
proof (induction off n seen t arbitrary: r rule: text_Slice_loop.induct)
  case (2 off n seen x t)
  let ?d = "min (seen + tSize x) (off + n) - max seen off"
  have x: "valid_utf8 (tText x)" "wf_text t" "tSize x = int (length (paint_all (tAttrs x) (tText x)))"
    using 2(4) by (simp_all add: piece_ok_def)
  note step = slice_step [OF 2(5), of off seen "paint_all (tAttrs x) (tText x)" "cells t", folded x(3)]
  show ?case
  proof (cases "?d > 0")
    case True
    then obtain s q where sq: "S16_Slice (tText x) (max seen off - seen) ?d = Some s"
      "text_Slice_loop off n (seen + tSize x) t = Some q" "r = \<lparr>tText = s, tAttrs = tAttrs x, tSize = ?d\<rparr> # q"
      using 2(3) by (auto simp: Let_def bind_Some_ex)
    have s: "valid_utf8 s" "ulist s = take (nat ?d) (drop (nat (max seen off - seen)) (ulist (tText x)))"
      "0 \<le> max seen off - seen" "max seen off - seen + ?d \<le> int (length (ulist (tText x)))"
      using S16_Slice_units [OF sq(1) x(1)] True by auto
    have "piece_ok s ?d" using s True by (simp add: piece_ok_def)
    moreover have "paint_all (tAttrs x) s = take (nat ?d) (drop (nat (max seen off - seen)) (paint_all (tAttrs x) (tText x)))"
      using s(2) by (simp add: paint_all_def take_map drop_map)
    ultimately show ?thesis using 2(1) [OF refl refl refl True sq(1,2) x(2) 2(5)] step sq(3) by simp
  next
    case False
    have r: "text_Slice_loop off n (seen + tSize x) t = Some r"
      using 2(3) by (simp only: text_Slice_loop.simps Let_def False if_False)
    have "nat ?d = 0" using False by linarith
    then show ?thesis using 2(2) [OF refl refl refl False r x(2) 2(5)] step by simp
  qed
qed simp

lemma text_Slice_cells:
  assumes "text_Slice t off n = Some r" "wf_text t" "0 \<le> off" "0 \<le> n"
  shows "wf_text r \<and> cells r = take (nat n) (drop (nat off) (cells t))"
  using text_Slice_loop_cells [of off n 0 t r] assms by (simp add: text_Slice_def)

lemma text_splice_cells:
  assumes "text_splice t off rm q = Some r" "wf_text t" "wf_text q" "0 \<le> off" "0 \<le> rm" "off + rm \<le> int (length (cells t))"
  shows "wf_text r \<and> cells r = take (nat off) (cells t) @ cells q @ drop (nat (off + rm)) (cells t)"
proof -
  obtain a b where ab: "text_Slice t 0 off = Some a" "text_Slice t (off + rm) (text_Count t - off - rm) = Some b"
    "r = text_concat (text_concat a q) b"
    using assms(1) by (auto simp: text_splice_def bind_Some_ex)
  have "wf_text a \<and> cells a = take (nat off) (cells t)" using text_Slice_cells [OF ab(1) assms(2)] assms(4) by simp
  moreover have "wf_text b \<and> cells b = drop (nat (off + rm)) (cells t)"
    using text_Slice_cells [OF ab(2) assms(2)] assms(4-6) text_Count_cells [OF assms(2)] by simp
  ultimately show ?thesis using text_concat_cells [of a q] text_concat_cells [of "text_concat a q" b] assms(3) ab(3) by simp
qed

section \<open>Runs of values\<close>

definition spread :: "'a vals \<Rightarrow> 'a option list" where
  "spread a = concat (map (\<lambda>(v, n). replicate (nat n) v) a)"

definition wf_vals :: "'a vals \<Rightarrow> bool" where
  "wf_vals a \<longleftrightarrow> (\<forall>x \<in> set a. 0 \<le> snd x)"

lemma spread_simps [simp]: "spread [] = []" "spread ((v, n) # a) = replicate (nat n) v @ spread a"
  by (simp_all add: spread_def)

lemma spread_append [simp]: "spread (a @ b) = spread a @ spread b"
  by (simp add: spread_def)

lemma wf_vals_append [simp]: "wf_vals (a @ b) \<longleftrightarrow> wf_vals a \<and> wf_vals b"
  by (auto simp: wf_vals_def)

lemma wf_vals_simps [simp]: "wf_vals []" "wf_vals ((v, n) # a) \<longleftrightarrow> 0 \<le> n \<and> wf_vals a"
  by (auto simp: wf_vals_def)

lemma vals_count_spread: "wf_vals a \<Longrightarrow> vals_count a = int (length (spread a))"
  by (induction a) (auto simp: vals_count_def)

lemma vals_slice_loop_spread:
  assumes "wf_vals a" "0 \<le> n"
  shows "wf_vals (vals_slice_loop off n seen a) \<and>
    spread (vals_slice_loop off n seen a) = take (nat (off + n - max seen off)) (drop (nat (off - seen)) (spread a))"
  using assms
proof (induction off n seen a rule: vals_slice_loop.induct)
  case (2 off n seen v sz a)
  let ?d = "min (seen + sz) (off + n) - max seen off"
  have sz: "sz = int (length (replicate (nat sz) v))" "wf_vals a" using 2(2) by simp_all
  note step = slice_step [OF 2(3), of off seen "replicate (nat sz) v" "spread a", folded sz(1)]
  have "take (nat ?d) (drop (nat (max seen off - seen)) (replicate (nat sz) v)) = replicate (nat ?d) v"
    by (auto simp: min_def max_def nat_diff_distrib')
  moreover have "vals_slice_loop off n seen ((v, sz) # a) = (if max seen off < min (seen + sz) (off + n) then [(v, ?d)] else [])
      @ vals_slice_loop off n (seen + sz) a" by (simp only: vals_slice_loop.simps Let_def) (simp split: if_split)
  moreover have "nat ?d = 0" if "\<not> max seen off < min (seen + sz) (off + n)" using that by linarith
  ultimately show ?case using 2(1) [OF refl refl sz(2) 2(3)] step
    by (cases "max seen off < min (seen + sz) (off + n)") (simp_all del: vals_slice_loop.simps max_less_iff_conj min_less_iff_conj less_max_iff_disj, auto)
qed simp

lemma vals_slice_spread:
  assumes "wf_vals a" "0 \<le> off" "0 \<le> n"
  shows "wf_vals (vals_slice a off n) \<and> spread (vals_slice a off n) = take (nat n) (drop (nat off) (spread a))"
  using vals_slice_loop_spread [OF assms(1,3), of off 0] assms(2) by (simp add: vals_slice_def)

section \<open>Setting attributes\<close>

fun paint :: "string \<Rightarrow> 'a option list \<Rightarrow> 'a cell list \<Rightarrow> 'a cell list" where
  "paint name (v # vs) ((u, a) # cs) = (u, attrs_set a name v) # paint name vs cs"
| "paint name _ cs = cs"

definition set_cells :: "nat \<Rightarrow> string \<Rightarrow> 'a option list \<Rightarrow> 'a cell list \<Rightarrow> 'a cell list" where
  "set_cells off name vs cs = take off cs @ paint name vs (drop off cs)"

lemma paint_Nil [simp]: "paint name [] cs = cs" "paint name vs [] = []"
  by (cases vs; simp)+

lemma paint_length [simp]: "length (paint name vs cs) = length cs"
  by (induction name vs cs rule: paint.induct) auto

lemma paint_append: "paint name vs (xs @ ys) = paint name vs xs @ paint name (drop (length xs) vs) ys"
  by (induction name vs xs rule: paint.induct) auto

lemma paint_more: "length xs \<le> length vs \<Longrightarrow> paint name (vs @ ws) xs = paint name vs xs"
  by (induction name vs xs rule: paint.induct) auto

lemma paint_replicate: "length us \<le> n \<Longrightarrow> paint name (replicate n v) (map (\<lambda>u. (u, a)) us) = map (\<lambda>u. (u, attrs_set a name v)) us"
proof (induction us arbitrary: n)
  case (Cons u us)
  then show ?case by (cases n) auto
qed simp

lemma paint_all_replicate: "length (ulist s) \<le> n \<Longrightarrow> paint name (replicate n v @ vs) (paint_all a s) = paint_all (attrs_set a name v) s"
  using paint_replicate [of "ulist s" n name v a] paint_more [of "paint_all a s" "replicate n v" name vs] by (simp add: paint_all_def)

text \<open>The inner loop: what is written, and what is left of the piece and of the values.\<close>

definition rest :: "'a attrs \<Rightarrow> string \<Rightarrow> int \<Rightarrow> 'a cell list" where
  "rest a s n = (if n > 0 then paint_all a s else [])"

lemma apply_runs_cells:
  assumes "apply_runs name a s n after r = Some (s', n', after', r')" "piece_ok s n" "wf_vals after" "wf_text r"
  shows "wf_text r' \<and> wf_vals after' \<and> (n' > 0 \<longrightarrow> piece_ok s' n' \<and> after' = []) \<and> 0 \<le> n' \<and>
    cells r' @ rest a s' n' = cells r @ paint name (spread after) (paint_all a s) \<and> spread after' = drop (nat n) (spread after)"
  using assms
proof (induction name a s n after r arbitrary: s' n' after' r' rule: apply_runs.induct)
  case (1 name a s n r)
  then show ?case by (auto simp: rest_def piece_ok_def paint_all_def)
next
  case (2 name a s n v m after r)
  consider "n = 0" | "n > 0" "m > n" | "n > 0" "m \<le> n" using 2(3) by (fastforce simp: piece_ok_def)
  then show ?case
  proof cases
    case 1
    then show ?thesis using 2(2-5) by (auto simp: rest_def piece_ok_def paint_all_def)
  next
    case c: 2
    have r': "s' = s" "n' = 0" "after' = (v, m - n) # after" "r' = text_push r s (attrs_set a name v) n"
      using 2(2) c by auto
    have m: "nat m = nat n + nat (m - n)" using c by simp
    have "spread ((v, m) # after) = replicate (nat n) v @ replicate (nat (m - n)) v @ spread after"
      unfolding spread_simps m replicate_add by simp
    moreover have "paint name (replicate (nat n) v @ replicate (nat (m - n)) v @ spread after) (paint_all a s) = paint_all (attrs_set a name v) s"
      by (rule paint_all_replicate) (use 2(3) in \<open>simp add: piece_ok_def\<close>)
    ultimately show ?thesis using text_push_cells [OF 2(5,3), of "attrs_set a name v"] r' 2(4) c by (simp add: rest_def)
  next
    case c: 3
    obtain l q where lq: "splitString s m n = Some (l, q)"
      "apply_runs name a q (n - m) after (text_push r l (attrs_set a name v) m) = Some (s', n', after', r')"
      using 2(2) c by (auto simp: bind_Some_ex)
    have m: "0 \<le> m" "wf_vals after" using 2(4) by simp_all
    have sp: "piece_ok l m" "piece_ok q (n - m)" "paint_all a s = paint_all a l @ paint_all a q"
      using splitString_cells [OF lq(1) 2(3) m(1)] by blast+
    have len: "length (ulist l) = nat m" using sp(1) by (simp add: piece_ok_def)
    have "paint name (spread ((v, m) # after)) (paint_all a s) = paint_all (attrs_set a name v) l @ paint name (spread after) (paint_all a q)"
      unfolding sp(3) paint_append using paint_all_replicate [of l "nat m" name v "spread after" a] len by simp
    moreover have "drop (nat (n - m)) (spread after) = drop (nat n) (spread ((v, m) # after))"
      using m(1) c by (simp add: nat_diff_distrib)
    ultimately show ?thesis
      using 2(1) [OF c(1) refl _ lq(1) refl lq(2) sp(2) m(2)] text_push_cells [OF 2(5) sp(1), of "attrs_set a name v"] c by simp
  qed
qed

lemma set_cells_0 [simp]: "set_cells 0 name vs cs = paint name vs cs"
  by (simp add: set_cells_def)

lemma set_cells_append: "length xs \<le> off \<Longrightarrow> set_cells off name vs (xs @ ys) = xs @ set_cells (off - length xs) name vs ys"
  by (simp add: set_cells_def)

text \<open>The step of the outer loop from where the values begin.\<close>

definition loop_ok :: "string \<Rightarrow> 'a rich_text \<Rightarrow> bool" where
  "loop_ok name t \<longleftrightarrow> (\<forall>off after r q. applySetAttr_loop name off after r t = Some q \<longrightarrow> wf_vals after \<longrightarrow> wf_text r \<longrightarrow>
     wf_text q \<and> cells q = cells r @ set_cells (nat off) name (spread after) (cells t))"

lemma loop_after_runs:
  assumes IH: "loop_ok name t" and run: "apply_runs name a s n after r = Some (s', n', after', r')"
    and ok: "piece_ok s n" "wf_vals after" "wf_text r" and off: "off \<le> 0"
    and loop: "(if n' > 0 then applySetAttr_loop name (off - n') after' (text_push r' s' a n') t
       else applySetAttr_loop name off after' r' t) = Some q"
  shows "wf_text q \<and> cells q = cells r @ paint name (spread after) (paint_all a s @ cells t)"
proof -
  have R: "wf_text r'" "wf_vals after'" "n' > 0 \<longrightarrow> piece_ok s' n' \<and> after' = []"
    "cells r' @ rest a s' n' = cells r @ paint name (spread after) (paint_all a s)" "spread after' = drop (nat n) (spread after)"
    using apply_runs_cells [OF run ok] by blast+
  have "paint name (spread after) (paint_all a s @ cells t) = paint name (spread after) (paint_all a s) @ paint name (spread after') (cells t)"
    using R(5) ok(1) by (simp add: paint_append piece_ok_def)
  moreover have "wf_text q \<and> cells q = (cells r' @ rest a s' n') @ paint name (spread after') (cells t)"
  proof (cases "n' > 0")
    case True
    then show ?thesis using R(1-3) loop off IH text_push_cells [OF R(1), of s' n' a] by (simp add: loop_ok_def rest_def)
  next
    case False
    then show ?thesis using R(1,2) loop off IH by (simp add: loop_ok_def rest_def)
  qed
  ultimately show ?thesis using R(4) by simp
qed

lemma applySetAttr_loop_cells: "wf_text t \<Longrightarrow> loop_ok name t"
proof (induction t)
  case (Cons x t)
  have IH: "loop_ok name t" and x: "piece_ok (tText x) (tSize x)" using Cons by simp_all
  let ?a = "tAttrs x" and ?z = "tSize x"
  have z: "?z = int (length (paint_all ?a (tText x)))" using x by (simp add: piece_ok_def)
  have "wf_text q \<and> cells q = cells r @ set_cells (nat off) name (spread after) (cells (x # t))"
    if loop: "applySetAttr_loop name off after r (x # t) = Some q" and after: "wf_vals after" and r: "wf_text r" for off after r q
  proof -
    consider (inside) "0 < off" "off < ?z" | (begun) "off \<le> 0" | (later) "0 < off" "?z \<le> off" by linarith
    then show ?thesis
    proof cases
      case inside
      obtain l s where ls: "splitString (tText x) off ?z = Some (l, s)" using loop inside by (auto simp: bind_Some_ex)
      have sp: "piece_ok l off" "piece_ok s (?z - off)" "paint_all ?a (tText x) = paint_all ?a l @ paint_all ?a s"
        using splitString_cells [OF ls x] inside(1) by auto
      obtain s' n' after' r' where run: "apply_runs name ?a s (?z - off) after (text_push r l ?a off) = Some (s', n', after', r')"
        and rest: "(if n' > 0 then applySetAttr_loop name (0 - n') after' (text_push r' s' ?a n') t else applySetAttr_loop name 0 after' r' t) = Some q"
        using loop inside ls by (auto simp: bind_Some_ex)
      have push: "wf_text (text_push r l ?a off) \<and> cells (text_push r l ?a off) = cells r @ paint_all ?a l" by (rule text_push_cells [OF r sp(1)])
      have "length (paint_all ?a l) = nat off" using sp(1) by (simp add: piece_ok_def)
      then show ?thesis
        using loop_after_runs [OF IH run sp(2) after _ order_refl rest] push sp(3)
          set_cells_append [of "paint_all ?a l" "nat off" name "spread after" "paint_all ?a s @ cells t"] by simp
    next
      case begun
      obtain s' n' after' r' where run: "apply_runs name ?a (tText x) ?z after r = Some (s', n', after', r')"
        and rest: "(if n' > 0 then applySetAttr_loop name (off - n') after' (text_push r' s' ?a n') t else applySetAttr_loop name off after' r' t) = Some q"
        using loop begun by (auto simp: bind_Some_ex)
      show ?thesis using loop_after_runs [OF IH run x after r begun rest] begun by simp
    next
      case later
      have "wf_text q \<and> cells q = cells r @ paint_all ?a (tText x) @ set_cells (nat (off - ?z)) name (spread after) (cells t)"
      proof (cases "?z > 0")
        case True
        then show ?thesis using loop later IH after text_push_cells [OF r x, of ?a] by (simp add: loop_ok_def)
      next
        case False
        then have "?z = 0" "paint_all ?a (tText x) = []" using z by (auto simp: paint_all_def)
        then show ?thesis using loop later IH after r by (simp add: loop_ok_def)
      qed
      moreover have "length (paint_all ?a (tText x)) = nat ?z" "0 \<le> ?z" using z by simp_all
      ultimately show ?thesis
        using set_cells_append [of "paint_all ?a (tText x)" "nat off" name "spread after" "cells t"] later
        by (simp add: nat_diff_distrib)
    qed
  qed
  then show ?case by (simp add: loop_ok_def del: applySetAttr_loop.simps)
qed (simp add: loop_ok_def set_cells_def)

lemma applySetAttr_cells:
  assumes "applySetAttr c t = Some q" "wf_text t" "wf_vals (aAfter c)"
  shows "wf_text q \<and> cells q = set_cells (nat (aOffset c)) (aName c) (spread (aAfter c)) (cells t)"
  using applySetAttr_loop_cells [OF assms(2), of "aName c"] assms(1,3) by (simp add: loop_ok_def applySetAttr_def)

end
