(* ===== verification/Dot_Rich_Total.thy ===== *)
theory Dot_Rich_Total
  imports Dot_Rich_Laws
begin

text \<open>
  On a text whose runes are all one UTF-16 unit no offset falls inside a rune: slices, splices and
  \<open>setattr\<close> never panic.
\<close>

definition single_text :: "'a rich_text \<Rightarrow> bool" where
  "single_text t \<longleftrightarrow> None \<notin> set (map fst (cells t))"

lemma single_text_simps [simp]:
  "single_text []" "single_text (x # t) \<longleftrightarrow> None \<notin> set (ulist (tText x)) \<and> single_text t" "single_text (t @ q) \<longleftrightarrow> single_text t \<and> single_text q"
  by (simp_all add: single_text_def paint_all_def o_def image_Un image_image)

lemma single_units_ulist: "valid_utf8 s \<Longrightarrow> None \<notin> set (ulist s) \<Longrightarrow> single_units s"
proof (induction s rule: runes.induct)
  case (1 s)
  show ?case
  proof (cases "s = []")
    case True
    then show ?thesis by (simp add: single_units_def runes.simps)
  next
    case False
    then have "valid_utf8 (drop (snd (decode_rune s)) s)" "None \<notin> set (ulist (drop (snd (decode_rune s)) s))"
      "utf16Count (fst (decode_rune s)) = 1"
      using 1(2,3) utf16Count_cases [of "fst (decode_rune s)"] by (auto simp: valid_utf8_def runes.simps [of s] ulist.simps [of s] split: if_splits)
    then show ?thesis using 1(1,2) False by (auto simp: single_units_def runes.simps [of s])
  qed
qed

lemma splitString_total:
  assumes "piece_ok s n" "None \<notin> set (ulist s)" "0 \<le> off" "off \<le> n"
  shows "\<exists>l r. splitString s off n = Some (l, r) \<and> piece_ok l off \<and> piece_ok r (n - off) \<and> None \<notin> set (ulist l) \<and> None \<notin> set (ulist r)"
proof -
  have v: "valid_utf8 s" "n = int (length (ulist s))" using assms(1) by (simp_all add: piece_ok_def)
  have s: "single_units s" using single_units_ulist [OF v(1) assms(2)] .
  obtain l where l: "S16_Slice s 0 off = Some l" using S16_Slice_single [OF s, of 0 off] v assms by auto
  obtain r where r: "S16_Slice s off (n - off) = Some r" using S16_Slice_single [OF s, of off "n - off"] v assms by auto
  have lr: "splitString s off n = Some (l, r)" using l r by (simp add: splitString_def)
  have "ulist l = take (nat off) (ulist s)" "ulist r = take (nat (n - off)) (drop (nat off) (ulist s))"
    using S16_Slice_units [OF l v(1)] S16_Slice_units [OF r v(1)] assms(3,4) by auto
  then have "set (ulist l) \<subseteq> set (ulist s)" "set (ulist r) \<subseteq> set (ulist s)"
    by (auto dest: in_set_takeD in_set_dropD)
  then show ?thesis using lr splitString_cells [OF lr assms(1,3)] assms(2) by auto
qed

lemma text_Slice_loop_total: "wf_text t \<Longrightarrow> single_text t \<Longrightarrow> \<exists>r. text_Slice_loop off n seen t = Some r"
proof (induction t arbitrary: seen)
  case (Cons x t)
  let ?a = "max seen off" and ?b = "min (seen + tSize x) (off + n)"
  have x: "valid_utf8 (tText x)" "tSize x = int (length (ulist (tText x)))" "None \<notin> set (ulist (tText x))"
    using Cons.prems by (simp_all add: piece_ok_def)
  obtain r where r: "text_Slice_loop off n (seen + tSize x) t = Some r" using Cons by fastforce
  show ?case
  proof (cases "?b - ?a > 0")
    case True
    have "0 \<le> ?a - seen" "0 \<le> ?b - ?a" "?a - seen + (?b - ?a) \<le> int (length (ulist (tText x)))" using True x(2) by linarith+
    then obtain s where "S16_Slice (tText x) (?a - seen) (?b - ?a) = Some s"
      using S16_Slice_single [OF single_units_ulist [OF x(1,3)]] by blast
    then show ?thesis using r True by (simp only: text_Slice_loop.simps Let_def) simp
  next
    case False
    then show ?thesis using r by (simp only: text_Slice_loop.simps Let_def) simp
  qed
qed simp

lemma text_Slice_total:
  assumes "wf_text t" "single_text t" "0 \<le> off" "0 \<le> n"
  shows "\<exists>r. text_Slice t off n = Some r \<and> wf_text r \<and> cells r = take (nat n) (drop (nat off) (cells t))"
  using text_Slice_loop_total [OF assms(1,2), of off n 0] text_Slice_cells [OF _ assms(1,3,4)] unfolding text_Slice_def by blast

lemma text_splice_total:
  assumes "wf_text t" "single_text t" "wf_text q" "0 \<le> off" "0 \<le> rm" "off + rm \<le> int (length (cells t))"
  shows "\<exists>r. text_splice t off rm q = Some r \<and> wf_text r \<and> cells r = take (nat off) (cells t) @ cells q @ drop (nat (off + rm)) (cells t)"
proof -
  have "\<exists>r. text_splice t off rm q = Some r"
    using text_Slice_loop_total [OF assms(1,2), of 0 off 0]
      text_Slice_loop_total [OF assms(1,2), of "off + rm" "text_Count t - off - rm" 0] by (auto simp: text_splice_def text_Slice_def)
  then show ?thesis using text_splice_cells [OF _ assms(1,3-6)] by blast
qed

lemma apply_runs_total:
  "piece_ok s n \<Longrightarrow> None \<notin> set (ulist s) \<Longrightarrow> wf_vals after \<Longrightarrow> \<exists>y. apply_runs name a s n after r = Some y"
proof (induction name a s n after r rule: apply_runs.induct)
  case (2 name a s n v m after r)
  show ?case
  proof (cases "n > 0 \<and> m \<le> n")
    case True
    obtain l q where lq: "splitString s m n = Some (l, q)" "piece_ok q (n - m)" "None \<notin> set (ulist q)"
      using splitString_total [OF 2(2,3), of m] 2(4) True by auto
    then show ?thesis using 2(1) [OF _ refl _ lq(1) refl lq(2,3)] True 2(4) by auto
  qed auto
qed simp

lemma applySetAttr_loop_total:
  "wf_text t \<Longrightarrow> single_text t \<Longrightarrow> wf_vals after \<Longrightarrow> wf_text r \<Longrightarrow> \<exists>q. applySetAttr_loop name off after r t = Some q"
proof (induction t arbitrary: off after r)
  case (Cons x t)
  have x: "piece_ok (tText x) (tSize x)" "None \<notin> set (ulist (tText x))" using Cons.prems by simp_all
  have next': "\<exists>q. (if n' > 0 then applySetAttr_loop name (off' - n') after' (text_push r' s' (tAttrs x) n') t
      else applySetAttr_loop name off' after' r' t) = Some q"
    if "wf_vals after'" "wf_text r'" "n' > 0 \<longrightarrow> piece_ok s' n'" for n' off' after' r' s'
    using Cons.IH [OF _ _ that(1)] Cons.prems that(2,3) text_push_cells [OF that(2), of s' n' "tAttrs x"] by simp
  have runs: "\<exists>s' n' after' r'. apply_runs name (tAttrs x) s n after r = Some (s', n', after', r') \<and>
      wf_vals after' \<and> wf_text r' \<and> (n' > 0 \<longrightarrow> piece_ok s' n')"
    if s: "piece_ok s n" "None \<notin> set (ulist s)" and r: "wf_text r" for s n r
  proof -
    obtain s' n' after' r' where e: "apply_runs name (tAttrs x) s n after r = Some (s', n', after', r')"
      using apply_runs_total [OF s Cons.prems(3), of name "tAttrs x" r] by (metis prod_cases4)
    then show ?thesis using apply_runs_cells [OF e s(1) Cons.prems(3) r] by blast
  qed
  consider "0 < off" "off < tSize x" | "off \<le> 0" | "0 < off" "tSize x \<le> off" by linarith
  then show ?case
  proof cases
    case 1
    obtain l s where ls: "splitString (tText x) off (tSize x) = Some (l, s)" "piece_ok l off" "piece_ok s (tSize x - off)" "None \<notin> set (ulist s)"
      using splitString_total [OF x, of off] 1 by auto
    have "wf_text (text_push r l (tAttrs x) off)" using text_push_cells [OF Cons.prems(4) ls(2)] by simp
    then obtain s' n' after' r' where "apply_runs name (tAttrs x) s (tSize x - off) after (text_push r l (tAttrs x) off) = Some (s', n', after', r')"
      "wf_vals after'" "wf_text r'" "n' > 0 \<longrightarrow> piece_ok s' n'" using runs [OF ls(3,4)] by blast
    then show ?thesis using next' [of after' r' n' s' 0] ls(1) 1 by simp
  next
    case 2
    obtain s' n' after' r' where "apply_runs name (tAttrs x) (tText x) (tSize x) after r = Some (s', n', after', r')"
      "wf_vals after'" "wf_text r'" "n' > 0 \<longrightarrow> piece_ok s' n'" using runs [OF x Cons.prems(4)] by blast
    then show ?thesis using next' [of after' r' n' s' off] 2 by simp
  next
    case 3
    then show ?thesis using next' [OF Cons.prems(3,4), of "tSize x" "tText x" off] x(1) by simp
  qed
qed simp

lemma applySetAttr_total:
  assumes "wf_text t" "single_text t" "wf_vals (aAfter c)"
  shows "\<exists>q. applySetAttr c t = Some q \<and> wf_text q \<and> cells q = set_cells (nat (aOffset c)) (aName c) (spread (aAfter c)) (cells t)"
  using applySetAttr_loop_total [OF assms wf_text_simps(1), of "aName c" "aOffset c"] applySetAttr_cells [OF _ assms(1,3)]
  unfolding applySetAttr_def by blast

end
