(* ===== verification/Dot_Setattr_Laws.thy ===== *)
theory Dot_Setattr_Laws
  imports Dot_Setattr Dot_Rich_Total
begin

text \<open>
  What the changes of a rich text do to its cells. A \<open>setattr\<close> is a partial function from positions to
  values, washed over the cells; splitting it restricts the function.
\<close>

section \<open>Washing values over cells\<close>

fun upd_cell :: "string \<Rightarrow> 'a option option \<Rightarrow> 'a cell \<Rightarrow> 'a cell" where
  "upd_cell name None c = c"
| "upd_cell name (Some v) (u, a) = (u, attrs_set a name v)"

definition wash :: "string \<Rightarrow> (int \<Rightarrow> 'a option option) \<Rightarrow> 'a cell list \<Rightarrow> 'a cell list" where
  "wash name f cs = map (\<lambda>i. upd_cell name (f (int i)) (cs ! i)) [0..<length cs]"

definition over :: "(int \<Rightarrow> 'b option) \<Rightarrow> (int \<Rightarrow> 'b option) \<Rightarrow> int \<Rightarrow> 'b option" where
  "over f g i = (case g i of None \<Rightarrow> f i | Some v \<Rightarrow> Some v)"

lemma attrs_set_lookup [simp]: "fmlookup (attrs_set a k v) l = (if l = k then v else fmlookup a l)"
  by (cases v) (auto simp: attrs_set_def Let_def)

lemma attrs_set_set [simp]: "attrs_set (attrs_set a k v) k w = attrs_set a k w"
  by (rule fmap_ext) auto

lemma attrs_set_commute: "k \<noteq> l \<Longrightarrow> attrs_set (attrs_set a k v) l w = attrs_set (attrs_set a l w) k v"
  by (rule fmap_ext) auto

lemma attrs_set_get [simp]: "attrs_set a k (fmlookup a k) = a"
  by (rule fmap_ext) auto

lemma upd_cell_fst [simp]: "fst (upd_cell name v c) = fst c"
  by (cases v; cases c) auto

lemma upd_cell_over: "upd_cell name (g i) (upd_cell name (f i) c) = upd_cell name (over f g i) c"
  by (cases "f i"; cases "g i"; cases c) (auto simp: over_def)

lemma upd_cell_commute: "k \<noteq> l \<Longrightarrow> upd_cell k v (upd_cell l w c) = upd_cell l w (upd_cell k v c)"
  by (cases v; cases w; cases c) (auto simp: attrs_set_commute)

lemma wash_length [simp]: "length (wash name f cs) = length cs" by (simp add: wash_def)

lemma wash_nth [simp]: "i < length cs \<Longrightarrow> wash name f cs ! i = upd_cell name (f (int i)) (cs ! i)" by (simp add: wash_def)

lemma wash_wash: "wash name g (wash name f cs) = wash name (over f g) cs"
  by (rule nth_equalityI) (auto simp: upd_cell_over)

lemma wash_commute: "k \<noteq> l \<Longrightarrow> wash k f (wash l g cs) = wash l g (wash k f cs)"
  by (rule nth_equalityI) (auto simp: upd_cell_commute)

lemma wash_cong: "(\<And>i. 0 \<le> i \<Longrightarrow> i < int (length cs) \<Longrightarrow> f i = g i) \<Longrightarrow> wash name f cs = wash name g cs"
  by (rule nth_equalityI) auto

lemma wash_none [simp]: "wash name (\<lambda>_. None) cs = cs"
  by (rule nth_equalityI) auto

lemma wash_fst: "map fst (wash name f cs) = map fst cs"
  by (rule nth_equalityI) auto

section \<open>A setattr as a function\<close>

definition val_at :: "'a setattr \<Rightarrow> int \<Rightarrow> 'a option option" where
  "val_at s i = (if aOffset s \<le> i \<and> i < aOffset s + vals_count (aAfter s) then Some (spread (aAfter s) ! nat (i - aOffset s)) else None)"

definition wf_setattr :: "'a setattr \<Rightarrow> bool" where
  "wf_setattr s \<longleftrightarrow> 0 \<le> aOffset s \<and> wf_vals (aBefore s) \<and> wf_vals (aAfter s) \<and> vals_count (aBefore s) = vals_count (aAfter s)"

lemma paint_nth: "i < length cs \<Longrightarrow> paint name vs cs ! i = (if i < length vs then upd_cell name (Some (vs ! i)) (cs ! i) else cs ! i)"
proof (induction name vs cs arbitrary: i rule: paint.induct)
  case (1 name v vs u a cs)
  then show ?case by (cases i) auto
qed auto

lemma set_cells_wash:
  assumes "0 \<le> aOffset s" "wf_vals (aAfter s)"
  shows "set_cells (nat (aOffset s)) (aName s) (spread (aAfter s)) cs = wash (aName s) (val_at s) cs"
proof (rule nth_equalityI)
  fix i assume i: "i < length (set_cells (nat (aOffset s)) (aName s) (spread (aAfter s)) cs)"
  then have i: "i < length cs" by (simp add: set_cells_def)
  show "set_cells (nat (aOffset s)) (aName s) (spread (aAfter s)) cs ! i = wash (aName s) (val_at s) cs ! i"
  proof (cases "int i < aOffset s")
    case True
    then have "i < nat (aOffset s)" by linarith
    then show ?thesis using i True by (simp add: set_cells_def nth_append val_at_def)
  next
    case False
    then have "nat (int i - aOffset s) = i - nat (aOffset s)" "nat (aOffset s) \<le> i" using assms(1) by (simp_all add: nat_diff_distrib)
    then show ?thesis using i False assms by (auto simp: set_cells_def nth_append paint_nth val_at_def vals_count_spread)
  qed
qed (simp add: set_cells_def)

lemma val_at_shift: "val_at (s\<lparr>aOffset := aOffset s + d\<rparr>) i = val_at s (i - d)"
  by (simp add: val_at_def algebra_simps)

lemma val_at_before [simp]: "val_at (s\<lparr>aBefore := b\<rparr>) = val_at s"
  by (rule ext) (simp add: val_at_def)

lemma wf_setattr_slice:
  assumes "wf_setattr s" "setattr_slice s k n = Some x" "0 \<le> k" "k + n \<le> vals_count (aBefore s)"
  shows "wf_setattr x \<and> aName x = aName s \<and> aOffset x = aOffset s + k \<and> vals_count (aBefore x) = n \<and> vals_count (aAfter x) = n \<and>
    val_at x i = (if aOffset s + k \<le> i \<and> i < aOffset s + k + n then val_at s i else None)"
proof -
  have n: "0 < n" and x: "x = \<lparr>aOffset = aOffset s + k, aName = aName s, aBefore = vals_slice (aBefore s) k n, aAfter = vals_slice (aAfter s) k n\<rparr>"
    using assms(2) by (simp_all add: setattr_slice_def split: if_splits)
  have w: "wf_vals (aBefore s)" "wf_vals (aAfter s)" "vals_count (aBefore s) = vals_count (aAfter s)" "0 \<le> aOffset s"
    using assms(1) by (simp_all add: wf_setattr_def)
  have len: "int (min (length (spread v) - nat k) (nat n)) = n" if "vals_count v = vals_count (aAfter s)" "wf_vals v" for v :: "'a vals"
    using that assms(3,4) n w vals_count_spread [OF that(2)] by linarith
  have b: "wf_vals (vals_slice (aBefore s) k n)" "vals_count (vals_slice (aBefore s) k n) = n"
    using vals_slice_spread [OF w(1) assms(3), of n] n len [OF w(3,1)] by (simp_all add: vals_count_spread)
  have a: "wf_vals (vals_slice (aAfter s) k n)" "vals_count (vals_slice (aAfter s) k n) = n"
    "spread (vals_slice (aAfter s) k n) = take (nat n) (drop (nat k) (spread (aAfter s)))"
    using vals_slice_spread [OF w(2) assms(3), of n] n len [OF refl w(2)] by (simp_all add: vals_count_spread)
  have "spread (vals_slice (aAfter s) k n) ! nat (i - (aOffset s + k)) = spread (aAfter s) ! nat (i - aOffset s)"
    if "aOffset s + k \<le> i" "i < aOffset s + k + n"
  proof -
    have "nat k + nat (i - (aOffset s + k)) = nat (i - aOffset s)" using that assms(3) by simp
    then show ?thesis unfolding a(3) using that n assms(3,4) w by (simp add: vals_count_spread)
  qed
  then show ?thesis using x a(1,2) b w n assms(3,4) by (auto simp: wf_setattr_def val_at_def)
qed

section \<open>Changes on cells\<close>

definition cells_splice :: "int \<Rightarrow> int \<Rightarrow> 'u list \<Rightarrow> 'u list \<Rightarrow> 'u list" where
  "cells_splice off n new cs = take (nat off) cs @ new @ drop (nat (off + n)) cs"

definition cells_move :: "move \<Rightarrow> 'u list \<Rightarrow> 'u list" where
  "cells_move m cs = (let c = Normalize m in
     cells_splice (mOffset c + mDistance c) 0 (take (nat (mCount c)) (drop (nat (mOffset c)) cs))
       (cells_splice (mOffset c) (mCount c) [] cs))"

fun cells_apply :: "'a rchange \<Rightarrow> 'a cell list \<Rightarrow> 'a cell list"
  and cells_apply_all :: "'a rchange option list \<Rightarrow> 'a cell list \<Rightarrow> 'a cell list" where
  "cells_apply (RSetAttr s) cs = wash (aName s) (val_at s) cs"
| "cells_apply (RSplice off before after) cs = cells_splice off (text_Count before) (cells after) cs"
| "cells_apply (RMove m) cs = cells_move m cs"
| "cells_apply (RSet ch) cs = cells_apply_all ch cs"
| "cells_apply_all [] cs = cs"
| "cells_apply_all (None # ch) cs = cells_apply_all ch cs"
| "cells_apply_all (Some c # ch) cs = cells_apply_all ch (cells_apply c cs)"

text \<open>The changes that fit a text of \<open>n\<close> units.\<close>

definition move_in :: "move \<Rightarrow> int \<Rightarrow> bool" where
  "move_in m n \<longleftrightarrow> 0 \<le> mOffset m \<and> 0 \<le> mCount m \<and> mOffset m + mCount m \<le> n \<and>
     0 \<le> mOffset m + mDistance m \<and> mOffset m + mDistance m + mCount m \<le> n"

definition text_ok :: "'a rich_text \<Rightarrow> bool" where
  "text_ok t \<longleftrightarrow> wf_text t \<and> single_text t"

fun fits :: "'a rchange \<Rightarrow> int \<Rightarrow> bool" and fits_all :: "'a rchange option list \<Rightarrow> int \<Rightarrow> bool"
  and grows :: "'a rchange \<Rightarrow> int" and grows_all :: "'a rchange option list \<Rightarrow> int" where
  "fits (RSetAttr s) n \<longleftrightarrow> 0 \<le> aOffset s \<and> wf_vals (aAfter s)"
| "fits (RSplice off before after) n \<longleftrightarrow> 0 \<le> off \<and> off + text_Count before \<le> n \<and> text_ok before \<and> text_ok after"
| "fits (RMove m) n \<longleftrightarrow> move_in m n"
| "fits (RSet cs) n \<longleftrightarrow> fits_all cs n"
| "fits_all [] n \<longleftrightarrow> True"
| "fits_all (None # cs) n \<longleftrightarrow> fits_all cs n"
| "fits_all (Some c # cs) n \<longleftrightarrow> fits c n \<and> fits_all cs (n + grows c)"
| "grows (RSplice off before after) = text_Count after - text_Count before"
| "grows (RSet cs) = grows_all cs"
| "grows (RSetAttr s) = 0"
| "grows (RMove m) = 0"
| "grows_all [] = 0"
| "grows_all (None # cs) = grows_all cs"
| "grows_all (Some c # cs) = grows c + grows_all cs"

lemma text_ok_Count: "text_ok t \<Longrightarrow> text_Count t = int (length (cells t))"
  by (simp add: text_ok_def text_Count_cells)

lemma single_text_fst: "map fst (cells q) = map fst (cells t) \<Longrightarrow> single_text q \<longleftrightarrow> single_text t"
  by (simp only: single_text_def)

lemma text_Slice_fits:
  assumes "text_ok t" "0 \<le> off" "0 \<le> n"
  shows "\<exists>r. text_Slice t off n = Some r \<and> text_ok r \<and> cells r = take (nat n) (drop (nat off) (cells t))"
proof -
  obtain r where r: "text_Slice t off n = Some r" "wf_text r" "cells r = take (nat n) (drop (nat off) (cells t))"
    using text_Slice_total [of t off n] assms by (auto simp: text_ok_def)
  have "set (cells r) \<subseteq> set (cells t)" unfolding r(3) by (auto dest: in_set_takeD in_set_dropD)
  then show ?thesis using r assms(1) by (auto simp: text_ok_def single_text_def)
qed

lemma text_splice_fits:
  assumes "text_ok t" "text_ok q" "0 \<le> off" "0 \<le> rm" "off + rm \<le> int (length (cells t))"
  shows "\<exists>r. text_splice t off rm q = Some r \<and> text_ok r \<and> cells r = cells_splice off rm (cells q) (cells t)"
proof -
  obtain r where r: "text_splice t off rm q = Some r" "wf_text r" "cells r = cells_splice off rm (cells q) (cells t)"
    using text_splice_total [of t q off rm] assms by (auto simp: text_ok_def cells_splice_def)
  have "set (cells r) \<subseteq> set (cells t) \<union> set (cells q)" unfolding r(3) cells_splice_def by (auto dest: in_set_takeD in_set_dropD)
  then show ?thesis using r assms(1,2) by (auto simp: text_ok_def single_text_def)
qed

lemma cells_splice_length:
  "0 \<le> off \<Longrightarrow> 0 \<le> rm \<Longrightarrow> off + rm \<le> int (length cs) \<Longrightarrow> int (length (cells_splice off rm new cs)) = int (length cs) + int (length new) - rm"
  by (simp add: cells_splice_def)

lemma Normalize_in:
  assumes "move_in m n"
  shows "0 \<le> mOffset (Normalize m) \<and> 0 \<le> mCount (Normalize m) \<and> 0 \<le> mDistance (Normalize m) \<and>
    mOffset (Normalize m) + mCount (Normalize m) + mDistance (Normalize m) \<le> n"
  using assms by (auto simp: move_in_def Normalize_def)

text \<open>
  The interface \<open>changes.Collection\<close> as \<open>types.Generic\<close> uses it: slices and splices of a value that stands
  for a list of units. A move is then a slice put elsewhere, whatever the collection.
\<close>

locale unit_collection =
  fixes slice :: "'c \<Rightarrow> int \<Rightarrow> int \<Rightarrow> 'c option" and splice :: "'c \<Rightarrow> int \<Rightarrow> int \<Rightarrow> 'c \<Rightarrow> 'c option"
    and count_of :: "'c \<Rightarrow> int" and units_of :: "'c \<Rightarrow> 'u list" and good :: "'c \<Rightarrow> bool"
  assumes count_law: "good c \<Longrightarrow> count_of c = int (length (units_of c))"
    and slice_law: "good c \<Longrightarrow> 0 \<le> off \<Longrightarrow> 0 \<le> n \<Longrightarrow>
      \<exists>r. slice c off n = Some r \<and> good r \<and> units_of r = take (nat n) (drop (nat off) (units_of c))"
    and splice_law: "good c \<Longrightarrow> good d \<Longrightarrow> 0 \<le> off \<Longrightarrow> 0 \<le> rm \<Longrightarrow> off + rm \<le> int (length (units_of c)) \<Longrightarrow>
      \<exists>r. splice c off rm d = Some r \<and> good r \<and> units_of r = cells_splice off rm (units_of d) (units_of c)"
begin

lemma move_law:
  assumes "good t" "move_in m (int (length (units_of t)))"
  shows "\<exists>s e q r. slice t (mOffset (Normalize m)) (mCount (Normalize m)) = Some s \<and> slice t 0 0 = Some e \<and>
    splice t (mOffset (Normalize m)) (mCount (Normalize m)) e = Some q \<and>
    splice q (mOffset (Normalize m) + mDistance (Normalize m)) (count_of e) s = Some r \<and> good r \<and> units_of r = cells_move m (units_of t)"
proof -
  let ?c = "Normalize m"
  have c: "0 \<le> mOffset ?c" "0 \<le> mCount ?c" "0 \<le> mDistance ?c" "mOffset ?c + mCount ?c + mDistance ?c \<le> int (length (units_of t))"
    using Normalize_in [OF assms(2)] by auto
  obtain s where s: "slice t (mOffset ?c) (mCount ?c) = Some s" "good s" "units_of s = take (nat (mCount ?c)) (drop (nat (mOffset ?c)) (units_of t))"
    using slice_law [OF assms(1) c(1,2)] by auto
  obtain e where e: "slice t 0 0 = Some e" "good e" "units_of e = []" using slice_law [OF assms(1), of 0 0] by auto
  obtain q where q: "splice t (mOffset ?c) (mCount ?c) e = Some q" "good q" "units_of q = cells_splice (mOffset ?c) (mCount ?c) [] (units_of t)"
    using splice_law [OF assms(1) e(2) c(1,2)] c e(3) by auto
  have "int (length (units_of q)) = int (length (units_of t)) - mCount ?c"
    unfolding q(3) using cells_splice_length [of "mOffset ?c" "mCount ?c" "units_of t" "[]"] c by simp
  then obtain r where r: "splice q (mOffset ?c + mDistance ?c) 0 s = Some r" "good r"
      "units_of r = cells_splice (mOffset ?c + mDistance ?c) 0 (units_of s) (units_of q)"
    using splice_law [OF q(2) s(2), of "mOffset ?c + mDistance ?c" 0] c by auto
  have "count_of e = 0" using count_law [OF e(2)] e(3) by simp
  then show ?thesis using r s(1,3) e(1) q(1,3) by (simp add: Let_def cells_move_def)
qed

end

interpretation rich: unit_collection text_Slice text_splice text_Count cells text_ok
  by unfold_locales (use text_ok_Count text_Slice_fits text_splice_fits in auto)

lemma text_move_fits:
  assumes "text_ok t" "move_in m (int (length (cells t)))"
  shows "\<exists>r. text_move t m = Some r \<and> text_ok r \<and> cells r = cells_move m (cells t)"
  using rich.move_law [OF assms] by (auto simp: text_move_def Let_def)

lemma cells_move_length: "move_in m (int (length cs)) \<Longrightarrow> length (cells_move m cs) = length cs"
proof -
  let ?c = "Normalize m"
  assume "move_in m (int (length cs))"
  then have c: "0 \<le> mOffset ?c" "0 \<le> mCount ?c" "0 \<le> mDistance ?c" "mOffset ?c + mCount ?c + mDistance ?c \<le> int (length cs)"
    using Normalize_in by auto
  have "int (length (cells_splice (mOffset ?c) (mCount ?c) [] cs)) = int (length cs) - mCount ?c" using cells_splice_length [of "mOffset ?c" "mCount ?c" cs "[]"] c by simp
  then have "int (length (cells_move m cs)) = int (length cs)"
    using cells_splice_length [of "mOffset ?c + mDistance ?c" 0 "cells_splice (mOffset ?c) (mCount ?c) [] cs"] c unfolding cells_move_def Let_def by simp
  then show ?thesis by simp
qed

text \<open>On texts without surrogate pairs, a change that fits is applied, and does to the cells what it should.\<close>

lemma rich_Apply_fits:
  shows "text_ok t \<Longrightarrow> fits c (int (length (cells t))) \<Longrightarrow>
      \<exists>q. rich_Apply c t = Some q \<and> text_ok q \<and> cells q = cells_apply c (cells t) \<and> int (length (cells q)) = int (length (cells t)) + grows c"
    and "text_ok t \<Longrightarrow> fits_all cs (int (length (cells t))) \<Longrightarrow>
      \<exists>q. rich_ApplyAll cs t = Some q \<and> text_ok q \<and> cells q = cells_apply_all cs (cells t) \<and> int (length (cells q)) = int (length (cells t)) + grows_all cs"
proof (induction c t and cs t rule: rich_Apply_rich_ApplyAll.induct)
  case (1 s t)
  obtain q where q: "applySetAttr s t = Some q" "wf_text q" "cells q = wash (aName s) (val_at s) (cells t)"
    using applySetAttr_total [of t s] 1 set_cells_wash [of s] by (auto simp: text_ok_def)
  then have "single_text q" using single_text_fst [of q t] 1 by (simp add: wash_fst text_ok_def)
  then show ?case using q by (simp add: text_ok_def)
next
  case (2 off before after t)
  have b: "0 \<le> text_Count before" using text_ok_Count [of before] 2 by simp
  then show ?case using 2 text_splice_fits [of t after off "text_Count before"] cells_splice_length [of off "text_Count before" "cells t" "cells after"]
      text_ok_Count [of after] by auto
next
  case (3 m t)
  then show ?case using text_move_fits [of t m] cells_move_length [of m "cells t"] by auto
next
  case (7 c cs t)
  then obtain q where q: "rich_Apply c t = Some q" "text_ok q" "cells q = cells_apply c (cells t)" "int (length (cells q)) = int (length (cells t)) + grows c" by auto
  then show ?case using 7 by (simp add: algebra_simps)
qed auto

end
