(* ===== verification/Dot_Setattr_Merge.thy ===== *)
theory Dot_Setattr_Merge
  imports Dot_Setattr_Laws
begin

text \<open>
  Merging a \<open>setattr\<close> with another \<open>setattr\<close>, a move or a splice: the merge returns, and both orders give
  the same cells.
\<close>

section \<open>Changes made of setattrs\<close>

definition paints :: "'a rchange option \<Rightarrow> string \<Rightarrow> (int \<Rightarrow> 'a option option) \<Rightarrow> bool" where
  "paints c name f \<longleftrightarrow> (\<forall>cs. cells_apply_all [c] cs = wash name f cs) \<and> (\<forall>n. fits_all [c] n) \<and> grows_all [c] = 0"

lemma paints_None [simp]: "paints None name (\<lambda>_. None)" by (simp add: paints_def)

lemma paints_fitting: "0 \<le> aOffset s \<Longrightarrow> wf_vals (aAfter s) \<Longrightarrow> paints (Some (RSetAttr s)) (aName s) (val_at s)"
  by (simp add: paints_def)

lemma paints_setattr: "wf_setattr s \<Longrightarrow> paints (Some (RSetAttr s)) (aName s) (val_at s)"
  by (simp add: paints_fitting wf_setattr_def)

lemma cells_apply_all_Cons: "cells_apply_all (c # ch) cs = cells_apply_all ch (cells_apply_all [c] cs)"
  by (cases c) simp_all

lemma cells_apply_all_append: "cells_apply_all (a @ b) cs = cells_apply_all b (cells_apply_all a cs)"
proof (induction a arbitrary: cs)
  case (Cons c a)
  then show ?case by (cases c) simp_all
qed simp

lemma grows_all_append: "grows_all (a @ b) = grows_all a + grows_all b"
proof (induction a)
  case (Cons c a)
  then show ?case by (cases c) simp_all
qed simp

lemma fits_all_append: "fits_all (a @ b) n \<longleftrightarrow> fits_all a n \<and> fits_all b (n + grows_all a)"
proof (induction a arbitrary: n)
  case (Cons c a)
  then show ?case by (cases c) (simp_all add: algebra_simps)
qed simp

lemma rset_same:
  "cells_apply_all [rset l] cs = cells_apply_all (map Some l) cs"
  "fits_all [rset l] n \<longleftrightarrow> fits_all (map Some l) n"
  "grows_all [rset l] = grows_all (map Some l)"
  by (auto simp: rset_def split: list.split)

lemma rSimplify_cells:
  fixes c :: "'a rchange" and l :: "'a rchange option list"
  shows "cells_apply_all [rSimplify c] cs = cells_apply c cs"
    and "cells_apply_all (map Some (rSimplifyAll l)) cs = cells_apply_all l cs"
proof (induction c and l arbitrary: cs and cs rule: rSimplify_rSimplifyAll.induct)
  case (5 c l)
  then show ?case by (cases "rSimplify c") simp_all
qed (simp_all add: rset_same)

lemma rSimplify_grows:
  fixes c :: "'a rchange" and l :: "'a rchange option list"
  shows "grows_all [rSimplify c] = grows c" and "grows_all (map Some (rSimplifyAll l)) = grows_all l"
proof (induction c and l rule: rSimplify_rSimplifyAll.induct)
  case (5 c l)
  then show ?case by (cases "rSimplify c") simp_all
qed (simp_all add: rset_same)

lemma rSimplify_fits:
  fixes c :: "'a rchange" and l :: "'a rchange option list"
  shows "fits_all [rSimplify c] n \<longleftrightarrow> fits c n" and "fits_all (map Some (rSimplifyAll l)) n \<longleftrightarrow> fits_all l n"
proof (induction c and l arbitrary: n and n rule: rSimplify_rSimplifyAll.induct)
  case (5 c l)
  have "grows c = grows_all [rSimplify c]" by (rule rSimplify_grows [symmetric])
  then show ?case using 5 by (cases "rSimplify c") simp_all
qed (simp_all add: rset_same)

lemma paints_pair:
  assumes "paints a name f" "paints b name g"
  shows "paints (Some (RSet [a, b])) name (over f g)" "paints (rSimplify (RSet [a, b])) name (over f g)"
proof -
  have ab: "[a, b] = [a] @ [b]" by simp
  have 1: "cells_apply_all [a, b] cs = wash name (over f g) cs" for cs
    unfolding ab cells_apply_all_append using assms by (simp add: paints_def wash_wash)
  have 2: "fits_all [a, b] n" "grows_all [a, b] = 0" for n
    unfolding ab fits_all_append grows_all_append using assms by (simp_all add: paints_def)
  show "paints (Some (RSet [a, b])) name (over f g)" using 1 2 by (simp add: paints_def)
  show "paints (rSimplify (RSet [a, b])) name (over f g)" using 1 2 by (simp add: paints_def rSimplify_cells rSimplify_fits rSimplify_grows del: rSimplify.simps)
qed

fun vals_of :: "'a setattr list \<Rightarrow> int \<Rightarrow> 'a option option" where
  "vals_of [] = (\<lambda>_. None)"
| "vals_of (p # ps) = over (val_at p) (vals_of ps)"

lemma paints_rset:
  assumes "\<forall>p \<in> set ps. wf_setattr p \<and> aName p = name"
  shows "paints (rset (map RSetAttr ps)) name (vals_of ps)"
proof -
  have "cells_apply_all (map Some (map RSetAttr ps)) cs = wash name (vals_of ps) cs \<and> fits_all (map Some (map RSetAttr ps)) n
      \<and> grows_all (map Some (map RSetAttr ps)) = 0" for cs n
    using assms
  proof (induction ps arbitrary: cs n)
    case (Cons p ps)
    then show ?case by (auto simp: wf_setattr_def wash_wash)
  qed simp
  then show ?thesis unfolding paints_def rset_same by blast
qed

section \<open>Splitting\<close>

lemma val_at_outside: "i < aOffset s \<or> aOffset s + vals_count (aAfter s) \<le> i \<Longrightarrow> val_at s i = None"
  by (auto simp: val_at_def)

lemma split_none:
  assumes "wf_setattr s" "setattr_split s a b = (non, None)"
  shows "non = Some (RSetAttr s) \<and> (aOffset s + vals_count (aAfter s) \<le> a \<or> b \<le> aOffset s \<or> vals_count (aAfter s) = 0 \<or> b \<le> a)"
  using assms vals_count_spread [of "aAfter s"] by (auto simp: setattr_split_def setattr_slice_def wf_setattr_def Let_def split: if_splits)

definition opt_list :: "'b option \<Rightarrow> 'b list" where
  "opt_list x = (case x of None \<Rightarrow> [] | Some y \<Rightarrow> [y])"

lemma opt_list_set [simp]: "set (opt_list x) = set_option x"
  by (cases x) (simp_all add: opt_list_def)

lemma opt_list_length [simp]: "length (opt_list x) = (if x = None then 0 else 1)"
  by (cases x) (simp_all add: opt_list_def)

lemma rSimplify_opts: "rSimplify (RSet [map_option RSetAttr l, map_option RSetAttr r]) = rset (map RSetAttr (opt_list l @ opt_list r))"
  by (cases l; cases r) (simp_all add: opt_list_def)

lemma vals_of_opts:
  assumes "\<And>p. L = Some p \<Longrightarrow> val_at p i = (if i < a then f i else None)" "\<And>p. R = Some p \<Longrightarrow> val_at p i = (if b \<le> i then f i else None)"
    and "L = None \<Longrightarrow> i < a \<Longrightarrow> f i = None" "R = None \<Longrightarrow> b \<le> i \<Longrightarrow> f i = None" "i < a \<Longrightarrow> b \<le> i \<Longrightarrow> f i = None"
  shows "vals_of (opt_list L @ opt_list R) i = (if a \<le> i \<and> i < b then None else f i)"
  using assms by (cases L; cases R; cases "f i"; cases "i < a"; cases "b \<le> i") (auto simp: opt_list_def over_def)

lemma split_some:
  assumes "wf_setattr s" "setattr_split s a b = (non, Some x)"
  shows "wf_setattr x" "aName x = aName s" "val_at x i = (if a \<le> i \<and> i < b then val_at s i else None)"
    "aOffset x = max (aOffset s) a" "vals_count (aBefore x) = min (aOffset s + vals_count (aAfter s)) b - max (aOffset s) a"
    "max (aOffset s) a < min (aOffset s + vals_count (aAfter s)) b"
    "\<exists>ps. non = rset (map RSetAttr ps) \<and> (\<forall>p \<in> set ps. wf_setattr p \<and> aName p = aName s \<and> aOffset s \<le> aOffset p \<and>
       (aOffset p + vals_count (aAfter p) \<le> a \<or> b \<le> aOffset p) \<and> vals_count (aAfter p) > 0) \<and>
       (\<forall>i. vals_of ps i = (if a \<le> i \<and> i < b then None else val_at s i)) \<and>
       length ps = (if a \<le> aOffset s then 0 else 1) + (if aOffset s + vals_count (aAfter s) \<le> b then 0 else 1)"
proof -
  let ?o = "aOffset s" and ?e = "aOffset s + vals_count (aAfter s)"
  let ?a = "max ?o a" and ?b = "min ?e b"
  have be: "vals_count (aBefore s) = vals_count (aAfter s)" using assms(1) by (simp add: wf_setattr_def)
  have ab: "?a < ?b"
    and x: "setattr_slice s (?a - ?o) (?b - ?a) = Some x"
    and non: "non = rset (map RSetAttr (opt_list (setattr_slice s 0 (?a - ?o)) @ opt_list (setattr_slice s (?b - ?o) (?e - ?b))))"
    using assms(2) unfolding setattr_split_def Let_def be rSimplify_opts [symmetric]
    by (auto simp: max_def min_def split: if_splits)
  note X = wf_setattr_slice [OF assms(1) x]
  have "0 \<le> ?a - ?o" "?a - ?o + (?b - ?a) \<le> vals_count (aBefore s)" using be by linarith+
  note X = X [OF this]
  show "wf_setattr x" "aName x = aName s" "aOffset x = ?a" "vals_count (aBefore x) = ?b - ?a" "?a < ?b" using X ab by auto
  show "val_at x i = (if a \<le> i \<and> i < b then val_at s i else None)" using X [of i] val_at_outside [of i s] by auto
  let ?l = "setattr_slice s 0 (?a - ?o)" and ?r = "setattr_slice s (?b - ?o) (?e - ?b)"
  have l: "wf_setattr p \<and> aName p = aName s \<and> aOffset s \<le> aOffset p \<and> aOffset p + vals_count (aAfter p) = a \<and> vals_count (aAfter p) > 0 \<and>
      val_at p i = (if i < a then val_at s i else None)" if "?l = Some p" for p i
  proof -
    have "0 < ?a - ?o" using that by (simp add: setattr_slice_def split: if_splits)
    then have "a = ?a" "?o < a" by linarith+
    have "0 + (?a - ?o) \<le> vals_count (aBefore s)" using be ab by linarith
    from wf_setattr_slice [OF assms(1) that _ this, of i] show ?thesis using \<open>a = ?a\<close> \<open>?o < a\<close> val_at_outside [of i s] by auto
  qed
  have r: "wf_setattr p \<and> aName p = aName s \<and> aOffset s \<le> aOffset p \<and> aOffset p = b \<and> vals_count (aAfter p) > 0 \<and>
      val_at p i = (if b \<le> i then val_at s i else None)" if "?r = Some p" for p i
  proof -
    have "0 < ?e - ?b" using that by (simp add: setattr_slice_def split: if_splits)
    then have "b = ?b" "b < ?e" "?o \<le> b" using ab by linarith+
    have "0 \<le> ?b - ?o" "?b - ?o + (?e - ?b) \<le> vals_count (aBefore s)" using be ab by linarith+
    from wf_setattr_slice [OF assms(1) that this, of i] show ?thesis using \<open>b = ?b\<close> \<open>b < ?e\<close> \<open>?o \<le> b\<close> val_at_outside [of i s] by auto
  qed
  let ?ps = "opt_list ?l @ opt_list ?r"
  have ne: "?l = None \<longleftrightarrow> a \<le> ?o" "?r = None \<longleftrightarrow> ?e \<le> b" by (auto simp: setattr_slice_def)
  have "vals_of ?ps i = (if a \<le> i \<and> i < b then None else val_at s i)" for i
  proof (rule vals_of_opts)
    show "\<And>p. ?l = Some p \<Longrightarrow> val_at p i = (if i < a then val_at s i else None)" using l by blast
    show "\<And>p. ?r = Some p \<Longrightarrow> val_at p i = (if b \<le> i then val_at s i else None)" using r by blast
    show "?l = None \<Longrightarrow> i < a \<Longrightarrow> val_at s i = None" using ne(1) by (intro val_at_outside) linarith
    show "?r = None \<Longrightarrow> b \<le> i \<Longrightarrow> val_at s i = None" using ne(2) by (intro val_at_outside) linarith
    show "i < a \<Longrightarrow> b \<le> i \<Longrightarrow> val_at s i = None" using ab by linarith
  qed
  moreover have "\<forall>p \<in> set ?ps. wf_setattr p \<and> aName p = aName s \<and> aOffset s \<le> aOffset p \<and> (aOffset p + vals_count (aAfter p) \<le> a \<or> b \<le> aOffset p) \<and> vals_count (aAfter p) > 0"
  proof
    fix p assume "p \<in> set ?ps"
    then consider "?l = Some p" | "?r = Some p" by auto
    then show "wf_setattr p \<and> aName p = aName s \<and> aOffset s \<le> aOffset p \<and> (aOffset p + vals_count (aAfter p) \<le> a \<or> b \<le> aOffset p) \<and> vals_count (aAfter p) > 0"
      using l [of p 0] r [of p 0] by cases simp_all
  qed
  moreover have "length ?ps = (if a \<le> aOffset s then 0 else 1) + (if ?e \<le> b then 0 else 1)"
    by (simp only: length_append opt_list_length ne)
  ultimately show "\<exists>ps. non = rset (map RSetAttr ps) \<and> (\<forall>p \<in> set ps. wf_setattr p \<and> aName p = aName s \<and> aOffset s \<le> aOffset p \<and>
       (aOffset p + vals_count (aAfter p) \<le> a \<or> b \<le> aOffset p) \<and> vals_count (aAfter p) > 0) \<and>
       (\<forall>i. vals_of ps i = (if a \<le> i \<and> i < b then None else val_at s i)) \<and>
       length ps = (if a \<le> aOffset s then 0 else 1) + (if ?e \<le> b then 0 else 1)" using non by blast
qed

lemma split_overlap:
  assumes "wf_setattr s" "setattr_split s a b = (non, x)"
  shows "x \<noteq> None \<longleftrightarrow> max (aOffset s) a < min (aOffset s + vals_count (aAfter s)) b"
  using split_some(6) [OF assms(1), of a b non] split_none [OF assms(1), of a b non] assms(2)
  by (cases x) (simp_all del: max_less_iff_conj min_less_iff_conj less_max_iff_disj, linarith)

section \<open>Two setattrs\<close>

definition diamond :: "'a setattr \<Rightarrow> 'a rchange \<Rightarrow> int \<Rightarrow> 'a rchange option \<times> 'a rchange option \<Rightarrow> bool" where
  "diamond s c n m \<longleftrightarrow> fits_all [Some (RSetAttr s), fst m] n \<and> fits_all [Some c, snd m] n \<and>
     (\<forall>cs. int (length cs) = n \<longrightarrow> cells_apply_all [Some (RSetAttr s), fst m] cs = cells_apply_all [Some c, snd m] cs)"

lemma diamond_setattr:
  assumes s: "wf_setattr s" and r: "wf_setattr r" and p: "paints ox (aName r) f" and q: "paints sx (aName s) g"
    and same: "\<And>cs. wash (aName r) f (wash (aName s) (val_at s) cs) = wash (aName s) g (wash (aName r) (val_at r) cs)"
  shows "diamond s (RSetAttr r) n (ox, sx)"
  using paints_setattr [OF s] paints_setattr [OF r] p q same cells_apply_all_Cons [of "Some (RSetAttr s)" "[ox]"]
    cells_apply_all_Cons [of "Some (RSetAttr r)" "[sx]"]
  by (auto simp: diamond_def paints_def)

lemma mergeSetAttr_overlap:
  assumes s: "wf_setattr s" and r: "wf_setattr r" and name: "aName s = aName r"
    and L: "setattr_split s (aOffset r) (aOffset r + vals_count (aBefore r)) = (left, Some l)"
    and R: "setattr_split r (aOffset s) (aOffset s + vals_count (aBefore s)) = (right, Some x)"
  shows "diamond s (RSetAttr r) n (right, rSimplify (RSet [Some (RSetAttr (l\<lparr>aBefore := aAfter x\<rparr>)), left]))"
    "diamond s (RSetAttr r) n (rSimplify (RSet [Some (RSetAttr (x\<lparr>aBefore := aAfter l\<rparr>)), right]), left)"
proof -
  let ?se = "aOffset s + vals_count (aBefore s)" and ?re = "aOffset r + vals_count (aBefore r)"
  have e: "vals_count (aBefore s) = vals_count (aAfter s)" "vals_count (aBefore r) = vals_count (aAfter r)"
    using s r by (simp_all add: wf_setattr_def)
  obtain ps where ps: "left = rset (map RSetAttr ps)" "\<forall>p \<in> set ps. wf_setattr p \<and> aName p = aName s"
    "\<forall>i. vals_of ps i = (if aOffset r \<le> i \<and> i < ?re then None else val_at s i)" using split_some(7) [OF s L] by blast
  obtain qs where qs: "right = rset (map RSetAttr qs)" "\<forall>p \<in> set qs. wf_setattr p \<and> aName p = aName r"
    "\<forall>i. vals_of qs i = (if aOffset s \<le> i \<and> i < ?se then None else val_at r i)" using split_some(7) [OF r R] by blast
  have left: "paints left (aName s) (vals_of ps)" and right: "paints right (aName r) (vals_of qs)"
    using paints_rset [OF ps(2)] paints_rset [OF qs(2)] ps(1) qs(1) by simp_all
  note l = split_some(1-3) [OF s L] and x = split_some(1-3) [OF r R]
  have lp: "paints (Some (RSetAttr (l\<lparr>aBefore := aAfter x\<rparr>))) (aName s) (val_at l)"
    using paints_fitting [of "l\<lparr>aBefore := aAfter x\<rparr>"] l by (simp add: wf_setattr_def)
  have xp: "paints (Some (RSetAttr (x\<lparr>aBefore := aAfter l\<rparr>))) (aName r) (val_at x)"
    using paints_fitting [of "x\<lparr>aBefore := aAfter l\<rparr>"] x by (simp add: wf_setattr_def)
  have "over (val_at s) (vals_of qs) = over (val_at r) (over (val_at l) (vals_of ps))"
    using ps(3) qs(3) l(3) e by (intro ext) (auto simp: over_def val_at_def split: option.split)
  then show "diamond s (RSetAttr r) n (right, rSimplify (RSet [Some (RSetAttr (l\<lparr>aBefore := aAfter x\<rparr>)), left]))"
    using name by (intro diamond_setattr [OF s r right paints_pair(2) [OF lp left]]) (simp add: wash_wash)
  have "over (val_at s) (over (val_at x) (vals_of qs)) = over (val_at r) (vals_of ps)"
    using ps(3) qs(3) x(3) e by (intro ext) (auto simp: over_def val_at_def split: option.split)
  then show "diamond s (RSetAttr r) n (rSimplify (RSet [Some (RSetAttr (x\<lparr>aBefore := aAfter l\<rparr>)), right]), left)"
    using name by (intro diamond_setattr [OF s r paints_pair(2) [OF xp right] left]) (simp add: wash_wash)
qed

lemma mergeSetAttr_diamond:
  assumes s: "wf_setattr s" and r: "wf_setattr r"
  shows "\<exists>m. mergeSetAttr s r b = Some m \<and> diamond s (RSetAttr r) n m"
proof -
  let ?se = "aOffset s + vals_count (aBefore s)" and ?re = "aOffset r + vals_count (aBefore r)"
  have e: "vals_count (aBefore s) = vals_count (aAfter s)" "vals_count (aBefore r) = vals_count (aAfter r)"
    using s r by (simp_all add: wf_setattr_def)
  note plain = diamond_setattr [OF s r paints_setattr [OF r] paints_setattr [OF s], of n]
  obtain left lx where L: "setattr_split s (aOffset r) ?re = (left, lx)" by fastforce
  obtain right rx where R: "setattr_split r (aOffset s) ?se = (right, rx)" by fastforce
  have both: "lx = None \<longleftrightarrow> rx = None" using split_overlap [OF s L] split_overlap [OF r R] e by auto
  consider "aName s \<noteq> aName r" | "aName s = aName r" "lx = None" | l x where "aName s = aName r" "lx = Some l" "rx = Some x"
    using both by (cases lx; cases rx) auto
  then show ?thesis
  proof cases
    case 1
    then show ?thesis using plain wash_commute [of "aName r" "aName s"] by (auto simp: mergeSetAttr_def)
  next
    case 2
    have "over (val_at s) (val_at r) = over (val_at r) (val_at s)"
      using split_none [OF s, of "aOffset r" ?re left] L 2 e by (intro ext) (auto simp: over_def val_at_def split: option.split)
    then show ?thesis using plain L R 2 both by (simp add: mergeSetAttr_def wash_wash)
  next
    case 3
    then show ?thesis using mergeSetAttr_overlap [OF s r 3(1)] L R by (cases b) (simp_all add: mergeSetAttr_def del: rSimplify.simps)
  qed
qed

section \<open>Moves\<close>

definition move_src :: "move \<Rightarrow> int \<Rightarrow> int" where
  "move_src m i = (let k = Normalize m in
     if i < mOffset k \<or> mOffset k + mCount k + mDistance k \<le> i then i
     else if i < mOffset k + mDistance k then i + mCount k else i - mDistance k)"

lemma moved_nth:
  assumes "off + c + d \<le> length cs" "i < length cs"
  shows "(take (off + d) (take off cs @ drop (off + c) cs) @ take c (drop off cs) @ drop (off + d) (take off cs @ drop (off + c) cs)) ! i =
    cs ! (if i < off \<or> off + c + d \<le> i then i else if i < off + d then i + c else i - d)"
proof -
  have q: "take (off + d) (take off cs @ drop (off + c) cs) = take off cs @ take d (drop (off + c) cs)"
    "drop (off + d) (take off cs @ drop (off + c) cs) = drop (off + c + d) cs" using assms(1) by (simp_all add: ac_simps)
  show ?thesis unfolding q using assms by (auto simp: nth_append add.commute)
qed

lemma cells_move_nth:
  assumes "move_in m (int (length cs))" "i < length cs"
  shows "cells_move m cs ! i = cs ! nat (move_src m (int i))" "0 \<le> move_src m (int i)" "move_src m (int i) < int (length cs)"
proof -
  let ?c = "Normalize m"
  have c: "0 \<le> mOffset ?c" "0 \<le> mCount ?c" "0 \<le> mDistance ?c" "mOffset ?c + mCount ?c + mDistance ?c \<le> int (length cs)"
    using Normalize_in [OF assms(1)] by auto
  obtain a b d where abd: "mOffset ?c = int a" "mCount ?c = int b" "mDistance ?c = int d" using c by (metis nat_0_le)
  have "nat (int a + int d) = a + d" "nat (int a + int b) = a + b" by simp_all
  then have "cells_move m cs = take (a + d) (take a cs @ drop (a + b) cs) @ take b (drop a cs) @ drop (a + d) (take a cs @ drop (a + b) cs)"
    unfolding cells_move_def Let_def cells_splice_def abd by simp
  then show "cells_move m cs ! i = cs ! nat (move_src m (int i))"
    using moved_nth [of a b d cs i] c(4) assms(2) unfolding move_src_def Let_def abd
    by (auto simp: nat_add_distrib nat_diff_distrib)
  show "0 \<le> move_src m (int i)" "move_src m (int i) < int (length cs)" using c assms(2) unfolding move_src_def Let_def by auto
qed

lemma wash_move:
  assumes "move_in m (int (length cs))"
  shows "cells_move m (wash name f cs) = wash name (\<lambda>i. f (move_src m i)) (cells_move m cs)"
proof (rule nth_equalityI)
  have m: "move_in m (int (length (wash name f cs)))" using assms by simp
  show "length (cells_move m (wash name f cs)) = length (wash name (\<lambda>i. f (move_src m i)) (cells_move m cs))"
    using cells_move_length [OF assms] cells_move_length [OF m] by simp
  fix i assume "i < length (cells_move m (wash name f cs))"
  then have i: "i < length cs" "i < length (wash name f cs)" using cells_move_length [OF m] by simp_all
  have "nat (move_src m (int i)) < length cs" using cells_move_nth(2,3) [OF assms i(1)] by linarith
  then show "cells_move m (wash name f cs) ! i = wash name (\<lambda>i. f (move_src m i)) (cells_move m cs) ! i"
    using cells_move_nth [OF assms i(1)] cells_move_nth(1) [OF m i(2)] cells_move_length [OF assms] i by simp
qed

definition move_start :: "move \<Rightarrow> int" where
  "move_start m = (if mDistance m < 0 then mOffset m + mDistance m else mOffset m)"

definition move_stop :: "move \<Rightarrow> int" where
  "move_stop m = (if mDistance m < 0 then mOffset m + mCount m else mOffset m + mCount m + mDistance m)"

lemma move_src_simps:
  "move_src m i = (if i < move_start m \<or> move_stop m \<le> i then i
     else if mDistance m < 0 then (if i < mOffset m + mDistance m + mCount m then i - mDistance m else i - mCount m)
     else (if i < mOffset m + mDistance m then i + mCount m else i - mDistance m))"
  by (simp add: move_src_def Normalize_def move_start_def move_stop_def)

lemma move_over:
  assumes "\<And>j. j < move_start m \<or> move_stop m \<le> j \<Longrightarrow> f j = None" "0 \<le> mCount m"
  defines "e \<equiv> if mDistance m > 0 then - mCount m else mCount m"
  shows "over (\<lambda>i. if mOffset m \<le> i - mDistance m \<and> i - mDistance m < mOffset m + mCount m then f (i - mDistance m) else None)
    (\<lambda>i. if mOffset m \<le> i - e \<and> i - e < mOffset m + mCount m then None else f (i - e)) = (\<lambda>i. f (move_src m i))"
proof
  fix i
  consider "mDistance m < 0" | "mDistance m = 0" | "mDistance m > 0" by linarith
  then show "over (\<lambda>i. if mOffset m \<le> i - mDistance m \<and> i - mDistance m < mOffset m + mCount m then f (i - mDistance m) else None)
    (\<lambda>i. if mOffset m \<le> i - e \<and> i - e < mOffset m + mCount m then None else f (i - e)) i = f (move_src m i)"
    using assms(1) [of i] assms(1) [of "i - e"] assms(1) [of "i - mDistance m"] assms(2)
    by cases (auto simp: over_def e_def move_src_simps move_start_def move_stop_def split: option.split if_splits)
qed

lemma paints_shifted:
  assumes "wf_setattr p" "0 \<le> aOffset p + e"
  shows "paints (Some (RSetAttr (p\<lparr>aOffset := aOffset p + e\<rparr>))) (aName p) (\<lambda>i. val_at p (i - e))"
proof -
  have "wf_setattr (p\<lparr>aOffset := aOffset p + e\<rparr>)" using assms by (simp add: wf_setattr_def)
  moreover have "val_at (p\<lparr>aOffset := aOffset p + e\<rparr>) = (\<lambda>i. val_at p (i - e))" by (rule ext) (rule val_at_shift)
  ultimately show ?thesis using paints_setattr [of "p\<lparr>aOffset := aOffset p + e\<rparr>"] by simp
qed

lemma mergeMove_inner:
  assumes s: "wf_setattr s" "vals_count (aAfter s) > 0" and m: "0 \<le> mOffset m" "0 \<le> mCount m" "0 \<le> mOffset m + mDistance m"
    and sub: "move_start m \<le> aOffset s" "aOffset s + vals_count (aAfter s) \<le> move_stop m"
  shows "\<exists>out w outx. setattr_split s (mOffset m) (mOffset m + mCount m) = (out, w) \<and>
    shift_out (if mDistance m > 0 then - mCount m else mCount m) out = Some outx \<and>
    paints (rSimplify (RSet [map_option (\<lambda>w. RSetAttr (w\<lparr>aOffset := aOffset w + mDistance m\<rparr>)) w, outx])) (aName s) (\<lambda>i. val_at s (move_src m i))"
proof -
  let ?d = "if mDistance m > 0 then - mCount m else mCount m" and ?A = "\<lambda>j. mOffset m \<le> j \<and> j < mOffset m + mCount m"
  obtain out w where sp: "setattr_split s (mOffset m) (mOffset m + mCount m) = (out, w)" by fastforce
  have none: "val_at s j = None" if "j < move_start m \<or> move_stop m \<le> j" for j using that sub by (intro val_at_outside) linarith
  let ?wx = "map_option (\<lambda>w. RSetAttr (w\<lparr>aOffset := aOffset w + mDistance m\<rparr>)) w"
  have within: "paints ?wx (aName s) (\<lambda>i. if ?A (i - mDistance m) then val_at s (i - mDistance m) else None)"
  proof (cases w)
    case None
    then have "(\<lambda>i. if ?A (i - mDistance m) then val_at s (i - mDistance m) else None) = (\<lambda>_. None)"
      using split_none [OF s(1), of "mOffset m" "mOffset m + mCount m" out] sp by (intro ext) (auto simp: val_at_def)
    then show ?thesis using None by simp
  next
    case (Some x)
    note x = split_some [OF s(1), of "mOffset m" "mOffset m + mCount m" out x]
    have "0 \<le> aOffset x + mDistance m" using x(4) sp Some m(3) by simp
    then show ?thesis using paints_shifted [OF x(1)] x(2,3) sp Some by simp
  qed
  have "\<exists>outx. shift_out ?d out = Some outx \<and> paints outx (aName s) (\<lambda>i. if ?A (i - ?d) then None else val_at s (i - ?d))"
  proof (cases w)
    case None
    then have n: "out = Some (RSetAttr s)" "aOffset s + vals_count (aAfter s) \<le> mOffset m \<or> mOffset m + mCount m \<le> aOffset s \<or> mCount m = 0"
      using split_none [OF s(1), of "mOffset m" "mOffset m + mCount m" out] sp s(2) m(2) by auto
    have "(\<lambda>i. if ?A (i - ?d) then None else val_at s (i - ?d)) = (\<lambda>i. val_at s (i - ?d))" using n(2) by (intro ext) (auto simp: val_at_def)
    moreover have "0 \<le> aOffset s + ?d" using n(2) s m sub by (auto simp: wf_setattr_def move_start_def)
    ultimately show ?thesis using paints_shifted [OF s(1), of ?d] n(1) by (simp add: shift_out_def)
  next
    case (Some x)
    obtain ps where ps: "out = rset (map RSetAttr ps)" "\<forall>p \<in> set ps. wf_setattr p \<and> aName p = aName s \<and> aOffset s \<le> aOffset p \<and>
       (aOffset p + vals_count (aAfter p) \<le> mOffset m \<or> mOffset m + mCount m \<le> aOffset p) \<and> vals_count (aAfter p) > 0"
       "\<And>i. vals_of ps i = (if ?A i then None else val_at s i)"
       "length ps = (if mOffset m \<le> aOffset s then 0 else 1) + (if aOffset s + vals_count (aAfter s) \<le> mOffset m + mCount m then 0 else 1)"
      using split_some(7) [OF s(1), of "mOffset m" "mOffset m + mCount m" out x] sp Some by blast
    have "length ps \<le> 1" using ps(4) sub by (auto simp: move_start_def move_stop_def split: if_splits)
    then consider "ps = []" | p where "ps = [p]" by (cases ps; cases "tl ps") auto
    then show ?thesis
    proof cases
      case 1
      then show ?thesis using ps(1) ps(3) [symmetric] by (simp add: rset_def shift_out_def)
    next
      case 2
      have "0 \<le> aOffset p + ?d" using ps(2) 2 s m sub by (auto simp: wf_setattr_def move_start_def)
      then show ?thesis using paints_shifted [of p ?d] ps(1,2) ps(3) [symmetric] 2 by (simp add: rset_def shift_out_def over_def)
    qed
  qed
  then obtain outx where o: "shift_out ?d out = Some outx" "paints outx (aName s) (\<lambda>i. if ?A (i - ?d) then None else val_at s (i - ?d))" by blast
  show ?thesis using paints_pair(2) [OF within o(2)] move_over [of m "val_at s", OF none m(2)] sp o(1) by simp
qed

lemma rset_None [simp]: "rset l = None \<longleftrightarrow> l = []"
  by (simp add: rset_def split: list.split)

lemma mergeMove_paints:
  assumes s: "wf_setattr s" and m: "0 \<le> mOffset m" "0 \<le> mCount m" "0 \<le> mOffset m + mDistance m"
  shows "\<exists>sx. mergeMove (Suc (Suc n)) s m = Some (Some (RMove m), sx) \<and> paints sx (aName s) (\<lambda>i. val_at s (move_src m i))"
proof -
  obtain non w where sp: "setattr_split s (move_start m) (move_stop m) = (non, w)" by fastforce
  have inner: "\<exists>sx. mergeMove (Suc k) x m = Some (Some (RMove m), sx) \<and> paints sx (aName x) (\<lambda>i. val_at x (move_src m i))"
    if x: "wf_setattr x" "vals_count (aAfter x) > 0" "move_start m \<le> aOffset x" "aOffset x + vals_count (aAfter x) \<le> move_stop m" for x k
  proof -
    obtain non' w' where sp': "setattr_split x (move_start m) (move_stop m) = (non', w')" by fastforce
    have "w' \<noteq> None" using split_overlap [OF x(1) sp'] x by auto
    then obtain y where y: "w' = Some y" by blast
    have "non' = None" using split_some(7) [OF x(1) sp' [unfolded y]] x(3,4) by auto
    then show ?thesis using mergeMove_inner [OF x(1,2) m x(3,4)] sp' y
      by (auto simp: move_start_def move_stop_def Let_def simp del: rSimplify.simps)
  qed
  show ?thesis
  proof (cases w)
    case None
    have "(\<lambda>i. val_at s (move_src m i)) = val_at s"
      using split_none [OF s, of "move_start m" "move_stop m" non] sp None m(2)
      by (intro ext) (auto simp: val_at_def move_src_simps move_start_def move_stop_def)
    then show ?thesis using paints_setattr [OF s] sp None by (auto simp: move_start_def move_stop_def Let_def)
  next
    case (Some x)
    note x = split_some [OF s sp [unfolded Some]]
    have "vals_count (aAfter x) = vals_count (aBefore x)" using x(1) by (simp add: wf_setattr_def)
    then have bnd: "vals_count (aAfter x) > 0" "move_start m \<le> aOffset x" "aOffset x + vals_count (aAfter x) \<le> move_stop m"
      using x(4-6) by linarith+
    obtain ps where ps: "non = rset (map RSetAttr ps)" "\<forall>p \<in> set ps. wf_setattr p \<and> aName p = aName s"
      "\<And>i. vals_of ps i = (if move_start m \<le> i \<and> i < move_stop m then None else val_at s i)"
      "length ps = (if move_start m \<le> aOffset s then 0 else 1) + (if aOffset s + vals_count (aAfter s) \<le> move_stop m then 0 else 1)"
      using x(7) by blast
    show ?thesis
    proof (cases "ps = []")
      case True
      then have "move_start m \<le> aOffset s" "aOffset s + vals_count (aAfter s) \<le> move_stop m" using ps(4) by (auto split: if_splits)
      moreover have "vals_count (aAfter s) > 0" using x(6) by linarith
      ultimately show ?thesis using inner [OF s] by blast
    next
      case False
      obtain sx where sx: "mergeMove (Suc n) x m = Some (Some (RMove m), sx)" "paints sx (aName s) (\<lambda>i. val_at x (move_src m i))"
        using inner [OF x(1) bnd] x(2) by auto
      have "paints non (aName s) (vals_of ps)" using paints_rset [OF ps(2)] ps(1) by simp
      note pair = paints_pair(1) [OF this sx(2)]
      have "over (vals_of ps) (\<lambda>i. val_at x (move_src m i)) = (\<lambda>i. val_at s (move_src m i))"
        using x(3) ps(3) m(2) by (intro ext) (auto simp: over_def move_src_simps move_start_def move_stop_def split: option.split)
      then show ?thesis using pair sx(1) sp Some ps(1) False
        by (auto simp: mergeMove.simps(2) [of "Suc n"] move_start_def move_stop_def Let_def simp del: mergeMove.simps)
    qed
  qed
qed

lemma mergeMove_diamond:
  assumes "wf_setattr s" "move_in m n"
  shows "\<exists>x. mergeMove 2 s m = Some x \<and> diamond s (RMove m) n x"
proof -
  obtain sx where sx: "mergeMove (Suc (Suc 0)) s m = Some (Some (RMove m), sx)" "paints sx (aName s) (\<lambda>i. val_at s (move_src m i))"
    using mergeMove_paints [OF assms(1)] assms(2) unfolding move_in_def by blast
  have "cells_apply_all [Some (RMove m), sx] cs = wash (aName s) (\<lambda>i. val_at s (move_src m i)) (cells_move m cs)" for cs
    using sx(2) cells_apply_all_Cons [of "Some (RMove m)" "[sx]" cs] by (simp add: paints_def)
  moreover have "fits_all [Some (RMove m), sx] n" using sx(2) assms(2) by (simp add: paints_def)
  moreover have "fits_all [Some (RSetAttr s), Some (RMove m)] n" using assms by (simp add: wf_setattr_def)
  ultimately have "diamond s (RMove m) n (Some (RMove m), sx)" using assms(2) wash_move [of m] by (auto simp: diamond_def)
  then show ?thesis using sx(1) by (simp add: numeral_2_eq_2)
qed

end
