(* ===== verification/Dot_Setattr_Splice.thy ===== *)
theory Dot_Setattr_Splice
  imports Dot_Setattr_Merge
begin

text \<open>
  Merging a \<open>setattr\<close> with a splice, where the splice removes text or does not fall strictly inside the
  range of the \<open>setattr\<close>.
\<close>

section \<open>Splices of cells\<close>

lemma cells_splice_nth:
  assumes "0 \<le> off" "0 \<le> rm" "off + rm \<le> int (length cs)" "i < length (cells_splice off rm new cs)"
  shows "cells_splice off rm new cs ! i = (if int i < off then cs ! i else if int i < off + int (length new) then new ! nat (int i - off)
    else cs ! nat (int i - int (length new) + rm))"
proof -
  obtain a b where ab: "off = int a" "rm = int b" using assms(1,2) by (metis nat_0_le)
  have "nat (int a + int b) = a + b" by simp
  then have e: "cells_splice off rm new cs = take a cs @ new @ drop (a + b) cs" by (simp add: cells_splice_def ab)
  have "nat (int i - int a) = i - a" if "\<not> i < a" using that by simp
  moreover have "nat (int i - int (length new) + int b) = a + b + (i - a - length new)" if "\<not> i < a" "\<not> i < a + length new" using that by simp
  moreover have "a + b \<le> length cs" "i < a + length new + (length cs - (a + b))" using assms(3) assms(4) [unfolded e] unfolding ab by simp_all
  ultimately show ?thesis unfolding e unfolding ab by (auto simp: nth_append)
qed

definition spliced :: "int \<Rightarrow> int \<Rightarrow> int \<Rightarrow> (int \<Rightarrow> 'b) \<Rightarrow> (int \<Rightarrow> 'b) \<Rightarrow> int \<Rightarrow> 'b" where
  "spliced off rm n h f i = (if i < off then f i else if i < off + n then h (i - off) else f (i - n + rm))"

lemma splice_wash:
  assumes "0 \<le> off" "0 \<le> rm" "off + rm \<le> int (length cs)"
  shows "cells_splice off rm (wash name h new) (wash name f cs) = wash name (spliced off rm (int (length new)) h f) (cells_splice off rm new cs)"
proof (rule nth_equalityI)
  have l: "length (cells_splice off rm (wash name h new) (wash name f cs)) = length (cells_splice off rm new cs)" by (simp add: cells_splice_def)
  show "length (cells_splice off rm (wash name h new) (wash name f cs)) = length (wash name (spliced off rm (int (length new)) h f) (cells_splice off rm new cs))"
    using l by simp
  fix i assume "i < length (cells_splice off rm (wash name h new) (wash name f cs))"
  then have i: "i < length (cells_splice off rm new cs)" "i < length (cells_splice off rm (wash name h new) (wash name f cs))" using l by simp_all
  have n: "int (length (cells_splice off rm new cs)) = int (length cs) + int (length new) - rm" using cells_splice_length [OF assms] .
  have "int (nat (int i - off)) = int i - off" "nat (int i - off) < length new" if "\<not> int i < off" "int i < off + int (length new)" using that by linarith+
  moreover have "int (nat (int i - int (length new) + rm)) = int i - int (length new) + rm" "nat (int i - int (length new) + rm) < length cs"
    if "\<not> int i < off + int (length new)" using that i(1) n assms by linarith+
  moreover have "i < length cs" if "int i < off" using that assms by linarith
  ultimately show "cells_splice off rm (wash name h new) (wash name f cs) ! i = wash name (spliced off rm (int (length new)) h f) (cells_splice off rm new cs) ! i"
    using cells_splice_nth [OF assms i(1)] cells_splice_nth [OF assms(1,2) _ i(2)] assms(3) i(1)
    by (simp add: spliced_def)
qed

lemma spliced_cong:
  assumes "\<And>i. i < off \<or> off + rm \<le> i \<Longrightarrow> f i = g i" "0 \<le> n"
  shows "spliced off rm n h f = spliced off rm n h g"
  using assms by (intro ext) (simp add: spliced_def)

section \<open>The parts outside the splice\<close>

definition splice_shift :: "int \<Rightarrow> int \<Rightarrow> int \<Rightarrow> 'a setattr \<Rightarrow> 'a setattr" where
  "splice_shift off rm n s = (if aOffset s \<ge> off then s\<lparr>aOffset := aOffset s + (n - rm)\<rparr> else s)"

definition apart :: "int \<Rightarrow> int \<Rightarrow> 'a setattr \<Rightarrow> bool" where
  "apart off rm s \<longleftrightarrow> vals_count (aAfter s) > 0 \<and> (aOffset s + vals_count (aAfter s) \<le> off \<or> off + rm \<le> aOffset s)"

lemma splice_shift_val:
  assumes "apart off rm s" "0 \<le> rm" "0 \<le> n"
  shows "val_at (splice_shift off rm n s) = spliced off rm n (\<lambda>_. None) (val_at s)"
proof
  fix i
  show "val_at (splice_shift off rm n s) i = spliced off rm n (\<lambda>_. None) (val_at s) i"
  proof (cases "aOffset s \<ge> off")
    case True
    have "val_at (splice_shift off rm n s) i = val_at s (i - n + rm)" using True val_at_shift [of s "n - rm" i] by (simp add: splice_shift_def algebra_simps)
    then show ?thesis using True assms val_at_outside [of i s] val_at_outside [of "i - n + rm" s] by (auto simp: spliced_def apart_def)
  next
    case False
    then show ?thesis using assms val_at_outside [of i s] val_at_outside [of "i - n + rm" s]
      by (auto simp: splice_shift_def spliced_def apart_def)
  qed
qed

lemma splice_shift_wf:
  assumes "wf_setattr s" "apart off rm s" "0 \<le> rm" "0 \<le> n" "0 \<le> off"
  shows "wf_setattr (splice_shift off rm n s)" "aName (splice_shift off rm n s) = aName s"
  using assms by (auto simp: splice_shift_def wf_setattr_def apart_def)

lemma mergeSplice_apart:
  assumes "wf_setattr s" "apart off (text_Count before) s"
  shows "mergeSplice M s off before after =
    Some (Some (RSplice off before after), Some (RSetAttr (splice_shift off (text_Count before) (text_Count after) s)))"
proof -
  obtain non w where sp: "setattr_split s off (off + text_Count before) = (non, w)" by fastforce
  have "w = None" using split_overlap [OF assms(1) sp] assms(2) by (auto simp: apart_def)
  then show ?thesis using sp by (simp add: mergeSplice_def splice_shift_def)
qed

lemma rSimplify_setattrs: "rSimplify (RSet (map (\<lambda>p. Some (RSetAttr p)) ps)) = rset (map RSetAttr ps)"
proof -
  have "rSimplifyAll (map (\<lambda>p. Some (RSetAttr p)) ps) = map RSetAttr ps" by (induction ps) simp_all
  then show ?thesis by simp
qed

lemma rset_ReverseMerge_apart:
  assumes "\<And>p. p \<in> set ps \<Longrightarrow> M (Some c) (Some (RSetAttr p)) = Some (Some (RSetAttr (g p)), Some c)"
  shows "rset_ReverseMerge M (map (\<lambda>p. Some (RSetAttr p)) ps) (Some c) (map (\<lambda>p. Some (RSetAttr p)) acc) =
    Some (Some c, rset (map RSetAttr (acc @ map g ps)))"
  using assms
proof (induction ps arbitrary: acc)
  case Nil
  then show ?case using rSimplify_setattrs [of acc] by simp
next
  case (Cons p ps)
  then show ?case using Cons.IH [of "acc @ [g p]"] by simp
qed

lemma rMerge_apart:
  fixes before after :: "'a rich_text"
  assumes "\<And>p. p \<in> set ps \<Longrightarrow> wf_setattr p \<and> apart off (text_Count before) p"
  shows "rMerge (Suc (Suc n)) (Some (RSplice off before after)) (rset (map RSetAttr ps)) =
    Some (rset (map RSetAttr (map (splice_shift off (text_Count before) (text_Count after)) ps)), Some (RSplice off before after))"
proof -
  let ?c = "RSplice off before after" and ?g = "splice_shift off (text_Count before) (text_Count after) :: 'a setattr \<Rightarrow> _"
  have one: "rMerge (Suc k) (Some ?c) (Some (RSetAttr p)) = Some (Some (RSetAttr (?g p)), Some ?c)" if "p \<in> set ps" for p k
    using assms [OF that] mergeSplice_apart [of p off before _ after] by (simp add: setattr_merge_def)
  consider "ps = []" | p where "ps = [p]" | p q r where "ps = p # q # r" by (metis neq_Nil_conv)
  then show ?thesis
  proof cases
    case 1
    then show ?thesis by (simp add: rset_def)
  next
    case 2
    then show ?thesis using one [of _ "Suc n"] by (simp add: rset_def del: rMerge.simps)
  next
    case 3
    then have "rset (map RSetAttr ps) = Some (RSet (map (\<lambda>p. Some (RSetAttr p)) ps))" by (simp add: rset_def)
    then show ?thesis using rset_ReverseMerge_apart [of ps "rMerge (Suc n)" ?c ?g "[]"] one [of _ n]
      by (simp add: rMerge.simps(2) [of "Suc n"] del: rMerge.simps)
  qed
qed

lemma vals_of_shift:
  assumes "\<And>p. p \<in> set ps \<Longrightarrow> apart off rm p" "0 \<le> rm" "0 \<le> n"
  shows "vals_of (map (splice_shift off rm n) ps) = spliced off rm n (\<lambda>_. None) (vals_of ps)"
  using assms
proof (induction ps)
  case Nil
  show ?case by (rule ext) (simp add: spliced_def)
next
  case (Cons p ps)
  then have "vals_of (map (splice_shift off rm n) (p # ps)) = over (spliced off rm n (\<lambda>_. None) (val_at p)) (spliced off rm n (\<lambda>_. None) (vals_of ps))"
    by (simp add: splice_shift_val)
  then show ?case by (intro ext) (auto simp: over_def spliced_def split: option.split)
qed

section \<open>The diamond\<close>

lemma diamond_splice:
  assumes s: "wf_setattr s" and c: "fits (RSplice off before after) n" and sx: "paints sx (aName s) g" and ox: "fits_all [Some (RSetAttr s), ox] n"
    and same: "\<And>cs. int (length cs) = n \<Longrightarrow>
      cells_apply_all [ox] (wash (aName s) (val_at s) cs) = wash (aName s) g (cells_splice off (text_Count before) (cells after) cs)"
  shows "diamond s (RSplice off before after) n (ox, sx)"
  using sx c ox same cells_apply_all_Cons [of "Some (RSetAttr s)" "[ox]"] cells_apply_all_Cons [of "Some (RSplice off before after)" "[sx]"]
  by (auto simp: diamond_def paints_def)

lemma splice_wash_none:
  assumes "0 \<le> off" "0 \<le> rm" "off + rm \<le> int (length cs)"
  shows "cells_splice off rm new (wash name f cs) = wash name (spliced off rm (int (length new)) (\<lambda>_. None) f) (cells_splice off rm new cs)"
  using splice_wash [OF assms, of name "\<lambda>_. None" new f] by simp

lemma mergeSplice_apart_diamond:
  assumes s: "wf_setattr s" "apart off (text_Count before) s" and c: "fits (RSplice off before after) n"
  shows "diamond s (RSplice off before after) n
    (Some (RSplice off before after), Some (RSetAttr (splice_shift off (text_Count before) (text_Count after) s)))"
proof -
  have c': "0 \<le> off" "off + text_Count before \<le> n" "0 \<le> text_Count before" "text_Count after = int (length (cells after))"
    using c text_ok_Count [of before] text_ok_Count [of after] by simp_all
  let ?s = "splice_shift off (text_Count before) (text_Count after) s"
  have "wf_setattr ?s" "aName ?s = aName s" using splice_shift_wf [OF s c'(3) _ c'(1)] c'(4) by simp_all
  then have p: "paints (Some (RSetAttr ?s)) (aName s) (spliced off (text_Count before) (text_Count after) (\<lambda>_. None) (val_at s))"
    using paints_setattr [of ?s] splice_shift_val [OF s(2) c'(3)] c'(4) by simp
  show ?thesis using c c' s(1) by (intro diamond_splice [OF s(1) c p]) (auto simp: wf_setattr_def splice_wash_none)
qed

lemma mergeSplice_revert_diamond:
  assumes s: "wf_setattr s" and c: "fits (RSplice off before after) n"
    and x: "wf_setattr x" "aName x = aName s" "off \<le> aOffset x" "aOffset x + vals_count (aBefore x) \<le> off + text_Count before"
    and sx: "paints sx (aName s) (spliced off (text_Count before) (text_Count after) (\<lambda>_. None) (val_at s))"
  shows "diamond s (RSplice off before after) n (Some (RSet [Some (RSetAttr (setattr_Revert x)), Some (RSplice off before after)]), sx)"
proof -
  let ?r = "setattr_Revert x" and ?b = "text_Count before"
  have c': "0 \<le> off" "off + ?b \<le> n" "0 \<le> ?b" "text_Count after = int (length (cells after))"
    using c text_ok_Count [of before] text_ok_Count [of after] by simp_all
  have r: "aName ?r = aName s" "0 \<le> aOffset ?r" "wf_vals (aAfter ?r)" using x(1,2) by (simp_all add: setattr_Revert_def wf_setattr_def)
  have "val_at ?r i = None" if "i < off \<or> off + ?b \<le> i" for i
    using that x(3,4) by (intro val_at_outside) (auto simp: setattr_Revert_def)
  then have "spliced off ?b (text_Count after) (\<lambda>_. None) (over (val_at s) (val_at ?r)) = spliced off ?b (text_Count after) (\<lambda>_. None) (val_at s)"
    using c'(4) by (intro spliced_cong) (auto simp: over_def)
  then show ?thesis using c c' r s
    by (intro diamond_splice [OF s c sx]) (auto simp: wash_wash wf_setattr_def splice_wash_none)
qed

lemma mergeSplice_within_diamond:
  assumes s: "wf_setattr s" and c: "fits (RSplice off before after) n" and v: "aAfter x = [(v, k)]"
    and non: "paints nonx (aName s) (spliced off (text_Count before) (text_Count after) (\<lambda>_. None) f)"
    and f: "\<And>i. i < off \<or> off + text_Count before \<le> i \<Longrightarrow> f i = val_at s i"
  shows "\<exists>m. mergeSpliceWithin s x nonx off before after = Some m \<and> diamond s (RSplice off before after) n m"
proof -
  let ?b = "text_Count before" and ?a = "text_Count after"
  have c': "0 \<le> off" "off + ?b \<le> n" "text_ok before" "text_ok after" "?b = int (length (cells before))" "?a = int (length (cells after))"
    using c text_ok_Count [of before] text_ok_Count [of after] by simp_all
  let ?sx = "\<lparr>aOffset = off, aName = aName s, aBefore = sliceAttr after 0 ?a (aName s), aAfter = [(v, ?a)]\<rparr>"
  let ?sb = "\<lparr>aOffset = 0, aName = aName s, aBefore = sliceAttr before 0 ?b (aName s), aAfter = [(v, ?b)]\<rparr>"
  let ?sa = "\<lparr>aOffset = 0, aName = aName s, aBefore = sliceAttr after 0 ?a (aName s), aAfter = [(v, ?a)]\<rparr>"
  obtain b' where b': "applySetAttr ?sb before = Some b'" "text_ok b'" "int (length (cells b')) = ?b"
    using rich_Apply_fits(1) [of before "RSetAttr ?sb"] c'(3,5) by auto
  obtain a' where a': "applySetAttr ?sa after = Some a'" "text_ok a'" "cells a' = wash (aName s) (val_at ?sa) (cells after)"
    using rich_Apply_fits(1) [of after "RSetAttr ?sa"] c'(4,6) by auto
  have b'': "text_Count b' = ?b" using text_ok_Count [OF b'(2)] b'(3) by simp
  have sx: "paints (Some (RSetAttr ?sx)) (aName s) (val_at ?sx)" using paints_fitting [of ?sx] c'(1,6) by simp
  have g: "over (spliced off ?b ?a (\<lambda>_. None) f) (val_at ?sx) = spliced off ?b ?a (val_at ?sa) (val_at s)"
    using f c'(6) by (intro ext) (auto simp: over_def spliced_def val_at_def vals_count_def)
  note pair = paints_pair(2) [OF non sx, unfolded g]
  have "diamond s (RSplice off before after) n (Some (RSplice off b' a'), rSimplify (RSet [nonx, Some (RSetAttr ?sx)]))"
    using c c' s b'(2) a'(2,3) b'' splice_wash [of off ?b _ "aName s" "val_at ?sa" "cells after" "val_at s"]
    by (intro diamond_splice [OF s c pair]) (auto simp: wf_setattr_def)
  then show ?thesis using b'(1) a'(1) v by (simp add: mergeSpliceWithin_def Let_def)
qed

lemma mergeSplice_diamond:
  assumes s: "wf_setattr s" "vals_count (aAfter s) > 0" and c: "fits (RSplice off before after) n"
    and ins: "text_Count before = 0 \<Longrightarrow> off \<le> aOffset s \<or> aOffset s + vals_count (aAfter s) \<le> off"
  shows "\<exists>m. mergeSplice (rMerge (Suc (Suc k))) s off before after = Some m \<and> diamond s (RSplice off before after) n m"
proof -
  let ?b = "text_Count before" and ?a = "text_Count after"
  have c': "0 \<le> ?b" "0 \<le> ?a" using c text_ok_Count [of before] text_ok_Count [of after] by simp_all
  obtain non w where sp: "setattr_split s off (off + ?b) = (non, w)" by fastforce
  show ?thesis
  proof (cases w)
    case None
    then have "apart off ?b s" using split_overlap [OF s(1) sp] s(2) ins c' by (auto simp: apart_def)
    then show ?thesis using mergeSplice_apart [OF s(1)] mergeSplice_apart_diamond [OF s(1) _ c] by blast
  next
    case (Some x)
    note x = split_some [OF s(1) sp [unfolded Some]]
    obtain ps where ps: "non = rset (map RSetAttr ps)" "\<And>p. p \<in> set ps \<Longrightarrow> wf_setattr p \<and> aName p = aName s \<and> apart off ?b p"
      "\<And>i. vals_of ps i = (if off \<le> i \<and> i < off + ?b then None else val_at s i)" using x(7) unfolding apart_def by blast
    let ?nonx = "rset (map RSetAttr (map (splice_shift off ?b ?a) ps))"
    have M: "rMerge (Suc (Suc k)) (Some (RSplice off before after)) non = Some (?nonx, Some (RSplice off before after))"
      unfolding ps(1) using ps(2) by (intro rMerge_apart) blast
    have off: "0 \<le> off" using c by simp
    have "paints ?nonx (aName s) (vals_of (map (splice_shift off ?b ?a) ps))"
      using splice_shift_wf [OF _ _ c' off] ps(2) by (intro paints_rset) auto
    then have nonx: "paints ?nonx (aName s) (spliced off ?b ?a (\<lambda>_. None) (vals_of ps))"
      using vals_of_shift [of ps off ?b ?a, OF _ c'] ps(2) by simp
    have "spliced off ?b ?a (\<lambda>_. None) (vals_of ps) = spliced off ?b ?a (\<lambda>_. None) (val_at s)"
      using ps(3) c'(2) by (intro spliced_cong) auto
    then have nons: "paints ?nonx (aName s) (spliced off ?b ?a (\<lambda>_. None) (val_at s))" using nonx by simp
    show ?thesis
    proof (cases "vals_count (aBefore x) = ?b \<and> length (aAfter x) = 1")
      case True
      then obtain v j where v: "aAfter x = [(v, j)]" by (cases "aAfter x") auto
      have f: "vals_of ps i = val_at s i" if "i < off \<or> off + ?b \<le> i" for i using that ps(3) by auto
      obtain m where "mergeSpliceWithin s x ?nonx off before after = Some m" "diamond s (RSplice off before after) n m"
        using mergeSplice_within_diamond [OF s(1) c v nonx f] by blast
      then show ?thesis using sp Some M True by (simp add: mergeSplice_def del: rMerge.simps)
    next
      case False
      have "off \<le> aOffset x" "aOffset x + vals_count (aBefore x) \<le> off + ?b" using x(4,5) by linarith+
      then show ?thesis using mergeSplice_revert_diamond [OF s(1) c x(1,2) _ _ nons] sp Some M False by (auto simp: mergeSplice_def simp del: rMerge.simps)
    qed
  qed
qed

end
