(* ===== verification/Rich_Properties.thy ===== *)
theory Rich_Properties
  imports Dot_Setattr_Splice
begin

text \<open>
  The properties of rich text: what a \<open>setattr\<close> does, how it merges and how it is undone, stated with
  the operations of \<open>Text\<close>.
\<close>

section \<open>Reading a text\<close>

lemma text_get_loop_cells:
  "wf_text t \<Longrightarrow> text_get_loop i seen t = (if seen \<le> i \<and> i < seen + int (length (cells t)) then Some (snd (cells t ! nat (i - seen))) else None)"
proof (induction t arbitrary: seen)
  case (Cons x t)
  have x: "tSize x = int (length (ulist (tText x)))" using Cons.prems by (simp add: piece_ok_def)
  show ?case
  proof (cases "seen \<le> i \<and> i < seen + tSize x")
    case True
    then have "nat (i - seen) < length (ulist (tText x))" using x by linarith
    then show ?thesis using True x by (simp add: nth_append paint_all_def)
  next
    case False
    then have "nat (i - (seen + tSize x)) = nat (i - seen) - length (ulist (tText x))" "\<not> nat (i - seen) < length (ulist (tText x))" if "seen \<le> i"
      using that x by linarith+
    then show ?thesis using False Cons x by (auto simp: nth_append)
  qed
qed simp

lemma text_get_cells: "wf_text t \<Longrightarrow> text_get t i = (if 0 \<le> i \<and> i < int (length (cells t)) then Some (snd (cells t ! nat i)) else None)"
  using text_get_loop_cells [of t i 0] by (simp add: text_get_def)

lemma cells_fst_PlainText:
  fixes p q :: "'a rich_text"
  shows "map fst (cells p) = map fst (cells q) \<Longrightarrow> PlainText p = PlainText q"
proof -
  have "PlainText t = concat (map (\<lambda>u. case u of None \<Rightarrow> [] | Some b \<Rightarrow> b) (map fst (cells t)))" for t :: "'a rich_text"
    by (simp add: PlainText_cells o_def)
  then show "map fst (cells p) = map fst (cells q) \<Longrightarrow> PlainText p = PlainText q" by metis
qed


text \<open>
  C32. Setting an attribute on a range changes that attribute at the positions of the range, to the
  value given for the position, and nothing else: not the text, not the other positions.
\<close>

theorem rich_setattr_applies:
  assumes "text_ok t" "0 \<le> aOffset c" "wf_vals (aAfter c)"
  shows "\<exists>q. applySetAttr c t = Some q \<and> text_ok q \<and> PlainText q = PlainText t \<and> text_Count q = text_Count t \<and>
    (\<forall>i a. text_get t i = Some a \<longrightarrow> text_get q i =
       Some (if aOffset c \<le> i \<and> i < aOffset c + vals_count (aAfter c) then attrs_set a (aName c) (spread (aAfter c) ! nat (i - aOffset c)) else a))"
proof -
  obtain q where q: "applySetAttr c t = Some q" "text_ok q" "cells q = wash (aName c) (val_at c) (cells t)" "int (length (cells q)) = int (length (cells t))"
    using rich_Apply_fits(1) [of t "RSetAttr c"] assms by auto
  have "PlainText q = PlainText t" using q(3) by (intro cells_fst_PlainText) (simp add: wash_fst)
  moreover have "text_Count q = text_Count t" using q(2,4) assms(1) by (simp add: text_ok_Count)
  moreover have "text_get q i = Some (if aOffset c \<le> i \<and> i < aOffset c + vals_count (aAfter c)
      then attrs_set a (aName c) (spread (aAfter c) ! nat (i - aOffset c)) else a)" if "text_get t i = Some a" for i a
  proof -
    have i: "0 \<le> i" "i < int (length (cells t))" "snd (cells t ! nat i) = a"
      using that assms(1) text_get_cells [of t i] by (auto simp: text_ok_def split: if_splits)
    have "upd_cell (aName c) (val_at c i) (cells t ! nat i) = (fst (cells t ! nat i), if aOffset c \<le> i \<and> i < aOffset c + vals_count (aAfter c)
        then attrs_set a (aName c) (spread (aAfter c) ! nat (i - aOffset c)) else a)"
      using i(3) by (cases "cells t ! nat i") (auto simp: val_at_def)
    then show ?thesis using i q(2,3) text_get_cells [of q i] by (simp add: text_ok_def)
  qed
  ultimately show ?thesis using q(1,2) by blast
qed

definition sample_text :: "nat rich_text" where
  "sample_text = [\<lparr>tText = ''ab'', tAttrs = fmempty, tSize = 2\<rparr>, \<lparr>tText = ''cde'', tAttrs = fmupd ''Bold'' 1 fmempty, tSize = 3\<rparr>]"

definition sample_setattr :: "nat setattr" where
  "sample_setattr = \<lparr>aOffset = 1, aName = ''Bold'', aBefore = [(None, 1), (Some 1, 2)], aAfter = [(Some 2, 3)]\<rparr>"

definition sample_cells :: "nat cell list" where
  "sample_cells = [(Some ''a'', fmempty), (Some ''b'', fmempty), (Some ''c'', fmupd ''Bold'' 1 fmempty), (Some ''d'', fmupd ''Bold'' 1 fmempty),
     (Some ''e'', fmupd ''Bold'' 1 fmempty)]"

lemmas rune_eval = valid_utf8_def runes.simps ulist.simps rune_error_def utf16Count_def

lemma sample_ok: "text_ok sample_text" "wf_setattr sample_setattr"
  by (simp add: text_ok_def sample_text_def piece_ok_def rune_eval) code_simp

lemma sample_cells: "cells sample_text = sample_cells"
  by (simp add: sample_text_def sample_cells_def paint_all_def rune_eval)

theorem rich_setattr_applies_witness:
  "\<exists>q. applySetAttr sample_setattr sample_text = Some q \<and> text_ok q \<and> PlainText q = ''abcde'' \<and> text_get q 4 = text_get sample_text 4"
proof -
  have "PlainText sample_text = ''abcde''" "text_get sample_text 4 = Some (fmupd ''Bold'' 1 fmempty)" "0 \<le> aOffset sample_setattr" "wf_vals (aAfter sample_setattr)"
    "\<not> 4 < aOffset sample_setattr + vals_count (aAfter sample_setattr)" by code_simp+
  then show ?thesis using rich_setattr_applies [OF sample_ok(1), of sample_setattr] by auto
qed

section \<open>Merging\<close>





text \<open>
  An insertion strictly inside the range: \<open>split\<close> sees no overlap with an empty range, the \<open>setattr\<close>
  keeps its length, and the two sides end with different attributes on the last unit.
\<close>

definition sample_insert :: "nat rchange" where
  "sample_insert = RSplice 2 [] [\<lparr>tText = ''x'', tAttrs = fmempty, tSize = 1\<rparr>]"

lemma sample_insert_cells: "fits sample_insert 5" "cells_apply sample_insert = cells_splice 2 0 [(Some ''x'', fmempty)]"
  by (simp_all add: sample_insert_def text_ok_def piece_ok_def paint_all_def text_Count_def fun_eq_iff rune_eval)

lemma text_get_at: "text_ok q \<Longrightarrow> 0 \<le> i \<Longrightarrow> i < int (length (cells q)) \<Longrightarrow> text_get q i = Some (snd (cells q ! nat i))"
  by (simp add: text_get_cells text_ok_def)

theorem insert_inside_setattr_diverges:
  "\<exists>p q. setattr_merge (rMerge 2) sample_setattr (Some sample_insert) False = Some (Some sample_insert, Some (RSetAttr sample_setattr)) \<and>
    rich_ApplyAll [Some (RSetAttr sample_setattr), Some sample_insert] sample_text = Some p \<and>
    rich_ApplyAll [Some sample_insert, Some (RSetAttr sample_setattr)] sample_text = Some q \<and> text_get p 4 \<noteq> text_get q 4"
proof -
  have n: "int (length (cells sample_text)) = 5" by (simp add: sample_cells sample_cells_def)
  have s: "fits (RSetAttr sample_setattr) n" for n using sample_ok(2) by (simp add: wf_setattr_def)
  obtain p where p: "rich_ApplyAll [Some (RSetAttr sample_setattr), Some sample_insert] sample_text = Some p" "text_ok p"
    "cells p = cells_apply sample_insert (cells_apply (RSetAttr sample_setattr) sample_cells)"
    using rich_Apply_fits(2) [OF sample_ok(1), of "[Some (RSetAttr sample_setattr), Some sample_insert]"] n s sample_insert_cells(1) by (auto simp: sample_cells)
  obtain q where q: "rich_ApplyAll [Some sample_insert, Some (RSetAttr sample_setattr)] sample_text = Some q" "text_ok q"
    "cells q = cells_apply (RSetAttr sample_setattr) (cells_apply sample_insert sample_cells)"
    using rich_Apply_fits(2) [OF sample_ok(1), of "[Some sample_insert, Some (RSetAttr sample_setattr)]"] n s sample_insert_cells(1) by (auto simp: sample_cells)
  have "length (cells p) = 6" "length (cells q) = 6" "snd (cells p ! 4) \<noteq> snd (cells q ! 4)"
    unfolding p(3) q(3) sample_insert_cells(2) cells_apply.simps by code_simp+
  then have "text_get p 4 \<noteq> text_get q 4" using text_get_at [OF p(2), of 4] text_get_at [OF q(2), of 4] by simp
  moreover have "setattr_merge (rMerge 2) sample_setattr (Some sample_insert) False = Some (Some sample_insert, Some (RSetAttr sample_setattr))" by code_simp
  ultimately show ?thesis using p(1) q(1) by blast
qed

section \<open>Reverting\<close>





text \<open>
  \<open>Text.SetAttribute\<close> does not record the values when the range begins in a later run: \<open>sliceAttr\<close> never
  advances past the first run, so here the values before are lost and \<open>Revert\<close> leaves the attribute set.
\<close>

theorem SetAttribute_loses_before:
  "aBefore (SetAttribute sample_text 3 2 (''Bold'', 2)) = [] \<and>
   (\<exists>q. rich_ApplyAll [Some (RSetAttr (SetAttribute sample_text 3 2 (''Bold'', 2))),
      Some (RSetAttr (setattr_Revert (SetAttribute sample_text 3 2 (''Bold'', 2))))] sample_text = Some q \<and> text_get q 4 \<noteq> text_get sample_text 4)"
proof -
  let ?s = "SetAttribute sample_text 3 2 (''Bold'', 2)"
  have b: "aBefore ?s = []" by code_simp
  have "fits_all [Some (RSetAttr ?s), Some (RSetAttr (setattr_Revert ?s))] n" for n using b by (simp add: setattr_Revert_def) (simp add: SetAttribute_def)
  then obtain q where q: "rich_ApplyAll [Some (RSetAttr ?s), Some (RSetAttr (setattr_Revert ?s))] sample_text = Some q" "text_ok q"
    "cells q = wash (aName (setattr_Revert ?s)) (val_at (setattr_Revert ?s)) (wash (aName ?s) (val_at ?s) sample_cells)"
    using rich_Apply_fits(2) [OF sample_ok(1), of "[Some (RSetAttr ?s), Some (RSetAttr (setattr_Revert ?s))]"] by (auto simp: sample_cells)
  have "length (cells q) = 5" "snd (cells q ! 4) \<noteq> snd (sample_cells ! 4)" "length sample_cells = 5" unfolding q(3) by code_simp+
  then have "text_get q 4 \<noteq> text_get sample_text 4"
    using text_get_at [OF q(2), of 4] text_get_at [OF sample_ok(1), of 4] by (simp add: sample_cells)
  then show ?thesis using b q(1) by blast
qed

end
