(* ===== verification/Dot_Table.thy ===== *)
theory Dot_Table
  imports Dot_Strict
begin

text \<open>
  Package \<open>changes/table\<close>: a sparse table, with arrays of row and column IDs and a map from pairs of IDs
  to values. The arrays and the map are values of the model, so their changes are applied by \<open>Apply\<close>.

  A Go value of any type is a \<open>changes.Value\<close> or a plain one, which stands for itself as a map key.
  A value that is looked up in a map has to be plain here. A method returns the new table and the change,
  or panics (\<open>None\<close>).
\<close>

section \<open>The table\<close>

datatype iface = IVal val | IKey key

record sparse =
  RowIDs :: "val option list"
  ColIDs :: "val option list"
  cellData :: "(key, val) fmap"

definition toValue :: "iface \<Rightarrow> val" where
  "toValue v = (case v of IVal x \<Rightarrow> x | IKey k \<Rightarrow> VAtomic k)"

definition toValues :: "iface list \<Rightarrow> val option list" where
  "toValues vs = map (Some \<circ> toValue) vs"

definition fromValue :: "val option \<Rightarrow> iface option \<times> bool" where
  "fromValue v = (case v of None \<Rightarrow> (None, False) | Some (VAtomic k) \<Rightarrow> (Some (IKey k), True) | Some x \<Rightarrow> (Some (IVal x), True))"

text \<open>The type assertions on what Apply returns.\<close>

definition as_A :: "val \<Rightarrow> val option list option" where
  "as_A v = (case v of VColl (CA a) \<Rightarrow> Some a | _ \<Rightarrow> None)"

definition as_M :: "val \<Rightarrow> (key, val) fmap option" where
  "as_M v = (case v of VM m \<Rightarrow> Some m | _ \<Rightarrow> None)"

definition SpliceRows :: "sparse \<Rightarrow> int \<Rightarrow> int \<Rightarrow> iface list \<Rightarrow> (sparse \<times> change option) option" where
  "SpliceRows s offset remove ids = do {
     before \<leftarrow> A_Slice (RowIDs s) offset remove;
     let c = Splice \<lparr>sOffset = offset, sBefore = CA before, sAfter = CA (toValues ids)\<rparr>;
     v \<leftarrow> Apply (VA (RowIDs s)) (Some c);
     a \<leftarrow> as_A v;
     Some (s\<lparr>RowIDs := a\<rparr>, Some (PathChange [KStr ''RowIDs''] (Some c))) }"

definition SpliceCols :: "sparse \<Rightarrow> int \<Rightarrow> int \<Rightarrow> iface list \<Rightarrow> (sparse \<times> change option) option" where
  "SpliceCols s offset remove ids = do {
     before \<leftarrow> A_Slice (ColIDs s) offset remove;
     let c = Splice \<lparr>sOffset = offset, sBefore = CA before, sAfter = CA (toValues ids)\<rparr>;
     v \<leftarrow> Apply (VA (ColIDs s)) (Some c);
     a \<leftarrow> as_A v;
     Some (s\<lparr>ColIDs := a\<rparr>, Some (PathChange [KStr ''ColIDs''] (Some c))) }"

definition Cell :: "sparse \<Rightarrow> key \<Rightarrow> key \<Rightarrow> iface option \<times> bool" where
  "Cell s row col = fromValue (fmlookup (cellData s) (KPair row col))"

definition UpdateCell :: "sparse \<Rightarrow> key \<Rightarrow> key \<Rightarrow> iface \<Rightarrow> (sparse \<times> change option) option" where
  "UpdateCell s row col v = (let
     key = KPair row col;
     before = (case fmlookup (cellData s) key of Some b \<Rightarrow> b | None \<Rightarrow> VNil);
     c = Replace \<lparr>rBefore = before, rAfter = toValue v\<rparr> in do {
     w \<leftarrow> Apply (VM (cellData s)) (Some (PathChange [key] (Some c)));
     m \<leftarrow> as_M w;
     Some (s\<lparr>cellData := m\<rparr>, Some (PathChange [KStr ''Data'', key] (Some c))) })"

definition RemoveCell :: "sparse \<Rightarrow> key \<Rightarrow> key \<Rightarrow> (sparse \<times> change option) option" where
  "RemoveCell s row col = (let key = KPair row col in
     case fmlookup (cellData s) key of
       None \<Rightarrow> Some (s, None)
     | Some before \<Rightarrow> (let c = Replace \<lparr>rBefore = before, rAfter = VNil\<rparr> in do {
         w \<leftarrow> Apply (VM (cellData s)) (Some (PathChange [key] (Some c)));
         m \<leftarrow> as_M w;
         Some (s\<lparr>cellData := m\<rparr>, Some (PathChange [KStr ''Data'', key] (Some c))) }))"

section \<open>Garbage collection\<close>

type_synonym key_fun = "iface option \<Rightarrow> key option"

text \<open>Without a key function an ID is its own key; a nil one or a \<open>Value\<close> is none of the model.\<close>

definition own_key :: key_fun where
  "own_key x = (case x of Some (IKey k) \<Rightarrow> Some k | _ \<Rightarrow> None)"

text \<open>The loop of \<open>forEachRow\<close> and \<open>forEachCol\<close>: the IDs whose key was not seen before, in order.\<close>

fun forEach :: "key_fun \<Rightarrow> key list \<Rightarrow> val option list \<Rightarrow> iface option list option" where
  "forEach f seen [] = Some []"
| "forEach f seen (x # xs) = do {
     let r = fst (fromValue x);
     k \<leftarrow> f r;
     (if k \<in> set seen then forEach f seen xs
      else do { rs \<leftarrow> forEach f (k # seen) xs; Some (r # rs) }) }"

definition forEachRow :: "sparse \<Rightarrow> key_fun \<Rightarrow> iface option list option" where
  "forEachRow s f = forEach f [] (RowIDs s)"

definition forEachCol :: "sparse \<Rightarrow> key_fun \<Rightarrow> iface option list option" where
  "forEachCol s f = forEach f [] (ColIDs s)"

definition gc_add :: "(key, val) fmap \<Rightarrow> key \<Rightarrow> (key, val) fmap \<Rightarrow> (key, val) fmap" where
  "gc_add src key d = (case fmlookup src key of Some v \<Rightarrow> fmupd key v d | None \<Rightarrow> d)"

fun gc_cols :: "(key, val) fmap \<Rightarrow> key_fun \<Rightarrow> key \<Rightarrow> iface option list \<Rightarrow> (key, val) fmap \<Rightarrow> (key, val) fmap option" where
  "gc_cols src colKey rk [] d = Some d"
| "gc_cols src colKey rk (c # cs) d = do { ck \<leftarrow> colKey c; gc_cols src colKey rk cs (gc_add src (KPair rk ck) d) }"

text \<open>The columns are enumerated again for every row.\<close>

fun gc_rows :: "sparse \<Rightarrow> key_fun \<Rightarrow> key_fun \<Rightarrow> iface option list \<Rightarrow> (key, val) fmap \<Rightarrow> (key, val) fmap option" where
  "gc_rows s rowKey colKey [] d = Some d"
| "gc_rows s rowKey colKey (r # rs) d = do {
     cols \<leftarrow> forEachCol s colKey;
     rk \<leftarrow> rowKey r;
     d \<leftarrow> gc_cols (cellData s) colKey rk cols d;
     gc_rows s rowKey colKey rs d }"

definition gc_deletes :: "key list \<Rightarrow> (key, val) fmap \<Rightarrow> (key, val) fmap \<Rightarrow> change option list" where
  "gc_deletes order src d = map (\<lambda>k. Some (PathChange [k] (Some (Replace \<lparr>rBefore = the (fmlookup src k), rAfter = VNil\<rparr>))))
     (filter (\<lambda>k. fmlookup src k \<noteq> None \<and> fmlookup d k = None) order)"

declare forEachRow_def [simp] forEachCol_def [simp]

text \<open>\<open>order\<close> is the order in which Go iterates over the map.\<close>

definition GC :: "key list \<Rightarrow> sparse \<Rightarrow> key_fun option \<Rightarrow> key_fun option \<Rightarrow> (sparse \<times> change option) option" where
  "GC order s rowKey colKey = (let
     rowKey = (case rowKey of None \<Rightarrow> own_key | Some f \<Rightarrow> f);
     colKey = (case colKey of None \<Rightarrow> own_key | Some f \<Rightarrow> f) in do {
     rows \<leftarrow> forEachRow s rowKey;
     d \<leftarrow> gc_rows s rowKey colKey rows fmempty;
     let c = gc_deletes order (cellData s) d;
     (if c = [] then Some (s, None)
      else Some (s\<lparr>cellData := d\<rparr>, Some (PathChange [KStr ''Data''] (Some (ChangeSet c))))) })"

section \<open>Apply\<close>

text \<open>\<open>Sparse.Apply\<close> at a non-empty path, with \<open>p\<close> the rest of the path.\<close>

definition sparse_field :: "sparse \<Rightarrow> key \<Rightarrow> key list \<Rightarrow> change option \<Rightarrow> sparse option" where
  "sparse_field s k p c = (case k of
     KStr field \<Rightarrow>
       (if field = ''RowIDs'' then do { v \<leftarrow> Apply (VA (RowIDs s)) (Some (PathChange p c)); a \<leftarrow> as_A v; Some (s\<lparr>RowIDs := a\<rparr>) }
        else if field = ''ColIDs'' then do { v \<leftarrow> Apply (VA (ColIDs s)) (Some (PathChange p c)); a \<leftarrow> as_A v; Some (s\<lparr>ColIDs := a\<rparr>) }
        else if field = ''Data'' then do { v \<leftarrow> Apply (VM (cellData s)) (Some (PathChange p c)); m \<leftarrow> as_M v; Some (s\<lparr>cellData := m\<rparr>) }
        else Some s)
   | _ \<Rightarrow> None)"

text \<open>
  A Replace, Splice or Move is not \<open>Custom\<close> and panics; an Update is for containers; a Run applies its
  change at integer keys, which are no fields.
\<close>

function sparse_apply :: "change \<Rightarrow> sparse \<Rightarrow> sparse option" where
  "sparse_apply (Replace r) s = None"
| "sparse_apply (Splice x) s = None"
| "sparse_apply (Move m) s = None"
| "sparse_apply (Update k b a) s = None"
| "sparse_apply (ChangeSet cs) s = foldM (\<lambda>s c. case c of None \<Rightarrow> Some s | Some c \<Rightarrow> sparse_apply c s) s cs"
| "sparse_apply (PathChange p c) s = (case p of
     [] \<Rightarrow> (case c of None \<Rightarrow> Some s | Some c \<Rightarrow> sparse_apply c s)
   | k # p \<Rightarrow> sparse_field s k p c)"
| "sparse_apply (Meta d c) s = (case c of None \<Rightarrow> Some s | Some c \<Rightarrow> sparse_apply c s)"
| "sparse_apply (Run off n c) s = foldM (\<lambda>s k. sparse_field s k [] c) s (run_keys off n)"
  by pat_completeness auto
termination
  by (relation "measure (\<lambda>(c, v). size c)") (auto dest: size_change_mem)

definition Sparse_Apply :: "sparse \<Rightarrow> change option \<Rightarrow> sparse option" where
  "Sparse_Apply s c = (case c of None \<Rightarrow> Some s | Some c \<Rightarrow> sparse_apply c s)"

end
