(* ===== verification/Dot_Heap.thy ===== *)
theory Dot_Heap
  imports Dot_Values "HOL-Library.Product_Lexorder" "HOL-Library.Multiset"
begin

text \<open>
  \<open>sort.Slice\<close> of the standard library and package \<open>x/heap\<close>, a map from keys to ranks that is
  iterated by descending rank. Random numbers are arguments, as is the order in which Go
  iterates over a map.
\<close>

section \<open>Sorting\<close>

text \<open>
  \<open>sort.Slice\<close> as insertion sort. It is applied to elements that the comparison tells apart, where
  every sorting algorithm returns the same; a comparison that panics makes it panic.
\<close>

fun sort_insert :: "('k \<Rightarrow> 'k \<Rightarrow> bool option) \<Rightarrow> 'k \<Rightarrow> 'k list \<Rightarrow> 'k list option" where
  "sort_insert lt x [] = Some [x]"
| "sort_insert lt x (y # ys) = do {
     b \<leftarrow> lt y x;
     (if b then map_option ((#) y) (sort_insert lt x ys) else Some (x # y # ys)) }"

fun sort_Slice :: "('k \<Rightarrow> 'k \<Rightarrow> bool option) \<Rightarrow> 'k list \<Rightarrow> 'k list option" where
  "sort_Slice lt [] = Some []"
| "sort_Slice lt (x # xs) = sort_Slice lt xs \<bind> sort_insert lt x"

lemma sort_insert_key:
  fixes f :: "'k \<Rightarrow> 'o::linorder"
  assumes "\<And>a b. a \<in> insert x (set ys) \<Longrightarrow> b \<in> insert x (set ys) \<Longrightarrow> lt a b = Some (f a < f b)"
  shows "sort_insert lt x ys = Some (insort_key f x ys)"
  using assms by (induction ys) auto

lemma sort_Slice_key:
  fixes f :: "'k \<Rightarrow> 'o::linorder"
  assumes "\<And>a b. a \<in> set xs \<Longrightarrow> b \<in> set xs \<Longrightarrow> lt a b = Some (f a < f b)"
  shows "sort_Slice lt xs = Some (sort_key f xs)"
  using assms
proof (induction xs)
  case (Cons x xs)
  then show ?case using sort_insert_key [of x "sort_key f xs" lt f] by simp
qed simp

text \<open>With different keys the result does not depend on the order of the input.\<close>

lemma sort_key_unique:
  fixes f :: "'k \<Rightarrow> 'o::linorder"
  assumes "distinct xs" "distinct ys" "set xs = set ys" "inj_on f (set xs)"
  shows "sort_key f xs = sort_key f ys"
proof -
  have "mset xs = mset (sort_key f ys)" using assms(1-3) by (simp add: set_eq_iff_mset_eq_distinct)
  then show ?thesis using sort_key_inj_key_eq [of xs "sort_key f ys" f] assms(4) by simp
qed

section \<open>The heap\<close>

record entry =
  Key1 :: int
  Key2 :: int
  entryRank :: int

type_synonym heap = "(key, entry) fmap"

text \<open>A Replace at the path of one key, with \<open>None\<close> for Nil, or a change set.\<close>

datatype hchange = HReplaceAt key "entry option" "entry option" | HSet "hchange option list"

definition heap_get :: "heap \<Rightarrow> key \<Rightarrow> entry option" where
  "heap_get h k = fmlookup h k"

definition heap_set :: "heap \<Rightarrow> key \<Rightarrow> entry option \<Rightarrow> heap" where
  "heap_set h k v = (let clone = fmdrop k h in case v of None \<Rightarrow> clone | Some e \<Rightarrow> fmupd k e clone)"

text \<open>Nil accepts the creation of a value only and panics otherwise, an Atomic accepts anything else.\<close>

fun heap_apply :: "hchange \<Rightarrow> heap \<Rightarrow> heap option" and heap_apply_all :: "hchange option list \<Rightarrow> heap \<Rightarrow> heap option" where
  "heap_apply (HReplaceAt k before after) h =
     (if (heap_get h k = None) \<longleftrightarrow> (before = None \<and> after \<noteq> None) then Some (heap_set h k after) else None)"
| "heap_apply (HSet cs) h = heap_apply_all cs h"
| "heap_apply_all [] h = Some h"
| "heap_apply_all (None # cs) h = heap_apply_all cs h"
| "heap_apply_all (Some c # cs) h = heap_apply c h \<bind> heap_apply_all cs"

definition heap_Apply :: "heap \<Rightarrow> hchange option \<Rightarrow> heap option" where
  "heap_Apply h c = (case c of None \<Rightarrow> Some h | Some c \<Rightarrow> heap_apply c h)"

definition UpdateChange :: "int \<Rightarrow> int \<Rightarrow> heap \<Rightarrow> key \<Rightarrow> int \<Rightarrow> hchange option" where
  "UpdateChange rand1 rand2 h k rank =
     (if (case fmlookup h k of Some e \<Rightarrow> entryRank e = rank | None \<Rightarrow> False) then None
      else Some (HReplaceAt k (heap_get h k) (Some \<lparr>Key1 = rand1, Key2 = rand2, entryRank = rank\<rparr>)))"

definition DeleteChange :: "heap \<Rightarrow> key \<Rightarrow> hchange option" where
  "DeleteChange h k = (if fmlookup h k = None then None else Some (HReplaceAt k (heap_get h k) None))"

definition heap_Update :: "int \<Rightarrow> int \<Rightarrow> heap \<Rightarrow> key \<Rightarrow> int \<Rightarrow> heap option" where
  "heap_Update rand1 rand2 h k rank = heap_Apply h (UpdateChange rand1 rand2 h k rank)"

definition heap_Delete :: "heap \<Rightarrow> key \<Rightarrow> heap option" where
  "heap_Delete h k = heap_Apply h (DeleteChange h k)"

definition entry_less :: "entry \<Rightarrow> entry \<Rightarrow> bool" where
  "entry_less v1 v2 \<longleftrightarrow>
     (if entryRank v1 \<noteq> entryRank v2 then entryRank v1 < entryRank v2
      else if Key1 v1 \<noteq> Key1 v2 then Key1 v1 < Key1 v2
      else Key2 v1 < Key2 v2)"

text \<open>The function passed to Iterate works on a state and says whether to go on.\<close>

fun iterate_loop :: "(key \<Rightarrow> int \<Rightarrow> 's \<Rightarrow> bool \<times> 's) \<Rightarrow> heap \<Rightarrow> key list \<Rightarrow> 's \<Rightarrow> 's" where
  "iterate_loop fn h [] s = s"
| "iterate_loop fn h (k # ks) s = (case fn k (entryRank (the (fmlookup h k))) s of
     (True, s) \<Rightarrow> iterate_loop fn h ks s
   | (False, s) \<Rightarrow> s)"

definition heap_keys :: "key list \<Rightarrow> heap \<Rightarrow> key list option" where
  "heap_keys order h = sort_Slice (\<lambda>i j. Some (entry_less (the (fmlookup h j)) (the (fmlookup h i)))) order"

definition Iterate :: "key list \<Rightarrow> heap \<Rightarrow> (key \<Rightarrow> int \<Rightarrow> 's \<Rightarrow> bool \<times> 's) \<Rightarrow> 's \<Rightarrow> 's option" where
  "Iterate order h fn s = map_option (\<lambda>keys. iterate_loop fn h keys s) (heap_keys order h)"

section \<open>What a heap does\<close>

lemma heap_set_lookup [simp]: "fmlookup (heap_set h k v) l = (if l = k then v else fmlookup h l)"
  by (cases v) (auto simp: heap_set_def)

lemma heap_Update_lookup:
  "\<exists>g. heap_Update r1 r2 h k rank = Some g \<and> map_option entryRank (fmlookup g k) = Some rank \<and> (\<forall>l. l \<noteq> k \<longrightarrow> fmlookup g l = fmlookup h l)"
  by (cases "fmlookup h k") (auto simp: heap_Update_def UpdateChange_def heap_Apply_def heap_get_def)

lemma heap_Delete_lookup: "\<exists>g. heap_Delete h k = Some g \<and> (\<forall>l. fmlookup g l = (if l = k then None else fmlookup h l))"
  by (cases "fmlookup h k") (auto simp: heap_Delete_def DeleteChange_def heap_Apply_def heap_get_def)

definition sort_pos :: "heap \<Rightarrow> key \<Rightarrow> int \<times> int \<times> int" where
  "sort_pos h k = (let e = the (fmlookup h k) in (- entryRank e, - Key1 e, - Key2 e))"

definition told_apart :: "heap \<Rightarrow> bool" where
  "told_apart h \<longleftrightarrow> (\<forall>k l a b. fmlookup h k = Some a \<longrightarrow> fmlookup h l = Some b \<longrightarrow> k \<noteq> l \<longrightarrow> a \<noteq> b)"

definition map_order :: "heap \<Rightarrow> key list \<Rightarrow> bool" where
  "map_order h order \<longleftrightarrow> distinct order \<and> set order = fset (fmdom h)"

lemma heap_keys_sorted: "heap_keys order h = Some (sort_key (sort_pos h) order)"
  unfolding heap_keys_def by (rule sort_Slice_key) (auto simp: entry_less_def sort_pos_def Let_def)

lemma sort_pos_inj: "told_apart h \<Longrightarrow> inj_on (sort_pos h) (fset (fmdom h))"
proof (rule inj_onI)
  fix k l assume a: "told_apart h" "k \<in> fset (fmdom h)" "l \<in> fset (fmdom h)" "sort_pos h k = sort_pos h l"
  then obtain x y where "fmlookup h k = Some x" "fmlookup h l = Some y" by (meson fmlookup_dom_iff)
  moreover then have "x = y" using a(4) by (auto simp: sort_pos_def Let_def intro: entry.equality)
  ultimately show "k = l" using a(1) by (auto simp: told_apart_def)
qed

lemma heap_keys_descending:
  assumes "map_order h order"
  shows "\<exists>ks. heap_keys order h = Some ks \<and> distinct ks \<and> set ks = fset (fmdom h) \<and>
    sorted_wrt (\<lambda>k l. entryRank (the (fmlookup h k)) \<ge> entryRank (the (fmlookup h l))) ks"
proof -
  let ?ks = "sort_key (sort_pos h) order"
  have "sorted_wrt (\<lambda>k l. sort_pos h k \<le> sort_pos h l) ?ks" using sorted_sort_key [of "sort_pos h" order] by (simp add: sorted_map)
  then have "sorted_wrt (\<lambda>k l. entryRank (the (fmlookup h k)) \<ge> entryRank (the (fmlookup h l))) ?ks"
    by (rule sorted_wrt_mono_rel [rotated]) (auto simp: sort_pos_def Let_def)
  then show ?thesis using assms heap_keys_sorted [of order h] by (simp add: map_order_def)
qed

lemma heap_keys_any_order:
  assumes "told_apart h" "map_order h order" "map_order h order'"
  shows "heap_keys order h = heap_keys order' h"
  using sort_key_unique [of order order' "sort_pos h"] sort_pos_inj [OF assms(1)] assms(2,3) by (simp add: heap_keys_sorted map_order_def)

text \<open>Iterate hands the keys on in order, until the function says stop.\<close>

lemma iterate_collects:
  "iterate_loop (\<lambda>k r acc. (length acc < n, acc @ [(k, r)])) h ks acc =
     acc @ map (\<lambda>k. (k, entryRank (the (fmlookup h k)))) (take (Suc n - length acc) ks)" if "length acc \<le> n"
  using that
proof (induction ks arbitrary: acc)
  case (Cons k ks)
  show ?case
  proof (cases "length acc < n")
    case True
    then have "Suc n - length acc = Suc (Suc n - Suc (length acc))" by simp
    then show ?thesis using Cons.IH [of "acc @ [(k, entryRank (the (fmlookup h k)))]"] True by simp
  next
    case False
    then have "length acc = n" using Cons.prems by simp
    then show ?thesis by simp
  qed
qed simp

end
