(* ===== verification/Dot_Data.thy ===== *)
theory Dot_Data
  imports Dot_Heap Dot_Ord
begin

text \<open>
  The tables of package \<open>x/rich/data\<close>: columns and rows in maps, ordered by ordered keys. The methods of a
  table return changes for it. The value of a cell or of a column is rich text, of any type \<open>'v\<close> here; the
  changes meant for it are of a type \<open>'c\<close>, applied by an argument.
\<close>

section \<open>Values and changes\<close>

record 'v col =
  colID :: key
  colOrd :: string
  colValue :: 'v

record 'v row =
  rowID :: key
  rowOrd :: string
  rowCells :: "(key, 'v) fmap"

type_synonym 'v cols = "(key, 'v col) fmap"
type_synonym 'v rows = "(key, 'v row) fmap"

record 'v table =
  Cols :: "'v cols"
  Rows :: "'v rows"

text \<open>The values that a path into a table leads to.\<close>

datatype 'v data =
    DNil
  | DTable "'v table"
  | DCols "'v cols"
  | DRows "'v rows"
  | DCol "'v col"
  | DRow "'v row"
  | DS16 string
  | DCells "(key, 'v) fmap"
  | DText 'v

datatype ('v, 'c) dchange = DReplace "'v data" "'v data" | DInner 'c | DPath "key list" "('v, 'c) dchange"

text \<open>\<open>get\<close> and \<open>set\<close> of each type; a failing type assertion panics.\<close>

definition col_get :: "'v col \<Rightarrow> key \<Rightarrow> 'v data" where
  "col_get c k = (if k = KStr ''Ord'' then DS16 (colOrd c) else DText (colValue c))"

definition col_set :: "'v col \<Rightarrow> key \<Rightarrow> 'v data \<Rightarrow> 'v col option" where
  "col_set c k v =
     (if k = KStr ''Ord'' then (case v of DS16 s \<Rightarrow> Some (c\<lparr>colOrd := s\<rparr>) | _ \<Rightarrow> None)
      else (case v of DText x \<Rightarrow> Some (c\<lparr>colValue := x\<rparr>) | _ \<Rightarrow> None))"

definition cols_get :: "'v cols \<Rightarrow> key \<Rightarrow> 'v data" where
  "cols_get m k = (case fmlookup m k of Some c \<Rightarrow> DCol c | None \<Rightarrow> DNil)"

definition cols_set :: "'v cols \<Rightarrow> key \<Rightarrow> 'v data \<Rightarrow> 'v cols option" where
  "cols_set m k v = (let clone = fmdrop k m in case v of DNil \<Rightarrow> Some clone | DCol c \<Rightarrow> Some (fmupd k c clone) | _ \<Rightarrow> None)"

definition row_get :: "'v row \<Rightarrow> key \<Rightarrow> 'v data" where
  "row_get r k = (if k = KStr ''Ord'' then DS16 (rowOrd r) else DCells (rowCells r))"

definition row_set :: "'v row \<Rightarrow> key \<Rightarrow> 'v data \<Rightarrow> 'v row option" where
  "row_set r k v =
     (if k = KStr ''Ord'' then (case v of DS16 s \<Rightarrow> Some (r\<lparr>rowOrd := s\<rparr>) | _ \<Rightarrow> None)
      else (case v of DCells m \<Rightarrow> Some (r\<lparr>rowCells := m\<rparr>) | _ \<Rightarrow> None))"

definition rows_get :: "'v rows \<Rightarrow> key \<Rightarrow> 'v data" where
  "rows_get m k = (case fmlookup m k of Some r \<Rightarrow> DRow r | None \<Rightarrow> DNil)"

definition rows_set :: "'v rows \<Rightarrow> key \<Rightarrow> 'v data \<Rightarrow> 'v rows option" where
  "rows_set m k v = (let clone = fmdrop k m in case v of DNil \<Rightarrow> Some clone | DRow r \<Rightarrow> Some (fmupd k r clone) | _ \<Rightarrow> None)"

definition table_get :: "'v table \<Rightarrow> key \<Rightarrow> 'v data" where
  "table_get t k = (if k = KStr ''Cols'' then DCols (Cols t) else DRows (Rows t))"

definition table_set :: "'v table \<Rightarrow> key \<Rightarrow> 'v data \<Rightarrow> 'v table option" where
  "table_set t k v =
     (if k = KStr ''Cols'' then (case v of DCols m \<Rightarrow> Some (t\<lparr>Cols := m\<rparr>) | _ \<Rightarrow> None)
      else (case v of DRows m \<Rightarrow> Some (t\<lparr>Rows := m\<rparr>) | _ \<Rightarrow> None))"

text \<open>The cells of a row are a map of package \<open>types\<close>.\<close>

fun data_get :: "'v data \<Rightarrow> key \<Rightarrow> 'v data option" where
  "data_get (DTable t) k = Some (table_get t k)"
| "data_get (DCols m) k = Some (cols_get m k)"
| "data_get (DRows m) k = Some (rows_get m k)"
| "data_get (DCol c) k = Some (col_get c k)"
| "data_get (DRow r) k = Some (row_get r k)"
| "data_get (DCells m) k = Some (case fmlookup m k of Some v \<Rightarrow> DText v | None \<Rightarrow> DNil)"
| "data_get _ k = None"

fun data_set :: "'v data \<Rightarrow> key \<Rightarrow> 'v data \<Rightarrow> 'v data option" where
  "data_set (DTable t) k v = map_option DTable (table_set t k v)"
| "data_set (DCols m) k v = map_option DCols (cols_set m k v)"
| "data_set (DRows m) k v = map_option DRows (rows_set m k v)"
| "data_set (DCol c) k v = map_option DCol (col_set c k v)"
| "data_set (DRow r) k v = map_option DRow (row_set r k v)"
| "data_set (DCells m) k v = (let clone = fmdrop k m in case v of DNil \<Rightarrow> Some (DCells clone) | DText x \<Rightarrow> Some (DCells (fmupd k x clone)) | _ \<Rightarrow> None)"
| "data_set _ k v = None"

lemmas data_defs = table_get_def table_set_def cols_get_def cols_set_def rows_get_def rows_set_def col_get_def col_set_def row_get_def row_set_def

declare data_defs [simp]

fun data_path :: "('v data \<Rightarrow> 'v data option) \<Rightarrow> key list \<Rightarrow> 'v data \<Rightarrow> 'v data option" where
  "data_path f [] v = f v"
| "data_path f (k # p) v = do {
     x \<leftarrow> data_get v k;
     y \<leftarrow> data_path f p x;
     data_set v k y }"

text \<open>\<open>Apply\<close>: Nil accepts the creation of a value only.\<close>

fun data_Apply :: "('c \<Rightarrow> 'v \<Rightarrow> 'v option) \<Rightarrow> ('v, 'c) dchange \<Rightarrow> 'v data \<Rightarrow> 'v data option" where
  "data_Apply inner (DReplace before after) v =
     (if v = DNil then (if before = DNil \<and> after \<noteq> DNil then Some after else None)
      else Some (if before \<noteq> DNil \<and> after = DNil then DNil else after))"
| "data_Apply inner (DInner c) v = (case v of DText x \<Rightarrow> map_option DText (inner c x) | _ \<Rightarrow> None)"
| "data_Apply inner (DPath p c) v = data_path (data_Apply inner c) p v"

definition table_Apply :: "('c \<Rightarrow> 'v \<Rightarrow> 'v option) \<Rightarrow> 'v table \<Rightarrow> ('v, 'c) dchange option \<Rightarrow> 'v table option" where
  "table_Apply inner t c = (case c of
     None \<Rightarrow> Some t
   | Some c \<Rightarrow> (case data_Apply inner c (DTable t) of Some (DTable u) \<Rightarrow> Some u | _ \<Rightarrow> None))"

section \<open>Columns\<close>

text \<open>\<open>order\<close> is the order in which Go iterates over the map.\<close>

definition table_ColIDs :: "key list \<Rightarrow> 'v table \<Rightarrow> key list option" where
  "table_ColIDs order t = sort_Slice (\<lambda>i j. LessOrd (colOrd (the (fmlookup (Cols t) i))) (colOrd (the (fmlookup (Cols t) j)))) order"

definition UpdateCol :: "key \<Rightarrow> 'c \<Rightarrow> ('v, 'c) dchange" where
  "UpdateCol cid c = DPath [KStr ''Cols'', cid, KStr ''Value''] (DInner c)"

definition insertOrReorderCol :: "'v table \<Rightarrow> 'v col \<Rightarrow> ('v, 'c) dchange" where
  "insertOrReorderCol t col = (case fmlookup (Cols t) (colID col) of
     Some before \<Rightarrow> DPath [KStr ''Cols'', colID col, KStr ''Ord''] (DReplace (DS16 (colOrd before)) (DS16 (colOrd col)))
   | None \<Rightarrow> DPath [KStr ''Cols'', colID col] (DReplace DNil (DCol col)))"

definition AppendCol :: "key list \<Rightarrow> 'v table \<Rightarrow> 'v col \<Rightarrow> ('v, 'c) dchange option option" where
  "AppendCol order t col = do {
     k \<leftarrow> (if Cols t = fmempty then Some ''''
          else do { ids \<leftarrow> table_ColIDs order t; NextOrd (colOrd (the (fmlookup (Cols t) (last ids)))) });
     Some (Some (insertOrReorderCol t (col\<lparr>colOrd := k\<rparr>))) }"

definition InsertColBefore :: "key list \<Rightarrow> 'v table \<Rightarrow> 'v col \<Rightarrow> 'v col \<Rightarrow> ('v, 'c) dchange option option" where
  "InsertColBefore order t col beforeCol = do {
     ids \<leftarrow> table_ColIDs order t;
     (case find (\<lambda>kk. ids ! kk = colID beforeCol) [0..<length ids] of
        None \<Rightarrow> Some None
      | Some kk \<Rightarrow> do {
          k \<leftarrow> (if kk = 0 then PrevOrd (colOrd (the (fmlookup (Cols t) (ids ! 0))))
               else map_option hd (BetweenOrd (colOrd (the (fmlookup (Cols t) (ids ! (kk - 1))))) (colOrd (the (fmlookup (Cols t) (ids ! kk)))) 1));
          Some (Some (insertOrReorderCol t (col\<lparr>colOrd := k\<rparr>))) }) }"

definition DeleteCol :: "'v table \<Rightarrow> key \<Rightarrow> ('v, 'c) dchange option" where
  "DeleteCol t cid = map_option (\<lambda>col. DPath [KStr ''Cols'', cid] (DReplace (DCol col) DNil)) (fmlookup (Cols t) cid)"

section \<open>Rows and cells\<close>

definition table_RowIDs :: "key list \<Rightarrow> 'v table \<Rightarrow> key list option" where
  "table_RowIDs order t = sort_Slice (\<lambda>i j. LessOrd (rowOrd (the (fmlookup (Rows t) i))) (rowOrd (the (fmlookup (Rows t) j)))) order"

definition UpdateCellValue :: "key \<Rightarrow> key \<Rightarrow> 'c \<Rightarrow> ('v, 'c) dchange" where
  "UpdateCellValue row col c = DPath [KStr ''Rows'', row, KStr ''Cells'', col] (DInner c)"

text \<open>A row that is not there is a nil pointer.\<close>

definition SetCellValue :: "'v table \<Rightarrow> key \<Rightarrow> key \<Rightarrow> 'v \<Rightarrow> ('v, 'c) dchange option" where
  "SetCellValue t rid col r = do {
     row \<leftarrow> fmlookup (Rows t) rid;
     let before = (case fmlookup (rowCells row) col of Some v \<Rightarrow> DText v | None \<Rightarrow> DNil);
     Some (DPath [KStr ''Rows'', rid, KStr ''Cells'', col] (DReplace before (DText r))) }"

definition insertOrReorderRow :: "'v table \<Rightarrow> 'v row \<Rightarrow> ('v, 'c) dchange" where
  "insertOrReorderRow t row = (case fmlookup (Rows t) (rowID row) of
     Some before \<Rightarrow> DPath [KStr ''Rows'', rowID row, KStr ''Ord''] (DReplace (DS16 (rowOrd before)) (DS16 (rowOrd row)))
   | None \<Rightarrow> DPath [KStr ''Rows'', rowID row] (DReplace DNil (DRow row)))"

definition AppendRow :: "key list \<Rightarrow> 'v table \<Rightarrow> 'v row \<Rightarrow> ('v, 'c) dchange option option" where
  "AppendRow order t row = do {
     k \<leftarrow> (if Rows t = fmempty then Some ''''
          else do { ids \<leftarrow> table_RowIDs order t; NextOrd (rowOrd (the (fmlookup (Rows t) (last ids)))) });
     Some (Some (insertOrReorderRow t (row\<lparr>rowOrd := k\<rparr>))) }"

definition InsertRowBefore :: "key list \<Rightarrow> 'v table \<Rightarrow> 'v row \<Rightarrow> 'v row \<Rightarrow> ('v, 'c) dchange option option" where
  "InsertRowBefore order t row beforeRow = do {
     ids \<leftarrow> table_RowIDs order t;
     (case find (\<lambda>kk. ids ! kk = rowID beforeRow) [0..<length ids] of
        None \<Rightarrow> Some None
      | Some kk \<Rightarrow> do {
          k \<leftarrow> (if kk = 0 then PrevOrd (rowOrd (the (fmlookup (Rows t) (ids ! 0))))
               else map_option hd (BetweenOrd (rowOrd (the (fmlookup (Rows t) (ids ! (kk - 1))))) (rowOrd (the (fmlookup (Rows t) (ids ! kk)))) 1));
          Some (Some (insertOrReorderRow t (row\<lparr>rowOrd := k\<rparr>))) }) }"

definition DeleteRow :: "'v table \<Rightarrow> key \<Rightarrow> ('v, 'c) dchange option" where
  "DeleteRow t cid = map_option (\<lambda>r. DPath [KStr ''Rows'', cid] (DReplace (DRow r) DNil)) (fmlookup (Rows t) cid)"

end
