(* ===== verification/Dot_Data_Laws.thy ===== *)
theory Dot_Data_Laws
  imports Dot_Data
begin

text \<open>
  What appending and inserting does to the order of columns and rows. The two axes of a table have the
  same operations: the locale \<open>ordered_axis\<close> states them once, and is interpreted on columns and on rows.
\<close>

section \<open>Items with ordered keys\<close>

definition ord_val :: "('i \<Rightarrow> string) \<Rightarrow> (key, 'i) fmap \<Rightarrow> key \<Rightarrow> rat" where
  "ord_val ordk m k = the (fromString (ordk (the (fmlookup m k))))"

definition order_of :: "(key, 'i) fmap \<Rightarrow> key list \<Rightarrow> bool" where
  "order_of m order \<longleftrightarrow> distinct order \<and> set order = fset (fmdom m)"

text \<open>All keys can be read, and no two are equal.\<close>

definition ords_ok :: "('i \<Rightarrow> string) \<Rightarrow> (key, 'i) fmap \<Rightarrow> bool" where
  "ords_ok ordk m \<longleftrightarrow> (\<forall>k x. fmlookup m k = Some x \<longrightarrow> fromString (ordk x) \<noteq> None) \<and> inj_on (ord_val ordk m) (fset (fmdom m))"

lemma ord_val_at: "ords_ok ordk m \<Longrightarrow> k \<in> fset (fmdom m) \<Longrightarrow> fromString (ordk (the (fmlookup m k))) = Some (ord_val ordk m k)"
  by (auto simp: ords_ok_def ord_val_def fmlookup_dom_iff)

lemma sorted_by_ord:
  assumes "ords_ok ordk m" "order_of m order"
  shows "sort_Slice (\<lambda>i j. LessOrd (ordk (the (fmlookup m i))) (ordk (the (fmlookup m j)))) order = Some (sort_key (ord_val ordk m) order)"
  using assms ord_val_at [OF assms(1)] by (intro sort_Slice_key) (simp add: order_of_def LessOrd_def ord_less_def)

lemma sort_key_is:
  fixes f :: "'k \<Rightarrow> 'o::linorder"
  assumes "distinct xs" "set zs = set xs" "sorted_wrt (\<lambda>a b. f a < f b) zs"
  shows "sort_key f xs = zs"
proof -
  have s: "sorted (map f zs)" "distinct (map f zs)"
    using assms(3) by (induction zs) (auto simp: less_imp_le)
  then have "mset xs = mset zs" using assms(1,2) by (simp add: set_eq_iff_mset_eq_distinct [symmetric] distinct_map)
  then show ?thesis using s assms(2) sort_key_inj_key_eq [of xs zs f] by (simp add: distinct_map)
qed

lemma sorted_strict:
  fixes f :: "'k \<Rightarrow> 'o::linorder"
  assumes "distinct xs" "inj_on f (set xs)"
  shows "sorted_wrt (\<lambda>a b. f a < f b) (sort_key f xs)"
proof -
  have "sorted (map f (sort_key f xs))" "distinct (map f (sort_key f xs))" using assms by (simp_all add: distinct_map)
  then have "sorted_wrt (<) (map f (sort_key f xs))" by (simp add: strict_sorted_iff)
  then show ?thesis by (simp add: sorted_wrt_map)
qed

lemma NextOrd_after:
  assumes "fromString a = Some q"
  shows "\<exists>k. NextOrd a = Some k \<and> fromString k = Some (ord_next q) \<and> q < ord_next q"
  using assms by (simp add: NextOrd_def fromString_toString ord_next_prev)

lemma PrevOrd_before:
  assumes "fromString a = Some q"
  shows "\<exists>k. PrevOrd a = Some k \<and> fromString k = Some (ord_prev q) \<and> ord_prev q < q"
  using assms by (simp add: PrevOrd_def fromString_toString ord_next_prev)

lemma BetweenOrd_one:
  assumes "fromString a = Some p" "fromString b = Some q" "p < q"
  shows "\<exists>k r. map_option hd (BetweenOrd a b 1) = Some k \<and> fromString k = Some r \<and> p < r \<and> r < q"
proof -
  let ?d = "\<bar>p - q\<bar> * (1 / 2 ^ 1)"
  have d: "dyadic (p + ?d)" using dyadic_diff_scaled [of p q 1] dyadic_add fromString_dyadic assms(1,2) by blast
  have "map_option hd (BetweenOrd a b 1) = Some (toString (p + ?d))"
    using assms by (simp add: BetweenOrd_def ord_less_def ord_between_def one_add_one)
  moreover have "p < p + ?d" "p + ?d < q" using assms(3) by (simp_all add: field_simps)
  ultimately show ?thesis using fromString_toString [OF d] by blast
qed

lemma find_skip: "(\<And>x. x \<in> set xs \<Longrightarrow> \<not> P x) \<Longrightarrow> find P (xs @ ys) = find P ys"
  by (induction xs) auto

lemma find_at:
  assumes "distinct (xs @ b # ys)"
  shows "find (\<lambda>kk. (xs @ b # ys) ! kk = b) [0..<length (xs @ b # ys)] = Some (length xs)"
proof -
  have "[0..<length (xs @ b # ys)] = [0..<length xs] @ length xs # [Suc (length xs)..<length (xs @ b # ys)]"
    using upt_add_eq_append [of 0 "length xs" "Suc (length ys)"] upt_conv_Cons [of "length xs" "length xs + Suc (length ys)"] by simp
  moreover have "\<not> (xs @ b # ys) ! kk = b" if "kk \<in> set [0..<length xs]" for kk using that assms by (auto simp: nth_append)
  ultimately show ?thesis using find_skip [of "[0..<length xs]" "\<lambda>kk. (xs @ b # ys) ! kk = b"] by simp
qed

section \<open>An axis of a table\<close>

locale ordered_axis =
  fixes items :: "'t \<Rightarrow> (key, 'i) fmap" and ordk :: "'i \<Rightarrow> string" and set_ordk :: "string \<Rightarrow> 'i \<Rightarrow> 'i" and idk :: "'i \<Rightarrow> key"
    and IDs :: "key list \<Rightarrow> 't \<Rightarrow> key list option" and place :: "'t \<Rightarrow> 'i \<Rightarrow> 'c" and app :: "'t \<Rightarrow> 'c option \<Rightarrow> 't option" and other :: "'t \<Rightarrow> 'r"
    and append_item :: "key list \<Rightarrow> 't \<Rightarrow> 'i \<Rightarrow> 'c option option" and insert_item :: "key list \<Rightarrow> 't \<Rightarrow> 'i \<Rightarrow> 'i \<Rightarrow> 'c option option"
  assumes set_ordk: "ordk (set_ordk k x) = k" "idk (set_ordk k x) = idk x"
    and IDs_law: "IDs order t = sort_Slice (\<lambda>i j. LessOrd (ordk (the (fmlookup (items t) i))) (ordk (the (fmlookup (items t) j)))) order"
    and place_law: "\<exists>u. app t (Some (place t x)) = Some u \<and> other u = other t \<and>
      items u = fmupd (idk x) (case fmlookup (items t) (idk x) of None \<Rightarrow> x | Some y \<Rightarrow> set_ordk (ordk x) y) (items t)"
    and append_law: "append_item order t x = do {
      k \<leftarrow> (if items t = fmempty then Some '''' else do { ids \<leftarrow> IDs order t; NextOrd (ordk (the (fmlookup (items t) (last ids)))) });
      Some (Some (place t (set_ordk k x))) }"
    and insert_law: "insert_item order t x y = do {
      ids \<leftarrow> IDs order t;
      (case find (\<lambda>kk. ids ! kk = idk y) [0..<length ids] of
         None \<Rightarrow> Some None
       | Some kk \<Rightarrow> do {
           k \<leftarrow> (if kk = 0 then PrevOrd (ordk (the (fmlookup (items t) (ids ! 0))))
                else map_option hd (BetweenOrd (ordk (the (fmlookup (items t) (ids ! (kk - 1))))) (ordk (the (fmlookup (items t) (ids ! kk)))) 1));
           Some (Some (place t (set_ordk k x))) }) }"
begin

lemma IDs_sorted:
  assumes "ords_ok ordk (items t)" "order_of (items t) order"
  shows "\<exists>ids. IDs order t = Some ids \<and> distinct ids \<and> set ids = fset (fmdom (items t)) \<and>
    sorted_wrt (\<lambda>a b. ord_val ordk (items t) a < ord_val ordk (items t) b) ids"
  using sorted_by_ord [OF assms] sorted_strict [of order "ord_val ordk (items t)"] assms by (simp add: IDs_law order_of_def ords_ok_def)

text \<open>An item that gets the value \<open>q\<close> stands where \<open>q\<close> belongs.\<close>

lemma placed:
  assumes "ords_ok ordk (items t)" "fromString k = Some q" "set zs = insert (idk x) (fset (fmdom (items t)))"
    and "sorted_wrt (\<lambda>a b. (if a = idk x then q else ord_val ordk (items t) a) < (if b = idk x then q else ord_val ordk (items t) b)) zs"
  shows "\<exists>u. app t (Some (place t (set_ordk k x))) = Some u \<and> other u = other t \<and> ords_ok ordk (items u) \<and>
    (\<forall>order. order_of (items u) order \<longrightarrow> IDs order u = Some zs)"
proof -
  let ?x = "set_ordk k x" and ?f = "\<lambda>a. if a = idk x then q else ord_val ordk (items t) a"
  obtain u where u: "app t (Some (place t ?x)) = Some u" "other u = other t"
    "items u = fmupd (idk x) (case fmlookup (items t) (idk x) of None \<Rightarrow> ?x | Some y \<Rightarrow> set_ordk k y) (items t)"
    using place_law [of t ?x] unfolding set_ordk by blast
  have val: "ord_val ordk (items u) a = ?f a" for a
    using assms(2) by (auto simp: u(3) ord_val_def set_ordk split: option.split)
  have dom: "fset (fmdom (items u)) = set zs" using assms(3) u(3) by simp
  have "distinct (map ?f zs)" using assms(4) by (induction zs) auto
  then have ok: "ords_ok ordk (items u)"
    using assms(1,2) val dom unfolding ords_ok_def distinct_map by (auto simp: u(3) set_ordk inj_on_def split: option.splits if_splits)
  have "IDs order u = Some zs" if "order_of (items u) order" for order
    using sorted_by_ord [OF ok that] sort_key_is [of order zs "ord_val ordk (items u)"] that assms(4) val dom
    by (simp add: IDs_law order_of_def)
  then show ?thesis using u(1,2) ok by blast
qed

lemma append_last:
  assumes ok: "ords_ok ordk (items t)" "order_of (items t) order" and ids: "IDs order t = Some ids"
  shows "\<exists>c u. append_item order t x = Some (Some c) \<and> app t (Some c) = Some u \<and> other u = other t \<and> ords_ok ordk (items u) \<and>
    (\<forall>order. order_of (items u) order \<longrightarrow> IDs order u = Some (filter (\<lambda>k. k \<noteq> idk x) ids @ [idk x]))"
proof -
  let ?v = "ord_val ordk (items t)" and ?zs = "filter (\<lambda>k. k \<noteq> idk x) ids @ [idk x]"
  have i: "set ids = fset (fmdom (items t))" "sorted_wrt (\<lambda>a b. ?v a < ?v b) ids" using IDs_sorted [OF ok] ids by auto
  have "\<exists>k q. (if items t = fmempty then Some '''' else NextOrd (ordk (the (fmlookup (items t) (last ids))))) = Some k \<and> fromString k = Some q \<and> (\<forall>a \<in> set ids. ?v a < q)"
  proof (cases "items t = fmempty")
    case True
    then show ?thesis using i(1) by (auto simp: fromString_def)
  next
    case False
    then have "fmdom (items t) \<noteq> {||}" by (metis fmrestrict_fset_dom fmrestrict_fset_null)
    then have "ids \<noteq> []" using i(1) by auto
    then obtain xs l where l: "ids = xs @ [l]" using rev_exhaust by blast
    then obtain k where k: "NextOrd (ordk (the (fmlookup (items t) l))) = Some k" "fromString k = Some (ord_next (?v l))" "?v l < ord_next (?v l)"
      using NextOrd_after [OF ord_val_at [OF ok(1), of l]] i(1) by auto
    have "?v a < ord_next (?v l)" if "a \<in> set ids" for a
      using that i(2) k(3) unfolding l by (auto simp: sorted_wrt_append intro: less_trans)
    then show ?thesis using False k(1,2) l by auto
  qed
  then obtain k q where k: "(if items t = fmempty then Some '''' else NextOrd (ordk (the (fmlookup (items t) (last ids))))) = Some k"
    "fromString k = Some q" "\<forall>a \<in> set ids. ?v a < q" by blast
  have a: "append_item order t x = Some (Some (place t (set_ordk k x)))" using k(1) ids by (auto simp: append_law split: if_splits)
  have z: "set ?zs = insert (idk x) (fset (fmdom (items t)))" using i(1) by auto
  have "sorted_wrt (\<lambda>a b. ?v a < ?v b) (filter (\<lambda>k. k \<noteq> idk x) ids)" by (rule sorted_wrt_filter [OF i(2)])
  then have "sorted_wrt (\<lambda>a b. (if a = idk x then q else ?v a) < (if b = idk x then q else ?v b)) (filter (\<lambda>k. k \<noteq> idk x) ids)"
    by (rule sorted_wrt_mono_rel [rotated]) auto
  then have "sorted_wrt (\<lambda>a b. (if a = idk x then q else ?v a) < (if b = idk x then q else ?v b)) ?zs"
    using k(3) by (auto simp: sorted_wrt_append)
  from placed [OF ok(1) k(2) z this] show ?thesis using a by blast
qed

lemma insert_placed:
  assumes ok: "ords_ok ordk (items t)" "order_of (items t) order" and ids: "IDs order t = Some (xs @ idk y # ys)" and ne: "idk x \<noteq> idk y"
  shows "\<exists>c u. insert_item order t x y = Some (Some c) \<and> app t (Some c) = Some u \<and> other u = other t \<and> ords_ok ordk (items u) \<and>
    (\<forall>order. order_of (items u) order \<longrightarrow>
       IDs order u = Some (filter (\<lambda>k. k \<noteq> idk x) xs @ idk x # idk y # filter (\<lambda>k. k \<noteq> idk x) ys))"
proof -
  let ?v = "ord_val ordk (items t)" and ?ids = "xs @ idk y # ys" and ?F = "filter (\<lambda>k. k \<noteq> idk x)"
  let ?zs = "?F xs @ idk x # idk y # ?F ys"
  have i: "distinct ?ids" "set ?ids = fset (fmdom (items t))" "sorted_wrt (\<lambda>a b. ?v a < ?v b) ?ids" using IDs_sorted [OF ok] ids by auto
  have read: "fromString (ordk (the (fmlookup (items t) a))) = Some (?v a)" if "a \<in> set ?ids" for a using ord_val_at [OF ok(1)] i(2) that by blast
  have "\<exists>k q. (if length xs = 0 then PrevOrd (ordk (the (fmlookup (items t) (?ids ! 0))))
      else map_option hd (BetweenOrd (ordk (the (fmlookup (items t) (?ids ! (length xs - 1))))) (ordk (the (fmlookup (items t) (?ids ! length xs)))) 1)) = Some k
      \<and> fromString k = Some q \<and> q < ?v (idk y) \<and> (\<forall>a \<in> set xs. ?v a < q)"
  proof (cases xs rule: rev_cases)
    case Nil
    then show ?thesis using PrevOrd_before [OF read [of "idk y"]] by auto
  next
    case (snoc xs' l)
    have "?v l < ?v (idk y)" using i(3) snoc by (simp add: sorted_wrt_append)
    then obtain k r where k: "map_option hd (BetweenOrd (ordk (the (fmlookup (items t) l))) (ordk (the (fmlookup (items t) (idk y)))) 1) = Some k"
        "fromString k = Some r" "?v l < r" "r < ?v (idk y)"
      using BetweenOrd_one [OF read [of l] read [of "idk y"]] snoc by auto
    have "?v a < r" if "a \<in> set xs" for a using that i(3) k(3) unfolding snoc by (auto simp: sorted_wrt_append intro: less_trans)
    then show ?thesis using k snoc by (auto simp: nth_append)
  qed
  then obtain k q where k: "(if length xs = 0 then PrevOrd (ordk (the (fmlookup (items t) (?ids ! 0))))
      else map_option hd (BetweenOrd (ordk (the (fmlookup (items t) (?ids ! (length xs - 1))))) (ordk (the (fmlookup (items t) (?ids ! length xs)))) 1)) = Some k"
    "fromString k = Some q" "q < ?v (idk y)" "\<forall>a \<in> set xs. ?v a < q" by blast
  have a: "insert_item order t x y = Some (Some (place t (set_ordk k x)))" using k(1) ids find_at [OF i(1)] by (simp add: insert_law)
  have z: "set ?zs = insert (idk x) (fset (fmdom (items t)))" using i(2) by auto
  have "?F ?ids = ?F xs @ idk y # ?F ys" using ne by auto
  then have "sorted_wrt (\<lambda>a b. ?v a < ?v b) (?F xs @ idk y # ?F ys)" using sorted_wrt_filter [OF i(3), of "\<lambda>k. k \<noteq> idk x"] by metis
  then have s: "sorted_wrt (\<lambda>a b. (if a = idk x then q else ?v a) < (if b = idk x then q else ?v b)) (?F xs @ idk y # ?F ys)"
    by (rule sorted_wrt_mono_rel [rotated]) (use ne in auto)
  have "q < ?v b" if "b \<in> set (idk y # ys)" for b using that k(3) i(3) by (auto simp: sorted_wrt_append intro: less_trans)
  then have "sorted_wrt (\<lambda>a b. (if a = idk x then q else ?v a) < (if b = idk x then q else ?v b)) ?zs"
    using s k(4) ne by (auto simp: sorted_wrt_append)
  from placed [OF ok(1) k(2) z this] show ?thesis using a by blast
qed

end

section \<open>Columns and rows\<close>

interpretation cols: ordered_axis Cols colOrd "\<lambda>s c. c\<lparr>colOrd := s\<rparr>" colID table_ColIDs insertOrReorderCol "table_Apply inner" Rows AppendCol InsertColBefore
  for inner
proof unfold_locales
  fix t and x :: "'a col"
  show "\<exists>u. table_Apply inner t (Some (insertOrReorderCol t x)) = Some u \<and> Rows u = Rows t \<and>
      Cols u = fmupd (colID x) (case fmlookup (Cols t) (colID x) of None \<Rightarrow> x | Some y \<Rightarrow> y\<lparr>colOrd := colOrd x\<rparr>) (Cols t)"
    by (cases "fmlookup (Cols t) (colID x)") (auto simp: table_Apply_def insertOrReorderCol_def Let_def intro!: fmap_ext)
qed (simp_all add: table_ColIDs_def AppendCol_def InsertColBefore_def)

interpretation rows: ordered_axis Rows rowOrd "\<lambda>s c. c\<lparr>rowOrd := s\<rparr>" rowID table_RowIDs insertOrReorderRow "table_Apply inner" Cols AppendRow InsertRowBefore
  for inner
proof unfold_locales
  fix t and x :: "'a row"
  show "\<exists>u. table_Apply inner t (Some (insertOrReorderRow t x)) = Some u \<and> Cols u = Cols t \<and>
      Rows u = fmupd (rowID x) (case fmlookup (Rows t) (rowID x) of None \<Rightarrow> x | Some y \<Rightarrow> y\<lparr>rowOrd := rowOrd x\<rparr>) (Rows t)"
    by (cases "fmlookup (Rows t) (rowID x)") (auto simp: table_Apply_def insertOrReorderRow_def Let_def intro!: fmap_ext)
qed (simp_all add: table_RowIDs_def AppendRow_def InsertRowBefore_def)

lemma DeleteRow_applied:
  "fmlookup (Rows t) rid = Some r \<Longrightarrow> table_Apply inner t (DeleteRow t rid) = Some (t\<lparr>Rows := fmdrop rid (Rows t)\<rparr>)"
  by (simp add: DeleteRow_def table_Apply_def)

lemma DeleteCol_applied:
  "fmlookup (Cols t) cid = Some c \<Longrightarrow> table_Apply inner t (DeleteCol t cid) = Some (t\<lparr>Cols := fmdrop cid (Cols t)\<rparr>)"
  by (simp add: DeleteCol_def table_Apply_def)

lemma fmupd_fmdrop [simp]: "fmupd k v (fmdrop k m) = fmupd k v m"
  by (intro fmap_ext) auto

lemma SetCellValue_applied:
  assumes "fmlookup (Rows t) rid = Some r"
  shows "\<exists>c. SetCellValue t rid cid v = Some c \<and>
    table_Apply inner t (Some c) = Some (t\<lparr>Rows := fmupd rid (r\<lparr>rowCells := fmupd cid v (rowCells r)\<rparr>) (Rows t)\<rparr>)"
  using assms by (cases "fmlookup (rowCells r) cid") (simp_all add: SetCellValue_def table_Apply_def)

end
