(* ===== verification/Table_Properties.thy ===== *)
theory Table_Properties
  imports Dot_Table Dot_Data_Laws
begin

text \<open>
  The properties of the other collections: sparse tables (package \<open>changes/table\<close>), heaps (\<open>x/heap\<close>) and the
  tables of rich text (\<open>x/rich/data\<close>).

  For sparse tables, each operation returns a change that leads from the old table to
  the new one, and garbage collection removes the cells that no row and column names, and no others.
\<close>

section \<open>Rows, columns and cells\<close>

definition no_nil :: "sparse \<Rightarrow> bool" where
  "no_nil s \<longleftrightarrow> (\<forall>k. fmlookup (cellData s) k \<noteq> Some VNil)"





lemma apply_Replace_stored: "v \<noteq> VNil \<Longrightarrow> apply_Replace \<lparr>rBefore = v, rAfter = w\<rparr> v = Some w"
  by (cases v) (auto simp: IsCreate_def IsDelete_def)




section \<open>Garbage collection\<close>

definition live_keys :: "key_fun \<Rightarrow> val option list \<Rightarrow> key set" where
  "live_keys f xs = {k. \<exists>x \<in> set xs. f (fst (fromValue x)) = Some k}"

definition keyed :: "key_fun \<Rightarrow> val option list \<Rightarrow> bool" where
  "keyed f xs \<longleftrightarrow> (\<forall>x \<in> set xs. f (fst (fromValue x)) \<noteq> None)"

lemma forEach_live:
  assumes "keyed f xs"
  shows "\<exists>rs. forEach f seen xs = Some rs \<and> {k. \<exists>r \<in> set rs. f r = Some k} = live_keys f xs - set seen \<and> (\<forall>r \<in> set rs. f r \<noteq> None)"
  using assms
proof (induction xs arbitrary: seen)
  case (Cons x xs)
  obtain k where k: "f (fst (fromValue x)) = Some k" using Cons.prems by (auto simp: keyed_def)
  have "keyed f xs" using Cons.prems by (simp add: keyed_def)
  note IH = Cons.IH [OF this]
  have live: "live_keys f (x # xs) = insert k (live_keys f xs)" using k by (auto simp: live_keys_def)
  show ?case
  proof (cases "k \<in> set seen")
    case True
    then show ?thesis using IH [of seen] k live by auto
  next
    case False
    obtain rs where rs: "forEach f (k # seen) xs = Some rs" "{k. \<exists>r \<in> set rs. f r = Some k} = live_keys f xs - set (k # seen)" "\<forall>r \<in> set rs. f r \<noteq> None"
      using IH [of "k # seen"] by blast
    have "{j. \<exists>r \<in> set (fst (fromValue x) # rs). f r = Some j} = insert k {j. \<exists>r \<in> set rs. f r = Some j}" using k by auto
    also have "\<dots> = live_keys f (x # xs) - set seen" using rs(2) live False by auto
    finally show ?thesis using rs(1,3) k False by simp
  qed
qed (simp add: live_keys_def)

text \<open>The copy holds what the original has at the keys that were visited.\<close>

definition restricts :: "(key, val) fmap \<Rightarrow> key set \<Rightarrow> (key, val) fmap \<Rightarrow> bool" where
  "restricts src K d \<longleftrightarrow> (\<forall>k. fmlookup d k = (if k \<in> K then fmlookup src k else None))"

lemma gc_cols_live:
  assumes "\<forall>c \<in> set cs. f c \<noteq> None" "restricts src K d"
  shows "\<exists>e. gc_cols src f rk cs d = Some e \<and> restricts src (K \<union> {KPair rk k | k. \<exists>c \<in> set cs. f c = Some k}) e"
  using assms
proof (induction cs arbitrary: d K)
  case (Cons c cs)
  obtain k where k: "f c = Some k" using Cons.prems(1) by auto
  have "restricts src (insert (KPair rk k) K) (gc_add src (KPair rk k) d)"
    using Cons.prems(2) by (auto simp: restricts_def gc_add_def split: option.split)
  then obtain e where e: "gc_cols src f rk cs (gc_add src (KPair rk k) d) = Some e"
      "restricts src (insert (KPair rk k) K \<union> {KPair rk k | k. \<exists>c \<in> set cs. f c = Some k}) e"
    using Cons.IH Cons.prems(1) by (meson list.set_intros(2))
  moreover have "insert (KPair rk k) K \<union> {KPair rk k | k. \<exists>c \<in> set cs. f c = Some k} = K \<union> {KPair rk k | k. \<exists>c \<in> set (c # cs). f c = Some k}"
    using k by auto
  ultimately show ?case using k by simp
qed simp

lemma gc_rows_live:
  assumes "\<forall>r \<in> set rs. f r \<noteq> None" "keyed g (ColIDs s)" "restricts (cellData s) K d"
  shows "\<exists>e. gc_rows s f g rs d = Some e \<and>
    restricts (cellData s) (K \<union> {KPair i j | i j. (\<exists>r \<in> set rs. f r = Some i) \<and> j \<in> live_keys g (ColIDs s)}) e"
  using assms
proof (induction rs arbitrary: d K)
  case (Cons r rs)
  obtain i where i: "f r = Some i" using Cons.prems(1) by auto
  obtain cs where cs: "forEach g [] (ColIDs s) = Some cs" "{k. \<exists>c \<in> set cs. g c = Some k} = live_keys g (ColIDs s)" "\<forall>c \<in> set cs. g c \<noteq> None"
    using forEach_live [OF Cons.prems(2), of "[]"] by auto
  obtain e where e: "gc_cols (cellData s) g i cs d = Some e" "restricts (cellData s) (K \<union> {KPair i k | k. \<exists>c \<in> set cs. g c = Some k}) e"
    using gc_cols_live [OF cs(3) Cons.prems(3)] by blast
  let ?K = "K \<union> {KPair i k | k. \<exists>c \<in> set cs. g c = Some k}"
  obtain h where h: "gc_rows s f g rs e = Some h"
      "restricts (cellData s) (?K \<union> {KPair i j | i j. (\<exists>r \<in> set rs. f r = Some i) \<and> j \<in> live_keys g (ColIDs s)}) h"
    using Cons.IH [OF _ Cons.prems(2) e(2)] Cons.prems(1) by auto
  moreover have "?K \<union> {KPair i j | i j. (\<exists>r \<in> set rs. f r = Some i) \<and> j \<in> live_keys g (ColIDs s)} =
      K \<union> {KPair i j | i j. (\<exists>r \<in> set (r # rs). f r = Some i) \<and> j \<in> live_keys g (ColIDs s)}"
    using i cs(2) [symmetric] by auto
  ultimately show ?case using cs(1) e(1) i by simp
qed simp

definition delete_key :: "(key, val) fmap \<Rightarrow> key \<Rightarrow> change option" where
  "delete_key src k = Some (PathChange [k] (Some (Replace \<lparr>rBefore = the (fmlookup src k), rAfter = VNil\<rparr>)))"

lemma foldM_deletes:
  assumes "distinct ks" "\<And>k. k \<in> set ks \<Longrightarrow> fmlookup m k = fmlookup src k \<and> fmlookup src k \<noteq> None \<and> fmlookup src k \<noteq> Some VNil"
  shows "foldM Apply (VM m) (map (delete_key src) ks) = Some (VM (fmdrop_set (set ks) m))"
  using assms
proof (induction ks arbitrary: m)
  case (Cons k ks)
  obtain v where v: "fmlookup m k = Some v" "fmlookup src k = Some v" "v \<noteq> VNil" using Cons.prems(2) [of k] by auto
  have "Apply (VM m) (delete_key src k) = Some (VM (fmdrop k m))"
    using v by (simp add: delete_key_def M_get_def M_set_def apply_Replace_stored)
  moreover have "foldM Apply (VM (fmdrop k m)) (map (delete_key src) ks) = Some (VM (fmdrop_set (set ks) (fmdrop k m)))"
    using Cons.prems by (intro Cons.IH) auto
  moreover have "fmdrop_set (set ks) (fmdrop k m) = fmdrop_set (set (k # ks)) m" by (intro fmap_ext) auto
  ultimately show ?case by simp
qed simp


definition ex_table :: sparse where
  "ex_table = \<lparr>RowIDs = [Some (VAtomic (KInt 1)), Some (VAtomic (KInt 2)), Some (VAtomic (KInt 1))], ColIDs = [Some (VAtomic (KStr ''a''))],
     cellData = fmupd (KPair (KInt 3) (KStr ''a'')) (VS8 ''x'') (fmupd (KPair (KInt 1) (KStr ''a'')) (VS8 ''y'') fmempty)\<rparr>"

lemma ex_table_no_nil: "no_nil ex_table" by (auto simp: no_nil_def ex_table_def)


text \<open>
  C26. GC keeps the cells whose keys come from a row and a column of the table, duplicates or not,
  and removes all others; the rows and columns stay, and the change it returns leads to
  the same table.
\<close>

theorem sparse_gc_keeps_live:
  assumes "no_nil s" "distinct order" "\<And>k. fmlookup (cellData s) k \<noteq> None \<Longrightarrow> k \<in> set order"
    and "keyed f (RowIDs s)" "keyed g (ColIDs s)"
  shows "\<exists>t c. GC order s (Some f) (Some g) = Some (t, c) \<and> Sparse_Apply s c = Some t \<and> RowIDs t = RowIDs s \<and> ColIDs t = ColIDs s \<and>
    (\<forall>k. fmlookup (cellData t) k =
       (if \<exists>i \<in> live_keys f (RowIDs s). \<exists>j \<in> live_keys g (ColIDs s). k = KPair i j then fmlookup (cellData s) k else None))"
proof -
  let ?m = "cellData s" and ?K = "{KPair i j | i j. i \<in> live_keys f (RowIDs s) \<and> j \<in> live_keys g (ColIDs s)}"
  obtain rs where rs: "forEach f [] (RowIDs s) = Some rs" "{k. \<exists>r \<in> set rs. f r = Some k} = live_keys f (RowIDs s)" "\<forall>r \<in> set rs. f r \<noteq> None"
    using forEach_live [OF assms(4), of "[]"] by auto
  have "restricts ?m {} fmempty" by (simp add: restricts_def)
  then obtain d where d: "gc_rows s f g rs fmempty = Some d" "restricts ?m ?K d"
    using gc_rows_live [OF rs(3) assms(5), of "{}" fmempty] rs(2) [symmetric] by auto
  define ks where "ks = filter (\<lambda>k. fmlookup ?m k \<noteq> None \<and> fmlookup d k = None) order"
  have del: "gc_deletes order ?m d = map (delete_key ?m) ks" by (simp add: gc_deletes_def ks_def delete_key_def)
  have look: "fmlookup d k = (if \<exists>i \<in> live_keys f (RowIDs s). \<exists>j \<in> live_keys g (ColIDs s). k = KPair i j then fmlookup ?m k else None)" for k
    using d(2) by (auto simp: restricts_def)
  have drop: "fmdrop_set (set ks) ?m = d"
  proof (rule fmap_ext)
    fix k
    show "fmlookup (fmdrop_set (set ks) ?m) k = fmlookup d k"
      using look [of k] assms(3) [of k] by (cases "fmlookup ?m k") (auto simp: ks_def)
  qed
  have fin: ?thesis if "GC order s (Some f) (Some g) = Some (t, c)" "Sparse_Apply s c = Some t" "RowIDs t = RowIDs s" "ColIDs t = ColIDs s" "cellData t = d" for t c
    by (intro exI [of _ t] exI [of _ c]) (simp add: that look)
  show ?thesis
  proof (cases "ks = []")
    case True
    then have "GC order s (Some f) (Some g) = Some (s, None)" using rs(1) d(1) del by (simp add: GC_def)
    moreover have "?m = d" using drop True by simp
    moreover have "Sparse_Apply s None = Some s" by (simp add: Sparse_Apply_def)
    ultimately show ?thesis using fin [of s None, OF _ _ refl refl] by (simp only: simp_thms)
  next
    case False
    let ?c = "Some (PathChange [KStr ''Data''] (Some (ChangeSet (map (delete_key ?m) ks))))"
    have "foldM Apply (VM ?m) (map (delete_key ?m) ks) = Some (VM (fmdrop_set (set ks) ?m))"
      by (rule foldM_deletes) (use assms(1,2) in \<open>auto simp: ks_def no_nil_def\<close>)
    then have "foldM Apply (VM ?m) (map (delete_key ?m) ks) = Some (VM d)" unfolding drop .
    then have "Sparse_Apply s ?c = Some (s\<lparr>cellData := d\<rparr>)" by (simp add: Sparse_Apply_def sparse_field_def as_M_def)
    moreover have "GC order s (Some f) (Some g) = Some (s\<lparr>cellData := d\<rparr>, ?c)" using rs(1) d(1) del False by (simp add: GC_def)
    ultimately show ?thesis by (intro fin [of "s\<lparr>cellData := d\<rparr>" ?c]) simp_all
  qed
qed

theorem sparse_gc_keeps_live_witness:
  "\<exists>t c. GC [KPair (KInt 3) (KStr ''a''), KPair (KInt 1) (KStr ''a'')] ex_table (Some own_key) (Some own_key) = Some (t, c) \<and>
     Sparse_Apply ex_table c = Some t \<and> Cell t (KInt 3) (KStr ''a'') = (None, False) \<and> Cell t (KInt 1) (KStr ''a'') = Cell ex_table (KInt 1) (KStr ''a'')"
proof -
  have k: "fmlookup (cellData ex_table) k \<noteq> None \<Longrightarrow> k \<in> set [KPair (KInt 3) (KStr ''a''), KPair (KInt 1) (KStr ''a'')]" for k
    by (auto simp: ex_table_def split: if_splits)
  have keyed: "keyed own_key (RowIDs ex_table)" "keyed own_key (ColIDs ex_table)" by code_simp+
  have live: "live_keys own_key (RowIDs ex_table) = {KInt 1, KInt 2}" "live_keys own_key (ColIDs ex_table) = {KStr ''a''}"
    by (auto simp: live_keys_def ex_table_def own_key_def fromValue_def)
  from sparse_gc_keeps_live [OF ex_table_no_nil _ k keyed] show ?thesis unfolding live Cell_def by (auto simp: fromValue_def)
qed

section \<open>Heaps\<close>

text \<open>
  C35. Iterating over a heap visits every key once, by descending rank, and stops when it is told to;
  the order in which the map is stored does not show, as long as no two entries are equal.
\<close>

theorem heap_iterates_descending:
  assumes "told_apart h" "map_order h order"
  shows "\<exists>ks. (\<forall>order'. map_order h order' \<longrightarrow> heap_keys order' h = Some ks) \<and> distinct ks \<and> set ks = fset (fmdom h) \<and>
    sorted_wrt (\<lambda>k l. entryRank (the (fmlookup h k)) \<ge> entryRank (the (fmlookup h l))) ks \<and>
    (\<forall>n. Iterate order h (\<lambda>k r acc. (length acc < n, acc @ [(k, r)])) [] =
       Some (map (\<lambda>k. (k, entryRank (the (fmlookup h k)))) (take (Suc n) ks)))"
proof -
  obtain ks where ks: "heap_keys order h = Some ks" "distinct ks" "set ks = fset (fmdom h)"
    "sorted_wrt (\<lambda>k l. entryRank (the (fmlookup h k)) \<ge> entryRank (the (fmlookup h l))) ks" using heap_keys_descending [OF assms(2)] by blast
  have "heap_keys order' h = Some ks" if "map_order h order'" for order' using heap_keys_any_order [OF assms(1) that assms(2)] ks(1) by simp
  moreover have "Iterate order h (\<lambda>k r acc. (length acc < n, acc @ [(k, r)])) [] = Some (map (\<lambda>k. (k, entryRank (the (fmlookup h k)))) (take (Suc n) ks))" for n
    using iterate_collects [of "[]" n h ks] ks(1) by (simp add: Iterate_def)
  ultimately show ?thesis using ks(2-4) by blast
qed

definition ex_heap :: heap where
  "ex_heap = fmupd (KInt 1) \<lparr>Key1 = 5, Key2 = 6, entryRank = 10\<rparr> (fmupd (KInt 2) \<lparr>Key1 = 7, Key2 = 8, entryRank = 20\<rparr> fmempty)"

theorem heap_iterates_descending_witness:
  "\<exists>ks. heap_keys [KInt 1, KInt 2] ex_heap = Some ks \<and> heap_keys [KInt 2, KInt 1] ex_heap = Some ks \<and> set ks = {KInt 1, KInt 2} \<and>
     Iterate [KInt 1, KInt 2] ex_heap (\<lambda>k r acc. (length acc < 1, acc @ [(k, r)])) [] = Some (map (\<lambda>k. (k, entryRank (the (fmlookup ex_heap k)))) (take 2 ks))"
proof -
  have a: "told_apart ex_heap" by (auto simp: told_apart_def ex_heap_def split: if_splits)
  have d: "fset (fmdom ex_heap) = {KInt 1, KInt 2}" by (auto simp: ex_heap_def)
  have o: "map_order ex_heap [KInt 1, KInt 2]" "map_order ex_heap [KInt 2, KInt 1]" unfolding map_order_def d by auto
  from heap_iterates_descending [OF a o(1)] show ?thesis using o unfolding d numeral_2_eq_2 One_nat_def by blast
qed

section \<open>Tables of rich text\<close>

text \<open>
  C25. Where the ordinals of a table are readable and differ, AppendRow and AppendCol move or add an item
  to the end, and InsertRowBefore and InsertColBefore to the place right before another one; the rest keeps
  its order, the other axis is untouched, and the ordinals stay readable and different.
\<close>

theorem table_items_placed:
  fixes inner :: "'c \<Rightarrow> 'v \<Rightarrow> 'v option"
  assumes "ords_ok rowOrd (Rows t)" "order_of (Rows t) ro" "table_RowIDs ro t = Some (rs @ rowID r # rs')" "rowID row \<noteq> rowID r"
    and "ords_ok colOrd (Cols t)" "order_of (Cols t) co" "table_ColIDs co t = Some (cs @ colID c # cs')" "colID col \<noteq> colID c"
  shows "(\<exists>c1 u1. AppendRow ro t row = Some (Some c1) \<and> table_Apply inner t (Some c1) = Some u1 \<and> Cols u1 = Cols t \<and> ords_ok rowOrd (Rows u1) \<and>
      (\<forall>o'. order_of (Rows u1) o' \<longrightarrow> table_RowIDs o' u1 = Some (filter (\<lambda>k. k \<noteq> rowID row) (rs @ rowID r # rs') @ [rowID row]))) \<and>
    (\<exists>c2 u2. InsertRowBefore ro t row r = Some (Some c2) \<and> table_Apply inner t (Some c2) = Some u2 \<and> Cols u2 = Cols t \<and> ords_ok rowOrd (Rows u2) \<and>
      (\<forall>o'. order_of (Rows u2) o' \<longrightarrow> table_RowIDs o' u2 =
         Some (filter (\<lambda>k. k \<noteq> rowID row) rs @ rowID row # rowID r # filter (\<lambda>k. k \<noteq> rowID row) rs'))) \<and>
    (\<exists>c3 u3. AppendCol co t col = Some (Some c3) \<and> table_Apply inner t (Some c3) = Some u3 \<and> Rows u3 = Rows t \<and> ords_ok colOrd (Cols u3) \<and>
      (\<forall>o'. order_of (Cols u3) o' \<longrightarrow> table_ColIDs o' u3 = Some (filter (\<lambda>k. k \<noteq> colID col) (cs @ colID c # cs') @ [colID col]))) \<and>
    (\<exists>c4 u4. InsertColBefore co t col c = Some (Some c4) \<and> table_Apply inner t (Some c4) = Some u4 \<and> Rows u4 = Rows t \<and> ords_ok colOrd (Cols u4) \<and>
      (\<forall>o'. order_of (Cols u4) o' \<longrightarrow> table_ColIDs o' u4 =
         Some (filter (\<lambda>k. k \<noteq> colID col) cs @ colID col # colID c # filter (\<lambda>k. k \<noteq> colID col) cs')))"
  by (intro conjI rows.append_last [OF assms(1-3)] rows.insert_placed [OF assms(1-4)] cols.append_last [OF assms(5-7)] cols.insert_placed [OF assms(5-8)])

definition ex_row :: "int \<Rightarrow> string \<Rightarrow> string row" where
  "ex_row i k = \<lparr>rowID = KInt i, rowOrd = k, rowCells = fmempty\<rparr>"

definition ex_col :: "string \<Rightarrow> string col" where
  "ex_col s = \<lparr>colID = KStr s, colOrd = '''', colValue = s\<rparr>"

definition ex_grid :: "string table" where
  "ex_grid = \<lparr>Cols = fmupd (KStr ''a'') (ex_col ''a'') fmempty, Rows = fmupd (KInt 2) (ex_row 2 ''1,1'') (fmupd (KInt 1) (ex_row 1 '''') fmempty)\<rparr>"

theorem table_items_placed_witness:
  "\<exists>c u. InsertRowBefore [KInt 2, KInt 1] ex_grid (ex_row 3 '''') (ex_row 2 '''') = Some (Some c) \<and>
     table_Apply (\<lambda>_ :: string. Some) ex_grid (Some c) = Some u \<and> (\<forall>o'. order_of (Rows u) o' \<longrightarrow> table_RowIDs o' u = Some [KInt 1, KInt 3, KInt 2])"
proof -
  note ex = ex_grid_def ex_row_def ex_col_def
  have f: "fromString '''' = Some 0" "fromString ''1,1'' = Some 1" by code_simp+
  have r: "fset (fmdom (Rows ex_grid)) = {KInt 1, KInt 2}" "fset (fmdom (Cols ex_grid)) = {KStr ''a''}" by (auto simp: ex)
  have ok: "ords_ok rowOrd (Rows ex_grid)" "ords_ok colOrd (Cols ex_grid)"
    unfolding ords_ok_def r by (auto simp: ex inj_on_def ord_val_def f split: if_splits)
  have o: "order_of (Rows ex_grid) [KInt 2, KInt 1]" "order_of (Cols ex_grid) [KStr ''a'']" unfolding order_of_def r by auto
  have ids: "table_RowIDs [KInt 2, KInt 1] ex_grid = Some ([KInt 1] @ rowID (ex_row 2 '''') # [])" "table_ColIDs [KStr ''a''] ex_grid = Some ([] @ colID (ex_col ''a'') # [])"
    by (simp_all add: table_RowIDs_def table_ColIDs_def ex LessOrd_def f ord_less_def)
  have ne: "rowID (ex_row 3 '''') \<noteq> rowID (ex_row 2 '''')" "colID (ex_col ''b'') \<noteq> colID (ex_col ''a'')" by (simp_all add: ex)
  from table_items_placed [OF ok(1) o(1) ids(1) ne(1) ok(2) o(2) ids(2) ne(2), of "\<lambda>_ :: string. Some"]
  show ?thesis by (auto simp: ex)
qed

text \<open>
  Rows that two clients append at the same time get the same ordinal, and their order is then that of
  the map, which Go chooses anew each time.
\<close>

theorem concurrent_rows_unordered:
  assumes "Rows t = fmempty" "rowID a \<noteq> rowID b"
  shows "\<exists>c1 c2 u v. AppendRow [] t a = Some (Some c1) \<and> AppendRow [] t b = Some (Some c2) \<and>
    table_Apply inner t (Some c1) = Some u \<and> table_Apply inner u (Some c2) = Some v \<and>
    table_RowIDs [rowID a, rowID b] v \<noteq> table_RowIDs [rowID b, rowID a] v"
proof -
  have "fromString '''' = Some 0" by code_simp
  then show ?thesis using assms
    by (simp add: AppendRow_def insertOrReorderRow_def table_Apply_def table_RowIDs_def LessOrd_def ord_less_def)
qed

end
