(* ===== verification/Dot_Html.thy ===== *)
theory Dot_Html
  imports Dot_Heap Dot_Ord
begin

text \<open>
  Package \<open>x/rich/html\<close>: rich text, links, lists, tables and directories as HTML. What is written to the
  builder is the string returned; \<open>None\<close> is fuel that ran out or a panic.

  A formatter for embedded objects is a base function, which may be nil, below the directories around the
  value, innermost first: \<open>formatDir\<close> makes a closure that looks a reference up in its own
  objects and else calls the formatter around it.
\<close>

section \<open>Values\<close>

text \<open>The types of package \<open>data\<close> that are formatted. A run of rich text has its text, attributes and size, a
  column its ordinal and heading, a row its ordinal and cells. \<open>HNil\<close> is the nil value.\<close>

datatype hval =
    HNil
  | HS16 string
  | HText "(string \<times> (string, hval) fmap \<times> int) list"
  | HA "hval list"
  | HLink string hval
  | HBlockQuote hval
  | HHeading int hval
  | HImage string string
  | HList string "hval list"
  | HTable "(key, string \<times> hval) fmap" "(key, string \<times> (key, hval) fmap) fmap"
  | HDir hval "(key, hval) fmap"
  | HRef key
  | HFontStyle string
  | HFontWeight int
  | HOther key

type_synonym scopes = "(key, hval) fmap list"
type_synonym hformat = "scopes \<Rightarrow> hval \<Rightarrow> string option"

definition escape_char :: "char \<Rightarrow> string" where
  "escape_char c = (if c = CHR ''<'' then ''&lt;'' else if c = CHR ''>'' then ''&gt;'' else if c = CHR ''&'' then ''&amp;''
     else if c = CHR 39 then ''&#39;'' else if c = CHR 34 then ''&#34;'' else [c])"

definition EscapeString :: "string \<Rightarrow> string" where
  "EscapeString s = concat (map escape_char s)"

text \<open>The quotation mark.\<close>

definition quot :: string where
  "quot = [CHR 34]"

section \<open>The formatters\<close>

text \<open>\<open>F\<close> is \<open>FormatBuilder\<close>.\<close>

definition formatLink :: "hformat \<Rightarrow> scopes \<Rightarrow> string \<Rightarrow> hval \<Rightarrow> string option" where
  "formatLink F f url v = do { b \<leftarrow> F f v; Some (''<a href='' @ quot @ EscapeString url @ quot @ ''>'' @ b @ ''</a>'') }"

definition formatBlockQuote :: "hformat \<Rightarrow> scopes \<Rightarrow> hval \<Rightarrow> string option" where
  "formatBlockQuote F f v = do { b \<leftarrow> F f v; Some (''<blockquote>'' @ b @ ''</blockquote>'') }"

definition formatHeading :: "hformat \<Rightarrow> scopes \<Rightarrow> int \<Rightarrow> hval \<Rightarrow> string option" where
  "formatHeading F f level v = (let l = (if level < 1 \<or> level > 6 then 1 else level) in do {
     b \<leftarrow> F f v;
     Some (''<h'' @ Itoa l @ ''>'' @ b @ ''</h'' @ Itoa l @ ''>'') })"

definition formatImage :: "string \<Rightarrow> string \<Rightarrow> string" where
  "formatImage src alt = ''<img src='' @ quot @ EscapeString src @ quot @ '' alt='' @ quot @ EscapeString alt @ quot @ ''>'' @ ''</img>''"

fun format_items :: "hformat \<Rightarrow> scopes \<Rightarrow> hval list \<Rightarrow> string option" where
  "format_items F f [] = Some []"
| "format_items F f (x # xs) = do { b \<leftarrow> F f x; r \<leftarrow> format_items F f xs; Some (''<li>'' @ b @ ''</li>'' @ r) }"

definition formatList :: "hformat \<Rightarrow> scopes \<Rightarrow> string \<Rightarrow> hval list \<Rightarrow> string option" where
  "formatList F f ty entries = (let
     tag = (if ty = ''disc'' \<or> ty = ''circle'' \<or> ty = ''square'' \<or> ty = '''' then ''ul'' else ''ol'');
     style = (if ty \<noteq> '''' then '' style='' @ quot @ ''list-style-type: '' @ EscapeString ty @ '';'' @ quot else '''') in do {
     b \<leftarrow> format_items F f entries;
     Some (''<'' @ tag @ style @ ''>'' @ b @ ''</'' @ tag @ ''>'') })"

text \<open>Calling the formatter of a value that has no format of its own.\<close>

fun call_formatter :: "hformat \<Rightarrow> (hval \<Rightarrow> string) option \<Rightarrow> scopes \<Rightarrow> hval \<Rightarrow> string option" where
  "call_formatter F base [] v = Some (case base of None \<Rightarrow> [] | Some g \<Rightarrow> g v)"
| "call_formatter F base (objects # f) v = (case v of
     HRef ref \<Rightarrow> (case fmlookup objects ref of
         Some x \<Rightarrow> if x \<noteq> HNil then F (objects # f) x else call_formatter F base f v
       | None \<Rightarrow> call_formatter F base f v)
   | _ \<Rightarrow> call_formatter F base f v)"

definition formatDir :: "hformat \<Rightarrow> scopes \<Rightarrow> hval \<Rightarrow> (key, hval) fmap \<Rightarrow> string option" where
  "formatDir F f rt objects = F (objects # f) rt"

fun format_heads :: "hformat \<Rightarrow> scopes \<Rightarrow> (key, string \<times> hval) fmap \<Rightarrow> key list \<Rightarrow> string option" where
  "format_heads F f cols [] = Some []"
| "format_heads F f cols (c # cs) = do {
     b \<leftarrow> F f (snd (the (fmlookup cols c)));
     r \<leftarrow> format_heads F f cols cs;
     Some (''<th>'' @ b @ ''</th>'' @ r) }"

fun format_cells :: "hformat \<Rightarrow> scopes \<Rightarrow> (key, hval) fmap \<Rightarrow> key list \<Rightarrow> string option" where
  "format_cells F f cells [] = Some []"
| "format_cells F f cells (c # cs) = do {
     b \<leftarrow> (case fmlookup cells c of Some v \<Rightarrow> F f v | None \<Rightarrow> Some []);
     r \<leftarrow> format_cells F f cells cs;
     Some (''<td>'' @ b @ ''</td>'' @ r) }"

fun format_rows :: "hformat \<Rightarrow> scopes \<Rightarrow> key list \<Rightarrow> (key, string \<times> (key, hval) fmap) fmap \<Rightarrow> key list \<Rightarrow> string option" where
  "format_rows F f cs rows [] = Some []"
| "format_rows F f cs rows (i # rs) = do {
     b \<leftarrow> format_cells F f (snd (the (fmlookup rows i))) cs;
     r \<leftarrow> format_rows F f cs rows rs;
     Some (''<tr>'' @ b @ ''</tr>'' @ r) }"

text \<open>The sorted IDs of columns or rows; \<open>mo\<close> is the order in which Go iterates over a map with these keys.\<close>

definition sorted_ids :: "(key fset \<Rightarrow> key list) \<Rightarrow> (key, string \<times> 'x) fmap \<Rightarrow> key list option" where
  "sorted_ids mo m = sort_Slice (\<lambda>i j. LessOrd (fst (the (fmlookup m i))) (fst (the (fmlookup m j)))) (mo (fmdom m))"

definition formatTable :: "(key fset \<Rightarrow> key list) \<Rightarrow> hformat \<Rightarrow> scopes \<Rightarrow> (key, string \<times> hval) fmap \<Rightarrow> (key, string \<times> (key, hval) fmap) fmap \<Rightarrow> string option" where
  "formatTable mo F f cols rows = do {
     cs \<leftarrow> sorted_ids mo cols;
     rs \<leftarrow> sorted_ids mo rows;
     h \<leftarrow> format_heads F f cols cs;
     b \<leftarrow> format_rows F f cs rows rs;
     Some (''<table><thead><tr>'' @ h @ ''</tr></thead><tbody>'' @ b @ ''</tbody></table>'') }"

definition inlineStyles :: "string list" where
  "inlineStyles = [''FontStyle'', ''FontWeight'']"

definition inlineOpen :: "hval \<Rightarrow> string" where
  "inlineOpen v = (case v of
     HFontStyle t \<Rightarrow> if t = ''italic'' then ''<i>'' else ''<span style='' @ quot @ ''font-style: '' @ EscapeString t @ quot @ ''>''
   | HFontWeight t \<Rightarrow> if t = 700 then ''<b>'' else ''<span style='' @ quot @ ''font-weight: '' @ Itoa t @ quot @ ''>''
   | _ \<Rightarrow> [])"

definition inlineClose :: "hval \<Rightarrow> string" where
  "inlineClose v = (case v of
     HFontStyle t \<Rightarrow> if t = ''italic'' then ''</i>'' else ''</span>''
   | HFontWeight t \<Rightarrow> if t = 700 then ''</b>'' else ''</span>''
   | _ \<Rightarrow> [])"

definition write_styles :: "(hval \<Rightarrow> string) \<Rightarrow> (string, hval) fmap \<Rightarrow> string list \<Rightarrow> string" where
  "write_styles w attrs names = concat (map (\<lambda>name. case fmlookup attrs name of Some attr \<Rightarrow> w attr | None \<Rightarrow> []) names)"

fun rich_runs :: "hformat \<Rightarrow> scopes \<Rightarrow> (string, hval) fmap \<Rightarrow> (string \<times> (string, hval) fmap \<times> int) list \<Rightarrow> string option" where
  "rich_runs F f lst [] = Some (if lst \<noteq> fmempty then write_styles inlineClose lst inlineStyles else [])"
| "rich_runs F f lst ((text, attrs, sz) # runs) = do {
     b \<leftarrow> (case fmlookup attrs ''Embed'' of Some attr \<Rightarrow> F f attr | None \<Rightarrow> F f (HS16 text));
     r \<leftarrow> rich_runs F f attrs runs;
     Some (write_styles inlineClose lst (rev inlineStyles) @ write_styles inlineOpen attrs inlineStyles @ b @ r) }"

definition formatRichText :: "hformat \<Rightarrow> scopes \<Rightarrow> (string \<times> (string, hval) fmap \<times> int) list \<Rightarrow> string option" where
  "formatRichText F f t = rich_runs F f fmempty t"

fun FormatBuilder :: "(key fset \<Rightarrow> key list) \<Rightarrow> (hval \<Rightarrow> string) option \<Rightarrow> nat \<Rightarrow> hformat" where
  "FormatBuilder mo base 0 f v = None"
| "FormatBuilder mo base (Suc n) f v = (let F = FormatBuilder mo base n in case v of
     HS16 s \<Rightarrow> Some (EscapeString s)
   | HText t \<Rightarrow> formatRichText F f t
   | HA a \<Rightarrow> formatList F f ''disc'' a
   | HLink url x \<Rightarrow> formatLink F f url x
   | HBlockQuote x \<Rightarrow> formatBlockQuote F f x
   | HHeading l x \<Rightarrow> formatHeading F f l x
   | HImage src alt \<Rightarrow> Some (formatImage src alt)
   | HList ty entries \<Rightarrow> formatList F f ty entries
   | HTable cols rows \<Rightarrow> formatTable mo F f cols rows
   | HDir rt objects \<Rightarrow> formatDir F f rt objects
   | _ \<Rightarrow> call_formatter F base f v)"

definition html_Format :: "(key fset \<Rightarrow> key list) \<Rightarrow> nat \<Rightarrow> hval \<Rightarrow> string option" where
  "html_Format mo n v = FormatBuilder mo None n [] v"

end
