(* ===== verification/Dot_Html_Laws.thy ===== *)
theory Dot_Html_Laws
  imports Dot_Html
begin

text \<open>
  The laws of the HTML output: the grammar of well-nested HTML, each formatter writes into it, formatting
  returns on values without references, and a reader of tags that accepts the grammar.
\<close>

section \<open>Well-nested HTML\<close>

text \<open>
  An element has attributes with quoted values and a body; no character of the markup occurs in a text, a
  name or a value.
\<close>

definition html_clean :: "string \<Rightarrow> bool" where
  "html_clean s \<longleftrightarrow> CHR ''<'' \<notin> set s \<and> CHR ''>'' \<notin> set s \<and> CHR 34 \<notin> set s"

definition name_ok :: "string \<Rightarrow> bool" where
  "name_ok s \<longleftrightarrow> s \<noteq> [] \<and> html_clean s \<and> CHR '' '' \<notin> set s \<and> CHR ''='' \<notin> set s \<and> hd s \<noteq> CHR ''/''"

definition attr_text :: "string \<times> string \<Rightarrow> string" where
  "attr_text a = '' '' @ fst a @ ''='' @ quot @ snd a @ quot"

inductive html_ok :: "string \<Rightarrow> bool" where
  plain: "html_clean s \<Longrightarrow> html_ok s"
| seq: "html_ok a \<Longrightarrow> html_ok b \<Longrightarrow> html_ok (a @ b)"
| elem: "name_ok tag \<Longrightarrow> \<forall>(n, v) \<in> set avs. name_ok n \<and> html_clean v \<Longrightarrow> html_ok b \<Longrightarrow>
    html_ok (''<'' @ tag @ concat (map attr_text avs) @ ''>'' @ b @ ''</'' @ tag @ ''>'')"

lemma html_clean_append [simp]: "html_clean (a @ b) \<longleftrightarrow> html_clean a \<and> html_clean b" by (auto simp: html_clean_def)

lemma html_clean_Cons [simp]: "html_clean (c # s) \<longleftrightarrow> c \<noteq> CHR ''<'' \<and> c \<noteq> CHR ''>'' \<and> c \<noteq> CHR 34 \<and> html_clean s" by (auto simp: html_clean_def)

lemma html_clean_Nil [simp]: "html_clean []" by (simp add: html_clean_def)

lemma html_Nil [simp]: "html_ok []" by (rule html_ok.plain) simp

lemma html_clean_escape [simp]: "html_clean (EscapeString s)"
  by (induction s) (simp_all add: EscapeString_def escape_char_def)

lemma parse_nat_undigit: "parse_nat b acc s = Some k \<Longrightarrow> c \<in> set s \<Longrightarrow> undigit c \<noteq> None"
  by (induction s arbitrary: acc) (auto simp: bind_Some_ex split: if_splits)

lemma text_nat_undigit: "undigit c = None \<Longrightarrow> c \<notin> set (text_nat 10 k)"
  using parse_text_nat [of 10 k] parse_nat_undigit by fastforce

lemma Itoa_undigit: "undigit c = None \<Longrightarrow> c \<noteq> CHR ''-'' \<Longrightarrow> c \<notin> set (Itoa i)"
  by (simp add: Itoa_def text_int_def text_nat_undigit)

lemma html_clean_Itoa [simp]: "html_clean (Itoa i)"
  unfolding html_clean_def by (simp add: Itoa_undigit undigit_def)

text \<open>Elements with no, one and two attributes.\<close>

lemma html_elem: "html_ok b \<Longrightarrow> name_ok tag \<Longrightarrow> html_ok (''<'' @ tag @ ''>'' @ b @ ''</'' @ tag @ ''>'')"
  using html_ok.elem [of tag "[]" b] by simp

lemma html_elem_attr:
  assumes "html_ok b" "name_ok tag" "name_ok n" "html_clean v"
  shows "html_ok (''<'' @ tag @ attr_text (n, v) @ ''>'' @ b @ ''</'' @ tag @ ''>'')"
  using html_ok.elem [of tag "[(n, v)]" b] assms by simp

lemma name_ok_Cons [simp]: "name_ok (c # s) \<longleftrightarrow> html_clean (c # s) \<and> c \<noteq> CHR ''/'' \<and> CHR '' '' \<notin> set (c # s) \<and> CHR ''='' \<notin> set (c # s)"
  by (auto simp: name_ok_def)


section \<open>Values that are formatted well\<close>

text \<open>
  A text is closed in the wrong order when its last run has both styles with different tags; values that
  are \<open>nice\<close> have no such text.
\<close>

definition last_attrs :: "(string \<times> (string, hval) fmap \<times> int) list \<Rightarrow> (string, hval) fmap" where
  "last_attrs t = (if t = [] then fmempty else fst (snd (last t)))"

definition closes_well :: "(string, hval) fmap \<Rightarrow> bool" where
  "closes_well a \<longleftrightarrow> write_styles inlineClose a inlineStyles = write_styles inlineClose a (rev inlineStyles)"

text \<open>The values directly inside a value, and properties that a value has with everything in it.\<close>

fun parts :: "hval \<Rightarrow> hval set" where
  "parts (HText t) = (\<Union>(s, a, n) \<in> set t. fset (fmran a))"
| "parts (HA vs) = set vs"
| "parts (HList ty vs) = set vs"
| "parts (HLink url v) = {v}"
| "parts (HBlockQuote v) = {v}"
| "parts (HHeading l v) = {v}"
| "parts (HTable cols rows) = snd ` fset (fmran cols) \<union> (\<Union>(s, cells) \<in> fset (fmran rows). fset (fmran cells))"
| "parts (HDir v objects) = insert v (fset (fmran objects))"
| "parts _ = {}"

inductive throughout :: "(hval \<Rightarrow> bool) \<Rightarrow> hval \<Rightarrow> bool" for P where
  "P v \<Longrightarrow> \<forall>x \<in> parts v. throughout P x \<Longrightarrow> throughout P v"

inductive_simps throughout_iff: "throughout P v"

definition text_closes :: "hval \<Rightarrow> bool" where
  "text_closes v = (case v of HText t \<Rightarrow> closes_well (last_attrs t) | _ \<Rightarrow> True)"

definition nice :: "hval \<Rightarrow> bool" where
  "nice = throughout text_closes"

lemma nice_iff: "nice v \<longleftrightarrow> text_closes v \<and> (\<forall>x \<in> parts v. nice x)"
  unfolding nice_def by (subst throughout_iff) simp

lemma nice_S16 [simp]: "nice (HS16 s)" by (subst nice_iff) (simp add: text_closes_def)

lemma nice_Text: "nice (HText t) \<Longrightarrow> closes_well (last_attrs t) \<and> (\<forall>s a n k v. (s, a, n) \<in> set t \<longrightarrow> fmlookup a k = Some v \<longrightarrow> nice v)"
  by (subst (asm) nice_iff) (force simp: text_closes_def dest: fmranI)

lemma nice_A: "nice (HA vs) \<Longrightarrow> v \<in> set vs \<Longrightarrow> nice v" by (subst (asm) nice_iff) simp

lemma nice_List: "nice (HList ty vs) \<Longrightarrow> v \<in> set vs \<Longrightarrow> nice v" by (subst (asm) nice_iff) simp

lemma nice_Link: "nice (HLink url v) \<Longrightarrow> nice v" by (subst (asm) nice_iff) simp

lemma nice_BlockQuote: "nice (HBlockQuote v) \<Longrightarrow> nice v" by (subst (asm) nice_iff) simp

lemma nice_Heading: "nice (HHeading l v) \<Longrightarrow> nice v" by (subst (asm) nice_iff) simp

lemma nice_Table:
  assumes "nice (HTable cols rows)"
  shows "(\<forall>c s v. fmlookup cols c = Some (s, v) \<longrightarrow> nice v) \<and> (\<forall>r s m c v. fmlookup rows r = Some (s, m) \<longrightarrow> fmlookup m c = Some v \<longrightarrow> nice v)"
proof -
  have n: "\<forall>x \<in> parts (HTable cols rows). nice x" using assms nice_iff by blast
  have "v \<in> parts (HTable cols rows)" if "fmlookup cols c = Some (s, v)" for c s v using fmranI [OF that] by force
  moreover have "v \<in> parts (HTable cols rows)" if "fmlookup rows r = Some (s, m)" "fmlookup m c = Some v" for r s m c v
    using fmranI [OF that(1)] fmranI [OF that(2)] by force
  ultimately show ?thesis using n by blast
qed

lemma nice_Dir: "nice (HDir v objects) \<Longrightarrow> nice v \<and> (\<forall>k x. fmlookup objects k = Some x \<longrightarrow> nice x)"
  by (subst (asm) nice_iff) (auto dest: fmranI)

definition nice_scopes :: "scopes \<Rightarrow> bool" where
  "nice_scopes f \<longleftrightarrow> (\<forall>objects \<in> set f. \<forall>k x. fmlookup objects k = Some x \<longrightarrow> nice x)"


definition good_format :: "hformat \<Rightarrow> bool" where
  "good_format F \<longleftrightarrow> (\<forall>f v out. F f v = Some out \<longrightarrow> nice v \<longrightarrow> nice_scopes f \<longrightarrow> html_ok out)"

lemma good_formatD: "good_format F \<Longrightarrow> F f v = Some out \<Longrightarrow> nice v \<Longrightarrow> nice_scopes f \<Longrightarrow> html_ok out"
  by (auto simp: good_format_def)

section \<open>Each formatter\<close>

lemma format_items_html:
  "good_format F \<Longrightarrow> nice_scopes f \<Longrightarrow> (\<And>v. v \<in> set vs \<Longrightarrow> nice v) \<Longrightarrow> format_items F f vs = Some out \<Longrightarrow> html_ok out"
proof (induction vs arbitrary: out)
  case (Cons x xs)
  obtain b r where br: "F f x = Some b" "format_items F f xs = Some r" "out = ''<li>'' @ b @ ''</li>'' @ r" using Cons.prems(4) by (auto simp: bind_Some_ex)
  have "html_ok b" "html_ok r" using good_formatD [OF Cons.prems(1) br(1)] Cons.IH [OF Cons.prems(1,2) _ br(2)] Cons.prems(2,3) by auto
  then show ?case using html_ok.seq [OF html_elem [of b "''li''"], of r] br(3) by simp
qed simp

lemma formatList_html:
  assumes "good_format F" "nice_scopes f" "\<And>v. v \<in> set vs \<Longrightarrow> nice v" "formatList F f ty vs = Some out"
  shows "html_ok out"
proof -
  obtain b where b: "format_items F f vs = Some b" using assms(4) by (auto simp: formatList_def Let_def bind_Some_ex)
  have h: "html_ok b" using format_items_html [OF assms(1,2,3) b] .
  define tag where "tag = (if ty = ''disc'' \<or> ty = ''circle'' \<or> ty = ''square'' \<or> ty = '''' then ''ul'' else ''ol'')"
  have tag: "name_ok tag" by (simp add: tag_def)
  have out: "out = ''<'' @ tag @ (if ty \<noteq> '''' then attr_text (''style'', ''list-style-type: '' @ EscapeString ty @ '';'') else '''') @ ''>'' @ b @ ''</'' @ tag @ ''>''"
    using assms(4) b by (simp add: formatList_def Let_def attr_text_def flip: tag_def) auto
  show ?thesis
  proof (cases "ty = ''''")
    case True
    then show ?thesis using html_elem [OF h tag] by (simp only: out) simp
  next
    case False
    then show ?thesis using html_elem_attr [OF h tag, of "''style''" "''list-style-type: '' @ EscapeString ty @ '';''"] by (simp only: out) simp
  qed
qed

lemma call_formatter_html:
  assumes "good_format F" "\<And>g v. base = Some g \<Longrightarrow> html_ok (g v)"
  shows "nice_scopes f \<Longrightarrow> call_formatter F base f v = Some out \<Longrightarrow> html_ok out"
proof (induction f)
  case Nil
  then show ?case using assms(2) by (auto split: option.splits)
next
  case (Cons objects f)
  have f: "nice_scopes f" using Cons.prems(1) by (simp add: nice_scopes_def)
  show ?case
  proof (cases "\<exists>k x. v = HRef k \<and> fmlookup objects k = Some x \<and> x \<noteq> HNil")
    case True
    then obtain k x where x: "v = HRef k" "fmlookup objects k = Some x" "x \<noteq> HNil" by blast
    then have "nice x" using Cons.prems(1) by (auto simp: nice_scopes_def)
    then show ?thesis using good_formatD [OF assms(1)] Cons.prems x by auto
  next
    case False
    then have "call_formatter F base f v = Some out" using Cons.prems(2) by (auto split: hval.splits option.splits if_splits)
    then show ?thesis by (rule Cons.IH [OF f])
  qed
qed

lemma styled:
  assumes "html_ok b"
  shows "html_ok (inlineOpen v @ b @ inlineClose v)"
proof (cases "inlineOpen v = [] \<and> inlineClose v = []")
  case True
  then show ?thesis using assms by simp
next
  case False
  then consider t where "v = HFontStyle t" | t where "v = HFontWeight t" by (cases v) (auto simp: inlineOpen_def inlineClose_def)
  then show ?thesis
  proof cases
    case 1
    then show ?thesis using html_elem [OF assms, of "''i''"] html_elem_attr [OF assms, of "''span''" "''style''" "''font-style: '' @ EscapeString t"]
      by (simp add: inlineOpen_def inlineClose_def attr_text_def)
  next
    case 2
    then show ?thesis using html_elem [OF assms, of "''b''"] html_elem_attr [OF assms, of "''span''" "''style''" "''font-weight: '' @ Itoa t"]
      by (simp add: inlineOpen_def inlineClose_def attr_text_def)
  qed
qed

lemma styles_nest:
  assumes "html_ok b"
  shows "html_ok (write_styles inlineOpen a inlineStyles @ b @ write_styles inlineClose a (rev inlineStyles))"
proof -
  have one: "html_ok ((case fmlookup a n of None \<Rightarrow> [] | Some x \<Rightarrow> inlineOpen x) @ b @ (case fmlookup a n of None \<Rightarrow> [] | Some x \<Rightarrow> inlineClose x))"
    if "html_ok b" for b n using styled [OF that] that by (simp split: option.split)
  from one [OF one [OF assms, of "''FontWeight''"], of "''FontStyle''"] show ?thesis by (simp add: write_styles_def inlineStyles_def)
qed

lemma rich_runs_html:
  assumes "good_format F" "nice_scopes f" "\<And>s a n k v. (s, a, n) \<in> set t \<Longrightarrow> fmlookup a k = Some v \<Longrightarrow> nice v"
    and "closes_well (if t = [] then lst else last_attrs t)" "rich_runs F f lst t = Some out"
  shows "\<exists>body. out = write_styles inlineClose lst (rev inlineStyles) @ body \<and> html_ok body"
  using assms(3-5)
proof (induction t arbitrary: lst out)
  case Nil
  then show ?case by (auto simp: closes_well_def write_styles_def intro: exI [of _ "[]"])
next
  case (Cons r t)
  obtain s a n where r: "r = (s, a, n)" by (cases r)
  obtain b o1 where bo: "(case fmlookup a ''Embed'' of Some x \<Rightarrow> F f x | None \<Rightarrow> F f (HS16 s)) = Some b" "rich_runs F f a t = Some o1"
    "out = write_styles inlineClose lst (rev inlineStyles) @ write_styles inlineOpen a inlineStyles @ b @ o1"
    using Cons.prems(3) r by (auto simp: bind_Some_ex)
  have b: "html_ok b" using bo(1) Cons.prems(1) [of s a n "''Embed''"] r good_formatD [OF assms(1)] assms(2) by (auto split: option.splits)
  have "closes_well (if t = [] then a else last_attrs t)" using Cons.prems(2) r by (auto simp: last_attrs_def)
  then obtain body where body: "o1 = write_styles inlineClose a (rev inlineStyles) @ body" "html_ok body"
    using Cons.IH [OF _ _ bo(2)] Cons.prems(1) by (meson list.set_intros(2))
  have "html_ok ((write_styles inlineOpen a inlineStyles @ b @ write_styles inlineClose a (rev inlineStyles)) @ body)"
    by (rule html_ok.seq [OF styles_nest [OF b] body(2)])
  then show ?case using bo(3) body(1) by auto
qed

lemma formatRichText_html:
  assumes "good_format F" "nice_scopes f" "nice (HText t)" "formatRichText F f t = Some out"
  shows "html_ok out"
proof -
  have n: "\<And>s a n k v. (s, a, n) \<in> set t \<Longrightarrow> fmlookup a k = Some v \<Longrightarrow> nice v" "closes_well (last_attrs t)"
    using nice_Text [OF assms(3)] by blast+
  have "closes_well (if t = [] then fmempty else last_attrs t)" using n(2) by (simp add: closes_well_def write_styles_def inlineStyles_def)
  from rich_runs_html [OF assms(1,2) n(1) this] show ?thesis using assms(4) by (auto simp: formatRichText_def write_styles_def inlineStyles_def)
qed

lemma format_heads_html:
  "good_format F \<Longrightarrow> nice_scopes f \<Longrightarrow> (\<And>c s v. fmlookup cols c = Some (s, v) \<Longrightarrow> nice v) \<Longrightarrow> set cs \<subseteq> fset (fmdom cols) \<Longrightarrow>
    format_heads F f cols cs = Some out \<Longrightarrow> html_ok out"
proof (induction cs arbitrary: out)
  case (Cons c cs)
  obtain b r where br: "F f (snd (the (fmlookup cols c))) = Some b" "format_heads F f cols cs = Some r" "out = ''<th>'' @ b @ ''</th>'' @ r"
    using Cons.prems(5) by (auto simp: bind_Some_ex)
  obtain s v where v: "fmlookup cols c = Some (s, v)" using Cons.prems(4) by (auto simp: fmlookup_dom_iff)
  have "html_ok b" "html_ok r" using good_formatD [OF Cons.prems(1) br(1)] Cons.IH [OF Cons.prems(1-3) _ br(2)] Cons.prems(2-4) v by auto
  then show ?case using html_ok.seq [OF html_elem [of b "''th''"], of r] br(3) by simp
qed simp

lemma format_cells_html:
  "good_format F \<Longrightarrow> nice_scopes f \<Longrightarrow> (\<And>c v. fmlookup m c = Some v \<Longrightarrow> nice v) \<Longrightarrow> format_cells F f m cs = Some out \<Longrightarrow> html_ok out"
proof (induction cs arbitrary: out)
  case (Cons c cs)
  obtain b r where br: "(case fmlookup m c of Some v \<Rightarrow> F f v | None \<Rightarrow> Some []) = Some b" "format_cells F f m cs = Some r" "out = ''<td>'' @ b @ ''</td>'' @ r"
    using Cons.prems(4) by (auto simp: bind_Some_ex)
  have "html_ok b" "html_ok r" using good_formatD [OF Cons.prems(1)] br(1) Cons.IH [OF Cons.prems(1-3) br(2)] Cons.prems(2,3) by (auto split: option.splits)
  then show ?case using html_ok.seq [OF html_elem [of b "''td''"], of r] br(3) by simp
qed simp

lemma format_rows_html:
  "good_format F \<Longrightarrow> nice_scopes f \<Longrightarrow> (\<And>r s m c v. fmlookup rows r = Some (s, m) \<Longrightarrow> fmlookup m c = Some v \<Longrightarrow> nice v) \<Longrightarrow>
    set rs \<subseteq> fset (fmdom rows) \<Longrightarrow> format_rows F f cs rows rs = Some out \<Longrightarrow> html_ok out"
proof (induction rs arbitrary: out)
  case (Cons i rs)
  obtain b r where br: "format_cells F f (snd (the (fmlookup rows i))) cs = Some b" "format_rows F f cs rows rs = Some r" "out = ''<tr>'' @ b @ ''</tr>'' @ r"
    using Cons.prems(5) by (auto simp: bind_Some_ex)
  obtain s m where m: "fmlookup rows i = Some (s, m)" using Cons.prems(4) by (auto simp: fmlookup_dom_iff)
  have "html_ok b" using br(1) m Cons.prems(3) by (intro format_cells_html [OF Cons.prems(1,2), of m cs]) auto
  moreover have "html_ok r" using Cons.IH [OF Cons.prems(1-3) _ br(2)] Cons.prems(4) by simp
  ultimately show ?case using html_ok.seq [OF html_elem [of b "''tr''"], of r] br(3) by simp
qed simp

lemma sort_insert_set: "sort_insert lt x ys = Some zs \<Longrightarrow> set zs = insert x (set ys)"
  by (induction ys arbitrary: zs) (auto simp: bind_Some_ex split: if_splits)

lemma sort_Slice_set: "sort_Slice lt xs = Some ys \<Longrightarrow> set ys = set xs"
  by (induction xs arbitrary: ys) (auto simp: bind_Some_ex dest!: sort_insert_set)

text \<open>What Go's iteration over a map promises: every key, once, in some order.\<close>

definition go_map_order :: "(key fset \<Rightarrow> key list) \<Rightarrow> bool" where
  "go_map_order mo \<longleftrightarrow> (\<forall>S. set (mo S) = fset S \<and> distinct (mo S))"

lemma sorted_ids_set: "go_map_order mo \<Longrightarrow> sorted_ids mo m = Some ids \<Longrightarrow> set ids = fset (fmdom m)"
  by (auto simp: sorted_ids_def go_map_order_def dest: sort_Slice_set)

lemma formatTable_html:
  assumes "go_map_order mo" "good_format F" "nice_scopes f" "nice (HTable cols rows)" "formatTable mo F f cols rows = Some out"
  shows "html_ok out"
proof -
  obtain cs rs h b where o: "sorted_ids mo cols = Some cs" "sorted_ids mo rows = Some rs" "format_heads F f cols cs = Some h"
    "format_rows F f cs rows rs = Some b" "out = ''<table><thead><tr>'' @ h @ ''</tr></thead><tbody>'' @ b @ ''</tbody></table>''"
    using assms(5) by (auto simp: formatTable_def bind_Some_ex)
  have n: "\<And>c s v. fmlookup cols c = Some (s, v) \<Longrightarrow> nice v" "\<And>r s m c v. fmlookup rows r = Some (s, m) \<Longrightarrow> fmlookup m c = Some v \<Longrightarrow> nice v"
    using nice_Table [OF assms(4)] by blast+
  have "html_ok h" using format_heads_html [OF assms(2,3) n(1) _ o(3)] sorted_ids_set [OF assms(1) o(1)] by simp
  moreover have "html_ok b" using format_rows_html [OF assms(2,3) n(2) _ o(4)] sorted_ids_set [OF assms(1) o(2)] by simp
  ultimately have "html_ok ((''<thead>'' @ (''<tr>'' @ h @ ''</tr>'') @ ''</thead>'') @ (''<tbody>'' @ b @ ''</tbody>''))"
    using html_elem [of h "''tr''"] html_elem [of "''<tr>'' @ h @ ''</tr>''" "''thead''"] html_elem [of b "''tbody''"]
    by (intro html_ok.seq [of "''<thead>'' @ (''<tr>'' @ h @ ''</tr>'') @ ''</thead>''"]) simp_all
  from html_elem [OF this, of "''table''"] show ?thesis by (simp add: o(5))
qed

lemma formatHeading_html:
  assumes "html_ok b"
  shows "html_ok (''<h'' @ Itoa l @ ''>'' @ b @ ''</h'' @ Itoa l @ ''>'')"
  using html_elem [OF assms, of "''h'' @ Itoa l"] Itoa_undigit [of "CHR '' ''" l] Itoa_undigit [of "CHR ''=''" l] by (simp add: undigit_def)

lemma formatImage_html: "html_ok (formatImage src alt)"
  using html_ok.elem [of "''img''" "[(''src'', EscapeString src), (''alt'', EscapeString alt)]" "[]"]
  by (simp add: formatImage_def attr_text_def)

lemma formatLink_html:
  assumes "html_ok b"
  shows "html_ok (''<a href='' @ quot @ EscapeString url @ quot @ ''>'' @ b @ ''</a>'')"
  using html_elem_attr [OF assms, of "''a''" "''href''" "EscapeString url"] by (simp add: attr_text_def)

section \<open>The whole format\<close>

text \<open>\<open>good_base\<close>: the caller's formatter for objects that have no format of their own writes well-nested HTML.\<close>

definition good_base :: "(hval \<Rightarrow> string) option \<Rightarrow> bool" where
  "good_base base \<longleftrightarrow> (\<forall>g v. base = Some g \<longrightarrow> html_ok (g v))"

lemma FormatBuilder_step:
  assumes "go_map_order mo" "good_base base" "good_format F" "F = FormatBuilder mo base n"
  shows "good_format (FormatBuilder mo base (Suc n))"
  unfolding good_format_def
proof (intro allI impI)
  fix f v out assume o: "FormatBuilder mo base (Suc n) f v = Some out" "nice v" "nice_scopes f"
  note F = good_formatD [OF assms(3) _ _ o(3)] and list = formatList_html [OF assms(3) o(3)]
  note call = call_formatter_html [OF assms(3) _ o(3), of base v out]
  have base: "\<And>g v. base = Some g \<Longrightarrow> html_ok (g v)" using assms(2) by (simp add: good_base_def)
  show "html_ok out"
  proof (cases v)
    case (HText t)
    then show ?thesis using formatRichText_html [OF assms(3) o(3), of t out] o assms(4) by simp
  next
    case (HTable cols rows)
    then show ?thesis using formatTable_html [OF assms(1,3) o(3), of cols rows out] o assms(4) by simp
  next
    case (HA vs)
    then show ?thesis using list [of vs _ out] nice_A o assms(4) by auto
  next
    case (HList ty vs)
    then show ?thesis using list [of vs ty out] nice_List o assms(4) by auto
  next
    case (HLink url x)
    then obtain b where "F f x = Some b" "out = ''<a href='' @ quot @ EscapeString url @ quot @ ''>'' @ b @ ''</a>''"
      using o(1) assms(4) by (auto simp: formatLink_def bind_Some_ex)
    then show ?thesis using formatLink_html F nice_Link o(2) HLink by metis
  next
    case (HBlockQuote x)
    then obtain b where "F f x = Some b" "out = ''<blockquote>'' @ b @ ''</blockquote>''"
      using o(1) assms(4) by (auto simp: formatBlockQuote_def bind_Some_ex)
    then show ?thesis using html_elem [of b "''blockquote''"] F [of x b] nice_BlockQuote o(2) HBlockQuote by auto
  next
    case (HHeading l x)
    then obtain b l' where "F f x = Some b" "out = ''<h'' @ Itoa l' @ ''>'' @ b @ ''</h'' @ Itoa l' @ ''>''"
      using o(1) assms(4) by (auto simp: formatHeading_def Let_def bind_Some_ex)
    then show ?thesis using formatHeading_html F nice_Heading o(2) HHeading by metis
  next
    case (HDir x objects)
    have "nice x" "nice_scopes (objects # f)" using nice_Dir [of x objects] o(2,3) by (auto simp: HDir nice_scopes_def)
    then show ?thesis using good_formatD [OF assms(3), of "objects # f" x out] o(1) assms(4) by (simp add: HDir formatDir_def)
  qed (use o(1) assms(4) call base formatImage_html html_ok.plain [OF html_clean_escape] in auto)
qed

lemma FormatBuilder_html:
  assumes "go_map_order mo" "good_base base"
  shows "good_format (FormatBuilder mo base n)"
proof (induction n)
  case 0
  show ?case by (simp add: good_format_def)
next
  case (Suc n)
  show ?case by (rule FormatBuilder_step [OF assms Suc refl])
qed


section \<open>Formatting returns\<close>

text \<open>
  Without references the recursion follows the value. \<open>direct\<close>: a value is no reference, and a table has
  ordinals that can be read, so that sorting does not panic.
\<close>

definition direct :: "hval \<Rightarrow> bool" where
  "direct v = (case v of
     HRef k \<Rightarrow> False
   | HTable cols rows \<Rightarrow> (\<forall>(s, x) \<in> fset (fmran cols). fromString s \<noteq> None) \<and> (\<forall>(s, x) \<in> fset (fmran rows). fromString s \<noteq> None)
   | _ \<Rightarrow> True)"

lemma bind_returns: "x \<noteq> None \<Longrightarrow> (\<And>y. x = Some y \<Longrightarrow> g y \<noteq> None) \<Longrightarrow> x \<bind> g \<noteq> None"
  by (cases x) simp_all

lemma sort_insert_returns: "(\<And>a. a \<in> set ys \<Longrightarrow> lt a x \<noteq> None) \<Longrightarrow> sort_insert lt x ys \<noteq> None"
proof (induction ys)
  case (Cons y ys)
  then have "lt y x \<noteq> None" "sort_insert lt x ys \<noteq> None" by simp_all
  then show ?case by auto
qed simp

lemma sort_Slice_returns: "(\<And>a b. a \<in> set xs \<Longrightarrow> b \<in> set xs \<Longrightarrow> lt a b \<noteq> None) \<Longrightarrow> sort_Slice lt xs \<noteq> None"
proof (induction xs)
  case (Cons x xs)
  then have "sort_Slice lt xs \<noteq> None" by simp
  then show ?case unfolding sort_Slice.simps
    by (rule bind_returns, intro sort_insert_returns Cons.prems) (auto dest: sort_Slice_set)
qed simp

lemma sorted_ids_returns:
  assumes "go_map_order mo" "\<forall>(s, x) \<in> fset (fmran m). fromString s \<noteq> None"
  shows "sorted_ids mo m \<noteq> None"
  unfolding sorted_ids_def
proof (rule sort_Slice_returns)
  have k: "\<exists>q. fromString (fst (the (fmlookup m a))) = Some q" if "a \<in> set (mo (fmdom m))" for a
  proof -
    have "a \<in> fset (fmdom m)" using that assms(1) by (simp add: go_map_order_def)
    then obtain s x where s: "fmlookup m a = Some (s, x)" by (auto simp: fmlookup_dom_iff)
    then have "fromString s \<noteq> None" using assms(2) fmranI [OF s] by fastforce
    then show ?thesis using s by simp
  qed
  show "LessOrd (fst (the (fmlookup m a))) (fst (the (fmlookup m b))) \<noteq> None" if "a \<in> set (mo (fmdom m))" "b \<in> set (mo (fmdom m))" for a b
    using k [OF that(1)] k [OF that(2)] by (auto simp: LessOrd_def)
qed

lemma format_items_returns: "(\<And>x. x \<in> set xs \<Longrightarrow> F f x \<noteq> None) \<Longrightarrow> format_items F f xs \<noteq> None"
  by (induction xs) (simp, simp only: format_items.simps, intro bind_returns, simp_all)

lemma format_heads_returns: "(\<And>c. c \<in> set cs \<Longrightarrow> F f (snd (the (fmlookup cols c))) \<noteq> None) \<Longrightarrow> format_heads F f cols cs \<noteq> None"
  by (induction cs) (simp, simp only: format_heads.simps, intro bind_returns, simp_all)

lemma format_cells_returns: "(\<And>c v. fmlookup m c = Some v \<Longrightarrow> F f v \<noteq> None) \<Longrightarrow> format_cells F f m cs \<noteq> None"
  by (induction cs) (simp, simp only: format_cells.simps, intro bind_returns, simp_all split: option.split)

lemma format_rows_returns:
  "(\<And>i c v. i \<in> set rs \<Longrightarrow> fmlookup (snd (the (fmlookup rows i))) c = Some v \<Longrightarrow> F f v \<noteq> None) \<Longrightarrow> format_rows F f cs rows rs \<noteq> None"
proof (induction rs)
  case (Cons i rs)
  have "format_cells F f (snd (the (fmlookup rows i))) cs \<noteq> None" by (rule format_cells_returns) (rule Cons.prems, simp_all)
  moreover have "format_rows F f cs rows rs \<noteq> None" by (rule Cons.IH) (rule Cons.prems, simp_all)
  ultimately show ?case by auto
qed simp

lemma rich_runs_returns:
  "(\<And>s a n v. (s, a, n) \<in> set t \<Longrightarrow> fmlookup a ''Embed'' = Some v \<Longrightarrow> F f v \<noteq> None) \<Longrightarrow> (\<And>s. F f (HS16 s) \<noteq> None) \<Longrightarrow> rich_runs F f lst t \<noteq> None"
proof (induction t arbitrary: lst)
  case (Cons r t)
  obtain s a n where r: "r = (s, a, n)" by (cases r)
  have "(case fmlookup a ''Embed'' of Some x \<Rightarrow> F f x | None \<Rightarrow> F f (HS16 s)) \<noteq> None"
    using Cons.prems(1) [of s a n] Cons.prems(2) [of s] r by (simp split: option.split)
  moreover have "rich_runs F f a t \<noteq> None" 
  proof (rule Cons.IH)
    fix s a n v assume "(s, a, n) \<in> set t" "fmlookup a ''Embed'' = Some v"
    then show "F f v \<noteq> None" using Cons.prems(1) [of s a n v] by simp
  qed (rule Cons.prems(2))
  ultimately show ?case by (auto simp: r)
qed simp

lemma call_formatter_returns: "(\<And>k. v \<noteq> HRef k) \<Longrightarrow> call_formatter F base f v \<noteq> None"
  by (induction f) (simp, cases v, auto)

lemma formatTable_returns:
  assumes "go_map_order mo" "direct (HTable cols rows)" "\<And>x. x \<in> parts (HTable cols rows) \<Longrightarrow> F f x \<noteq> None"
  shows "formatTable mo F f cols rows \<noteq> None"
proof -
  obtain cs rs where ids: "sorted_ids mo cols = Some cs" "sorted_ids mo rows = Some rs"
    using sorted_ids_returns [OF assms(1), of cols] sorted_ids_returns [OF assms(1), of rows] assms(2) unfolding direct_def by auto
  note sets = sorted_ids_set [OF assms(1) ids(1)] sorted_ids_set [OF assms(1) ids(2)]
  have "format_heads F f cols cs \<noteq> None"
  proof (rule format_heads_returns)
    fix c assume "c \<in> set cs"
    then obtain s v where v: "fmlookup cols c = Some (s, v)" using sets by (auto simp: fmlookup_dom_iff)
    then have "v \<in> parts (HTable cols rows)" using fmranI [OF v] by force
    then show "F f (snd (the (fmlookup cols c))) \<noteq> None" using assms(3) v by simp
  qed
  moreover have "format_rows F f cs rows rs \<noteq> None"
  proof (rule format_rows_returns)
    fix i c v assume i: "i \<in> set rs" "fmlookup (snd (the (fmlookup rows i))) c = Some v"
    then obtain s m where m: "fmlookup rows i = Some (s, m)" using sets by (auto simp: fmlookup_dom_iff)
    then have "v \<in> parts (HTable cols rows)" using fmranI [OF m] fmranI [of m c v] i(2) by force
    then show "F f v \<noteq> None" by (rule assms(3))
  qed
  ultimately show ?thesis by (auto simp: formatTable_def ids)
qed

lemma formatList_returns: "(\<And>x. x \<in> set vs \<Longrightarrow> F f x \<noteq> None) \<Longrightarrow> formatList F f ty vs \<noteq> None"
  unfolding formatList_def Let_def by (intro bind_returns format_items_returns) simp_all

lemma formatRichText_returns:
  assumes "\<And>x. x \<in> parts (HText t) \<Longrightarrow> F f x \<noteq> None" "\<And>s. F f (HS16 s) \<noteq> None"
  shows "formatRichText F f t \<noteq> None"
  unfolding formatRichText_def
proof (rule rich_runs_returns)
  fix s a k x assume s: "(s, a, k) \<in> set t" "fmlookup a ''Embed'' = Some x"
  then have "x \<in> fset (fmran a)" by (simp add: fmlookup_ran_iff exI)
  then have "x \<in> parts (HText t)" using s(1) unfolding parts.simps by blast
  then show "F f x \<noteq> None" by (rule assms(1))
qed (rule assms(2))

lemma FormatBuilder_returns_step:
  assumes "go_map_order mo" "direct v" "\<And>x g. x \<in> parts v \<Longrightarrow> FormatBuilder mo base (Suc n) g x \<noteq> None"
  shows "FormatBuilder mo base (Suc (Suc n)) f v \<noteq> None"
proof -
  define F where "F = FormatBuilder mo base (Suc n)"
  have sub: "F g x \<noteq> None" if "x \<in> parts v" for x g unfolding F_def by (rule assms(3) [OF that])
  have S16: "F f (HS16 s) \<noteq> None" for s by (simp add: F_def)
  note unfold = FormatBuilder.simps(2) [of mo base "Suc n"] Let_def F_def [symmetric]
  show ?thesis
  proof (cases v)
    case (HText t)
    then have "formatRichText F f t \<noteq> None" by (intro formatRichText_returns [where f = f] S16 sub) simp
    then show ?thesis by (simp only: unfold HText hval.simps simp_thms)
  next
    case (HTable cols rows)
    then have "formatTable mo F f cols rows \<noteq> None" using assms(1,2) by (intro formatTable_returns [where f = f] sub) simp_all
    then show ?thesis by (simp only: unfold HTable hval.simps simp_thms)
  next
    case (HA vs)
    then have "formatList F f ''disc'' vs \<noteq> None" by (intro formatList_returns [where f = f] sub) simp
    then show ?thesis by (simp only: unfold HA hval.simps simp_thms)
  next
    case (HList ty vs)
    then have "formatList F f ty vs \<noteq> None" by (intro formatList_returns [where f = f] sub) simp
    then show ?thesis by (simp only: unfold HList hval.simps simp_thms)
  next
    case (HLink url x)
    then have "formatLink F f url x \<noteq> None" using sub [of x f] by (auto simp: formatLink_def)
    then show ?thesis by (simp only: unfold HLink hval.simps simp_thms)
  next
    case (HBlockQuote x)
    then have "formatBlockQuote F f x \<noteq> None" using sub [of x f] by (auto simp: formatBlockQuote_def)
    then show ?thesis by (simp only: unfold HBlockQuote hval.simps simp_thms)
  next
    case (HHeading l x)
    then have "formatHeading F f l x \<noteq> None" using sub [of x f] by (auto simp: formatHeading_def Let_def)
    then show ?thesis by (simp only: unfold HHeading hval.simps simp_thms)
  next
    case (HDir x objects)
    then have "formatDir F f x objects \<noteq> None" using sub [of x "objects # f"] by (simp add: formatDir_def)
    then show ?thesis by (simp only: unfold HDir hval.simps simp_thms)
  next
    case (HRef k)
    then show ?thesis using assms(2) by (simp add: direct_def)
  qed (simp_all only: unfold hval.simps, simp_all add: call_formatter_returns del: not_None_eq)
qed

lemma parts_finite: "finite (parts v)"
  by (cases v) auto

lemma FormatBuilder_returns:
  assumes "go_map_order mo" "throughout direct v"
  shows "\<forall>\<^sub>F m in sequentially. \<forall>f. FormatBuilder mo base m f v \<noteq> None"
  using assms(2)
proof induction
  case (1 v)
  then have "\<forall>\<^sub>F m in sequentially. \<forall>x \<in> parts v. \<forall>f. FormatBuilder mo base m f x \<noteq> None"
    by (intro eventually_ball_finite parts_finite) blast
  then obtain k where k: "\<And>m x f. k \<le> m \<Longrightarrow> x \<in> parts v \<Longrightarrow> FormatBuilder mo base m f x \<noteq> None"
    unfolding eventually_sequentially by blast
  have "FormatBuilder mo base m f v \<noteq> None" if "Suc (Suc k) \<le> m" for m f
  proof -
    define n where "n = m - 2"
    have m: "m = Suc (Suc n)" "k \<le> Suc n" using that by (simp_all add: n_def)
    show ?thesis unfolding m(1) by (rule FormatBuilder_returns_step [OF assms(1) 1(1)]) (rule k [OF m(2)])
  qed
  then show ?case unfolding eventually_sequentially by blast
qed

section \<open>A reader of tags\<close>

text \<open>
  \<open>open_tags\<close> reads a text with the stack of the elements that are open, the way a reader of the output
  does: it fails at a closing tag that is not for the innermost open element.
\<close>

function open_tags :: "string list \<Rightarrow> string \<Rightarrow> string list option" where
  "open_tags st [] = Some st"
| "open_tags st (c # s) = (if c \<noteq> CHR ''<'' then open_tags st s
     else let t = takeWhile (\<lambda>c. c \<noteq> CHR ''>'') s; r = drop (Suc (length t)) s in
       if t \<noteq> [] \<and> hd t = CHR ''/'' then (if st \<noteq> [] \<and> hd st = tl t then open_tags (tl st) r else None)
       else open_tags (takeWhile (\<lambda>c. c \<noteq> CHR '' '') t # st) r)"
  by pat_completeness auto

termination
  by (relation "measure (\<lambda>(st, s). length s)") auto

lemma open_tags_clean: "html_clean s \<Longrightarrow> open_tags st (s @ r) = open_tags st r"
  by (induction s) simp_all

lemma until_gt: "CHR ''>'' \<notin> set t \<Longrightarrow> takeWhile (\<lambda>c. c \<noteq> CHR ''>'') (t @ CHR ''>'' # r) = t"
  by (subst takeWhile_append2) auto

lemma until_space: "CHR '' '' \<notin> set t \<Longrightarrow> u = [] \<or> hd u = CHR '' '' \<Longrightarrow> takeWhile (\<lambda>c. c \<noteq> CHR '' '') (t @ u) = t"
  by (subst takeWhile_append2) (auto, cases u, auto)

lemma open_tags_open:
  assumes "name_ok tag" "CHR ''>'' \<notin> set u" "u = [] \<or> hd u = CHR '' ''"
  shows "open_tags st (''<'' @ tag @ u @ ''>'' @ r) = open_tags (tag # st) r"
proof -
  have t: "takeWhile (\<lambda>c. c \<noteq> CHR ''>'') (tag @ u @ CHR ''>'' # r) = tag @ u" using until_gt [of "tag @ u" r] assms by (simp add: name_ok_def html_clean_def)
  have n: "tag @ u \<noteq> []" "hd (tag @ u) \<noteq> CHR ''/''" "takeWhile (\<lambda>c. c \<noteq> CHR '' '') (tag @ u) = tag"
    using until_space [of tag u] assms by (auto simp: name_ok_def)
  have "drop (Suc (length (tag @ u))) (tag @ u @ CHR ''>'' # r) = r" by simp
  then show ?thesis using t n by (simp only: append.simps open_tags.simps(2) Let_def simp_thms if_True if_False)
qed

lemma open_tags_close:
  assumes "name_ok tag"
  shows "open_tags (tag # st) (''</'' @ tag @ ''>'' @ r) = open_tags st r"
proof -
  have t: "takeWhile (\<lambda>c. c \<noteq> CHR ''>'') (CHR ''/'' # tag @ CHR ''>'' # r) = CHR ''/'' # tag"
    using until_gt [of "CHR ''/'' # tag" r] assms by (simp add: name_ok_def html_clean_def)
  have "drop (Suc (length (CHR ''/'' # tag))) (CHR ''/'' # tag @ CHR ''>'' # r) = r" by simp
  then show ?thesis using t by (simp only: append.simps open_tags.simps(2) Let_def simp_thms if_True if_False list.sel list.distinct)
qed

lemma html_ok_open_tags: "html_ok s \<Longrightarrow> open_tags st (s @ r) = open_tags st r"
proof (induction arbitrary: st r rule: html_ok.induct)
  case (elem tag avs b)
  define u where "u = concat (map attr_text avs)"
  have "CHR ''>'' \<notin> set (attr_text a)" if "a \<in> set avs" for a
    using elem.hyps(2) that by (cases a) (auto simp: attr_text_def quot_def name_ok_def html_clean_def)
  then have "CHR ''>'' \<notin> set u" by (auto simp: u_def)
  moreover have "u = [] \<or> hd u = CHR '' ''" by (cases avs) (simp_all add: u_def attr_text_def)
  ultimately show ?case
    using open_tags_open [OF elem.hyps(1), of u st "b @ ''</'' @ tag @ ''>'' @ r"] elem.IH [of "tag # st" "''</'' @ tag @ ''>'' @ r"]
      open_tags_close [OF elem.hyps(1), of st r] by (simp add: u_def del: open_tags.simps)
qed (simp_all add: open_tags_clean)

end
