(* ===== verification/Html_Properties.thy ===== *)
theory Html_Properties
  imports Dot_Html_Laws
begin

text \<open>
  The properties of the HTML output: it is well nested and nothing of the formatted values gets into the
  markup, and formatting returns on values without references; and two values on which it goes wrong.
\<close>

section \<open>The properties\<close>

text \<open>C34. HTML. What \<open>FormatBuilder\<close> writes is well nested: elements with quoted attributes around texts in which
  nothing of the value is markup, so that a reader of the tags ends with nothing open; this holds for every value in which no text ends in a run
  whose styles close in the wrong order, whatever the order of maps, and with references to the objects of
  directories. On values without references whose tables have readable ordinals formatting returns.\<close>

theorem html_well_nested:
  assumes "go_map_order mo" "good_base base" "throughout text_closes v"
  shows "(\<forall>n out. FormatBuilder mo base n [] v = Some out \<longrightarrow> html_ok out \<and> open_tags [] out = Some [])
    \<and> (throughout direct v \<longrightarrow> (\<exists>k. \<forall>n \<ge> k. \<exists>out. FormatBuilder mo base n [] v = Some out))"
proof (intro conjI allI impI)
  fix n out assume "FormatBuilder mo base n [] v = Some out"
  then show ok: "html_ok out" using good_formatD [OF FormatBuilder_html [OF assms(1,2)]] assms(3) by (simp add: nice_def nice_scopes_def)
  show "open_tags [] out = Some []" using html_ok_open_tags [OF ok, of "[]" "[]"] by simp
next
  assume "throughout direct v"
  from FormatBuilder_returns [OF assms(1) this] show "\<exists>k. \<forall>n \<ge> k. \<exists>out. FormatBuilder mo base n [] v = Some out"
    unfolding eventually_sequentially by blast
qed

definition some_order :: "key fset \<Rightarrow> key list" where
  "some_order S = (SOME xs. set xs = fset S \<and> distinct xs)"

lemma some_order_ok: "go_map_order some_order"
  unfolding go_map_order_def some_order_def using finite_distinct_list [OF finite_fset] by (metis (mono_tags, lifting) someI_ex)

lemma fmran_one [simp]: "fset (fmran (fmupd k v fmempty)) = {v}"
  by (auto simp: fmlookup_ran_iff split: if_splits)

text \<open>A table with one cell, a link with a quotation mark in its address around a bold text.\<close>

definition ex_html :: hval where
  "ex_html = HTable (fmap_of_list [(KInt 1, '''', HS16 ''a<b'')])
     (fmap_of_list [(KInt 2, '''', fmap_of_list [(KInt 1, HLink [CHR ''u'', CHR 34] (HText [(''x'', fmap_of_list [(''FontWeight'', HFontWeight 700)], 1)]))])])"

lemma some_order_one: "some_order {|k|} = [k]"
proof -
  have "set (some_order {|k|}) = {k}" "distinct (some_order {|k|})" using some_order_ok by (simp_all add: go_map_order_def)
  then show ?thesis by (cases "some_order {|k|}"; cases "tl (some_order {|k|})") (auto simp: subset_singleton_iff)
qed

lemma ex_html_output:
  "FormatBuilder some_order None 4 [] ex_html = Some (''<table><thead><tr><th>a&lt;b</th></tr></thead><tbody><tr><td><a href='' @ quot @ ''u&#34;''
     @ quot @ ''><b>x</b></a></td></tr></tbody></table>'')"
  by (simp add: ex_html_def numeral_eq_Suc formatTable_def sorted_ids_def some_order_one formatLink_def formatRichText_def write_styles_def
    inlineStyles_def inlineOpen_def inlineClose_def EscapeString_def escape_char_def)

theorem html_well_nested_witness:
  "\<exists>k out. FormatBuilder some_order None k [] ex_html = Some out \<and> html_ok out \<and> open_tags [] out = Some []"
proof -
  let ?w = "HFontWeight 700" and ?s = "HS16 ''a<b''"
  let ?t = "HText [(''x'', fmap_of_list [(''FontWeight'', ?w)], 1)]"
  let ?l = "HLink [CHR ''u'', CHR 34] ?t"
  have w: "throughout P ?w" "throughout P ?s" if "P ?w" "P ?s" for P using that by (subst throughout_iff; simp)+
  have t: "throughout P ?t" if "P ?w" "P ?s" "P ?t" for P using that w [of P] by (subst throughout_iff) (simp add: fmran_one)
  have l: "throughout P ?l" if "P ?w" "P ?s" "P ?t" "P ?l" for P using that t [of P] by (subst throughout_iff) simp
  have v: "throughout P ex_html" if "P ?w" "P ?s" "P ?t" "P ?l" "P ex_html" for P
    using that l [of P] w [of P] by (subst throughout_iff) (simp add: ex_html_def fmran_one)
  have "throughout text_closes ex_html"
    by (rule v) (simp_all add: text_closes_def closes_well_def last_attrs_def write_styles_def inlineStyles_def ex_html_def)
  moreover have "throughout direct ex_html"
    by (rule v) (simp_all add: direct_def ex_html_def fmran_one fromString_def)
  ultimately have "throughout text_closes ex_html" "throughout direct ex_html" .
  then obtain k out where "FormatBuilder some_order None k [] ex_html = Some out"
    using html_well_nested [OF some_order_ok, of None ex_html] by (auto simp: good_base_def)
  then show ?thesis using html_well_nested [OF some_order_ok, of None ex_html] \<open>throughout text_closes ex_html\<close> by (auto simp: good_base_def)
qed

text \<open>The last run of a text is closed in the order in which it was opened.\<close>

theorem last_run_misnested:
  "html_Format mo 2 (HText [(''x'', fmap_of_list [(''FontStyle'', HFontStyle ''italic''), (''FontWeight'', HFontWeight 700)], 1)])
     = Some ''<i><b>x</i></b>'' \<and> \<not> html_ok ''<i><b>x</i></b>''"
proof
  show "\<not> html_ok ''<i><b>x</i></b>''" using html_ok_open_tags [of "''<i><b>x</i></b>''" "[]" "[]"] by (auto simp: Let_def)
qed (simp add: html_Format_def numeral_2_eq_2 formatRichText_def write_styles_def inlineStyles_def inlineOpen_def inlineClose_def EscapeString_def escape_char_def)

text \<open>A directory with an object that refers to itself is formatted forever.\<close>

theorem self_reference_never_ends:
  "html_Format mo n (HDir (HRef k) (fmap_of_list [(k, HRef k)])) = None"
proof -
  have "FormatBuilder mo None n [fmap_of_list [(k, HRef k)]] (HRef k) = None" for n by (induction n) simp_all
  then show ?thesis by (cases n) (simp_all add: html_Format_def formatDir_def)
qed

end
