(* ===== verification/Spec2Isabelle.thy ===== *)
theory Spec2Isabelle
  imports Dot_Diamond Dot_Termination Dot_Dispatch Stream_Properties Sync_Properties Crdt_Properties Sjson_Properties Tools_Properties Store_Properties
  Rich_Properties Table_Properties Html_Properties
begin

text \<open>
  A verification of DOT, a Go library for operational transformation: values are edited by changes,
  concurrent changes are merged by transforming them against each other, streams hand changes on,
  and a log of operations in a store synchronizes clients. This theory holds the properties of the
  changes themselves and imports the rest; the other properties stand in the theories
  \<open>Stream_Properties\<close>, \<open>Ops_Properties\<close>, \<open>Sync_Properties\<close>, \<open>Crdt_Properties\<close>,
  \<open>Sjson_Properties\<close>, \<open>Tools_Properties\<close>, \<open>Store_Properties\<close>,
  \<open>Rich_Properties\<close>, \<open>Table_Properties\<close> and \<open>Html_Properties\<close>.

  \<^bold>\<open>How the source is modelled.\<close> A Go interface value that may be nil is an option type; a panic
  is \<open>None\<close> of an option around the result; an error that a function returns is a value.
  \<open>int\<close> is an unbounded integer, a counter is a 32-bit word. Slice expressions check their
  bounds (\<open>goslice\<close>). Mutable objects live in explicit heaps or records that the operations
  take and return. Goroutines are the steps of inductive relations.

  \<^bold>\<open>Changes and values\<close> (\<open>src/changes\<close>, \<open>types\<close>, \<open>run\<close>, \<open>src/refs\<close>). \<open>Dot_Values\<close> has
  the value types with Count, Slice, Splice and Move, among them UTF-8 strings with UTF-16 offsets.
  \<open>Dot_Changes\<close> has the change types with Revert and Simplify, \<open>Dot_Refs\<close> paths, carets and
  ranges with their Merge. \<open>Dot_Apply\<close> applies a change to a value; \<open>Dot_Dispatch\<close> has the Apply
  and ApplyTo methods of each type and shows that the first solves the recursion among the second.
  \<open>Dot_Merge_Basic\<close> and \<open>Dot_Merge\<close> have all Merge and ReverseMerge methods. They call each
  other through interfaces with no measure that decreases, so \<open>cMerge n\<close> has the depth of
  nested calls as fuel; \<open>Dot_Fuel\<close> shows that more fuel keeps a result and \<open>Dot_Termination\<close> that
  for changes made for one value some fuel is enough, by a weight that no transformation
  increases. This is shown for changes without moves and for two basic changes; a move
  transformed by a move may become a set of moves, for which no such weight is known.

  \<open>Dot_Strict\<close> defines application with the checks that the library leaves to its callers:
  the Before of a change is what the value holds, offsets are in range. \<open>Strict\<close> implies Apply.
  The convergence proofs are about changes that fit their value in this sense: sequences in
  \<open>Dot_Sequences\<close> (a locale for strings and arrays), moves in \<open>Dot_Moves\<close> and \<open>Dot_Splice_Move\<close>,
  paths in \<open>Dot_Commute\<close>, and everything together in \<open>Dot_Diamond\<close> by induction on the fuel over the
  locale \<open>merge_diamond\<close>. \<open>Dot_Revert\<close> shows that Revert is an inverse, \<open>Dot_Tracking\<close> that
  references follow their elements and carets stay in range. Left out of \<open>Strict\<close>, though modelled,
  are UTF-16 strings, Run, Update and containers with references.

  \<^bold>\<open>Streams\<close> (\<open>src/streams\<close>, \<open>streams/undo\<close>, \<open>src/x/fold\<close>). The interface Stream is a record of methods
  over a world of objects. \<open>Dot_Streams\<close> has the linked list of changes on an explicit heap, and the
  locale \<open>stream_family\<close> with the contract that all streams of a family lead to one value. It is
  interpreted on the list, on branches (\<open>Dot_Branch\<close>) and on synchronized streams (\<open>Dot_Session\<close>); in
  it are proved the properties of branches, substreams (\<open>Dot_Substream\<close>), value streams
  (\<open>Dot_Value_Streams\<close>), undo stacks (\<open>Dot_Undo\<close>) and folds (\<open>Dot_Fold\<close>). The fuel of \<open>stream_apply_loop\<close> is
  the number of nodes, which is enough since pointers go to younger nodes.

  \<^bold>\<open>Operations and synchronization\<close> (\<open>src/ops\<close>, \<open>ops/sync\<close>, \<open>src/client.go\<close>, \<open>test/testops\<close>).
  \<open>Dot_Ops\<close> has operations, the store and cache interfaces, the in-memory store and the transformer
  of a raw log. \<open>Dot_Transformer\<close> has the locales \<open>op_store\<close> and \<open>op_cache\<close> and shows that the
  recursive, caching transformer refines a plain recursion \<open>xspec\<close> over the log and that the transformed
  log applies in sequence; its fuel is the length of the log. \<open>Dot_Reliable\<close> and \<open>Dot_Polling\<close> have the reliable,
  non-blocking and polling stores with their goroutines and channels. \<open>Dot_Session\<close> has the stores that
  \<open>sync.Stream\<close> stacks on each other, the transformer, the reliable and the non-blocking one, and Push and Pull of a
  session on top of them. \<open>Dot_Sync_Correct\<close> has the invariant between a session and the log, \<open>Dot_Outstanding\<close>
  the one for operations that were pushed and are not in the log yet, \<open>Dot_System\<close> a step relation
  for any number of clients of one in-memory store that join, edit, push and pull, with the goroutines of their layers: deliveries
  happen later or more than once, reads end later. In every reachable state the clients that are
  up to date agree. IDs come from a random source, which is an
  argument; times and waits are left out.

  \<^bold>\<open>Stores elsewhere\<close> (\<open>src/ops/bolt\<close>, \<open>ops/nw\<close>). \<open>Dot_Bolt\<close> has the store in a Bolt file over records of
  functions for the library and the codec, with laws for both, and shows that it refines the
  in-memory store for operations whose encodings are not too long, and panics on longer IDs. \<open>Dot_Network\<close> has the HTTP handler and the client with a network that may lose
  requests and replies; delivered calls are calls of the store, repeated ones are safe.

  \<^bold>\<open>CRDTs\<close> (\<open>src/changes/crdt\<close>). \<open>Dot_Strings\<close> and \<open>Dot_Ord\<close> have the ordered keys over rational
  numbers in text form, \<open>Dot_Crdt\<close> ranks, containers, dictionaries and sequences, \<open>Dot_Crdt_Laws\<close> the
  locale \<open>crdt_family\<close> for changes that commute without transformation.

  \<^bold>\<open>The codec\<close> (\<open>src/ops/sjson\<close>). \<open>Dot_Sjson\<close> has type names, registration, encoder and decoder over
  Go types and values as data; \<open>Dot_Sjson_Laws\<close> shows what comes back. The decoder has the depth of
  nested calls as fuel; for the text of a value some fuel is enough. What
  the language decides (texts of floats and times, which types implement an interface) is the record
  \<open>golib\<close>.

  \<^bold>\<open>Diffs\<close> (\<open>src/changes/diff\<close>). \<open>Dot_Diff\<close> has the standard differ over the string comparison of
  the package \<open>diffmatchpatch\<close>, a parameter that is assumed to be right for valid UTF-8, on the lemmas of \<open>Dot_Runes\<close> about strings cut between runes.

  \<^bold>\<open>Rich text\<close> (\<open>src/x/rich\<close>). \<open>Dot_Rich\<close> has texts as runs of equal attributes, with the change that sets an
  attribute on a range; \<open>Dot_Setattr\<close> has the changes of such a text and the merges of a \<open>setattr\<close>, with
  fuel for the calls of Merge through the interface, of which two nested ones are enough for a splice and
  for a move. \<open>Dot_Rich_Laws\<close> describes each operation by what it does to the list of cells, the
  UTF-16 units with their attributes; \<open>Dot_Rich_Total\<close> shows that nothing panics on text without surrogate
  pairs, which can be cut anywhere. \<open>Dot_Setattr_Laws\<close> reads a \<open>setattr\<close> as a partial function from positions
  to values and has the locale \<open>unit_collection\<close> for moves in a collection with slices and splices;
  \<open>Dot_Setattr_Merge\<close> and \<open>Dot_Setattr_Splice\<close> prove convergence. Attribute values are of any type;
  merges with a Replace of the text or with a PathChange into a character are left out.

  \<^bold>\<open>Tables and heaps\<close> (\<open>src/changes/table\<close>, \<open>src/x/heap\<close>, \<open>src/x/rich/data\<close>). \<open>Dot_Table\<close> has sparse tables over the
  arrays and maps of \<open>val\<close>, \<open>Dot_Heap\<close> \<open>sort.Slice\<close> and heaps, \<open>Dot_Data\<close> tables whose columns and rows are
  ordered by ordered keys. Go iterates over a map in any order: the order is an argument, and the theorems
  hold for all. \<open>Dot_Data_Laws\<close> has the locale \<open>ordered_axis\<close> for what columns and rows of a table share.

  \<^bold>\<open>HTML\<close> (\<open>src/x/rich/html\<close>). \<open>Dot_Html\<close> has a datatype of the values that are formatted and one definition
  per formatter. A formatter that is passed on is the list of the directories around a value, above a
  base formatter. The recursion follows references, so \<open>FormatBuilder\<close> has its depth as fuel; \<open>Dot_Html_Laws\<close>
  shows that without references some fuel is enough, and that what is written is in a
  grammar of well-nested HTML whose texts and attributes hold no markup.

  \<^bold>\<open>Not modelled.\<close> The store on PostgreSQL (\<open>ops/pg\<close>), whose logic is SQL, and the snapshots of
  \<open>x/snapshot\<close>, which are input and output around libraries; the code generator \<open>x/dotc\<close> and generated
  code; formulas and the editor on top of rich text; loggers, constructors, examples, tools
  and tests. Contexts of changes carry no information that the modelled
  code reads.
\<close>

section \<open>Convergence of merged changes\<close>

text \<open>
  C1. Two changes made for the same value converge when they are merged: after the first change
  and the transformed second, and after the second change and the transformed first, the value is
  the same, and it is well-formed. The changes may be any nesting of Replace, Splice, Move,
  ChangeSet, PathChange and Meta.
\<close>

theorem merge_converges:
  assumes "Merge n c1 c2 = Some (c2x, c1x)" "wf_val v" "Strict v c1 = Some v1" "Strict v c2 = Some v2"
  shows "\<exists>w. Apply v1 c2x = Some w \<and> Apply v2 c1x = Some w \<and> wf_val w"
  using Merge_converge [OF assms] Strict_wf [OF assms(3,2)] Strict_Apply Strict_wf
  unfolding converge_def by blast

definition ex_insert :: "change option" where
  "ex_insert = Some (Splice \<lparr>sOffset = 1, sBefore = CS8 '''', sAfter = CS8 ''X''\<rparr>)"

definition ex_move :: "change option" where
  "ex_move = Some (Move \<lparr>mOffset = 0, mCount = 2, mDistance = 1\<rparr>)"

theorem merge_converges_witness:
  "\<exists>c2x c1x w. Merge 1 ex_insert ex_move = Some (c2x, c1x)
     \<and> Apply (VS8 ''aXbc'') c2x = Some w \<and> Apply (VS8 ''cab'') c1x = Some w \<and> wf_val w"
proof -
  obtain c2x c1x where m: "Merge 1 ex_insert ex_move = Some (c2x, c1x)"
    by (simp add: Merge_def Merge_nil_def ex_insert_def ex_move_def Merge_step_def
        Splice_Merge_def Splice_MergeMove_def S8_Count_def)
  have "Strict (VS8 ''abc'') ex_insert = Some (VS8 ''aXbc'')" "Strict (VS8 ''abc'') ex_move = Some (VS8 ''cab'')"
    by (simp_all add: ex_insert_def ex_move_def list_splice_def in_range_def slice_list_def
        splice_list_def list_move_def mv_ok_def move_list_def at_def mv_src_def upt_rec)
  then show ?thesis using m merge_converges [OF m, of "VS8 ''abc''"] by auto
qed

text \<open>
  C2. Merge returns: for two changes made for the same value there is an amount of fuel from which
  on Merge gives one and the same result. No call panics and the recursion ends. The changes
  are any nesting of Replace, Splice, ChangeSet, PathChange and Meta, or two basic changes,
  which may be moves.
\<close>

theorem merge_returns:
  assumes "wf_val v" "Strict v c1 = Some v1" "Strict v c2 = Some v2"
    and "Tame c1 \<and> Tame c2 \<or> (\<exists>a b. c1 = Some a \<and> c2 = Some b \<and> \<not> is_custom a \<and> \<not> is_custom b)"
  shows "\<exists>n c2x c1x. \<forall>m \<ge> n. Merge m c1 c2 = Some (c2x, c1x)"
proof (cases "Tame c1 \<and> Tame c2")
  case True
  then show ?thesis using Merge_returns_from assms(1-3) by blast
next
  case False
  then obtain a b where ab: "c1 = Some a" "c2 = Some b" "\<not> is_custom a" "\<not> is_custom b" using assms(4) by blast
  then have "strict a v = Some v1" "strict b v = Some v2" using assms(2,3) by simp_all
  then obtain ox ax where "Merge 1 c1 c2 = Some (ox, ax)" using basic_basic_returns ab assms(1) by blast
  then show ?thesis using Merge_mono by blast
qed

definition ex_list :: val where
  "ex_list = VA [Some (VS8 ''ab'')]"

definition ex_element :: "change option" where
  "ex_element = Some (PathChange [KInt 0] (ins8 1 ''x''))"

definition ex_set :: "change option" where
  "ex_set = Some (ChangeSet [Some (Splice \<lparr>sOffset = 0, sBefore = CA [], sAfter = CA [Some (VS8 ''c'')]\<rparr>),
     Some (Meta (KStr ''m'') (Some (PathChange [KInt 1] (ins8 0 ''y''))))])"

theorem merge_returns_witness: "\<exists>n c2x c1x. \<forall>m \<ge> n. Merge m ex_element ex_set = Some (c2x, c1x)"
proof -
  have "Strict ex_list ex_element = Some (VA [Some (VS8 ''axb'')])"
    by (simp add: ex_list_def ex_element_def A_get_def A_set_def splice_evals)
  moreover have "Strict ex_list ex_set = Some (VA [Some (VS8 ''c''), Some (VS8 ''yab'')])"
    by (simp add: ex_list_def ex_set_def A_get_def A_set_def splice_evals)
  moreover have "wf_val ex_list" "Tame ex_element" "Tame ex_set" by (simp_all add: ex_list_def ex_element_def ex_set_def)
  ultimately show ?thesis using merge_returns by blast
qed

section \<open>Undoing a change\<close>

text \<open>
  C27. Revert gives the inverse: a change that fits a value, followed by its Revert, gives the value
  back, for any nesting of changes that holds no splice of a counter.
\<close>

theorem revert_round_trip:
  assumes "strict c v = Some w" "wf_val v" "no_counter (Some c)"
  shows "Apply v (Some c) = Some w \<and> Apply w (Revert c) = Some v"
  using Revert_undoes [OF assms] strict_apply [OF assms(1)] Strict_Apply by fastforce

theorem revert_round_trip_witness: "Apply (VS8 ''cab'') (Revert (the ex_move)) = Some (VS8 ''abc'')"
proof -
  have "Strict (VS8 ''abc'') ex_move = Some (VS8 ''cab'')"
    by (simp add: ex_move_def list_move_def mv_ok_def move_list_def at_def mv_src_def upt_rec)
  then show ?thesis using revert_round_trip [of "the ex_move" "VS8 ''abc''"] by (simp add: ex_move_def)
qed

text \<open>
  The Revert of a counter increment does nothing: the counter ignores the Before of a splice and
  adds its After, which is zero in the reverted increment. The sum is taken at 32 bits.
\<close>

theorem increment_not_reverted:
  "Apply (VCounter n) (Some (Increment d)) = Some (VCounter (n + d))
    \<and> Apply (VCounter (n + d)) (Revert (Increment d)) = Some (VCounter (n + d))"
  using strict_apply [OF Increment_apply] Increment_revert_applies by simp

section \<open>Carets\<close>

text \<open>
  C28. A caret stays within the text: when a caret of a string is updated by a change that fits the
  string and is not and holds no \<open>Meta\<close>, the new index is a position of the new string. A \<open>Meta\<close>
  change leaves every caret where it is, also when the change inside it deletes text.
\<close>

theorem caret_in_range:
  assumes "updateIndex isLeft idx c = Some j" "Strict (VS8 x) c = Some w" "no_meta c" "0 \<le> idx" "idx \<le> int (length x)"
  shows "\<exists>y. w = VS8 y \<and> 0 \<le> j \<and> j \<le> int (length y)"
  by (rule updateIndex_range [OF assms])

theorem caret_in_range_witness:
  "\<exists>j. updateIndex False 2 ex_move = Some j \<and> 0 \<le> j \<and> j \<le> 3"
proof -
  have "Strict (VS8 ''abc'') ex_move = Some (VS8 ''cab'')"
    by (simp add: ex_move_def list_move_def mv_ok_def move_list_def at_def mv_src_def upt_rec)
  moreover obtain j where j: "updateIndex False 2 ex_move = Some j"
    by (simp add: ex_move_def updateIndex.simps)
  ultimately show ?thesis using caret_in_range [OF j, of "''abc''"] by (auto simp: ex_move_def)
qed

section \<open>Application\<close>

text \<open>
  The application function of the model solves the mutual recursion of the source: on every
  value and every change it equals the Apply method of the value's type, with the same function
  for the calls the method makes.
\<close>

theorem apply_dispatch: "Apply v c = Value_Apply Apply v c"
  by (rule Apply_Value_Apply)

end
